(* ===== verification/CMQ_Prelude.thy ===== *)
theory CMQ_Prelude
  imports Main "HOL-Library.Word" "HOL-Library.Multiset"
begin

text \<open>
  Shared vocabulary of the development: the machine types of the C sources, the limits of
  \<^verbatim>\<open><stdint.h>\<close> and \<^verbatim>\<open><limits.h>\<close>, the byte orders the wire formats use, C strings, the
  outcome of memory allocation, and the generic list lemmas the components share.
  Three collections carry the automation: \<open>codec\<close> (round trips of byte encodings),
  \<open>frame_rules\<close> (which fields an operation leaves alone) and \<open>bounds\<close> (limits).
\<close>

unbundle bit_operations_syntax

named_theorems codec \<open>round trips of byte encodings\<close>
named_theorems frame_rules \<open>what an operation leaves unchanged\<close>
named_theorems bounds \<open>limits that hold by construction\<close>

section \<open>Machine types and limits\<close>

type_synonym u8 = "8 word"
type_synonym u16 = "16 word"
type_synonym u32 = "32 word"
type_synonym u64 = "64 word"
type_synonym bytes = "u8 list"

text \<open>
  The sources run on 64-bit targets: \<^verbatim>\<open>size_t\<close> and \<^verbatim>\<open>uint64_t\<close> have the same range.
\<close>

definition SIZE_MAX :: nat where
  "SIZE_MAX = 2 ^ 64 - 1"

definition UINT64_MAX :: nat where
  "UINT64_MAX = 2 ^ 64 - 1"

definition UINT32_MAX :: nat where
  "UINT32_MAX = 2 ^ 32 - 1"

text \<open>The value an unsigned 64-bit addition on \<open>nat\<close> leaves in its variable.\<close>

definition wrap64 :: "nat \<Rightarrow> nat" where
  "wrap64 n = n mod 2 ^ 64"

lemma wrap64_id [simp]: "n \<le> UINT64_MAX \<Longrightarrow> wrap64 n = n"
  by (simp add: wrap64_def UINT64_MAX_def)

lemma wrap64_bound [bounds]: "wrap64 n \<le> UINT64_MAX"
proof -
  have "n mod 2 ^ 64 < (2 ^ 64 :: nat)" by simp
  then show ?thesis by (simp only: wrap64_def UINT64_MAX_def)
qed

section \<open>Byte orders\<close>

text \<open>Little-endian 32-bit fields, as the frame header and the checksum trailer use them.\<close>

definition put_le32 :: "u32 \<Rightarrow> bytes" where
  "put_le32 v = [ucast v, ucast (drop_bit 8 v), ucast (drop_bit 16 v), ucast (drop_bit 24 v)]"

definition get_le32 :: "u8 \<Rightarrow> u8 \<Rightarrow> u8 \<Rightarrow> u8 \<Rightarrow> u32" where
  "get_le32 a b c d =
     ucast a OR push_bit 8 (ucast b) OR push_bit 16 (ucast c) OR push_bit 24 (ucast d)"

lemma u8_bit_out [simp]: "8 \<le> n \<Longrightarrow> \<not> bit (a :: u8) n"
  using bit_imp_le_length [of a n] by auto

lemma u32_bit_out [simp]: "32 \<le> n \<Longrightarrow> \<not> bit (a :: u32) n"
  using bit_imp_le_length [of a n] by auto

lemma nat_quarters:
  obtains "n < (8::nat)" | "8 \<le> n" "n < 16" | "16 \<le> n" "n < 24" | "24 \<le> n"
  by linarith

lemma length_put_le32 [simp]: "length (put_le32 v) = 4"
  by (simp add: put_le32_def)

lemma get_put_le32 [codec, simp]:
  "get_le32 (ucast v) (ucast (drop_bit 8 v)) (ucast (drop_bit 16 v)) (ucast (drop_bit 24 v)) = v"
  unfolding get_le32_def
proof (rule bit_word_eqI)
  fix n :: nat
  assume "n < LENGTH(32)"
  then show "bit (ucast (ucast v :: u8) OR push_bit 8 (ucast (ucast (drop_bit 8 v) :: u8)) OR
      push_bit 16 (ucast (ucast (drop_bit 16 v) :: u8)) OR
      push_bit 24 (ucast (ucast (drop_bit 24 v) :: u8)) :: u32) n = bit v n"
    by (cases n rule: nat_quarters) (auto simp: bit_simps)
qed

lemma put_get_le32 [codec, simp]: "put_le32 (get_le32 a b c d) = [a, b, c, d]"
  unfolding get_le32_def put_le32_def
  by (auto intro!: bit_word_eqI simp: bit_simps)

lemma unat_of_nat32: "n < 2 ^ 32 \<Longrightarrow> unat (of_nat n :: u32) = n"
  by (simp add: unsigned_of_nat take_bit_nat_eq_self)

text \<open>Big-endian fields, as the idempotence and transaction headers use them.\<close>

definition put_be32 :: "u32 \<Rightarrow> bytes" where
  "put_be32 v = [ucast (drop_bit 24 v), ucast (drop_bit 16 v), ucast (drop_bit 8 v), ucast v]"

definition get_be32 :: "u8 \<Rightarrow> u8 \<Rightarrow> u8 \<Rightarrow> u8 \<Rightarrow> u32" where
  "get_be32 a b c d =
     push_bit 24 (ucast a) OR push_bit 16 (ucast b) OR push_bit 8 (ucast c) OR ucast d"

lemma get_be32_le: "get_be32 a b c d = get_le32 d c b a"
  by (simp add: get_be32_def get_le32_def ac_simps)

lemma put_be32_le: "put_be32 v = rev (put_le32 v)"
  by (simp add: put_be32_def put_le32_def)

lemma get_put_be32 [codec, simp]:
  "get_be32 (ucast (drop_bit 24 v)) (ucast (drop_bit 16 v)) (ucast (drop_bit 8 v)) (ucast v) = v"
  by (simp add: get_be32_le)

lemma put_get_be32 [codec, simp]: "put_be32 (get_be32 a b c d) = [a, b, c, d]"
  by (simp add: get_be32_le put_be32_le)

lemma length_put_be32 [simp]: "length (put_be32 v) = 4"
  by (simp add: put_be32_def)

lemma u64_halves [codec, simp]:
  "push_bit 32 (ucast (ucast (drop_bit 32 v) :: u32)) OR ucast (ucast v :: u32) = (v :: u64)"
proof (rule bit_word_eqI)
  fix n :: nat
  assume "n < LENGTH(64)"
  then show "bit (push_bit 32 (ucast (ucast (drop_bit 32 v) :: u32)) OR
      ucast (ucast v :: u32) :: u64) n = bit v n"
    by (cases "n < 32") (auto simp: bit_simps)
qed

definition put_be64 :: "u64 \<Rightarrow> bytes" where
  "put_be64 v = put_be32 (ucast (drop_bit 32 v)) @ put_be32 (ucast v)"

definition get_be64 :: "u8 \<Rightarrow> u8 \<Rightarrow> u8 \<Rightarrow> u8 \<Rightarrow> u8 \<Rightarrow> u8 \<Rightarrow> u8 \<Rightarrow> u8 \<Rightarrow> u64" where
  "get_be64 a b c d e f g h = push_bit 32 (ucast (get_be32 a b c d)) OR ucast (get_be32 e f g h)"

text \<open>Little-endian 64-bit fields, as \<^verbatim>\<open>memcpy\<close> of a \<^verbatim>\<open>uint64_t\<close> and the record headers have them.\<close>

definition put_le64 :: "u64 \<Rightarrow> bytes" where
  "put_le64 v = put_le32 (ucast v) @ put_le32 (ucast (drop_bit 32 v))"

definition get_le64 :: "bytes \<Rightarrow> u64" where
  "get_le64 b =
     push_bit 32 (ucast (get_le32 (b ! 4) (b ! 5) (b ! 6) (b ! 7))) OR
     ucast (get_le32 (b ! 0) (b ! 1) (b ! 2) (b ! 3))"

lemma length_put_le64 [simp]: "length (put_le64 v) = 8"
  by (simp add: put_le64_def)

lemma put_le32E:
  obtains a b c d where "put_le32 v = [a, b, c, d]" "get_le32 a b c d = v"
  by (simp add: put_le32_def)

lemma get_put_le64 [codec, simp]: "get_le64 (put_le64 v @ rest) = v"
proof -
  obtain a b c d where l: "put_le32 (ucast v) = [a, b, c, d]" "get_le32 a b c d = ucast v"
    by (rule put_le32E)
  obtain e f g h where r: "put_le32 (ucast (drop_bit 32 v)) = [e, f, g, h]" "get_le32 e f g h = ucast (drop_bit 32 v)"
    by (rule put_le32E)
  show ?thesis by (simp add: get_le64_def put_le64_def l r)
qed

lemma u64_low: "ucast (push_bit 32 (ucast h) OR ucast l :: u64) = (l :: u32)"
  by (rule bit_word_eqI) (auto simp: bit_simps)

lemma u64_high: "ucast (drop_bit 32 (push_bit 32 (ucast h) OR ucast (l :: u32) :: u64)) = (h :: u32)"
  by (rule bit_word_eqI) (auto simp: bit_simps dest: bit_imp_le_length)

lemma put_get_le64 [codec]:
  assumes "length b = 8"
  shows "put_le64 (get_le64 b) = b"
proof -
  have "b = [b ! 0, b ! 1, b ! 2, b ! 3, b ! 4, b ! 5, b ! 6, b ! 7]"
    using assms by (auto simp: length_Suc_conv numeral_eq_Suc)
  from this [symmetric] show ?thesis
    by (simp only: put_le64_def get_le64_def u64_low u64_high put_get_le32 append.simps)
qed

lemma put_le32_inj [simp]: "put_le32 a = put_le32 b \<longleftrightarrow> a = b"
proof
  assume "put_le32 a = put_le32 b"
  moreover obtain p q r s where "put_le32 a = [p, q, r, s]" "get_le32 p q r s = a" by (rule put_le32E)
  moreover obtain t u v w where "put_le32 b = [t, u, v, w]" "get_le32 t u v w = b" by (rule put_le32E)
  ultimately show "a = b" by simp
qed simp

lemma unat_of_nat64: "n < 2 ^ 64 \<Longrightarrow> unat (of_nat n :: u64) = n"
  by (simp add: unsigned_of_nat take_bit_nat_eq_self)

section \<open>C strings\<close>

text \<open>
  A C string is the list of its characters before the terminator; none of them is the
  terminator itself. On such lists \<^verbatim>\<open>strcmp\<close> is equality and \<^verbatim>\<open>strncmp\<close> with a
  bound compares prefixes.
\<close>

definition cstr :: "string \<Rightarrow> bool" where
  "cstr s \<longleftrightarrow> CHR 0x00 \<notin> set s"

definition strncmp_eq :: "nat \<Rightarrow> string \<Rightarrow> string \<Rightarrow> bool" where
  "strncmp_eq n a b \<longleftrightarrow> take n a = take n b"

definition strnlen :: "string \<Rightarrow> nat \<Rightarrow> nat" where
  "strnlen s n = min (length s) n"

text \<open>The byte of a character, as the cast to \<^verbatim>\<open>uint8_t\<close> or \<^verbatim>\<open>unsigned char\<close> reads it.\<close>

definition byte_of :: "char \<Rightarrow> u8" where
  "byte_of c = of_char c"

text \<open>The characters \<^verbatim>\<open>A-Z a-z 0-9 _ -\<close>, and the same with the dot.\<close>

definition name_char :: "char \<Rightarrow> bool" where
  "name_char c \<longleftrightarrow>
     (let b = byte_of c
      in (byte_of CHR ''A'' \<le> b \<and> b \<le> byte_of CHR ''Z'') \<or>
         (byte_of CHR ''a'' \<le> b \<and> b \<le> byte_of CHR ''z'') \<or>
         (byte_of CHR ''0'' \<le> b \<and> b \<le> byte_of CHR ''9'') \<or>
         c = CHR ''_'' \<or> c = CHR ''-'')"

definition token_char :: "char \<Rightarrow> bool" where
  "token_char c \<longleftrightarrow> name_char c \<or> c = CHR ''.''"

text \<open>The C string in a buffer that holds the given bytes and a terminator.\<close>

definition cstr_of :: "bytes \<Rightarrow> string" where
  "cstr_of b = map (\<lambda>x. char_of (unat x)) (takeWhile (\<lambda>x. x \<noteq> 0) b)"

lemma chr_byte: "char_of (unat (byte_of c)) = c"
proof -
  have "(of_char c :: nat) < 256" by simp
  then have "unat (of_nat (of_char c) :: u8) = of_char c" by (simp add: unsigned_of_nat take_bit_nat_eq_self)
  then show ?thesis by (simp only: byte_of_def of_nat_of_char char_of_char)
qed

lemma token_char_nz: "token_char c \<Longrightarrow> byte_of c \<noteq> 0"
proof
  assume "token_char c" "byte_of c = 0"
  moreover from this(2) have "c = CHR 0x00" using chr_byte [of c] by (simp add: char_of_def)
  ultimately show False by (simp add: token_char_def name_char_def byte_of_def)
qed

lemma cstr_of_key: "list_all token_char k \<Longrightarrow> cstr_of (map byte_of k) = k"
proof -
  assume "list_all token_char k"
  then have "\<forall>x \<in> set (map byte_of k). x \<noteq> 0" using token_char_nz by (auto simp: list_all_iff)
  then have "takeWhile (\<lambda>x. x \<noteq> 0) (map byte_of k) = map byte_of k" by (simp add: takeWhile_eq_all_conv)
  then show ?thesis by (simp only: cstr_of_def map_map o_def chr_byte) simp
qed

section \<open>Allocation\<close>

text \<open>
  What the next calls of \<^verbatim>\<open>malloc\<close>, \<^verbatim>\<open>calloc\<close> and \<^verbatim>\<open>realloc\<close> answer: a list of outcomes,
  one per request, \<open>True\<close> for a block and \<open>False\<close> for \<^verbatim>\<open>NULL\<close>. Past its end every
  request succeeds. A run makes finitely many requests, so every pattern of failures is
  some \<open>heap\<close>, and a theorem for all heaps covers them all.
\<close>

type_synonym heap = "bool list"

fun malloc_ok :: "heap \<Rightarrow> bool \<times> heap" where
  "malloc_ok [] = (True, [])"
| "malloc_ok (b # bs) = (b, bs)"

section \<open>Lists\<close>

lemma sum_list_take_drop: "sum_list (map f xs) = sum_list (map f (take n xs)) + sum_list (map f (drop n xs))"
  for f :: "'a \<Rightarrow> nat"
  by (metis append_take_drop_id map_append sum_list_append)

lemma take_drop_append: "take n xs @ take m (drop n xs) = take (n + m) xs"
  by (simp add: take_add)

lemma mod_window_inj:
  fixes a b n :: nat
  assumes "a mod n = b mod n" "a \<le> b" "b < a + n"
  shows "a = b"
proof -
  from assms(1,2) have "n dvd b - a" by (metis mod_eq_dvd_iff_nat)
  with assms(2,3) show ?thesis by (auto dest: dvd_imp_le)
qed

lemma set_tlD: "x \<in> set (tl xs) \<Longrightarrow> x \<in> set xs"
  by (cases xs) auto

lemma filter_upt_ge: "filter ((\<le>) r) [a ..< b] = drop (r - a) [a ..< b]"
  by (induction b) auto

text \<open>The index of the first element with a property, as the loops over fixed tables find it.\<close>

fun first_index :: "('a \<Rightarrow> bool) \<Rightarrow> 'a list \<Rightarrow> nat option" where
  "first_index P [] = None"
| "first_index P (x # xs) = (if P x then Some 0 else map_option Suc (first_index P xs))"

lemma first_index_None: "first_index P xs = None \<longleftrightarrow> (\<forall>x \<in> set xs. \<not> P x)"
  by (induction xs) auto

lemma first_index_less: "first_index P xs = Some i \<Longrightarrow> i < length xs"
  by (induction xs arbitrary: i) (auto split: if_splits)

lemma first_index_split:
  assumes "first_index P xs = Some i"
  obtains ys x zs where "xs = ys @ x # zs" "length ys = i" "P x" "\<forall>y \<in> set ys. \<not> P y"
proof -
  have "\<exists>ys x zs. xs = ys @ x # zs \<and> length ys = i \<and> P x \<and> (\<forall>y \<in> set ys. \<not> P y)"
    using assms
  proof (induction xs arbitrary: i)
    case (Cons a xs)
    show ?case
    proof (cases "P a")
      case True
      then show ?thesis using Cons.prems by (intro exI [of _ "[]"]) auto
    next
      case False
      then obtain j where "first_index P xs = Some j" "i = Suc j" using Cons.prems by auto
      with Cons.IH [of j] obtain ys x zs where "xs = ys @ x # zs" "length ys = j" "P x" "\<forall>y \<in> set ys. \<not> P y" by blast
      then show ?thesis using False \<open>i = Suc j\<close> by (intro exI [of _ "a # ys"]) auto
    qed
  qed simp
  then show thesis using that by blast
qed

lemma find_append: "find P (xs @ ys) = (case find P xs of None \<Rightarrow> find P ys | r \<Rightarrow> r)"
  by (induction xs) auto

section \<open>Runs\<close>

text \<open>A run of operations on a state collects their answers. A step-wise simulation carries over to runs.\<close>

fun run_ops :: "('s \<Rightarrow> 'o \<Rightarrow> 'a \<times> 's) \<Rightarrow> 's \<Rightarrow> 'o list \<Rightarrow> 'a list \<times> 's" where
  "run_ops ex s [] = ([], s)"
| "run_ops ex s (p # ps) =
     (case ex s p of (a, s) \<Rightarrow> (case run_ops ex s ps of (as, s) \<Rightarrow> (a # as, s)))"

lemma run_ops_sim:
  assumes step: "\<And>n s a p. n < length ps \<Longrightarrow> R n s a \<Longrightarrow> \<exists>s'. ex s p = (fst (aex a p), s') \<and> R (Suc n) s' (snd (aex a p))"
    and start: "R 0 s a"
  shows "\<exists>s'. run_ops ex s ps = (fst (run_ops aex a ps), s') \<and> R (length ps) s' (snd (run_ops aex a ps))"
proof -
  have "k + length qs = length ps \<Longrightarrow> R k s a \<Longrightarrow>
    \<exists>s'. run_ops ex s qs = (fst (run_ops aex a qs), s') \<and> R (length ps) s' (snd (run_ops aex a qs))" for qs k s a
  proof (induction qs arbitrary: k s a)
    case (Cons p qs)
    then obtain s1 where s1: "ex s p = (fst (aex a p), s1)" "R (Suc k) s1 (snd (aex a p))"
      using step [of k s a p] by auto
    with Cons.IH [of "Suc k" s1 "snd (aex a p)"] Cons.prems(1) obtain s2 where
      "run_ops ex s1 qs = (fst (run_ops aex (snd (aex a p)) qs), s2)" "R (length ps) s2 (snd (run_ops aex (snd (aex a p)) qs))"
      by auto
    with s1 show ?case by (simp add: case_prod_unfold)
  qed auto
  from this [of 0 ps s a] start show ?thesis by simp
qed

end
