(* ===== verification/CMQ_Store.thy ===== *)
theory CMQ_Store
  imports CMQ_Prelude
begin

text \<open>
  The in-memory message store (\<^verbatim>\<open>src/store/cmq_store.c\<close>): a ring of slots addressed by
  sequence number, with prefix eviction. The model keeps the ring, the counters and the
  lifetime guard; the store lock makes every operation one step, except \<open>store_get_impl\<close>,
  which drops the lock to allocate and so reads two states. The abstract specification is
  a bounded log of messages; the locale \<open>msg_log\<close> is the contract streams rely on.
\<close>

section \<open>State\<close>

record store_slot =
  sl_seq :: nat
  sl_data :: "bytes option"
  sl_len :: nat
  sl_timestamp_ms :: nat
  sl_valid :: bool

record store =
  st_ring :: "store_slot list"
  st_cap :: nat
  st_head_seq :: nat
  st_count :: nat
  st_in_flight :: int
  st_dying :: bool

record store_msg =
  msg_seq :: nat
  msg_data :: bytes
  msg_len :: nat
  msg_timestamp_ms :: nat

definition empty_slot :: store_slot where
  "empty_slot = \<lparr>sl_seq = 0, sl_data = None, sl_len = 0, sl_timestamp_ms = 0, sl_valid = False\<rparr>"

text \<open>The size of a slot on the target: four 8-byte fields and a padded \<^verbatim>\<open>int\<close>.\<close>

definition sizeof_store_slot :: nat where
  "sizeof_store_slot = 40"

definition STORE_MAX_MSG :: nat where
  "STORE_MAX_MSG = 16 * 1024 * 1024"

section \<open>Operations\<close>

definition cmq_store_create :: "heap \<Rightarrow> nat \<Rightarrow> store option" where
  "cmq_store_create h capacity =
     (let capacity = (if capacity = 0 then 1024 else capacity)
      in if capacity > SIZE_MAX div sizeof_store_slot then None
         else case malloc_ok h of
           (False, _) \<Rightarrow> None
         | (True, h) \<Rightarrow>
             (case malloc_ok h of
                (False, _) \<Rightarrow> None
              | (True, _) \<Rightarrow>
                  Some \<lparr>st_ring = replicate capacity empty_slot, st_cap = capacity,
                        st_head_seq = 1, st_count = 0, st_in_flight = 0, st_dying = False\<rparr>))"

definition store_begin_op :: "store \<Rightarrow> bool \<times> store" where
  "store_begin_op s =
     (if st_dying s then (False, s) else (True, s\<lparr>st_in_flight := st_in_flight s + 1\<rparr>))"

definition store_end_op :: "store \<Rightarrow> store" where
  "store_end_op s = s\<lparr>st_in_flight := st_in_flight s - 1\<rparr>"

definition store_put_owned_impl :: "nat \<Rightarrow> store \<Rightarrow> bytes option \<Rightarrow> nat \<times> store" where
  "store_put_owned_impl now s data =
     (case data of
        None \<Rightarrow> (0, s)
      | Some d \<Rightarrow>
          if d = [] then (0, s)
          else if length d > STORE_MAX_MSG then (0, s)
          else if st_head_seq s = UINT64_MAX then (0, s)
          else
            (let idx = (st_head_seq s - 1) mod st_cap s;
                 slot = \<lparr>sl_seq = st_head_seq s, sl_data = Some d, sl_len = length d,
                         sl_timestamp_ms = now, sl_valid = True\<rparr>
             in (st_head_seq s,
                 s\<lparr>st_ring := (st_ring s)[idx := slot],
                   st_head_seq := st_head_seq s + 1,
                   st_count := (if st_count s < st_cap s then st_count s + 1 else st_count s)\<rparr>)))"

definition store_put_impl :: "heap \<Rightarrow> nat \<Rightarrow> store \<Rightarrow> bytes option \<Rightarrow> nat \<times> store" where
  "store_put_impl h now s data =
     (case data of
        None \<Rightarrow> (0, s)
      | Some d \<Rightarrow>
          if d = [] then (0, s)
          else if length d > STORE_MAX_MSG then (0, s)
          else if \<not> fst (malloc_ok h) then (0, s)
          else store_put_owned_impl now s (Some d))"

definition store_oldest :: "store \<Rightarrow> nat" where
  "store_oldest s = (if st_head_seq s > st_cap s then st_head_seq s - st_cap s else 1)"

definition slot_at :: "store \<Rightarrow> nat \<Rightarrow> store_slot" where
  "slot_at s seq = st_ring s ! ((seq - 1) mod st_cap s)"

text \<open>
  \<open>store_get_impl h s s' seq\<close>: \<open>s\<close> is the store when the lock is first taken, \<open>s'\<close> when it
  is taken again after the copy buffer was allocated.
\<close>

definition store_get_impl :: "heap \<Rightarrow> store \<Rightarrow> store \<Rightarrow> nat \<Rightarrow> store_msg option" where
  "store_get_impl h s s' seq =
     (if seq = 0 then None
      else if seq \<ge> st_head_seq s then None
      else if seq < store_oldest s then None
      else
        (let slot = slot_at s seq
         in if \<not> sl_valid slot \<or> sl_seq slot \<noteq> seq then None
            else if \<not> fst (malloc_ok h) then None
            else if seq \<ge> st_head_seq s' then None
            else if seq < store_oldest s' then None
            else
              (let slot' = slot_at s' seq
               in if \<not> sl_valid slot' \<or> sl_seq slot' \<noteq> seq \<or> sl_len slot' \<noteq> sl_len slot
                  then None
                  else case sl_data slot' of
                    None \<Rightarrow> None
                  | Some d \<Rightarrow>
                      Some \<lparr>msg_seq = seq, msg_data = take (sl_len slot) d, msg_len = sl_len slot,
                            msg_timestamp_ms = sl_timestamp_ms slot\<rparr>)))"

definition store_seq_len_impl :: "store \<Rightarrow> nat \<Rightarrow> nat option" where
  "store_seq_len_impl s seq =
     (if seq = 0 then None
      else if seq \<ge> st_head_seq s then None
      else if seq < store_oldest s then None
      else
        (let slot = slot_at s seq
         in if \<not> sl_valid slot \<or> sl_seq slot \<noteq> seq then None else Some (sl_len slot)))"

definition store_first_seq_impl :: "store \<Rightarrow> nat" where
  "store_first_seq_impl s =
     (if st_count s > 0
      then (if st_head_seq s > st_count s then st_head_seq s - st_count s else 1)
      else 0)"

definition store_last_seq_impl :: "store \<Rightarrow> nat" where
  "store_last_seq_impl s = (if st_count s > 0 then st_head_seq s - 1 else 0)"

definition store_drop_slot :: "store \<Rightarrow> nat \<Rightarrow> store" where
  "store_drop_slot s idx =
     s\<lparr>st_ring := (st_ring s)[idx := (st_ring s ! idx)\<lparr>sl_data := None, sl_valid := False\<rparr>],
       st_count := st_count s - 1\<rparr>"

function store_truncate_loop :: "store \<Rightarrow> nat \<Rightarrow> store" where
  "store_truncate_loop s before_seq =
     (if st_count s > 0 then
        (let first = (if st_head_seq s > st_count s then st_head_seq s - st_count s else 1)
         in if first \<ge> before_seq then s
            else
              (let idx = (first - 1) mod st_cap s
               in if sl_seq (st_ring s ! idx) \<noteq> first \<or> \<not> sl_valid (st_ring s ! idx) then s
                  else store_truncate_loop (store_drop_slot s idx) before_seq))
      else s)"
  by pat_completeness auto
termination
  by (relation "measure (\<lambda>(s, b). st_count s)") (auto simp: store_drop_slot_def)

declare store_truncate_loop.simps [simp del]

definition store_truncate_impl :: "store \<Rightarrow> nat \<Rightarrow> store" where
  "store_truncate_impl s before_seq =
     (if before_seq \<le> 1 then s else store_truncate_loop s before_seq)"

definition store_evict_seq_impl :: "store \<Rightarrow> nat \<Rightarrow> bool \<times> store" where
  "store_evict_seq_impl s seq =
     (if seq = 0 then (False, s)
      else if st_count s = 0 then (False, s)
      else
        (let first = (if st_head_seq s > st_count s then st_head_seq s - st_count s else 1)
         in if seq \<noteq> first then (False, s)
            else
              (let idx = (seq - 1) mod st_cap s
               in if sl_seq (st_ring s ! idx) \<noteq> seq \<or> \<not> sl_valid (st_ring s ! idx) then (False, s)
                  else (True, store_drop_slot s idx))))"

subsection \<open>The public entry points\<close>

definition cmq_store_put_owned :: "nat \<Rightarrow> store \<Rightarrow> bytes option \<Rightarrow> nat \<times> store" where
  "cmq_store_put_owned now s data =
     (if data = None \<or> data = Some [] then (0, s)
      else case store_begin_op s of
        (False, s) \<Rightarrow> (0, s)
      | (True, s) \<Rightarrow> (case store_put_owned_impl now s data of (seq, s) \<Rightarrow> (seq, store_end_op s)))"

definition cmq_store_put :: "heap \<Rightarrow> nat \<Rightarrow> store \<Rightarrow> bytes option \<Rightarrow> nat \<times> store" where
  "cmq_store_put h now s data =
     (if data = None \<or> data = Some [] then (0, s)
      else case store_begin_op s of
        (False, s) \<Rightarrow> (0, s)
      | (True, s) \<Rightarrow> (case store_put_impl h now s data of (seq, s) \<Rightarrow> (seq, store_end_op s)))"

definition cmq_store_get :: "heap \<Rightarrow> store \<Rightarrow> store \<Rightarrow> nat \<Rightarrow> store_msg option" where
  "cmq_store_get h s s' seq =
     (if seq = 0 then None
      else case store_begin_op s of
        (False, _) \<Rightarrow> None
      | (True, s) \<Rightarrow> store_get_impl h s s' seq)"

definition cmq_store_seq_len :: "store \<Rightarrow> nat \<Rightarrow> nat option" where
  "cmq_store_seq_len s seq =
     (if seq = 0 then None
      else case store_begin_op s of
        (False, _) \<Rightarrow> None
      | (True, s) \<Rightarrow> store_seq_len_impl s seq)"

definition cmq_store_count :: "store \<Rightarrow> nat" where
  "cmq_store_count s =
     (case store_begin_op s of (False, _) \<Rightarrow> 0 | (True, s) \<Rightarrow> st_count s)"

definition cmq_store_first_seq :: "store \<Rightarrow> nat" where
  "cmq_store_first_seq s =
     (case store_begin_op s of (False, _) \<Rightarrow> 0 | (True, s) \<Rightarrow> store_first_seq_impl s)"

definition cmq_store_last_seq :: "store \<Rightarrow> nat" where
  "cmq_store_last_seq s =
     (case store_begin_op s of (False, _) \<Rightarrow> 0 | (True, s) \<Rightarrow> store_last_seq_impl s)"

definition cmq_store_truncate :: "store \<Rightarrow> nat \<Rightarrow> store" where
  "cmq_store_truncate s before_seq =
     (if before_seq \<le> 1 then s
      else case store_begin_op s of
        (False, s) \<Rightarrow> s
      | (True, s) \<Rightarrow> store_end_op (store_truncate_impl s before_seq))"

definition cmq_store_evict_seq :: "store \<Rightarrow> nat \<Rightarrow> bool \<times> store" where
  "cmq_store_evict_seq s seq =
     (if seq = 0 then (False, s)
      else case store_begin_op s of
        (False, s) \<Rightarrow> (False, s)
      | (True, s) \<Rightarrow> (case store_evict_seq_impl s seq of (ok, s) \<Rightarrow> (ok, store_end_op s)))"

section \<open>Specification: a bounded log\<close>

text \<open>
  \<open>(n, ms)\<close> is a log whose next sequence number is \<open>n\<close> and whose retained messages are
  \<open>ms\<close>, the last of them with number \<open>n - 1\<close>.
\<close>

type_synonym log = "nat \<times> bytes list"

definition log_wf :: "nat \<Rightarrow> log \<Rightarrow> bool" where
  "log_wf c l \<longleftrightarrow> length (snd l) < fst l \<and> length (snd l) \<le> c \<and> 0 < c"

definition log_lo :: "log \<Rightarrow> nat" where
  "log_lo l = fst l - length (snd l)"

definition log_at :: "log \<Rightarrow> nat \<Rightarrow> bytes option" where
  "log_at l q = (if log_lo l \<le> q \<and> q < fst l then Some (snd l ! (q - log_lo l)) else None)"

definition log_put :: "nat \<Rightarrow> log \<Rightarrow> bytes \<Rightarrow> log" where
  "log_put c l d =
     (fst l + 1, (if length (snd l) < c then snd l else tl (snd l)) @ [d])"

definition log_evict :: "log \<Rightarrow> log" where
  "log_evict l = (fst l, tl (snd l))"

definition log_truncate :: "log \<Rightarrow> nat \<Rightarrow> log" where
  "log_truncate l b = (fst l, drop (b - log_lo l) (snd l))"

definition log_bytes :: "log \<Rightarrow> nat" where
  "log_bytes l = sum_list (map length (snd l))"

subsection \<open>Facts about logs\<close>

lemma log_wf_cases:
  assumes "log_wf c l"
  obtains k ms where "l = (k + length ms, ms)" "0 < k" "log_lo l = k" "length ms \<le> c" "0 < c"
proof -
  obtain n ms where l: "l = (n, ms)" by fastforce
  with assms that [of "n - length ms" ms] show ?thesis by (simp add: log_wf_def log_lo_def)
qed

lemma log_at_simp: "log_at (k + length ms, ms) q = (if k \<le> q \<and> q < k + length ms then Some (ms ! (q - k)) else None)"
  by (simp add: log_at_def log_lo_def)

lemma log_at_put:
  assumes "log_wf c l"
  shows "log_at (log_put c l d) q =
    (if q = fst l then Some d
     else if length (snd l) < c \<or> q \<noteq> log_lo l then log_at l q else None)"
proof -
  from assms obtain k ms where l: "l = (k + length ms, ms)" "0 < k" "log_lo l = k" "length ms \<le> c" "0 < c"
    by (rule log_wf_cases)
  show ?thesis
  proof (cases "length ms < c")
    case True
    with l(1,3) log_at_simp [of k "ms @ [d]" q] show ?thesis
      by (simp add: log_put_def log_at_simp nth_append) linarith
  next
    case False
    with l(4,5) obtain m ns where ms: "ms = m # ns" by (cases ms) auto
    with False l(1,3,4) log_at_simp [of "Suc k" "ns @ [d]" q] log_at_simp [of k ms q] show ?thesis
      by (auto simp: log_put_def nth_append nth_Cons')
  qed
qed

lemma log_at_evict:
  assumes "log_wf c l" "snd l \<noteq> []"
  shows "log_at (log_evict l) q = (if q = log_lo l then None else log_at l q)"
proof -
  from assms(1) obtain k ms where l: "l = (k + length ms, ms)" "log_lo l = k" by (rule log_wf_cases)
  with assms(2) obtain m ns where ms: "ms = m # ns" by (cases ms) auto
  with l log_at_simp [of "Suc k" ns q] log_at_simp [of k ms q] show ?thesis
    by (auto simp: log_evict_def nth_Cons')
qed

lemma log_wf_put: "log_wf c l \<Longrightarrow> log_wf c (log_put c l d)"
  by (cases "snd l") (auto simp: log_wf_def log_put_def)

lemma log_wf_evict: "log_wf c l \<Longrightarrow> log_wf c (log_evict l)"
  by (cases "snd l") (auto simp: log_wf_def log_evict_def)

lemma log_lo_put:
  "log_wf c l \<Longrightarrow> log_lo (log_put c l d) = (if length (snd l) < c then log_lo l else log_lo l + 1)"
  by (cases "snd l") (auto simp: log_wf_def log_put_def log_lo_def)

lemma log_lo_evict: "log_wf c l \<Longrightarrow> snd l \<noteq> [] \<Longrightarrow> log_lo (log_evict l) = log_lo l + 1"
  by (cases "snd l") (auto simp: log_wf_def log_evict_def log_lo_def)

lemma log_bytes_put:
  "log_wf c l \<Longrightarrow> log_bytes (log_put c l d) =
     (if length (snd l) < c then log_bytes l else log_bytes l - length (hd (snd l))) + length d"
  by (cases "snd l") (auto simp: log_wf_def log_put_def log_bytes_def)

lemma log_bytes_evict:
  "snd l \<noteq> [] \<Longrightarrow> log_bytes (log_evict l) = log_bytes l - length (hd (snd l))"
  by (cases "snd l") (auto simp: log_evict_def log_bytes_def)

lemma log_hd_bytes: "snd l \<noteq> [] \<Longrightarrow> length (hd (snd l)) \<le> log_bytes l"
  by (cases "snd l") (auto simp: log_bytes_def)

lemma log_at_lo: "log_wf c l \<Longrightarrow> snd l \<noteq> [] \<Longrightarrow> log_at l (log_lo l) = Some (hd (snd l))"
  by (cases "snd l") (auto simp: log_at_def log_lo_def log_wf_def)

section \<open>Invariant and abstraction\<close>

definition slot_ok :: "store_slot \<Rightarrow> nat \<Rightarrow> bool" where
  "slot_ok sl q \<longleftrightarrow>
     sl_valid sl \<and> sl_seq sl = q \<and>
     (\<exists>d. sl_data sl = Some d \<and> length d = sl_len sl \<and> d \<noteq> [] \<and> length d \<le> STORE_MAX_MSG)"

definition store_inv :: "store \<Rightarrow> bool" where
  "store_inv s \<longleftrightarrow>
     0 < st_cap s \<and> length (st_ring s) = st_cap s \<and>
     st_head_seq s \<le> UINT64_MAX \<and> st_count s \<le> st_cap s \<and> st_count s < st_head_seq s \<and>
     (\<forall>q. st_head_seq s - st_count s \<le> q \<and> q < st_head_seq s \<longrightarrow> slot_ok (slot_at s q) q) \<and>
     (\<forall>i < st_cap s. sl_valid (st_ring s ! i) \<longrightarrow>
        (\<exists>q. st_head_seq s - st_count s \<le> q \<and> q < st_head_seq s \<and> i = (q - 1) mod st_cap s))"

definition store_log :: "store \<Rightarrow> log" where
  "store_log s =
     (st_head_seq s,
      map (\<lambda>q. the (sl_data (slot_at s q))) [st_head_seq s - st_count s ..< st_head_seq s])"

lemma store_invD:
  assumes "store_inv s"
  shows "0 < st_cap s" "length (st_ring s) = st_cap s" "st_head_seq s \<le> UINT64_MAX"
    "st_count s \<le> st_cap s" "st_count s < st_head_seq s"
    "\<And>q. st_head_seq s - st_count s \<le> q \<Longrightarrow> q < st_head_seq s \<Longrightarrow> slot_ok (slot_at s q) q"
    "\<And>i. i < st_cap s \<Longrightarrow> sl_valid (st_ring s ! i) \<Longrightarrow>
       \<exists>q. st_head_seq s - st_count s \<le> q \<and> q < st_head_seq s \<and> i = (q - 1) mod st_cap s"
  using assms by (auto simp: store_inv_def)

lemma store_log_simps [simp]:
  "fst (store_log s) = st_head_seq s"
  "st_count s < st_head_seq s \<Longrightarrow> length (snd (store_log s)) = st_count s"
  "st_count s < st_head_seq s \<Longrightarrow> log_lo (store_log s) = st_head_seq s - st_count s"
  by (auto simp: store_log_def log_lo_def)

lemma store_log_wf: "store_inv s \<Longrightarrow> log_wf (st_cap s) (store_log s)"
  using store_invD [of s] by (simp add: log_wf_def)

lemma log_at_store:
  assumes "store_inv s"
  shows "log_at (store_log s) q =
    (if st_head_seq s - st_count s \<le> q \<and> q < st_head_seq s then sl_data (slot_at s q) else None)"
proof -
  note inv = store_invD [OF assms]
  show ?thesis
  proof (cases "st_head_seq s - st_count s \<le> q \<and> q < st_head_seq s")
    case True
    then have "slot_ok (slot_at s q) q" using inv(6) by blast
    with True inv(5) show ?thesis
      by (auto simp: log_at_def store_log_def slot_ok_def log_lo_def)
  next
    case False
    with inv(5) show ?thesis by (auto simp: log_at_def)
  qed
qed

lemma slot_live_iff:
  assumes "store_inv s" "q < st_head_seq s"
  shows "sl_valid (slot_at s q) \<and> sl_seq (slot_at s q) = q \<longleftrightarrow> st_head_seq s - st_count s \<le> q"
proof
  note inv = store_invD [OF assms(1)]
  assume v: "sl_valid (slot_at s q) \<and> sl_seq (slot_at s q) = q"
  have "(q - 1) mod st_cap s < st_cap s" using inv(1) by simp
  from inv(7) [OF this] v obtain q' where q': "st_head_seq s - st_count s \<le> q'" "q' < st_head_seq s"
    "(q - 1) mod st_cap s = (q' - 1) mod st_cap s"
    by (auto simp: slot_at_def)
  with inv(6) [OF q'(1,2)] v show "st_head_seq s - st_count s \<le> q"
    by (simp add: slot_at_def slot_ok_def)
next
  assume "st_head_seq s - st_count s \<le> q"
  with store_invD(6) [OF assms(1)] assms(2)
  show "sl_valid (slot_at s q) \<and> sl_seq (slot_at s q) = q" by (simp add: slot_ok_def)
qed

lemma store_oldest_le:
  "store_inv s \<Longrightarrow> st_head_seq s - st_count s \<le> q \<Longrightarrow> store_oldest s \<le> q"
  by (auto simp: store_inv_def store_oldest_def)

section \<open>What each operation does\<close>

lemma store_seq_len_spec:
  assumes "store_inv s"
  shows "store_seq_len_impl s q = map_option length (log_at (store_log s) q)"
proof -
  note inv = store_invD [OF assms]
  show ?thesis
  proof (cases "st_head_seq s - st_count s \<le> q \<and> q < st_head_seq s")
    case True
    with inv(5) inv(6) [of q] store_oldest_le [OF assms, of q] show ?thesis
      by (auto simp: store_seq_len_impl_def log_at_store [OF assms] slot_ok_def Let_def not_less)
  next
    case False
    with slot_live_iff [OF assms, of q] show ?thesis
      by (auto simp: store_seq_len_impl_def log_at_store [OF assms] Let_def)
  qed
qed

lemma store_get_spec:
  assumes "store_inv s" "fst (malloc_ok h)"
  shows "map_option msg_data (store_get_impl h s s q) = log_at (store_log s) q"
proof -
  note inv = store_invD [OF assms(1)]
  show ?thesis
  proof (cases "st_head_seq s - st_count s \<le> q \<and> q < st_head_seq s")
    case True
    with inv(5) inv(6) [of q] store_oldest_le [OF assms(1), of q] assms(2) show ?thesis
      by (auto simp: store_get_impl_def log_at_store [OF assms(1)] slot_ok_def Let_def not_less)
  next
    case False
    with slot_live_iff [OF assms(1), of q] show ?thesis
      by (auto simp: store_get_impl_def log_at_store [OF assms(1)] Let_def)
  qed
qed

lemma store_first_seq_spec:
  "store_inv s \<Longrightarrow>
     store_first_seq_impl s = (if snd (store_log s) = [] then 0 else log_lo (store_log s))"
  by (auto simp: store_first_seq_impl_def store_inv_def store_log_def log_lo_def)

lemma store_last_seq_spec:
  "store_inv s \<Longrightarrow>
     store_last_seq_impl s = (if snd (store_log s) = [] then 0 else fst (store_log s) - 1)"
  by (auto simp: store_last_seq_impl_def store_inv_def store_log_def)

subsection \<open>Put\<close>

definition store_accepts :: "store \<Rightarrow> bytes \<Rightarrow> bool" where
  "store_accepts s d \<longleftrightarrow> d \<noteq> [] \<and> length d \<le> STORE_MAX_MSG \<and> st_head_seq s \<noteq> UINT64_MAX"

lemma store_put_refused: "\<not> store_accepts s d \<Longrightarrow> store_put_owned_impl now s (Some d) = (0, s)"
  by (auto simp: store_put_owned_impl_def store_accepts_def)

lemma store_put_frame [frame_rules]:
  "st_cap (snd (store_put_owned_impl now s data)) = st_cap s"
  "st_in_flight (snd (store_put_owned_impl now s data)) = st_in_flight s"
  "st_dying (snd (store_put_owned_impl now s data)) = st_dying s"
  by (auto simp: store_put_owned_impl_def Let_def split: option.splits)

text \<open>
  The slot a put overwrites is the one of the oldest message when the ring is full, and
  an unused one otherwise: the other retained messages keep theirs.
\<close>

lemma slot_index_fresh:
  assumes "store_inv s" "st_head_seq s - st_count s \<le> q" "q < st_head_seq s"
    "st_count s < st_cap s \<or> q \<noteq> st_head_seq s - st_count s"
  shows "(q - 1) mod st_cap s \<noteq> (st_head_seq s - 1) mod st_cap s"
proof
  note inv = store_invD [OF assms(1)]
  assume eq: "(q - 1) mod st_cap s = (st_head_seq s - 1) mod st_cap s"
  have "st_head_seq s - 1 < (q - 1) + st_cap s" using inv(4,5) assms(2-4) by linarith
  moreover have "q - 1 \<le> st_head_seq s - 1" using assms(3) by linarith
  ultimately have "q - 1 = st_head_seq s - 1" by (intro mod_window_inj [OF eq])
  with assms(2,3) inv(5) show False by linarith
qed

lemma store_put_eq:
  "store_accepts s d \<Longrightarrow> store_put_owned_impl now s (Some d) =
     (st_head_seq s,
      s\<lparr>st_ring := (st_ring s)[(st_head_seq s - 1) mod st_cap s :=
           \<lparr>sl_seq = st_head_seq s, sl_data = Some d, sl_len = length d, sl_timestamp_ms = now,
            sl_valid = True\<rparr>],
        st_head_seq := st_head_seq s + 1,
        st_count := (if st_count s < st_cap s then st_count s + 1 else st_count s)\<rparr>)"
  by (simp add: store_put_owned_impl_def store_accepts_def Let_def)

lemma store_put_slots:
  assumes "store_inv s" "store_accepts s d" "store_put_owned_impl now s (Some d) = (r, s')"
  shows "slot_at s' q =
    (if (q - 1) mod st_cap s = (st_head_seq s - 1) mod st_cap s
     then \<lparr>sl_seq = st_head_seq s, sl_data = Some d, sl_len = length d, sl_timestamp_ms = now,
           sl_valid = True\<rparr>
     else slot_at s q)"
proof -
  have "(st_head_seq s - 1) mod st_cap s < length (st_ring s)"
    using store_invD(1,2) [OF assms(1)] by simp
  then show ?thesis
    using assms(3) unfolding store_put_eq [OF assms(2)] by (auto simp: slot_at_def)
qed

lemma store_put_fields:
  assumes "store_accepts s d" "store_put_owned_impl now s (Some d) = (r, s')"
  shows "r = st_head_seq s" "st_head_seq s' = st_head_seq s + 1" "st_cap s' = st_cap s"
    "st_count s' = (if st_count s < st_cap s then st_count s + 1 else st_count s)"
    "length (st_ring s') = length (st_ring s)"
    "i \<noteq> (st_head_seq s - 1) mod st_cap s \<Longrightarrow> st_ring s' ! i = st_ring s ! i"
  using assms(2) unfolding store_put_eq [OF assms(1)] by auto

lemma store_put_lo:
  assumes "store_inv s" "store_accepts s d" "store_put_owned_impl now s (Some d) = (r, s')"
  shows "st_head_seq s' - st_count s' =
    (if st_count s < st_cap s then st_head_seq s - st_count s else st_head_seq s - st_count s + 1)"
  using store_put_fields [OF assms(2,3)] store_invD(5) [OF assms(1)] by simp linarith

lemma store_inv_put_ok:
  assumes "store_inv s" and acc: "store_accepts s d"
    and put: "store_put_owned_impl now s (Some d) = (r, s')"
  shows "store_inv s'"
proof -
  note inv = store_invD [OF assms(1)] and f = store_put_fields [OF acc put]
    and sl = store_put_slots [OF assms]
  note lo = store_put_lo [OF assms]
  have win: "slot_ok (slot_at s' q) q" if "st_head_seq s' - st_count s' \<le> q" "q < st_head_seq s'" for q
  proof (cases "q = st_head_seq s")
    case True
    with acc show ?thesis by (simp add: sl slot_ok_def store_accepts_def)
  next
    case False
    with that f(2) lo have q: "st_head_seq s - st_count s \<le> q" "q < st_head_seq s"
      "st_count s < st_cap s \<or> q \<noteq> st_head_seq s - st_count s"
      by (simp_all split: if_splits)
    from slot_index_fresh [OF assms(1) q] inv(6) [OF q(1,2)] show ?thesis by (simp add: sl)
  qed
  have val: "\<exists>q. st_head_seq s' - st_count s' \<le> q \<and> q < st_head_seq s' \<and> i = (q - 1) mod st_cap s'"
    if i: "i < st_cap s'" "sl_valid (st_ring s' ! i)" for i
  proof (cases "i = (st_head_seq s - 1) mod st_cap s")
    case True
    with f(2,3) lo inv(1,4,5) show ?thesis by (intro exI [of _ "st_head_seq s"]) auto
  next
    case False
    with i f(3) f(6) [of i] inv(7) obtain q where q: "st_head_seq s - st_count s \<le> q" "q < st_head_seq s"
      "i = (q - 1) mod st_cap s" by metis
    have "st_count s < st_cap s \<or> q \<noteq> st_head_seq s - st_count s"
    proof (rule ccontr)
      assume "\<not> ?thesis"
      with inv(4,5) have "st_head_seq s - 1 = (q - 1) + st_cap s" by simp
      then have "(st_head_seq s - 1) mod st_cap s = (q - 1) mod st_cap s" by simp
      with q(3) False show False by simp
    qed
    with q lo f(2,3) show ?thesis by (intro exI [of _ q]) (auto split: if_splits)
  qed
  have "st_head_seq s' \<le> UINT64_MAX" "st_count s' \<le> st_cap s'" "st_count s' < st_head_seq s'"
    using inv(3-5) f(2-4) acc by (simp_all add: store_accepts_def)
  with inv(1,2) f(3,5) win val show ?thesis unfolding store_inv_def by simp
qed

lemma store_inv_put: "store_inv s \<Longrightarrow> store_inv (snd (store_put_owned_impl now s data))"
proof (cases data)
  case None
  moreover assume "store_inv s"
  ultimately show ?thesis by (simp add: store_put_owned_impl_def)
next
  case (Some d)
  moreover assume "store_inv s"
  ultimately show ?thesis
    using store_inv_put_ok [of s d now] store_put_refused [of s d now]
    by (cases "store_accepts s d") (metis prod.collapse snd_conv)+
qed

lemma log_eqI:
  assumes "fst l = fst l'" "length (snd l) = length (snd l')" "length (snd l) \<le> fst l"
    "\<And>q. log_at l q = log_at l' q"
  shows "l = l'"
proof -
  have lo: "log_lo l = log_lo l'" using assms(1,2) by (simp add: log_lo_def)
  have "snd l ! i = snd l' ! i" if "i < length (snd l)" for i
  proof -
    have "log_lo l + i < fst l" using that assms(3) by (simp add: log_lo_def)
    with assms(1) lo assms(4) [of "log_lo l + i"] show ?thesis by (simp add: log_at_def)
  qed
  with assms(1,2) show ?thesis by (simp add: prod_eq_iff list_eq_iff_nth_eq)
qed

lemma store_put_spec:
  assumes "store_inv s" "store_accepts s d" "store_put_owned_impl now s (Some d) = (r, s')"
  shows "store_log s' = log_put (st_cap s) (store_log s) d"
proof (rule log_eqI)
  note inv = store_invD [OF assms(1)] and f = store_put_fields [OF assms(2,3)]
    and wf = store_log_wf [OF assms(1)] and sl = store_put_slots [OF assms]
  have inv': "store_inv s'" by (rule store_inv_put_ok [OF assms])
  show "fst (store_log s') = fst (log_put (st_cap s) (store_log s) d)"
    by (simp add: log_put_def f)
  show "length (snd (store_log s')) = length (snd (log_put (st_cap s) (store_log s) d))"
    using inv(1,4,5) f(2,4) store_invD(5) [OF inv'] by (simp add: log_put_def)
  show "length (snd (store_log s')) \<le> fst (store_log s')"
    using store_invD(5) [OF inv'] by simp
  fix q
  note lo = store_put_lo [OF assms]
  show "log_at (store_log s') q = log_at (log_put (st_cap s) (store_log s) d) q"
  proof (cases "q = st_head_seq s")
    case True
    with lo f(2) inv(1,4,5) show ?thesis
      by (auto simp: log_at_put [OF wf] log_at_store [OF inv'] sl)
  next
    case False
    have new: "st_head_seq s' - st_count s' \<le> q \<and> q < st_head_seq s' \<longleftrightarrow>
        st_head_seq s - st_count s \<le> q \<and> q < st_head_seq s \<and>
        (st_count s < st_cap s \<or> q \<noteq> st_head_seq s - st_count s)"
      using False lo f(2) inv(1,4,5) by auto
    show ?thesis
      using False inv(5) slot_index_fresh [OF assms(1), of q]
      unfolding log_at_put [OF wf] log_at_store [OF inv'] log_at_store [OF assms(1)] sl new
      by auto
  qed
qed

subsection \<open>Eviction and truncation\<close>

abbreviation store_lo :: "store \<Rightarrow> nat" where
  "store_lo s \<equiv> st_head_seq s - st_count s"

lemma slot_index_distinct:
  assumes "store_inv s" "store_lo s \<le> q" "q < st_head_seq s" "store_lo s \<le> q'" "q' < st_head_seq s"
    "(q - 1) mod st_cap s = (q' - 1) mod st_cap s"
  shows "q = q'"
proof -
  note inv = store_invD [OF assms(1)]
  have "q - 1 = q' - 1"
  proof (cases "q \<le> q'")
    case True
    show ?thesis
      by (rule mod_window_inj [OF assms(6)]) (use True inv(4,5) assms(2-5) in linarith)+
  next
    case False
    show ?thesis
      by (rule mod_window_inj [OF assms(6) [symmetric], symmetric])
        (use False inv(4,5) assms(2-5) in linarith)+
  qed
  with assms(2,4) inv(5) show ?thesis by linarith
qed

lemma store_drop_slot_at:
  assumes "store_inv s" "store_lo s \<le> p" "p < st_head_seq s"
    "store_lo s \<le> q" "q < st_head_seq s" "q \<noteq> p"
  shows "slot_at (store_drop_slot s ((p - 1) mod st_cap s)) q = slot_at s q"
proof -
  have "(q - 1) mod st_cap s \<noteq> (p - 1) mod st_cap s"
    using slot_index_distinct [OF assms(1), of q p] assms(2-6) by blast
  then show ?thesis by (simp add: slot_at_def store_drop_slot_def)
qed

lemma store_drop_fields [simp]:
  "st_head_seq (store_drop_slot s i) = st_head_seq s"
  "st_count (store_drop_slot s i) = st_count s - 1"
  "st_cap (store_drop_slot s i) = st_cap s"
  "length (st_ring (store_drop_slot s i)) = length (st_ring s)"
  "st_dying (store_drop_slot s i) = st_dying s"
  "st_in_flight (store_drop_slot s i) = st_in_flight s"
  by (simp_all add: store_drop_slot_def)

lemma store_inv_drop:
  assumes "store_inv s" "0 < st_count s"
  shows "store_inv (store_drop_slot s ((store_lo s - 1) mod st_cap s))" (is "store_inv ?s'")
proof -
  note inv = store_invD [OF assms(1)]
  have lo: "store_lo ?s' = store_lo s + 1" using assms(2) inv(5) by simp
  have "slot_ok (slot_at ?s' q) q" if "store_lo ?s' \<le> q" "q < st_head_seq s" for q
    using that lo inv(5,6) assms(2) store_drop_slot_at [OF assms(1), of "store_lo s" q] by simp
  moreover have "\<exists>q. store_lo ?s' \<le> q \<and> q < st_head_seq s \<and> i = (q - 1) mod st_cap s"
    if i: "i < st_cap s" "sl_valid (st_ring ?s' ! i)" for i
  proof -
    have ne: "i \<noteq> (store_lo s - 1) mod st_cap s"
      using i inv(2) by (auto simp: store_drop_slot_def)
    then have "st_ring ?s' ! i = st_ring s ! i" by (simp add: store_drop_slot_def)
    with i inv(7) obtain q where q: "store_lo s \<le> q" "q < st_head_seq s" "i = (q - 1) mod st_cap s"
      by metis
    with ne have "q \<noteq> store_lo s" by auto
    with q lo show ?thesis by (intro exI [of _ q]) simp
  qed
  moreover have "st_count s - 1 \<le> st_cap s" "st_count s - 1 < st_head_seq s"
    using inv(4,5) by linarith+
  ultimately show ?thesis using inv(1-3) by (simp add: store_inv_def)
qed

lemma store_log_drop:
  assumes "store_inv s" "0 < st_count s"
  shows "store_log (store_drop_slot s ((store_lo s - 1) mod st_cap s)) = log_evict (store_log s)"
    (is "store_log ?s' = _")
proof (rule log_eqI)
  note inv = store_invD [OF assms(1)] and inv' = store_inv_drop [OF assms]
  show "fst (store_log ?s') = fst (log_evict (store_log s))" by (simp add: log_evict_def)
  show "length (snd (store_log ?s')) = length (snd (log_evict (store_log s)))"
    using inv(5) by (simp add: log_evict_def)
  show "length (snd (store_log ?s')) \<le> fst (store_log ?s')" using inv(5) by simp
  fix q
  have ne: "snd (store_log s) \<noteq> []"
    using assms(2) inv(5) store_log_simps(2) [of s] by force
  show "log_at (store_log ?s') q = log_at (log_evict (store_log s)) q"
    using inv(5) assms(2) store_drop_slot_at [OF assms(1), of "store_lo s" q]
    unfolding log_at_evict [OF store_log_wf [OF assms(1)] ne] log_at_store [OF inv']
      log_at_store [OF assms(1)]
    by auto
qed

lemma store_lo_slot:
  assumes "store_inv s" "0 < st_count s"
  shows "sl_seq (st_ring s ! ((store_lo s - 1) mod st_cap s)) = store_lo s"
    "sl_valid (st_ring s ! ((store_lo s - 1) mod st_cap s))"
  using store_invD(5) [OF assms(1)] store_invD(6) [OF assms(1), of "store_lo s"] assms(2)
  by (auto simp: slot_at_def slot_ok_def)

lemma store_evict_eq:
  assumes "store_inv s"
  shows "store_evict_seq_impl s q =
    (if 0 < st_count s \<and> q = store_lo s
     then (True, store_drop_slot s ((store_lo s - 1) mod st_cap s)) else (False, s))"
  using store_lo_slot [OF assms] store_invD(5) [OF assms]
  by (auto simp: store_evict_seq_impl_def Let_def)

lemma log_truncate_evict:
  assumes "log_wf c l" "snd l \<noteq> []" "log_lo l < b"
  shows "log_truncate (log_evict l) b = log_truncate l b"
proof -
  from assms(1) obtain k ms where l: "l = (k + length ms, ms)" "log_lo l = k" by (rule log_wf_cases)
  with assms(2) obtain m ns where "ms = m # ns" by (cases ms) auto
  moreover from assms(3) l obtain j where "b = Suc (k + j)" using less_imp_Suc_add by auto
  ultimately show ?thesis using l by (simp add: log_truncate_def log_evict_def log_lo_def)
qed

lemma store_log_empty [simp]: "st_count s = 0 \<Longrightarrow> snd (store_log s) = []"
  by (simp add: store_log_def)

lemma store_truncate_loop_spec:
  "store_inv s \<Longrightarrow> store_inv (store_truncate_loop s b) \<and>
     store_log (store_truncate_loop s b) = log_truncate (store_log s) b \<and>
     st_cap (store_truncate_loop s b) = st_cap s \<and>
     st_dying (store_truncate_loop s b) = st_dying s \<and>
     st_in_flight (store_truncate_loop s b) = st_in_flight s"
proof (induction s b rule: store_truncate_loop.induct)
  case (1 s b)
  note inv = store_invD [OF "1.prems"]
  show ?case
  proof (cases "0 < st_count s \<and> store_lo s < b")
    case False
    then have "store_truncate_loop s b = s"
      using inv(5) by (subst store_truncate_loop.simps) (auto simp: Let_def not_less)
    with False inv(5) "1.prems" show ?thesis
      using store_log_simps(2) [OF inv(5)] store_log_simps(3) [OF inv(5)]
      by (auto simp: log_truncate_def prod_eq_iff)
  next
    case True
    let ?s' = "store_drop_slot s ((store_lo s - 1) mod st_cap s)"
    have step: "store_truncate_loop s b = store_truncate_loop ?s' b"
      using True inv(5) store_lo_slot [OF "1.prems"]
      by (subst store_truncate_loop.simps) (simp add: Let_def)
    have ne: "snd (store_log s) \<noteq> []" using True store_log_simps(2) [OF inv(5)] by force
    have IH: "store_inv (store_truncate_loop ?s' b) \<and>
        store_log (store_truncate_loop ?s' b) = log_truncate (store_log ?s') b \<and>
        st_cap (store_truncate_loop ?s' b) = st_cap ?s' \<and>
        st_dying (store_truncate_loop ?s' b) = st_dying ?s' \<and>
        st_in_flight (store_truncate_loop ?s' b) = st_in_flight ?s'"
      using "1.IH" [OF _ refl _ refl] True inv(5) store_lo_slot [OF "1.prems"]
        store_inv_drop [OF "1.prems"] by simp
    show ?thesis
      unfolding step
      using IH True log_truncate_evict [OF store_log_wf [OF "1.prems"] ne, of b] inv(5)
        store_log_drop [OF "1.prems"] by simp
  qed
qed


subsection \<open>The entry points under the lifetime guard\<close>

definition store_live :: "store \<Rightarrow> bool" where
  "store_live s \<longleftrightarrow> store_inv s \<and> \<not> st_dying s"

lemma store_in_flight_inv [simp]:
  "store_inv (s\<lparr>st_in_flight := k\<rparr>) = store_inv s"
  "store_log (s\<lparr>st_in_flight := k\<rparr>) = store_log s"
  "slot_at (s\<lparr>st_in_flight := k\<rparr>) q = slot_at s q"
  "store_oldest (s\<lparr>st_in_flight := k\<rparr>) = store_oldest s"
  "store_seq_len_impl (s\<lparr>st_in_flight := k\<rparr>) q = store_seq_len_impl s q"
  "store_first_seq_impl (s\<lparr>st_in_flight := k\<rparr>) = store_first_seq_impl s"
  "store_last_seq_impl (s\<lparr>st_in_flight := k\<rparr>) = store_last_seq_impl s"
  "store_accepts (s\<lparr>st_in_flight := k\<rparr>) d = store_accepts s d"
  by (simp_all add: store_inv_def slot_at_def store_log_def store_oldest_def store_seq_len_impl_def
      store_first_seq_impl_def store_last_seq_impl_def store_accepts_def cong: conj_cong)

lemma store_put_in_flight:
  "store_put_owned_impl now (s\<lparr>st_in_flight := k\<rparr>) data =
     (fst (store_put_owned_impl now s data), (snd (store_put_owned_impl now s data))\<lparr>st_in_flight := k\<rparr>)"
  by (auto simp: store_put_owned_impl_def Let_def split: option.splits)

lemma store_end_begin [simp]:
  "store_end_op (s\<lparr>st_in_flight := st_in_flight s + 1\<rparr>) = s"
  by (simp add: store_end_op_def)

lemma cmq_store_put_owned_eq:
  "\<not> st_dying s \<Longrightarrow> cmq_store_put_owned now s (Some d) = store_put_owned_impl now s (Some d)"
  using store_put_frame(2) [of now s "Some d"]
  by (auto simp: cmq_store_put_owned_def store_begin_op_def store_put_in_flight store_end_op_def
      split: prod.splits) (simp_all add: store_put_owned_impl_def)

lemma cmq_store_evict_eq:
  assumes "store_live s"
  shows "cmq_store_evict_seq s q =
    (if 0 < st_count s \<and> q = store_lo s
     then (True, store_drop_slot s ((store_lo s - 1) mod st_cap s)) else (False, s))"
proof -
  have inv: "store_inv s" "\<not> st_dying s" using assms by (auto simp: store_live_def)
  have "store_end_op (store_drop_slot (s\<lparr>st_in_flight := st_in_flight s + 1\<rparr>) i) = store_drop_slot s i" for i
    by (simp add: store_end_op_def store_drop_slot_def)
  with inv store_invD(5) [OF inv(1)] show ?thesis
    by (auto simp: cmq_store_evict_seq_def store_begin_op_def store_evict_eq)
qed

lemma cmq_store_reads:
  assumes "\<not> st_dying s"
  shows "cmq_store_first_seq s = store_first_seq_impl s"
    "cmq_store_last_seq s = store_last_seq_impl s"
    "cmq_store_count s = st_count s"
    "cmq_store_seq_len s q = store_seq_len_impl s q"
  using assms
  by (auto simp: cmq_store_first_seq_def cmq_store_last_seq_def cmq_store_count_def
      cmq_store_seq_len_def store_begin_op_def store_seq_len_impl_def)


section \<open>The contract streams rely on\<close>

locale msg_log =
  fixes inv :: "'s \<Rightarrow> bool"
    and view :: "'s \<Rightarrow> log"
    and capacity :: "'s \<Rightarrow> nat"
    and accepts :: "'s \<Rightarrow> bytes \<Rightarrow> bool"
    and put :: "'s \<Rightarrow> bytes option \<Rightarrow> nat \<times> 's"
    and evict :: "'s \<Rightarrow> nat \<Rightarrow> bool \<times> 's"
    and seq_len :: "'s \<Rightarrow> nat \<Rightarrow> nat option"
    and first_seq :: "'s \<Rightarrow> nat"
    and last_seq :: "'s \<Rightarrow> nat"
    and msg_count :: "'s \<Rightarrow> nat"
  assumes view_wf: "inv s \<Longrightarrow> log_wf (capacity s) (view s)"
    and put_ok: "inv s \<Longrightarrow> accepts s d \<Longrightarrow> put s (Some d) = (r, s') \<Longrightarrow>
      r = fst (view s) \<and> inv s' \<and> view s' = log_put (capacity s) (view s) d \<and> capacity s' = capacity s"
    and put_refused: "inv s \<Longrightarrow> \<not> accepts s d \<Longrightarrow> put s (Some d) = (0, s)"
    and evict_ok: "inv s \<Longrightarrow> evict s q = (True, s') \<Longrightarrow>
      snd (view s) \<noteq> [] \<and> q = log_lo (view s) \<and> inv s' \<and> view s' = log_evict (view s) \<and>
      capacity s' = capacity s"
    and evict_refused: "inv s \<Longrightarrow> evict s q = (False, s') \<Longrightarrow>
      s' = s \<and> (snd (view s) = [] \<or> q \<noteq> log_lo (view s))"
    and seq_len: "inv s \<Longrightarrow> seq_len s q = map_option length (log_at (view s) q)"
    and first_seq: "inv s \<Longrightarrow> first_seq s = (if snd (view s) = [] then 0 else log_lo (view s))"
    and last_seq: "inv s \<Longrightarrow> last_seq s = (if snd (view s) = [] then 0 else fst (view s) - 1)"
    and msg_count: "inv s \<Longrightarrow> msg_count s = length (snd (view s))"
    and seq_bound: "inv s \<Longrightarrow> fst (view s) \<le> UINT64_MAX"
begin

lemma put_cases:
  assumes "inv s" "put s (Some d) = (r, s')"
  obtains "r = 0" "s' = s" "\<not> accepts s d"
    | "r = fst (view s)" "0 < r" "accepts s d" "inv s'"
      "view s' = log_put (capacity s) (view s) d" "capacity s' = capacity s"
proof (cases "accepts s d")
  case True
  from put_ok [OF assms(1) True assms(2)] view_wf [OF assms(1)] True show ?thesis
    by (intro that(2)) (auto simp: log_wf_def)
next
  case False
  with put_refused [OF assms(1)] assms(2) show ?thesis by (intro that(1)) auto
qed

lemma put_keeps:
  assumes "inv s" "put s (Some d) = (r, s')" "log_at (view s) q = Some m"
    "msg_count s < capacity s \<or> q \<noteq> first_seq s"
  shows "log_at (view s') q = Some m"
  using assms(1,2)
proof (cases rule: put_cases)
  case 1
  with assms(3) show ?thesis by simp
next
  case 2
  have "q \<noteq> fst (view s)" using assms(3) by (auto simp: log_at_def split: if_splits)
  moreover have "snd (view s) \<noteq> []" using assms(3) by (auto simp: log_at_def log_lo_def split: if_splits)
  ultimately show ?thesis
    using assms(1,3,4) 2 by (auto simp: log_at_put [OF view_wf [OF assms(1)]] first_seq msg_count)
qed

lemma first_le_last: "inv s \<Longrightarrow> 0 < msg_count s \<Longrightarrow> 0 < first_seq s \<and> first_seq s \<le> last_seq s"
  using view_wf [of s]
  by (cases "snd (view s)") (auto simp: first_seq last_seq msg_count log_wf_def log_lo_def)

lemma retained_iff: "inv s \<Longrightarrow> (\<exists>m. log_at (view s) q = Some m) \<longleftrightarrow> 0 < q \<and> first_seq s \<le> q \<and> q \<le> last_seq s"
  using view_wf [of s] by (auto simp: first_seq last_seq log_at_def log_wf_def log_lo_def split: if_splits)

end

interpretation st: msg_log store_live store_log st_cap store_accepts "cmq_store_put_owned now"
  cmq_store_evict_seq cmq_store_seq_len cmq_store_first_seq cmq_store_last_seq cmq_store_count
  for now
proof (unfold_locales, goal_cases)
  case (1 s)
  then show ?case by (simp add: store_live_def store_log_wf)
next
  case (2 s d r s')
  then have l: "store_inv s" "\<not> st_dying s" by (auto simp: store_live_def)
  with 2(3) have put: "store_put_owned_impl now s (Some d) = (r, s')" by (simp add: cmq_store_put_owned_eq)
  have "st_dying s' = st_dying s" using put store_put_frame(3) [of now s "Some d"] by simp
  with l put store_put_spec [OF l(1) 2(2) put] store_inv_put_ok [OF l(1) 2(2) put]
    store_put_fields(1,3) [OF 2(2) put] show ?case
    by (simp add: store_live_def)
next
  case (3 s d)
  then show ?case by (simp add: store_live_def cmq_store_put_owned_eq store_put_refused)
next
  case (4 s q s')
  then have l: "store_inv s" "\<not> st_dying s" by (auto simp: store_live_def)
  from 4 have c: "0 < st_count s" "q = store_lo s"
    "s' = store_drop_slot s ((store_lo s - 1) mod st_cap s)"
    by (auto simp: cmq_store_evict_eq split: if_splits)
  moreover have "snd (store_log s) \<noteq> []"
    using c(1) store_invD(5) [OF l(1)] store_log_simps(2) [of s] by force
  ultimately show ?case
    using l store_inv_drop [OF l(1) c(1)] store_log_drop [OF l(1) c(1)] store_invD(5) [OF l(1)]
    by (simp add: store_live_def)
next
  case (5 s q s')
  then show ?case
    using store_log_empty [of s] store_invD(5) [of s]
    by (auto simp: cmq_store_evict_eq store_live_def split: if_splits)
next
  case (6 s q)
  then show ?case by (simp add: store_live_def cmq_store_reads store_seq_len_spec)
next
  case (7 s)
  then show ?case by (simp add: store_live_def cmq_store_reads store_first_seq_spec)
next
  case (8 s)
  then show ?case by (simp add: store_live_def cmq_store_reads store_last_seq_spec)
next
  case (9 s)
  then show ?case using store_invD(5) [of s] by (simp add: store_live_def cmq_store_reads)
next
  case (10 s)
  then show ?case using store_invD(3) [of s] by (simp add: store_live_def)
qed


section \<open>Runs of the store\<close>

text \<open>Any thread may run any of the operations that change the store, in any order.\<close>

inductive store_step :: "store \<Rightarrow> store \<Rightarrow> bool" where
  put_owned: "cmq_store_put_owned now s data = (r, s') \<Longrightarrow> store_step s s'"
| put: "cmq_store_put h now s data = (r, s') \<Longrightarrow> store_step s s'"
| evict: "cmq_store_evict_seq s q = (ok, s') \<Longrightarrow> store_step s s'"
| truncate: "cmq_store_truncate s b = s' \<Longrightarrow> store_step s s'"

inductive store_run :: "store \<Rightarrow> store \<Rightarrow> bool" where
  start: "store_run s s"
| more: "store_run s s' \<Longrightarrow> store_step s' s'' \<Longrightarrow> store_run s s''"

lemma cmq_store_put_eq:
  "\<not> st_dying s \<Longrightarrow> cmq_store_put h now s data =
     (if fst (malloc_ok h) then cmq_store_put_owned now s data else (0, s))"
  by (auto simp: cmq_store_put_def cmq_store_put_owned_def store_put_impl_def store_put_owned_impl_def
      store_begin_op_def split: option.splits)

lemma cmq_store_truncate_spec:
  assumes "store_live s"
  shows "store_live (cmq_store_truncate s b) \<and>
    store_log (cmq_store_truncate s b) = (if b \<le> 1 then store_log s else log_truncate (store_log s) b)"
proof -
  have inv: "store_inv s" "\<not> st_dying s" using assms by (auto simp: store_live_def)
  have "store_inv (s\<lparr>st_in_flight := st_in_flight s + 1\<rparr>)" using inv by simp
  note spec = store_truncate_loop_spec [OF this, of b]
  with inv show ?thesis
    by (auto simp: cmq_store_truncate_def store_begin_op_def store_truncate_impl_def store_live_def
        store_end_op_def)
qed

text \<open>
  Every step keeps the store live and never changes a message: it stays where it is or
  is gone.
\<close>

definition log_later :: "log \<Rightarrow> log \<Rightarrow> bool" where
  "log_later l l' \<longleftrightarrow> fst l \<le> fst l' \<and> (\<forall>q. q < fst l \<longrightarrow> log_at l' q = None \<or> log_at l' q = log_at l q)"

lemma log_later_refl: "log_later l l"
  by (simp add: log_later_def)

lemma log_later_trans: "log_later l l' \<Longrightarrow> log_later l' l'' \<Longrightarrow> log_later l l''"
  unfolding log_later_def by (metis less_le_trans le_trans)

lemma log_later_put: "log_wf c l \<Longrightarrow> log_later l (log_put c l d)"
  by (auto simp: log_later_def log_at_put) (simp add: log_put_def)

lemma log_later_evict: "log_wf c l \<Longrightarrow> snd l \<noteq> [] \<Longrightarrow> log_later l (log_evict l)"
  by (auto simp: log_later_def log_at_evict) (simp add: log_evict_def)

lemma log_later_truncate:
  assumes "log_wf c l"
  shows "log_later l (log_truncate l b)"
proof -
  from assms obtain k ms where l: "l = (k + length ms, ms)" "log_lo l = k" by (rule log_wf_cases)
  have "log_lo (log_truncate l b) = k + min (b - k) (length ms)"
    using l by (simp add: log_truncate_def log_lo_def)
  with l show ?thesis
    by (auto simp: log_later_def log_at_def log_truncate_def min_def split: if_splits)
qed

lemma store_step_later:
  assumes "store_step s s'" "store_live s"
  shows "store_live s' \<and> log_later (store_log s) (store_log s')"
  using assms(1)
proof cases
  case (put_owned now data r)
  then show ?thesis
  proof (cases data)
    case None
    with put_owned assms(2) show ?thesis by (simp add: cmq_store_put_owned_def log_later_refl)
  next
    case (Some d)
    show ?thesis
      using assms(2) put_owned [unfolded Some]
      by (cases rule: st.put_cases) (simp_all add: assms(2) log_later_refl log_later_put st.view_wf)
  qed
next
  case (put h now data r)
  have nd: "\<not> st_dying s" using assms(2) by (simp add: store_live_def)
  show ?thesis
  proof (cases "fst (malloc_ok h) \<and> data \<noteq> None")
    case True
    then obtain d where d: "data = Some d" by blast
    from put True nd have po: "cmq_store_put_owned now s (Some d) = (r, s')"
      by (simp add: cmq_store_put_eq d)
    show ?thesis
      using assms(2) po
      by (cases rule: st.put_cases) (simp_all add: assms(2) log_later_refl log_later_put st.view_wf)
  next
    case False
    with put nd assms(2) show ?thesis
      by (auto simp: cmq_store_put_eq cmq_store_put_owned_def log_later_refl split: if_splits)
  qed
next
  case (evict q ok)
  with assms(2) st.evict_ok [of s q s'] st.evict_refused [of s q s'] show ?thesis
    by (cases ok) (auto simp: log_later_refl intro: log_later_evict [OF st.view_wf])
next
  case (truncate b)
  with cmq_store_truncate_spec [OF assms(2), of b] show ?thesis
    by (cases "b \<le> 1") (simp_all add: log_later_refl log_later_truncate [OF st.view_wf [OF assms(2)]])
qed

lemma store_run_later:
  "store_run s s' \<Longrightarrow> store_live s \<Longrightarrow> store_live s' \<and> log_later (store_log s) (store_log s')"
  by (induction rule: store_run.induct)
    (auto simp: log_later_refl dest: store_step_later intro: log_later_trans)

lemma cmq_store_create_live:
  "cmq_store_create h n = Some s \<Longrightarrow> store_live s \<and> store_log s = (1, []) \<and> st_cap s = (if n = 0 then 1024 else n)"
  by (auto simp: cmq_store_create_def Let_def store_live_def store_inv_def store_log_def
      empty_slot_def UINT64_MAX_def split: if_splits prod.splits bool.splits)

lemma store_get_some:
  assumes "store_get_impl h s s' q = Some m"
  shows "msg_seq m = q" "0 < q" "q < st_head_seq s" "q < st_head_seq s'"
    "sl_valid (slot_at s q)" "sl_seq (slot_at s q) = q"
    "sl_valid (slot_at s' q)" "sl_seq (slot_at s' q) = q"
    "msg_len m = sl_len (slot_at s q)" "msg_timestamp_ms m = sl_timestamp_ms (slot_at s q)"
    "\<exists>d. sl_data (slot_at s' q) = Some d \<and> msg_data m = take (sl_len (slot_at s q)) d"
    "sl_len (slot_at s' q) = sl_len (slot_at s q)"
  using assms by (auto simp: store_get_impl_def Let_def split: if_splits option.splits)

lemma store_get_at:
  assumes "store_inv s'" "store_get_impl h s s' q = Some m"
  shows "log_at (store_log s') q = Some (msg_data m) \<and> msg_len m = length (msg_data m)"
proof -
  note g = store_get_some [OF assms(2)]
  have w: "store_lo s' \<le> q" using slot_live_iff [OF assms(1) g(4)] g(7,8) by simp
  from store_invD(6) [OF assms(1) w g(4)] g(9,11,12) show ?thesis
    using w g(4) by (auto simp: log_at_store [OF assms(1)] slot_ok_def)
qed

lemma store_put_get:
  assumes "store_live s" "store_accepts s d" "cmq_store_put_owned now s (Some d) = (r, s')"
  shows "cmq_store_get [] s' s' r =
    Some \<lparr>msg_seq = r, msg_data = d, msg_len = length d, msg_timestamp_ms = now\<rparr>"
proof -
  have inv: "store_inv s" "\<not> st_dying s" using assms(1) by (auto simp: store_live_def)
  then have put: "store_put_owned_impl now s (Some d) = (r, s')"
    using assms(3) by (simp add: cmq_store_put_owned_eq)
  have inv': "store_inv s'" by (rule store_inv_put_ok [OF inv(1) assms(2) put])
  have nd: "\<not> st_dying s'" using store_put_frame(3) [of now s "Some d"] put inv(2) by simp
  note f = store_put_fields [OF assms(2) put]
  have r: "store_lo s' \<le> r" "r < st_head_seq s'" "0 < r"
    using f store_put_lo [OF inv(1) assms(2) put] store_invD(1,4,5) [OF inv(1)] by auto
  have sl: "slot_at s' r = \<lparr>sl_seq = r, sl_data = Some d, sl_len = length d, sl_timestamp_ms = now,
      sl_valid = True\<rparr>"
    by (simp add: store_put_slots [OF inv(1) assms(2) put] f(1))
  with r nd store_oldest_le [OF inv' r(1)] show ?thesis
    by (simp add: cmq_store_get_def store_begin_op_def store_get_impl_def Let_def not_less)
qed

lemma cmq_store_get_eq:
  assumes "\<not> st_dying s"
  shows "cmq_store_get h s s' q = store_get_impl h s s' q"
proof (cases "q = 0")
  case True
  then show ?thesis by (simp add: cmq_store_get_def store_get_impl_def)
next
  case False
  have "store_get_impl h (s\<lparr>st_in_flight := k\<rparr>) s' q = store_get_impl h s s' q" for k
    by (simp add: store_get_impl_def)
  with False assms show ?thesis by (simp add: cmq_store_get_def store_begin_op_def)
qed

section \<open>Properties\<close>

text \<open>
  C5. The ring implements a bounded log. A put that is accepted returns the next sequence
  number, appends the message to the log (dropping the oldest one exactly when the ring is
  full) and can be read back with its time stamp; a put that is refused (empty or oversize
  message, exhausted sequence numbers) returns 0 and changes nothing.
\<close>

theorem store_put_refines:
  assumes "store_live s" "cmq_store_put_owned now s (Some d) = (r, s')"
  shows "store_live s' \<and>
    (if store_accepts s d
     then r = fst (store_log s) \<and> store_log s' = log_put (st_cap s) (store_log s) d \<and>
       cmq_store_get [] s' s' r =
         Some \<lparr>msg_seq = r, msg_data = d, msg_len = length d, msg_timestamp_ms = now\<rparr>
     else r = 0 \<and> s' = s)"
  using assms(1,2)
proof (cases rule: st.put_cases)
  case 1
  with assms(1) show ?thesis by simp
next
  case 2
  with store_put_get [OF assms(1) _ assms(2)] show ?thesis by simp
qed

text \<open>A ring of one slot: the second put drops the first message.\<close>

definition store_example :: store where
  "store_example = the (cmq_store_create [] 1)"

lemma store_example_live: "store_live store_example" "st_cap store_example = 1" "store_log store_example = (1, [])"
proof -
  have "cmq_store_create [] 1 = Some store_example"
    by (simp add: store_example_def cmq_store_create_def Let_def SIZE_MAX_def sizeof_store_slot_def)
  from cmq_store_create_live [OF this]
  show "store_live store_example" "st_cap store_example = 1" "store_log store_example = (1, [])"
    by simp_all
qed

lemma store_example_accepts: "store_accepts store_example [7, 8]"
  using store_log_simps(1) [of store_example]
  by (simp add: store_accepts_def store_example_live STORE_MAX_MSG_def UINT64_MAX_def)

theorem store_put_refines_witness:
  "store_live store_example \<and> store_accepts store_example [7, 8] \<and>
   fst (cmq_store_put_owned 5 store_example (Some [7, 8])) = 1 \<and>
   store_log (snd (cmq_store_put_owned 5 store_example (Some [7, 8]))) = (2, [[7, 8]])"
  using store_put_refines [OF store_example_live(1) prod.collapse [symmetric], of 5 "[7, 8]"]
    store_example_accepts
  by (simp add: store_example_live log_put_def)

text \<open>
  C14. Reading is safe against every other thread: although \<open>cmq_store_get\<close> drops the lock
  while it allocates, and any operations may run in between, a message it returns is the
  one that had this sequence number all along, whole and with its own length.
\<close>

theorem store_get_race:
  assumes "store_live s" "store_run s s'" "cmq_store_get h s s' q = Some m"
  shows "msg_seq m = q \<and> log_at (store_log s) q = Some (msg_data m) \<and>
    log_at (store_log s') q = Some (msg_data m) \<and> msg_len m = length (msg_data m)"
proof -
  have inv: "store_inv s" "\<not> st_dying s" using assms(1) by (auto simp: store_live_def)
  have later: "store_inv s'" "log_later (store_log s) (store_log s')"
    using store_run_later [OF assms(2,1)] by (auto simp: store_live_def)
  from assms(3) have g: "store_get_impl h s s' q = Some m" by (simp add: cmq_store_get_eq [OF inv(2)])
  note at = store_get_at [OF later(1) g] and sm = store_get_some [OF g]
  with later(2) show ?thesis by (auto simp: log_later_def)
qed

theorem store_get_race_witness:
  "\<exists>s m. cmq_store_put_owned 5 store_example (Some [7, 8]) = (1, s) \<and> store_run s s \<and>
     cmq_store_get [] s s 1 = Some m \<and> msg_seq m = 1 \<and> log_at (store_log s) 1 = Some (msg_data m)"
proof -
  obtain r s where put: "cmq_store_put_owned 5 store_example (Some [7, 8]) = (r, s)" by fastforce
  from st.put_ok [OF store_example_live(1) store_example_accepts put]
  have s: "r = 1" "store_live s" by (simp_all add: store_example_live)
  from store_put_get [OF store_example_live(1) store_example_accepts put]
  obtain m where g: "cmq_store_get [] s s 1 = Some m" using s(1) by blast
  from store_get_race [OF s(2) store_run.start g] put g s store_run.start [of s] show ?thesis by blast
qed

text \<open>
  C17. The window of the store has no holes: in every state reached from a fresh store,
  whatever puts, evictions and truncations ran, a message can be read exactly if its number
  lies between \<open>cmq_store_first_seq\<close> and \<open>cmq_store_last_seq\<close>, and there are never more
  messages than the ring has slots.
\<close>

theorem store_window:
  assumes "cmq_store_create h n = Some s0" "store_run s0 s" "fst (malloc_ok h')"
  shows "((\<exists>m. cmq_store_get h' s s q = Some m) \<longleftrightarrow>
      0 < q \<and> cmq_store_first_seq s \<le> q \<and> q \<le> cmq_store_last_seq s) \<and>
    cmq_store_count s \<le> st_cap s"
proof -
  have live: "store_live s"
    using store_run_later [OF assms(2)] cmq_store_create_live [OF assms(1)] by blast
  then have inv: "store_inv s" "\<not> st_dying s" by (auto simp: store_live_def)
  have "log_at (store_log s) q = map_option msg_data (cmq_store_get h' s s q)"
    using store_get_spec [OF inv(1) assms(3), of q] cmq_store_get_eq [OF inv(2)] by simp
  then have "(\<exists>m. cmq_store_get h' s s q = Some m) \<longleftrightarrow> (\<exists>d. log_at (store_log s) q = Some d)"
    by (cases "cmq_store_get h' s s q") auto
  with st.retained_iff [OF live, of q] store_invD(4) [OF inv(1)] inv(2) show ?thesis
    by (simp add: cmq_store_reads)
qed

theorem store_window_witness:
  "\<not> (\<exists>m. cmq_store_get [] store_example store_example 1 = Some m) \<and>
   \<not> (0 < (1::nat) \<and> cmq_store_first_seq store_example \<le> 1 \<and> 1 \<le> cmq_store_last_seq store_example)"
proof -
  have c: "cmq_store_create [] 1 = Some store_example"
    by (simp add: store_example_def cmq_store_create_def Let_def SIZE_MAX_def sizeof_store_slot_def)
  have "\<not> st_dying store_example" using store_example_live(1) by (simp add: store_live_def)
  moreover have "st_count store_example = 0"
    using store_example_live by (simp add: store_live_def store_inv_def store_log_def)
  ultimately show ?thesis
    using store_window [OF c store_run.start, of "[]" 1]
    by (simp add: cmq_store_reads store_last_seq_impl_def)
qed

end
