(* ===== verification/CMQ_Stream.thy ===== *)
theory CMQ_Stream
  imports CMQ_Store
begin

text \<open>
  Streams (\<^verbatim>\<open>src/store/cmq_stream.c\<close>): a message store with named consumers, each with an
  acknowledgement watermark per hash partition, and retention that never drops what a
  consumer has not acknowledged. The cursor file is a copy of the watermarks written after
  they change; writing it leaves the stream as it is, so it does not appear in the state.
\<close>

section \<open>State\<close>

record consumer =
  co_name :: string
  co_acked_seq :: nat
  co_acked_part :: "nat list"

record stream =
  sm_name :: string
  sm_store :: store
  sm_consumers :: "consumer list"
  sm_max_msgs :: nat
  sm_max_bytes :: nat
  sm_total_bytes :: nat
  sm_cursor_path :: string
  sm_nparts :: nat
  sm_msg_part :: "nat list option"
  sm_part_cap :: nat
  sm_in_flight :: int
  sm_dying :: bool

definition CMQ_MAX_CONSUMERS :: nat where "CMQ_MAX_CONSUMERS = 64"
definition CMQ_MAX_NAME :: nat where "CMQ_MAX_NAME = 128"
definition CMQ_STREAM_MAX_PARTS :: nat where "CMQ_STREAM_MAX_PARTS = 16"

definition stream_begin_op :: "stream \<Rightarrow> bool \<times> stream" where
  "stream_begin_op s =
     (if sm_dying s then (False, s) else (True, s\<lparr>sm_in_flight := sm_in_flight s + 1\<rparr>))"

definition stream_end_op :: "stream \<Rightarrow> stream" where
  "stream_end_op s = s\<lparr>sm_in_flight := sm_in_flight s - 1\<rparr>"

definition cursor_token_safe :: "string \<Rightarrow> bool" where
  "cursor_token_safe s \<longleftrightarrow> s \<noteq> [] \<and> list_all token_char s"

section \<open>Consumers and partitions\<close>

definition consumer_init_parts :: "consumer \<Rightarrow> nat \<Rightarrow> consumer" where
  "consumer_init_parts c seq =
     c\<lparr>co_acked_seq := seq, co_acked_part := replicate CMQ_STREAM_MAX_PARTS seq\<rparr>"

fun acked_min :: "nat list \<Rightarrow> nat \<Rightarrow> nat" where
  "acked_min [] m = m"
| "acked_min (a # as) m = acked_min as (if a < m then a else m)"

definition consumer_sync_acked :: "consumer \<Rightarrow> nat \<Rightarrow> consumer" where
  "consumer_sync_acked c nparts =
     (if nparts \<le> 1 then c
      else c\<lparr>co_acked_seq :=
             acked_min (drop 1 (take nparts (co_acked_part c))) (co_acked_part c ! 0)\<rparr>)"

definition part_at_locked :: "stream \<Rightarrow> nat \<Rightarrow> nat" where
  "part_at_locked s seq =
     (case sm_msg_part s of
        None \<Rightarrow> 0
      | Some mp \<Rightarrow>
          if sm_nparts s \<le> 1 \<or> sm_part_cap s = 0 \<or> seq = 0 then 0
          else mp ! ((seq - 1) mod sm_part_cap s))"

definition parts_alloc_locked :: "heap \<Rightarrow> stream \<Rightarrow> nat \<Rightarrow> bool \<times> stream" where
  "parts_alloc_locked h s n =
     (if n < 1 \<or> n > CMQ_STREAM_MAX_PARTS then (False, s)
      else if n = 1 then
        (True, s\<lparr>sm_msg_part := None, sm_part_cap := 0, sm_nparts := 1\<rparr>)
      else if \<not> fst (malloc_ok h) then (False, s)
      else
        (True, s\<lparr>sm_msg_part := Some (replicate (sm_max_msgs s) 0),
                 sm_part_cap := sm_max_msgs s, sm_nparts := n\<rparr>))"

text \<open>The loops over the consumer table stop at the first entry with the name.\<close>

fun consumer_lookup :: "consumer list \<Rightarrow> string \<Rightarrow> consumer option" where
  "consumer_lookup [] name = None"
| "consumer_lookup (c # cs) name = (if co_name c = name then Some c else consumer_lookup cs name)"

fun consumer_update :: "consumer list \<Rightarrow> string \<Rightarrow> (consumer \<Rightarrow> consumer) \<Rightarrow> consumer list" where
  "consumer_update [] name f = []"
| "consumer_update (c # cs) name f =
     (if co_name c = name then f c # cs else c # consumer_update cs name f)"

fun consumer_delete :: "consumer list \<Rightarrow> string \<Rightarrow> consumer list option" where
  "consumer_delete [] name = None"
| "consumer_delete (c # cs) name =
     (if co_name c = name then Some cs else map_option ((#) c) (consumer_delete cs name))"

section \<open>Creation\<close>

definition cmq_stream_create :: "heap \<Rightarrow> string \<Rightarrow> nat \<Rightarrow> nat \<Rightarrow> stream option" where
  "cmq_stream_create h name max_msgs max_bytes =
     (if strnlen name CMQ_MAX_NAME \<ge> CMQ_MAX_NAME then None
      else case malloc_ok h of
        (False, _) \<Rightarrow> None
      | (True, h) \<Rightarrow>
          (case cmq_store_create h (if max_msgs > 0 then max_msgs else 1024) of
             None \<Rightarrow> None
           | Some st \<Rightarrow>
               Some \<lparr>sm_name = name, sm_store = st, sm_consumers = [],
                     sm_max_msgs = (if max_msgs > 0 then max_msgs else 1024),
                     sm_max_bytes = max_bytes, sm_total_bytes = 0, sm_cursor_path = [],
                     sm_nparts = 1, sm_msg_part = None, sm_part_cap = 0,
                     sm_in_flight = 0, sm_dying = False\<rparr>))"

definition cmq_stream_name :: "stream \<Rightarrow> nat \<Rightarrow> string option" where
  "cmq_stream_name s out_len =
     (if out_len = 0 then None
      else case stream_begin_op s of
        (False, _) \<Rightarrow> None
      | (True, s) \<Rightarrow>
          if strnlen (sm_name s) CMQ_MAX_NAME + 1 > out_len then None
          else Some (take (strnlen (sm_name s) CMQ_MAX_NAME) (sm_name s)))"

section \<open>Append and retention\<close>

fun part_floor :: "nat list \<Rightarrow> nat \<Rightarrow> nat \<Rightarrow> nat \<Rightarrow> nat" where
  "part_floor [] firstq lastq floor = floor"
| "part_floor (a # as) firstq lastq floor =
     (let acked = (if a > lastq then lastq else a);
          f = wrap64 (acked + 1);
          f = (if firstq > 0 \<and> f < firstq then firstq else f)
      in part_floor as firstq lastq (if f < floor then f else floor))"

definition consumer_floor_locked :: "stream \<Rightarrow> consumer \<Rightarrow> nat \<Rightarrow> nat \<Rightarrow> nat" where
  "consumer_floor_locked s c firstq lastq =
     (let n = (if sm_nparts s > 1 then sm_nparts s else 1)
      in if n \<le> 1 then
           (let acked = co_acked_seq c;
                acked = (if acked > lastq then lastq else acked);
                floor = wrap64 (acked + 1)
            in if firstq > 0 \<and> floor < firstq then firstq else floor)
         else part_floor (take n (co_acked_part c)) firstq lastq UINT64_MAX)"

fun retain_floor :: "stream \<Rightarrow> consumer list \<Rightarrow> nat \<Rightarrow> nat \<Rightarrow> nat \<Rightarrow> nat" where
  "retain_floor s [] firstq lastq r = r"
| "retain_floor s (c # cs) firstq lastq r =
     (let floor = consumer_floor_locked s c firstq lastq
      in retain_floor s cs firstq lastq (if floor < r then floor else r))"

definition stream_over :: "stream \<Rightarrow> nat \<Rightarrow> bool" where
  "stream_over s len \<longleftrightarrow>
     sm_total_bytes s \<ge> sm_max_bytes s \<or> sm_total_bytes s \<ge> SIZE_MAX \<or>
     len > SIZE_MAX - sm_total_bytes s \<or> sm_total_bytes s + len > sm_max_bytes s"

definition debit :: "nat \<Rightarrow> nat \<Rightarrow> nat" where
  "debit tot n = (if tot \<ge> n then tot - n else 0)"

function stream_evict_loop :: "stream \<Rightarrow> nat \<Rightarrow> nat \<Rightarrow> nat \<Rightarrow> nat \<Rightarrow> stream" where
  "stream_evict_loop s len retain firstq lastq =
     (if firstq \<le> lastq then
        (if \<not> stream_over s len then s
         else if firstq \<ge> retain then s
         else case cmq_store_seq_len (sm_store s) firstq of
           None \<Rightarrow> s
         | Some mlen \<Rightarrow>
             (case cmq_store_evict_seq (sm_store s) firstq of
                (False, st) \<Rightarrow> s\<lparr>sm_store := st\<rparr>
              | (True, st) \<Rightarrow>
                  stream_evict_loop
                    (s\<lparr>sm_store := st, sm_total_bytes := debit (sm_total_bytes s) mlen\<rparr>)
                    len retain (firstq + 1) lastq))
      else s)"
  by pat_completeness auto
termination
  by (relation "measure (\<lambda>(s, len, retain, firstq, lastq). Suc lastq - firstq)") auto

declare stream_evict_loop.simps [simp del]

text \<open>The ring-wrap guard: the bytes the put will overwrite, or a refusal.\<close>

definition stream_wrap_debit :: "stream \<Rightarrow> nat \<Rightarrow> nat option" where
  "stream_wrap_debit s retain =
     (if cmq_store_count (sm_store s) \<ge> sm_max_msgs s then
        (let firstq = cmq_store_first_seq (sm_store s)
         in if firstq \<ge> retain then None else cmq_store_seq_len (sm_store s) firstq)
      else Some 0)"

definition stream_put_locked :: "nat \<Rightarrow> stream \<Rightarrow> bytes \<Rightarrow> nat \<Rightarrow> nat \<Rightarrow> nat \<times> stream" where
  "stream_put_locked now s d part wrap_debit =
     (case cmq_store_put_owned now (sm_store s) (Some d) of
        (seq, st) \<Rightarrow>
          if seq > 0 then
            (let tot = (if wrap_debit > 0 then debit (sm_total_bytes s) wrap_debit
                          else sm_total_bytes s)
             in (seq,
                 s\<lparr>sm_store := st,
                   sm_msg_part :=
                     (case sm_msg_part s of
                        None \<Rightarrow> None
                      | Some mp \<Rightarrow>
                          Some (if sm_part_cap s > 0
                                then mp[(seq - 1) mod sm_part_cap s := part mod 256] else mp)),
                   sm_total_bytes :=
                     (if length d > SIZE_MAX - tot then SIZE_MAX else tot + length d)\<rparr>))
          else (seq, s\<lparr>sm_store := st\<rparr>))"

definition stream_append_impl :: "heap \<Rightarrow> nat \<Rightarrow> stream \<Rightarrow> bytes option \<Rightarrow> nat \<Rightarrow> nat \<times> stream" where
  "stream_append_impl h now s data part =
     (case data of
        None \<Rightarrow> (0, s)
      | Some d \<Rightarrow>
          if d = [] then (0, s)
          else if \<not> fst (malloc_ok h) then (0, s)
          else
            (let len = length d;
                 last_seq = cmq_store_last_seq (sm_store s);
                 first_seq = cmq_store_first_seq (sm_store s);
                 retain = retain_floor s (sm_consumers s) first_seq last_seq UINT64_MAX;
                 over = sm_max_bytes s > 0 \<and> stream_over s len;
                 s1 = (if over then stream_evict_loop s len retain first_seq last_seq else s)
             in if over \<and> stream_over s1 len then (0, s1)
                else case stream_wrap_debit s1 retain of
                  None \<Rightarrow> (0, s1)
                | Some wrap_debit \<Rightarrow> stream_put_locked now s1 d part wrap_debit))"

definition cmq_stream_append :: "heap \<Rightarrow> nat \<Rightarrow> stream \<Rightarrow> bytes option \<Rightarrow> nat \<times> stream" where
  "cmq_stream_append h now s data =
     (if data = None \<or> data = Some [] then (0, s)
      else case stream_begin_op s of
        (False, s) \<Rightarrow> (0, s)
      | (True, s) \<Rightarrow> (case stream_append_impl h now s data 0 of (seq, s) \<Rightarrow> (seq, stream_end_op s)))"

fun fnv1a32 :: "u32 \<Rightarrow> bytes \<Rightarrow> u32" where
  "fnv1a32 h [] = h"
| "fnv1a32 h (b # bs) = fnv1a32 ((h XOR ucast b) * 16777619) bs"

definition cmq_stream_partition_of :: "bytes option \<Rightarrow> nat \<Rightarrow> nat" where
  "cmq_stream_partition_of key n =
     (case key of
        None \<Rightarrow> 0
      | Some k \<Rightarrow> if k = [] \<or> n < 1 then 0 else unat (fnv1a32 2166136261 k) mod n)"

definition cmq_stream_append_key ::
    "heap \<Rightarrow> nat \<Rightarrow> stream \<Rightarrow> bytes option \<Rightarrow> bytes option \<Rightarrow> nat \<times> stream" where
  "cmq_stream_append_key h now s key data =
     (if key = None \<or> key = Some [] \<or> data = None \<or> data = Some [] then (0, s)
      else case stream_begin_op s of
        (False, s) \<Rightarrow> (0, s)
      | (True, s) \<Rightarrow>
          (let n = sm_nparts s;
               part = (if n > 1 then cmq_stream_partition_of key n else 0)
           in case stream_append_impl h now s data part of (seq, s) \<Rightarrow> (seq, stream_end_op s)))"

section \<open>Reading\<close>

definition cmq_stream_read :: "heap \<Rightarrow> stream \<Rightarrow> store \<Rightarrow> nat \<Rightarrow> store_msg option" where
  "cmq_stream_read h s st' seq =
     (case stream_begin_op s of
        (False, _) \<Rightarrow> None
      | (True, s) \<Rightarrow> cmq_store_get h (sm_store s) st' seq)"

definition cmq_stream_msg_count :: "stream \<Rightarrow> nat" where
  "cmq_stream_msg_count s =
     (case stream_begin_op s of (False, _) \<Rightarrow> 0 | (True, s) \<Rightarrow> cmq_store_count (sm_store s))"

definition cmq_stream_first_seq :: "stream \<Rightarrow> nat" where
  "cmq_stream_first_seq s =
     (case stream_begin_op s of (False, _) \<Rightarrow> 0 | (True, s) \<Rightarrow> cmq_store_first_seq (sm_store s))"

definition cmq_stream_last_seq :: "stream \<Rightarrow> nat" where
  "cmq_stream_last_seq s =
     (case stream_begin_op s of (False, _) \<Rightarrow> 0 | (True, s) \<Rightarrow> cmq_store_last_seq (sm_store s))"

section \<open>Consumer operations\<close>

definition stream_add_consumer_impl :: "stream \<Rightarrow> string \<Rightarrow> bool \<times> stream" where
  "stream_add_consumer_impl s name =
     (let nlen = strnlen name CMQ_MAX_NAME
      in if nlen = 0 \<or> nlen \<ge> CMQ_MAX_NAME then (False, s)
         else if consumer_lookup (sm_consumers s) name \<noteq> None then (True, s)
         else if length (sm_consumers s) \<ge> CMQ_MAX_CONSUMERS then (False, s)
         else
           (let firstq = cmq_store_first_seq (sm_store s);
                c = consumer_init_parts \<lparr>co_name = name, co_acked_seq = 0, co_acked_part = []\<rparr>
                      (if firstq > 0 then firstq - 1 else 0)
            in (True, s\<lparr>sm_consumers := sm_consumers s @ [c]\<rparr>)))"

definition cmq_stream_add_consumer :: "stream \<Rightarrow> string \<Rightarrow> bool \<times> stream" where
  "cmq_stream_add_consumer s name =
     (case stream_begin_op s of
        (False, s) \<Rightarrow> (False, s)
      | (True, s) \<Rightarrow>
          (if sm_cursor_path s \<noteq> [] \<and> \<not> cursor_token_safe name then (False, stream_end_op s)
           else case stream_add_consumer_impl s name of (ok, s) \<Rightarrow> (ok, stream_end_op s)))"

definition stream_remove_consumer_impl :: "stream \<Rightarrow> string \<Rightarrow> bool \<times> stream" where
  "stream_remove_consumer_impl s name =
     (case consumer_delete (sm_consumers s) name of
        None \<Rightarrow> (False, s)
      | Some cs \<Rightarrow> (True, s\<lparr>sm_consumers := cs\<rparr>))"

definition cmq_stream_remove_consumer :: "stream \<Rightarrow> string \<Rightarrow> bool \<times> stream" where
  "cmq_stream_remove_consumer s name =
     (case stream_begin_op s of
        (False, s) \<Rightarrow> (False, s)
      | (True, s) \<Rightarrow> (case stream_remove_consumer_impl s name of (ok, s) \<Rightarrow> (ok, stream_end_op s)))"

definition stream_consumer_state_impl :: "stream \<Rightarrow> string \<Rightarrow> nat \<times> nat" where
  "stream_consumer_state_impl s name =
     (case consumer_lookup (sm_consumers s) name of
        None \<Rightarrow> (0, 0)
      | Some c \<Rightarrow>
          (let firstq = cmq_store_first_seq (sm_store s);
               lastq = cmq_store_last_seq (sm_store s);
               base = co_acked_seq c;
               base = (if firstq > 0 \<and> wrap64 (base + 1) < firstq then firstq - 1 else base)
           in (co_acked_seq c,
               if lastq > base
               then (if lastq - base > UINT32_MAX then UINT32_MAX else lastq - base) else 0)))"

definition cmq_stream_consumer_state :: "stream \<Rightarrow> string \<Rightarrow> nat \<times> nat" where
  "cmq_stream_consumer_state s name =
     (case stream_begin_op s of
        (False, _) \<Rightarrow> (0, 0) | (True, s) \<Rightarrow> stream_consumer_state_impl s name)"

definition stream_consumer_next_impl :: "stream \<Rightarrow> string \<Rightarrow> nat" where
  "stream_consumer_next_impl s name =
     (case consumer_lookup (sm_consumers s) name of
        None \<Rightarrow> 0
      | Some c \<Rightarrow>
          (let nxt = wrap64 (co_acked_seq c + 1);
               firstq = cmq_store_first_seq (sm_store s);
               lastq = cmq_store_last_seq (sm_store s);
               nxt = (if firstq > 0 \<and> nxt < firstq then firstq else nxt)
           in if lastq = 0 \<or> nxt > lastq then 0 else nxt))"

definition cmq_stream_consumer_next :: "stream \<Rightarrow> string \<Rightarrow> nat" where
  "cmq_stream_consumer_next s name =
     (case stream_begin_op s of
        (False, _) \<Rightarrow> 0 | (True, s) \<Rightarrow> stream_consumer_next_impl s name)"

definition consumer_ack :: "stream \<Rightarrow> nat \<Rightarrow> consumer \<Rightarrow> consumer" where
  "consumer_ack s seq c =
     (let c1 = (if seq > co_acked_seq c then c\<lparr>co_acked_seq := seq\<rparr> else c)
      in if sm_nparts s > 1 then
           (let p = part_at_locked s seq;
                c2 = (if p < sm_nparts s \<and> seq > co_acked_part c1 ! p
                      then c1\<lparr>co_acked_part := (co_acked_part c1)[p := seq]\<rparr> else c1)
            in consumer_sync_acked c2 (sm_nparts s))
         else c1)"

definition stream_consumer_ack_impl :: "stream \<Rightarrow> string \<Rightarrow> nat \<Rightarrow> bool \<times> stream" where
  "stream_consumer_ack_impl s name seq =
     (if seq = 0 then (False, s)
      else
        (let lastq = cmq_store_last_seq (sm_store s);
             firstq = cmq_store_first_seq (sm_store s)
         in if seq > lastq \<or> (firstq > 0 \<and> seq < firstq) then (False, s)
            else if consumer_lookup (sm_consumers s) name = None then (False, s)
            else (True, s\<lparr>sm_consumers :=
                           consumer_update (sm_consumers s) name (consumer_ack s seq)\<rparr>)))"

definition cmq_stream_consumer_ack :: "stream \<Rightarrow> string \<Rightarrow> nat \<Rightarrow> bool \<times> stream" where
  "cmq_stream_consumer_ack s name seq =
     (if seq = 0 then (False, s)
      else case stream_begin_op s of
        (False, s) \<Rightarrow> (False, s)
      | (True, s) \<Rightarrow> (case stream_consumer_ack_impl s name seq of (ok, s) \<Rightarrow> (ok, stream_end_op s)))"

section \<open>Partitions\<close>

definition cmq_stream_set_partitions :: "heap \<Rightarrow> stream \<Rightarrow> nat \<Rightarrow> bool \<times> stream" where
  "cmq_stream_set_partitions h s n =
     (if n < 1 \<or> n > CMQ_STREAM_MAX_PARTS then (False, s)
      else case stream_begin_op s of
        (False, s) \<Rightarrow> (False, s)
      | (True, s) \<Rightarrow>
          (if sm_nparts s \<noteq> n then
             (if cmq_store_last_seq (sm_store s) \<noteq> 0 then (False, stream_end_op s)
              else case parts_alloc_locked h s n of
                (False, s) \<Rightarrow> (False, stream_end_op s)
              | (True, s) \<Rightarrow>
                  (True, stream_end_op
                     (s\<lparr>sm_consumers :=
                        map (\<lambda>c. consumer_init_parts c (co_acked_seq c)) (sm_consumers s)\<rparr>)))
           else (True, stream_end_op s)))"

definition cmq_stream_partitions :: "stream \<Rightarrow> nat" where
  "cmq_stream_partitions s =
     (case stream_begin_op s of (False, _) \<Rightarrow> 0 | (True, s) \<Rightarrow> sm_nparts s)"

function part_search :: "stream \<Rightarrow> nat \<Rightarrow> nat \<Rightarrow> nat \<Rightarrow> nat" where
  "part_search s part q lastq =
     (if q \<le> lastq then (if part_at_locked s q = part then q else part_search s part (q + 1) lastq)
      else 0)"
  by pat_completeness auto
termination
  by (relation "measure (\<lambda>(s, part, q, lastq). Suc lastq - q)") auto

declare part_search.simps [simp del]

definition stream_consumer_next_part_impl :: "stream \<Rightarrow> string \<Rightarrow> nat \<Rightarrow> nat" where
  "stream_consumer_next_part_impl s name part =
     (if part \<ge> sm_nparts s then 0
      else case consumer_lookup (sm_consumers s) name of
        None \<Rightarrow> 0
      | Some c \<Rightarrow>
          (let acked = (if sm_nparts s > 1 then co_acked_part c ! part else co_acked_seq c);
               start = wrap64 (acked + 1);
               firstq = cmq_store_first_seq (sm_store s);
               lastq = cmq_store_last_seq (sm_store s);
               start = (if firstq > 0 \<and> start < firstq then firstq else start)
           in if lastq = 0 \<or> start > lastq then 0
              else if sm_nparts s \<le> 1 then start
              else part_search s part start lastq))"

definition cmq_stream_consumer_next_part :: "stream \<Rightarrow> string \<Rightarrow> nat \<Rightarrow> nat" where
  "cmq_stream_consumer_next_part s name part =
     (case stream_begin_op s of
        (False, _) \<Rightarrow> 0 | (True, s) \<Rightarrow> stream_consumer_next_part_impl s name part)"

definition consumer_ack_part :: "stream \<Rightarrow> nat \<Rightarrow> nat \<Rightarrow> consumer \<Rightarrow> consumer" where
  "consumer_ack_part s part seq c =
     (if sm_nparts s > 1 then
        consumer_sync_acked
          (if seq > co_acked_part c ! part
           then c\<lparr>co_acked_part := (co_acked_part c)[part := seq]\<rparr> else c)
          (sm_nparts s)
      else if seq > co_acked_seq c then c\<lparr>co_acked_seq := seq\<rparr>
      else c)"

definition stream_consumer_ack_part_impl :: "stream \<Rightarrow> string \<Rightarrow> nat \<Rightarrow> nat \<Rightarrow> bool \<times> stream" where
  "stream_consumer_ack_part_impl s name part seq =
     (if seq = 0 then (False, s)
      else if part \<ge> sm_nparts s then (False, s)
      else
        (let lastq = cmq_store_last_seq (sm_store s);
             firstq = cmq_store_first_seq (sm_store s)
         in if seq > lastq \<or> (firstq > 0 \<and> seq < firstq) then (False, s)
            else if sm_nparts s > 1 \<and> part_at_locked s seq \<noteq> part then (False, s)
            else if consumer_lookup (sm_consumers s) name = None then (False, s)
            else (True, s\<lparr>sm_consumers :=
                           consumer_update (sm_consumers s) name (consumer_ack_part s part seq)\<rparr>)))"

definition cmq_stream_consumer_ack_part :: "stream \<Rightarrow> string \<Rightarrow> nat \<Rightarrow> nat \<Rightarrow> bool \<times> stream" where
  "cmq_stream_consumer_ack_part s name part seq =
     (if seq = 0 then (False, s)
      else case stream_begin_op s of
        (False, s) \<Rightarrow> (False, s)
      | (True, s) \<Rightarrow>
          (case stream_consumer_ack_part_impl s name part seq of (ok, s) \<Rightarrow> (ok, stream_end_op s)))"


section \<open>Invariant\<close>

definition watermark :: "stream \<Rightarrow> consumer \<Rightarrow> nat \<Rightarrow> nat" where
  "watermark s c p = (if sm_nparts s > 1 then co_acked_part c ! p else co_acked_seq c)"

definition stream_unacked :: "stream \<Rightarrow> consumer \<Rightarrow> nat \<Rightarrow> bool" where
  "stream_unacked s c q \<longleftrightarrow> watermark s c (part_at_locked s q) < q"

definition consumer_ok :: "consumer \<Rightarrow> bool" where
  "consumer_ok c \<longleftrightarrow>
     length (co_acked_part c) = CMQ_STREAM_MAX_PARTS \<and> co_acked_seq c < UINT64_MAX \<and>
     (\<forall>a \<in> set (co_acked_part c). a < UINT64_MAX) \<and>
     co_name c \<noteq> [] \<and> length (co_name c) < CMQ_MAX_NAME"

definition consumers_ok :: "consumer list \<Rightarrow> bool" where
  "consumers_ok cs \<longleftrightarrow>
     distinct (map co_name cs) \<and> length cs \<le> CMQ_MAX_CONSUMERS \<and> list_all consumer_ok cs"

definition parts_ok :: "stream \<Rightarrow> bool" where
  "parts_ok s \<longleftrightarrow>
     1 \<le> sm_nparts s \<and> sm_nparts s \<le> CMQ_STREAM_MAX_PARTS \<and>
     (case sm_msg_part s of
        None \<Rightarrow> sm_nparts s = 1
      | Some mp \<Rightarrow> 1 < sm_nparts s \<and> length mp = sm_max_msgs s \<and> sm_part_cap s = sm_max_msgs s \<and>
          (\<forall>p \<in> set mp. p < sm_nparts s))"

definition bytes_ok :: "stream \<Rightarrow> bool" where
  "bytes_ok s \<longleftrightarrow>
     sm_total_bytes s = log_bytes (store_log (sm_store s)) \<and>
     (0 < sm_max_bytes s \<longrightarrow> sm_total_bytes s \<le> sm_max_bytes s) \<and>
     (\<forall>m \<in> set (snd (store_log (sm_store s))). length m \<le> STORE_MAX_MSG) \<and>
     sm_max_msgs s * STORE_MAX_MSG \<le> SIZE_MAX \<and> sm_max_bytes s \<le> SIZE_MAX"

definition stream_inv :: "stream \<Rightarrow> bool" where
  "stream_inv s \<longleftrightarrow>
     store_live (sm_store s) \<and> st_cap (sm_store s) = sm_max_msgs s \<and> \<not> sm_dying s \<and>
     bytes_ok s \<and> parts_ok s \<and> consumers_ok (sm_consumers s)"

abbreviation stream_log :: "stream \<Rightarrow> log" where
  "stream_log s \<equiv> store_log (sm_store s)"

lemma stream_inv_wf: "stream_inv s \<Longrightarrow> log_wf (sm_max_msgs s) (stream_log s)"
  using st.view_wf [of "sm_store s"] by (simp add: stream_inv_def)

lemma log_bytes_bound:
  "log_wf c l \<Longrightarrow> \<forall>m \<in> set (snd l). length m \<le> b \<Longrightarrow> log_bytes l \<le> c * b"
proof -
  have *: "\<forall>m \<in> set ms. length m \<le> b \<Longrightarrow> sum_list (map length ms) \<le> length ms * b" for ms :: "bytes list"
    by (induction ms) auto
  assume "log_wf c l" "\<forall>m \<in> set (snd l). length m \<le> b"
  with * [of "snd l"] have "log_bytes l \<le> length (snd l) * b" "length (snd l) \<le> c"
    by (auto simp: log_bytes_def log_wf_def)
  then show ?thesis by (meson le_trans mult_le_mono1)
qed

section \<open>Retention floors\<close>

lemma part_floor_le:
  "part_floor as f l r \<le> r"
  "a \<in> set as \<Longrightarrow> part_floor as f l r \<le> max f (wrap64 (min a l + 1))"
proof (induction as arbitrary: r)
  case (Cons b as)
  { case 1 show ?case using Cons(1) by (simp add: Let_def) (meson le_trans less_imp_le_nat not_less) }
  { case 2
    show ?case
    proof (cases "a = b")
      case True
      show ?thesis
        using Cons(1) [of "if (let g = wrap64 (min a l + 1) in if 0 < f \<and> g < f then f else g) < r
                           then (let g = wrap64 (min a l + 1) in if 0 < f \<and> g < f then f else g) else r"]
        by (auto simp: Let_def True min_def max_def split: if_splits)
    next
      case False
      with 2 Cons(2) show ?thesis by (simp add: Let_def)
    qed
  }
qed auto

lemma part_floor_cases:
  "part_floor as f l r = r \<or> (\<exists>a \<in> set as. part_floor as f l r = max f (wrap64 (min a l + 1)))"
proof (induction as arbitrary: r)
  case (Cons b as)
  let ?g = "max f (wrap64 (min b l + 1))"
  have eq: "part_floor (b # as) f l r = part_floor as f l (if ?g < r then ?g else r)"
    by (cases "0 < f") (auto simp: Let_def max_def min_def)
  show ?case using Cons [of "if ?g < r then ?g else r"] unfolding eq by (auto split: if_splits)
qed simp

lemma floor_le:
  assumes "p < sm_nparts s" "consumer_ok c" "sm_nparts s \<le> CMQ_STREAM_MAX_PARTS"
  shows "consumer_floor_locked s c f l \<le> max f (wrap64 (min (watermark s c p) l + 1))"
proof (cases "sm_nparts s > 1")
  case True
  have "co_acked_part c ! p \<in> set (take (sm_nparts s) (co_acked_part c))"
    using assms by (auto simp: consumer_ok_def in_set_conv_nth intro!: exI [of _ p])
  with True part_floor_le(2) [of _ _ f l UINT64_MAX] show ?thesis
    by (simp add: consumer_floor_locked_def watermark_def Let_def)
qed (auto simp: consumer_floor_locked_def watermark_def Let_def)

lemma floor_cases:
  assumes "consumer_ok c" "sm_nparts s \<le> CMQ_STREAM_MAX_PARTS" "1 \<le> sm_nparts s"
  obtains "consumer_floor_locked s c f l = UINT64_MAX"
  | p where "p < sm_nparts s" "consumer_floor_locked s c f l = max f (wrap64 (min (watermark s c p) l + 1))"
proof (cases "sm_nparts s > 1")
  case True
  show ?thesis
    using part_floor_cases [of "take (sm_nparts s) (co_acked_part c)" f l UINT64_MAX] that True assms
    by (auto simp: consumer_floor_locked_def watermark_def Let_def in_set_conv_nth consumer_ok_def)
next
  case False
  with that(2) [of 0] assms show ?thesis
    by (auto simp: consumer_floor_locked_def watermark_def Let_def max_def min_def split: if_splits)
qed

lemma retain_floor_le:
  "retain_floor s cs f l r \<le> r"
  "c \<in> set cs \<Longrightarrow> retain_floor s cs f l r \<le> consumer_floor_locked s c f l"
proof (induction cs arbitrary: r)
  case (Cons b cs)
  { case 1 show ?case using Cons(1) by (simp add: Let_def) (meson le_trans less_imp_le_nat not_less) }
  { case 2 then show ?case using Cons(1) Cons(2) by (auto simp: Let_def not_less intro: le_trans) }
qed auto

lemma retain_floor_cases:
  "retain_floor s cs f l r = r \<or> (\<exists>c \<in> set cs. retain_floor s cs f l r = consumer_floor_locked s c f l)"
proof (induction cs arbitrary: r)
  case (Cons b cs)
  then show ?case
    using Cons [of "if consumer_floor_locked s b f l < r then consumer_floor_locked s b f l else r"]
    by (auto simp: Let_def split: if_splits)
qed simp

abbreviation stream_retain :: "stream \<Rightarrow> nat" where
  "stream_retain s \<equiv>
     retain_floor s (sm_consumers s) (cmq_store_first_seq (sm_store s))
       (cmq_store_last_seq (sm_store s)) UINT64_MAX"


section \<open>Eviction\<close>

text \<open>\<open>log_trim r l l'\<close>: \<open>l'\<close> is \<open>l\<close> without some of its oldest messages, all below \<open>r\<close>.\<close>

definition log_trim :: "nat \<Rightarrow> log \<Rightarrow> log \<Rightarrow> bool" where
  "log_trim r l l' \<longleftrightarrow>
     fst l' = fst l \<and> set (snd l') \<subseteq> set (snd l) \<and>
     log_lo l \<le> log_lo l' \<and> (log_lo l' \<le> r \<or> log_lo l' = log_lo l) \<and>
     (\<forall>q. log_at l' q = (if log_lo l' \<le> q then log_at l q else None))"

lemma log_trim_refl: "log_trim r l l"
  by (auto simp: log_trim_def log_at_def)

lemma log_trim_trans: "log_trim r l l' \<Longrightarrow> log_trim r l' l'' \<Longrightarrow> log_trim r l l''"
  by (auto simp: log_trim_def)

lemma log_trim_keeps:
  assumes "log_trim r l l'" "r \<le> q"
  shows "log_at l' q = log_at l q"
proof (cases "log_lo l' \<le> q")
  case False
  with assms have "q < log_lo l" "q < log_lo l'" by (auto simp: log_trim_def)
  then show ?thesis by (simp add: log_at_def)
qed (use assms in \<open>simp add: log_trim_def\<close>)

lemma log_trim_evict:
  assumes "log_wf c l" "snd l \<noteq> []" "log_lo l < r"
  shows "log_trim r l (log_evict l)"
  using assms log_at_evict [OF assms(1,2)] log_lo_evict [OF assms(1,2)]
  by (auto simp: log_trim_def log_at_def log_evict_def dest: set_tlD)

lemma debit_le: "n \<le> t \<Longrightarrow> debit t n = t - n"
  by (simp add: debit_def)

definition trimmed :: "nat \<Rightarrow> stream \<Rightarrow> stream \<Rightarrow> bool" where
  "trimmed r s s' \<longleftrightarrow>
     (\<exists>st. s' = s\<lparr>sm_store := st, sm_total_bytes := log_bytes (store_log st)\<rparr> \<and>
        store_live st \<and> st_cap st = st_cap (sm_store s) \<and>
        log_trim r (stream_log s) (store_log st) \<and>
        log_bytes (store_log st) \<le> log_bytes (stream_log s))"

lemma trimmed_refl:
  "store_live (sm_store s) \<Longrightarrow> sm_total_bytes s = log_bytes (stream_log s) \<Longrightarrow> trimmed r s s"
  unfolding trimmed_def by (intro exI [of _ "sm_store s"]) (simp add: log_trim_refl)

lemma trimmed_trans: "trimmed r s s' \<Longrightarrow> trimmed r s' s'' \<Longrightarrow> trimmed r s s''"
  unfolding trimmed_def by clarsimp (metis log_trim_trans le_trans)

lemma trimmedD:
  assumes "trimmed r s s'"
  shows "store_live (sm_store s')" "sm_total_bytes s' = log_bytes (stream_log s')"
    "st_cap (sm_store s') = st_cap (sm_store s)" "log_trim r (stream_log s) (stream_log s')"
    "sm_total_bytes s' \<le> log_bytes (stream_log s)"
    "s' = s\<lparr>sm_store := sm_store s', sm_total_bytes := sm_total_bytes s'\<rparr>"
  using assms by (auto simp: trimmed_def)

lemma trimmed_frame:
  assumes "trimmed r s s'"
  shows "sm_max_bytes s' = sm_max_bytes s" "sm_max_msgs s' = sm_max_msgs s"
    "sm_consumers s' = sm_consumers s" "sm_nparts s' = sm_nparts s" "sm_msg_part s' = sm_msg_part s"
    "sm_part_cap s' = sm_part_cap s" "sm_dying s' = sm_dying s"
  using assms by (auto simp: trimmed_def)

lemma trimmed_evict:
  assumes "store_live (sm_store s)" "sm_total_bytes s = log_bytes (stream_log s)" "f < r"
    "cmq_store_seq_len (sm_store s) f = Some mlen" "cmq_store_evict_seq (sm_store s) f = (True, st)"
  shows "trimmed r s (s\<lparr>sm_store := st, sm_total_bytes := debit (sm_total_bytes s) mlen\<rparr>)"
proof -
  note ev = st.evict_ok [OF assms(1,5)] and wf = st.view_wf [OF assms(1)]
  have "mlen = length (hd (snd (stream_log s)))"
    using assms(4) ev log_at_lo [OF wf] by (simp add: st.seq_len [OF assms(1)])
  then have "debit (sm_total_bytes s) mlen = log_bytes (store_log st)"
    using ev assms(2) log_hd_bytes [of "stream_log s"] by (simp add: debit_le log_bytes_evict)
  then show ?thesis
    using ev log_trim_evict [OF wf, of r] assms(3) unfolding trimmed_def
    by (intro exI [of _ st]) (simp add: log_bytes_evict)
qed

lemma stream_evict_loop_trimmed:
  "store_live (sm_store s) \<Longrightarrow> sm_total_bytes s = log_bytes (stream_log s) \<Longrightarrow>
   trimmed r s (stream_evict_loop s len r f l)"
proof (induction s len r f l rule: stream_evict_loop.induct)
  case (1 s len r f l)
  show ?case
  proof (cases "f \<le> l \<and> stream_over s len \<and> f < r")
    case True
    show ?thesis
    proof (cases "cmq_store_seq_len (sm_store s) f")
      case (Some mlen)
      obtain ok st where ev: "cmq_store_evict_seq (sm_store s) f = (ok, st)" by fastforce
      show ?thesis
      proof (cases ok)
        case ok: True
        with ev have ev: "cmq_store_evict_seq (sm_store s) f = (True, st)" by simp
        let ?s = "s\<lparr>sm_store := st, sm_total_bytes := debit (sm_total_bytes s) mlen\<rparr>"
        have t: "trimmed r s ?s" using trimmed_evict [OF 1(2,3) _ Some ev] True by simp
        then have "store_live (sm_store ?s)" "sm_total_bytes ?s = log_bytes (stream_log ?s)"
          using trimmedD(1,2) [OF t] by simp_all
        then have "trimmed r ?s (stream_evict_loop ?s len r (f + 1) l)"
          using 1(1) True Some ev by simp
        with t have "trimmed r s (stream_evict_loop ?s len r (f + 1) l)" by (rule trimmed_trans)
        moreover have "stream_evict_loop s len r f l = stream_evict_loop ?s len r (f + 1) l"
          using True Some ev by (subst stream_evict_loop.simps) simp
        ultimately show ?thesis by simp
      next
        case False
        with ev st.evict_refused [OF 1(2)] have "st = sm_store s" by simp
        with False True Some ev 1(2,3) show ?thesis
          by (subst stream_evict_loop.simps) (simp add: trimmed_refl)
      qed
    qed (use True 1(2,3) in \<open>subst stream_evict_loop.simps, simp add: trimmed_refl\<close>)
  qed (use 1(2,3) in \<open>subst stream_evict_loop.simps, auto simp: trimmed_refl\<close>)
qed

text \<open>The loop gives up only when the oldest message left is at or above the floor.\<close>

lemma stream_evict_loop_progress:
  "store_live (sm_store s) \<Longrightarrow> f = cmq_store_first_seq (sm_store s) \<or> snd (stream_log s) = [] \<Longrightarrow>
   l = fst (stream_log s) - 1 \<or> snd (stream_log s) = [] \<Longrightarrow>
   stream_over (stream_evict_loop s len r f l) len \<Longrightarrow>
   snd (stream_log (stream_evict_loop s len r f l)) \<noteq> [] \<Longrightarrow>
   r \<le> log_lo (stream_log (stream_evict_loop s len r f l))"
proof (induction s len r f l rule: stream_evict_loop.induct)
  case (1 s len r f l)
  note wf = st.view_wf [OF 1(2)]
  show ?case
  proof (cases "snd (stream_log s) = []")
    case True
    then have "cmq_store_seq_len (sm_store s) f = None"
      by (simp add: st.seq_len [OF 1(2)] log_at_def log_lo_def)
    then have "stream_evict_loop s len r f l = s" by (subst stream_evict_loop.simps) simp
    with True 1(6) show ?thesis by simp
  next
    case False
    then have f: "f = log_lo (stream_log s)" and l: "l = fst (stream_log s) - 1" and fl: "f \<le> l"
      using 1(3,4) wf by (auto simp: st.first_seq [OF 1(2)] log_wf_def log_lo_def Suc_le_eq)
        (cases "snd (stream_log s)"; simp)
    show ?thesis
    proof (cases "stream_over s len \<and> f < r")
      case True
      from False f have len: "cmq_store_seq_len (sm_store s) f = Some (length (hd (snd (stream_log s))))"
        using log_at_lo [OF wf] by (simp add: st.seq_len [OF 1(2)])
      obtain ok st where ev: "cmq_store_evict_seq (sm_store s) f = (ok, st)" by fastforce
      with st.evict_refused [OF 1(2)] False f have ok by (cases ok) auto
      with ev have ev: "cmq_store_evict_seq (sm_store s) f = (True, st)" by simp
      let ?s = "s\<lparr>sm_store := st,
                  sm_total_bytes := debit (sm_total_bytes s) (length (hd (snd (stream_log s))))\<rparr>"
      note e = st.evict_ok [OF 1(2) ev]
      have eq: "stream_evict_loop s len r f l = stream_evict_loop ?s len r (f + 1) l"
        using True fl len ev by (subst stream_evict_loop.simps) simp
      have f': "f + 1 = cmq_store_first_seq st \<or> snd (store_log st) = []"
        using e log_lo_evict [OF wf False] f by (simp add: st.first_seq)
      have l': "l = fst (store_log st) - 1" using e l by (simp add: log_evict_def)
      show ?thesis using 1(1) [of "length (hd (snd (stream_log s)))" True st] fl True len ev e f' l' 1(5,6)
        unfolding eq by simp
    next
      case nover: False
      have "stream_evict_loop s len r f l = s" if "\<not> stream_over s len \<or> r \<le> f"
        using that by (subst stream_evict_loop.simps) auto
      with nover 1(5) f show ?thesis by auto
    qed
  qed
qed


section \<open>Append\<close>

definition append_fits :: "stream \<Rightarrow> nat \<Rightarrow> bool" where
  "append_fits s len \<longleftrightarrow> sm_max_bytes s = 0 \<or> \<not> stream_over s len"

lemma stream_append_shape:
  assumes "stream_inv s" "d \<noteq> []" "fst (malloc_ok h)"
    "stream_append_impl h now s (Some d) part = (seq, s')"
  obtains s1 where "trimmed (stream_retain s) s s1" "seq = 0" "s' = s1" "\<not> append_fits s1 (length d)"
      "snd (stream_log s1) \<noteq> [] \<Longrightarrow> stream_retain s \<le> log_lo (stream_log s1)"
  | s1 where "trimmed (stream_retain s) s s1" "append_fits s1 (length d)"
      "(seq, s') = (case stream_wrap_debit s1 (stream_retain s) of
         None \<Rightarrow> (0, s1) | Some w \<Rightarrow> stream_put_locked now s1 d part w)"
proof -
  have live: "store_live (sm_store s)" and b: "sm_total_bytes s = log_bytes (stream_log s)"
    using assms(1) by (auto simp: stream_inv_def bytes_ok_def)
  define over where "over = (sm_max_bytes s > 0 \<and> stream_over s (length d))"
  define s1 where "s1 = (if over then stream_evict_loop s (length d) (stream_retain s)
    (cmq_store_first_seq (sm_store s)) (cmq_store_last_seq (sm_store s)) else s)"
  have t: "trimmed (stream_retain s) s s1"
    using stream_evict_loop_trimmed [OF live b] trimmed_refl [OF live b] by (simp add: s1_def)
  then have mb: "sm_max_bytes s1 = sm_max_bytes s" by (rule trimmed_frame)
  have "stream_append_impl h now s (Some d) part = (if over \<and> stream_over s1 (length d) then (0, s1)
      else case stream_wrap_debit s1 (stream_retain s) of
         None \<Rightarrow> (0, s1) | Some w \<Rightarrow> stream_put_locked now s1 d part w)"
    using assms(2,3) unfolding over_def s1_def by (simp add: stream_append_impl_def Let_def)
  note eq = trans [OF assms(4) [symmetric] this]
  show ?thesis
  proof (cases "over \<and> stream_over s1 (length d)")
    case True
    have "cmq_store_last_seq (sm_store s) = fst (stream_log s) - 1 \<or> snd (stream_log s) = []"
      by (simp add: st.last_seq [OF live])
    note prog = stream_evict_loop_progress [OF live disjI1 [OF refl] this, of "length d" "stream_retain s"]
    have "s1 = stream_evict_loop s (length d) (stream_retain s) (cmq_store_first_seq (sm_store s))
        (cmq_store_last_seq (sm_store s))"
      using True by (simp add: s1_def)
    with prog True have "stream_retain s \<le> log_lo (stream_log s1)" if "snd (stream_log s1) \<noteq> []"
      using that by simp
    with that(1) [OF t] True eq mb show ?thesis by (simp add: append_fits_def over_def)
  next
    case False
    then have "append_fits s1 (length d)" by (auto simp: append_fits_def over_def s1_def)
    with that(2) [OF t] False eq show ?thesis by simp
  qed
qed

lemma stream_wrap_debit_eq:
  assumes "store_live (sm_store s)" "st_cap (sm_store s) = sm_max_msgs s"
  shows "stream_wrap_debit s r =
    (if length (snd (stream_log s)) < sm_max_msgs s then Some 0
     else if r \<le> log_lo (stream_log s) then None else Some (length (hd (snd (stream_log s)))))"
proof -
  note wf = st.view_wf [OF assms(1)]
  have "snd (stream_log s) \<noteq> []" if "\<not> length (snd (stream_log s)) < sm_max_msgs s"
    using that wf assms(2) by (auto simp: log_wf_def)
  then show ?thesis
    using log_at_lo [OF wf]
    by (auto simp: stream_wrap_debit_def st.msg_count [OF assms(1)] st.first_seq [OF assms(1)]
        st.seq_len [OF assms(1)] Let_def)
qed

lemma stream_put_total:
  assumes "store_live (sm_store s)" "st_cap (sm_store s) = sm_max_msgs s"
    "sm_total_bytes s = log_bytes (stream_log s)" "stream_wrap_debit s r = Some w"
    "log_bytes (log_put (sm_max_msgs s) (stream_log s) d) \<le> SIZE_MAX"
  shows "(let t = if w > 0 then debit (sm_total_bytes s) w else sm_total_bytes s
    in if length d > SIZE_MAX - t then SIZE_MAX else t + length d) =
      log_bytes (log_put (sm_max_msgs s) (stream_log s) d)"
proof -
  note wf = st.view_wf [OF assms(1), unfolded assms(2)]
  define t where "t = (if w > 0 then debit (sm_total_bytes s) w else sm_total_bytes s)"
  have "snd (stream_log s) \<noteq> []" if "\<not> length (snd (stream_log s)) < sm_max_msgs s"
    using that wf by (auto simp: log_wf_def)
  then have "t = log_bytes (stream_log s) -
      (if length (snd (stream_log s)) < sm_max_msgs s then 0 else length (hd (snd (stream_log s))))"
    using assms(3,4) log_hd_bytes [of "stream_log s"]
    by (auto simp: t_def stream_wrap_debit_eq [OF assms(1,2)] debit_le split: if_splits)
  then have "t + length d = log_bytes (log_put (sm_max_msgs s) (stream_log s) d)"
    by (simp add: log_bytes_put [OF wf])
  moreover with assms(5) have "\<not> length d > SIZE_MAX - t" by linarith
  ultimately show ?thesis by (simp add: t_def [symmetric])
qed


lemma list_all_put_parts: "\<forall>p \<in> set mp. p < n \<Longrightarrow> x < n \<Longrightarrow> \<forall>p \<in> set (mp[i := x]). p < (n::nat)"
  using set_update_subset_insert [of mp i x] by auto

text \<open>A trimmed stream still satisfies the invariant.\<close>

lemma stream_inv_trimmed:
  assumes "stream_inv s" "trimmed r s s1"
  shows "stream_inv s1"
proof -
  note t = trimmedD [OF assms(2)] and f = trimmed_frame [OF assms(2)]
  have "bytes_ok s1"
    using assms(1) t f by (auto simp: stream_inv_def bytes_ok_def log_trim_def)
  with assms(1) t(1,3) f show ?thesis by (simp add: stream_inv_def parts_ok_def split: option.splits)
qed

lemma stream_over_not:
  "\<not> stream_over s n \<Longrightarrow> sm_total_bytes s + n \<le> sm_max_bytes s"
  by (simp add: stream_over_def)

definition put_ready :: "stream \<Rightarrow> bytes \<Rightarrow> nat \<Rightarrow> bool" where
  "put_ready s d part \<longleftrightarrow>
     stream_inv s \<and> append_fits s (length d) \<and> (sm_nparts s > 1 \<longrightarrow> part < sm_nparts s)"

lemma stream_put_cases:
  assumes "put_ready s d part" "stream_wrap_debit s r = Some w"
    "stream_put_locked now s d part w = (seq, s')"
  obtains "seq = 0" "s' = s" "\<not> store_accepts (sm_store s) d"
  | "seq = st_head_seq (sm_store s)" "0 < seq" "store_accepts (sm_store s) d" "stream_inv s'"
    "stream_log s' = log_put (sm_max_msgs s) (stream_log s) d"
    "sm_consumers s' = sm_consumers s" "sm_nparts s' = sm_nparts s" "sm_max_msgs s' = sm_max_msgs s"
    "sm_max_bytes s' = sm_max_bytes s"
    "sm_part_cap s' = sm_part_cap s"
    "sm_msg_part s' = map_option (\<lambda>mp. if sm_part_cap s > 0
       then mp[(seq - 1) mod sm_part_cap s := part mod 256] else mp) (sm_msg_part s)"
proof -
  have inv: "stream_inv s" and live: "store_live (sm_store s)" and cap: "st_cap (sm_store s) = sm_max_msgs s"
    using assms(1) by (auto simp: put_ready_def stream_inv_def)
  obtain q st where put: "cmq_store_put_owned now (sm_store s) (Some d) = (q, st)" by fastforce
  from live put show ?thesis
  proof (cases rule: st.put_cases)
    case 1
    with put assms(3) that(1) show ?thesis by (simp add: stream_put_locked_def)
  next
    case 2
    let ?l = "log_put (sm_max_msgs s) (stream_log s) d"
    have wf: "log_wf (sm_max_msgs s) (stream_log s)" using inv by (rule stream_inv_wf)
    have small: "\<forall>m \<in> set (snd ?l). length m \<le> STORE_MAX_MSG"
      using inv 2(3) by (auto simp: stream_inv_def bytes_ok_def log_put_def store_accepts_def
          dest: set_tlD split: if_splits)
    have bound: "log_bytes ?l \<le> SIZE_MAX"
      using log_bytes_bound [OF log_wf_put [OF wf] small] inv
      by (auto simp: stream_inv_def bytes_ok_def)
    have b: "sm_total_bytes s = log_bytes (stream_log s)" using inv by (simp add: stream_inv_def bytes_ok_def)
    note tot = stream_put_total [OF live cap b assms(2) bound]
    have "stream_put_locked now s d part w = (q, s\<lparr>sm_store := st,
       sm_msg_part := map_option (\<lambda>mp. if sm_part_cap s > 0
         then mp[(q - 1) mod sm_part_cap s := part mod 256] else mp) (sm_msg_part s),
       sm_total_bytes := log_bytes ?l\<rparr>)"
      unfolding stream_put_locked_def put tot [symmetric] using 2(2)
      by (cases "sm_msg_part s") (simp_all add: Let_def)
    with assms(3) have q: "q = seq" and s': "s' = s\<lparr>sm_store := st,
       sm_msg_part := map_option (\<lambda>mp. if sm_part_cap s > 0
         then mp[(seq - 1) mod sm_part_cap s := part mod 256] else mp) (sm_msg_part s),
       sm_total_bytes := log_bytes ?l\<rparr>"
      by auto
    have log: "store_log st = ?l" using 2 cap by simp
    have "log_bytes ?l \<le> sm_max_bytes s" if "0 < sm_max_bytes s"
    proof -
      have "log_bytes ?l \<le> log_bytes (stream_log s) + length d"
        by (simp add: log_bytes_put [OF wf])
      also have "\<dots> \<le> sm_max_bytes s"
        using assms(1) that b stream_over_not [of s "length d"] by (auto simp: put_ready_def append_fits_def)
      finally show ?thesis .
    qed
    then have bok: "bytes_ok s'" using inv small log by (simp add: s' stream_inv_def bytes_ok_def)
    have p: "part mod 256 < sm_nparts s" if "sm_nparts s > 1"
    proof -
      have "part mod 256 \<le> part" by simp
      also have "part < sm_nparts s" using assms(1) that by (simp add: put_ready_def)
      finally show ?thesis .
    qed
    have "parts_ok s'"
    proof (cases "sm_msg_part s")
      case (Some mp)
      with inv have pok: "\<forall>p \<in> set mp. p < sm_nparts s" "1 < sm_nparts s" "length mp = sm_max_msgs s"
        "sm_part_cap s = sm_max_msgs s" "sm_nparts s \<le> CMQ_STREAM_MAX_PARTS"
        by (auto simp: stream_inv_def parts_ok_def)
      have "\<forall>p \<in> set (mp[(seq - 1) mod sm_part_cap s := part mod 256]). p < sm_nparts s"
        by (rule list_all_put_parts [OF pok(1) p [OF pok(2)]])
      with pok show ?thesis unfolding parts_ok_def s' by (simp add: Some)
    next
      case None
      with inv show ?thesis unfolding parts_ok_def s' stream_inv_def by simp
    qed
    moreover have "st_cap (sm_store s') = sm_max_msgs s'" "store_live (sm_store s')"
      using 2(4,6) cap by (simp_all add: s')
    ultimately have "stream_inv s'" using bok inv unfolding stream_inv_def by (simp add: s')
    moreover have "seq = st_head_seq (sm_store s)" "0 < seq" using 2(1,2) q by simp_all
    ultimately show ?thesis using 2(3) log by (intro that(2)) (simp_all add: s')
  qed
qed


text \<open>The partition of a message that stays in the log does not change.\<close>

lemma put_keeps_part:
  assumes "put_ready s d part" "stream_wrap_debit s r = Some w"
    "stream_put_locked now s d part w = (seq, s')"
    "log_at (stream_log s) q = Some m" "length (snd (stream_log s)) < sm_max_msgs s \<or> q \<noteq> log_lo (stream_log s)"
  shows "part_at_locked s' q = part_at_locked s q"
  using assms(1-3)
proof (cases rule: stream_put_cases)
  case 2
  have inv: "stream_inv s" and live: "store_inv (sm_store s)" and cap: "st_cap (sm_store s) = sm_max_msgs s"
    using assms(1) by (auto simp: put_ready_def stream_inv_def store_live_def)
  note si = store_invD [OF live]
  have q: "st_head_seq (sm_store s) - st_count (sm_store s) \<le> q" "q < st_head_seq (sm_store s)"
    using assms(4) log_at_store [OF live, of q] by (auto split: if_splits)
  have lo: "st_count (sm_store s) < st_cap (sm_store s) \<or>
      q \<noteq> st_head_seq (sm_store s) - st_count (sm_store s)"
    using assms(5) si(5) cap by simp
  show ?thesis
  proof (cases "sm_msg_part s")
    case (Some mp)
    then have pc: "sm_part_cap s = st_cap (sm_store s)"
      using inv cap by (auto simp: stream_inv_def parts_ok_def)
    have "(seq - 1) mod sm_part_cap s \<noteq> (q - 1) mod sm_part_cap s"
      unfolding pc 2(1) by (rule slot_index_fresh [OF live q lo, symmetric])
    then show ?thesis unfolding part_at_locked_def 2(7,10,11) Some by simp
  qed (simp add: part_at_locked_def 2(11))
qed simp

lemma part_at_put:
  assumes "put_ready s d part" "stream_wrap_debit s r = Some w"
    "stream_put_locked now s d part w = (seq, s')" "0 < seq"
  shows "part_at_locked s' seq = (if sm_nparts s > 1 then part else 0)"
  using assms(1-3)
proof (cases rule: stream_put_cases)
  case 2
  have inv: "parts_ok s" "0 < sm_max_msgs s" "sm_nparts s > 1 \<longrightarrow> part < sm_nparts s"
    using assms(1) stream_inv_wf [of s] by (auto simp: put_ready_def stream_inv_def log_wf_def)
  show ?thesis
  proof (cases "sm_msg_part s")
    case (Some mp)
    with inv have "part mod 256 = part" "length mp = sm_part_cap s" "sm_nparts s > 1" "0 < sm_part_cap s"
      by (auto simp: parts_ok_def CMQ_STREAM_MAX_PARTS_def)
    with assms(4) show ?thesis unfolding part_at_locked_def 2(7,10,11) Some by simp
  next
    case None
    with inv show ?thesis unfolding part_at_locked_def 2(11) by (simp add: parts_ok_def)
  qed
qed (use assms(4) in simp)

lemma part_at_frame:
  "sm_nparts s' = sm_nparts s \<Longrightarrow> sm_part_cap s' = sm_part_cap s \<Longrightarrow> sm_msg_part s' = sm_msg_part s \<Longrightarrow>
   part_at_locked s' q = part_at_locked s q"
  by (cases "sm_msg_part s") (simp_all add: part_at_locked_def)

lemma part_at_less: "parts_ok s \<Longrightarrow> 0 < sm_max_msgs s \<Longrightarrow> part_at_locked s q < sm_nparts s"
  by (auto simp: parts_ok_def part_at_locked_def split: option.splits)

lemma floor_unacked:
  assumes "stream_inv s" "c \<in> set (sm_consumers s)" "log_at (stream_log s) q = Some m"
    "stream_unacked s c q"
  shows "stream_retain s \<le> q"
proof -
  have live: "store_live (sm_store s)" and ok: "consumer_ok c" and p: "parts_ok s"
    using assms(1,2) by (auto simp: stream_inv_def consumers_ok_def list_all_iff)
  have m: "0 < sm_max_msgs s" using stream_inv_wf [OF assms(1)] by (simp add: log_wf_def)
  let ?f = "cmq_store_first_seq (sm_store s)" and ?l = "cmq_store_last_seq (sm_store s)"
  have q: "?f \<le> q" "q \<le> ?l" using st.retained_iff [OF live] assms(3) by auto
  have "?l < UINT64_MAX"
    using st.seq_bound [OF live] stream_inv_wf [OF assms(1)]
    by (auto simp: st.last_seq [OF live] log_wf_def UINT64_MAX_def)
  then have w: "wrap64 (min (watermark s c (part_at_locked s q)) ?l + 1) \<le> q"
    using assms(4) q by (subst wrap64_id) (auto simp: stream_unacked_def UINT64_MAX_def)
  have "stream_retain s \<le> consumer_floor_locked s c ?f ?l"
    by (rule retain_floor_le(2) [OF assms(2)])
  also have "\<dots> \<le> max ?f (wrap64 (min (watermark s c (part_at_locked s q)) ?l + 1))"
    using p part_at_less [OF p m] by (intro floor_le [OF _ ok]) (simp_all add: parts_ok_def)
  also have "\<dots> \<le> q" using q w by simp
  finally show ?thesis .
qed

lemma stream_append_noop:
  "data = None \<or> data = Some [] \<or> \<not> fst (malloc_ok h) \<Longrightarrow> stream_append_impl h now s data part = (0, s)"
  by (auto simp: stream_append_impl_def split: option.splits)

text \<open>What an append leaves of a message that some consumer has not acknowledged.\<close>

lemma stream_append_impl_retains:
  assumes "stream_inv s" "sm_nparts s > 1 \<longrightarrow> part < sm_nparts s"
    "stream_append_impl h now s data part = (seq, s')" "log_at (stream_log s) q = Some m"
    "stream_retain s \<le> q"
  shows "log_at (stream_log s') q = Some m \<and> part_at_locked s' q = part_at_locked s q \<and>
    sm_consumers s' = sm_consumers s \<and> sm_nparts s' = sm_nparts s \<and> stream_inv s'"
proof (cases "data = None \<or> data = Some [] \<or> \<not> fst (malloc_ok h)")
  case True
  with assms show ?thesis by (simp add: stream_append_noop [OF True])
next
  case False
  then obtain d where d: "data = Some d" "d \<noteq> []" "fst (malloc_ok h)" by auto
  have kept: "log_at (stream_log s1) q = Some m \<and> part_at_locked s1 q = part_at_locked s q \<and>
      sm_consumers s1 = sm_consumers s \<and> sm_nparts s1 = sm_nparts s \<and> stream_inv s1"
    if "trimmed (stream_retain s) s s1" for s1
    using log_trim_keeps [OF trimmedD(4) [OF that] assms(5)] assms(4) stream_inv_trimmed [OF assms(1) that]
      part_at_frame [of s1 s q] by (simp add: trimmed_frame [OF that])
  from assms(1) d(2,3) assms(3) [unfolded d(1)] show ?thesis
  proof (cases rule: stream_append_shape)
    case (1 s1)
    with kept [OF 1(1)] show ?thesis by simp
  next
    case (2 s1)
    note k = kept [OF 2(1)]
    then have ready: "put_ready s1 d part" using 2(2) assms(2) by (simp add: put_ready_def)
    have live: "store_live (sm_store s1)" "st_cap (sm_store s1) = sm_max_msgs s1"
      using k by (auto simp: stream_inv_def)
    show ?thesis
    proof (cases "stream_wrap_debit s1 (stream_retain s)")
      case None
      with 2 k show ?thesis by simp
    next
      case (Some w)
      with 2(3) have put: "stream_put_locked now s1 d part w = (seq, s')" by simp
      have lo: "length (snd (stream_log s1)) < sm_max_msgs s1 \<or> q \<noteq> log_lo (stream_log s1)"
        using Some assms(5) by (auto simp: stream_wrap_debit_eq [OF live] split: if_splits)
      note part = put_keeps_part [OF ready Some put _ lo]
      from ready Some put show ?thesis
      proof (cases rule: stream_put_cases)
        case 2
        have "q < fst (stream_log s1)" using k by (auto simp: log_at_def split: if_splits)
        then show ?thesis
          using 2 k part lo log_at_put [OF stream_inv_wf, of s1 d q] by simp
      qed (use k in simp)
    qed
  qed
qed


lemma log_trim_drop:
  assumes "log_wf c l" "log_wf c l'" "log_trim r l l'"
  shows "l' = (fst l, drop (log_lo l' - log_lo l) (snd l))"
proof (rule log_eqI)
  from assms(1) obtain k ms where l: "l = (k + length ms, ms)" "log_lo l = k" by (rule log_wf_cases)
  from assms(2) obtain k' ms' where l': "l' = (k' + length ms', ms')" "log_lo l' = k'" by (rule log_wf_cases)
  have t: "k' + length ms' = k + length ms" "k \<le> k'" using assms(3) l l' by (auto simp: log_trim_def)
  let ?l = "(k + length ms, drop (k' - k) ms)"
  have lo: "log_lo ?l = k'" using t by (auto simp: log_lo_def)
  show "fst l' = fst (fst l, drop (log_lo l' - log_lo l) (snd l))" using t l l' by simp
  show "length (snd l') = length (snd (fst l, drop (log_lo l' - log_lo l) (snd l)))" using t l l' by simp
  show "length (snd l') \<le> fst l'" using l' by simp
  fix q
  have "log_at ?l q = (if k' \<le> q then log_at l q else None)"
    using t lo l by (auto simp: log_at_def)
  moreover have "log_at l' q = (if k' \<le> q then log_at l q else None)"
    using assms(3) l'(2) by (simp add: log_trim_def)
  ultimately show "log_at l' q = log_at (fst l, drop (log_lo l' - log_lo l) (snd l)) q"
    unfolding l(2) l'(2) by (simp add: l(1))
qed

lemma log_trim_truncate:
  assumes "log_wf c l" "log_wf c l'" "log_trim r l l'"
  shows "log_truncate l' r = log_truncate l r"
proof -
  have "log_lo l \<le> log_lo l'" "log_lo l' \<le> r \<or> log_lo l' = log_lo l"
    using assms(3) by (auto simp: log_trim_def)
  then have "(r - log_lo l') + (log_lo l' - log_lo l) = r - log_lo l" by auto
  moreover have "snd l' = drop (log_lo l' - log_lo l) (snd l)" "fst l' = fst l"
    using arg_cong [OF log_trim_drop [OF assms], of snd] assms(3) by (simp_all add: log_trim_def)
  ultimately show ?thesis by (simp add: log_truncate_def)
qed

lemma log_truncate_bytes_le: "log_bytes (log_truncate l b) \<le> log_bytes l"
proof -
  have "sum_list (map length (snd l)) =
      sum_list (map length (take n (snd l))) + sum_list (map length (drop n (snd l)))" for n
    by (metis append_take_drop_id map_append sum_list_append)
  from this [of "b - log_lo l"] show ?thesis by (simp add: log_bytes_def log_truncate_def)
qed

text \<open>
  \<open>stream_pinned s q\<close>: some consumer has a partition whose watermark is below \<open>q\<close>. This is what
  the floor computed by the code comes to on the messages still in the log.
\<close>

definition stream_pinned :: "stream \<Rightarrow> nat \<Rightarrow> bool" where
  "stream_pinned s q \<longleftrightarrow> (\<exists>c \<in> set (sm_consumers s). \<exists>p < sm_nparts s. watermark s c p < q)"

definition pinned_bytes :: "stream \<Rightarrow> nat" where
  "pinned_bytes s =
     sum_list (map (\<lambda>q. length (the (log_at (stream_log s) q)))
       (filter (stream_pinned s) [log_lo (stream_log s) ..< fst (stream_log s)]))"

lemma retain_pinned:
  assumes "stream_inv s" "log_at (stream_log s) q = Some m"
  shows "stream_retain s \<le> q \<longleftrightarrow> stream_pinned s q"
proof -
  have live: "store_live (sm_store s)" and p: "parts_ok s"
    and ok: "\<And>c. c \<in> set (sm_consumers s) \<Longrightarrow> consumer_ok c"
    using assms(1) by (auto simp: stream_inv_def consumers_ok_def list_all_iff)
  let ?f = "cmq_store_first_seq (sm_store s)" and ?l = "cmq_store_last_seq (sm_store s)"
  have q: "?f \<le> q" "q \<le> ?l" using st.retained_iff [OF live] assms(2) by auto
  have max: "?l < UINT64_MAX"
    using st.seq_bound [OF live] stream_inv_wf [OF assms(1)]
    by (auto simp: st.last_seq [OF live] log_wf_def UINT64_MAX_def)
  have w: "max ?f (wrap64 (min a ?l + 1)) \<le> q \<longleftrightarrow> a < q" for a
    using q max by (subst wrap64_id) (auto simp: UINT64_MAX_def)
  have np: "sm_nparts s \<le> CMQ_STREAM_MAX_PARTS" "1 \<le> sm_nparts s" using p by (auto simp: parts_ok_def)
  show ?thesis
  proof
    assume le: "stream_retain s \<le> q"
    with max q obtain c where c: "c \<in> set (sm_consumers s)" "consumer_floor_locked s c ?f ?l \<le> q"
      using retain_floor_cases [of s "sm_consumers s" ?f ?l UINT64_MAX] by auto
    from ok [OF c(1)] np show "stream_pinned s q"
    proof (cases rule: floor_cases [where f = ?f and l = ?l])
      case 1
      with c(2) q max show ?thesis by simp
    next
      case (2 p)
      with c w show ?thesis by (auto simp: stream_pinned_def)
    qed
  next
    assume "stream_pinned s q"
    then obtain c p where c: "c \<in> set (sm_consumers s)" "p < sm_nparts s" "watermark s c p < q"
      by (auto simp: stream_pinned_def)
    have "stream_retain s \<le> consumer_floor_locked s c ?f ?l" by (rule retain_floor_le(2) [OF c(1)])
    also have "\<dots> \<le> max ?f (wrap64 (min (watermark s c p) ?l + 1))"
      by (rule floor_le [OF c(2) ok [OF c(1)] np(1)])
    also have "\<dots> \<le> q" using w c(3) by simp
    finally show "stream_retain s \<le> q" .
  qed
qed

lemma pinned_bytes_truncate:
  assumes "stream_inv s"
  shows "pinned_bytes s = log_bytes (log_truncate (stream_log s) (stream_retain s))"
proof -
  from stream_inv_wf [OF assms] obtain k ms where l: "stream_log s = (k + length ms, ms)" "log_lo (stream_log s) = k"
    by (rule log_wf_cases)
  let ?r = "stream_retain s"
  have at: "log_at (stream_log s) q = Some (ms ! (q - k))" if "q \<in> set [k ..< k + length ms]" for q
    using that l by (simp add: log_at_def)
  have "filter (stream_pinned s) [k ..< k + length ms] = filter ((\<le>) ?r) [k ..< k + length ms]"
    using retain_pinned [OF assms] at by (intro filter_cong) auto
  also have "\<dots> = drop (?r - k) [k ..< k + length ms]" by (rule filter_upt_ge)
  finally have "pinned_bytes s = sum_list (drop (?r - k) (map (\<lambda>q. length (the (log_at (stream_log s) q)))
      [k ..< k + length ms]))"
    unfolding pinned_bytes_def l(2) by (simp add: drop_map l(1))
  also have "map (\<lambda>q. length (the (log_at (stream_log s) q))) [k ..< k + length ms] = map length ms"
    by (rule nth_equalityI) (simp_all add: at)
  finally show ?thesis unfolding log_bytes_def log_truncate_def l(2) by (simp add: l(1) drop_map)
qed


lemma log_truncate_all: "b \<le> log_lo l \<or> snd l = [] \<Longrightarrow> log_truncate l b = l"
  by (auto simp: log_truncate_def intro: prod_eqI)

lemma pinned_trimmed:
  assumes "stream_inv s" "trimmed (stream_retain s) s s1"
  shows "pinned_bytes s = log_bytes (log_truncate (stream_log s1) (stream_retain s))"
proof -
  have "log_wf (sm_max_msgs s) (stream_log s1)"
    using stream_inv_wf [OF stream_inv_trimmed [OF assms]] by (simp add: trimmed_frame [OF assms(2)])
  from log_trim_truncate [OF stream_inv_wf [OF assms(1)] this trimmedD(4) [OF assms(2)]]
  show ?thesis by (simp add: pinned_bytes_truncate [OF assms(1)])
qed

lemma append_fits_iff:
  assumes "stream_inv s" "0 < n"
  shows "append_fits s n \<longleftrightarrow> sm_max_bytes s = 0 \<or> log_bytes (stream_log s) + n \<le> sm_max_bytes s"
  using assms by (auto simp: append_fits_def stream_over_def stream_inv_def bytes_ok_def)

text \<open>The oldest message can go, or there is room for one more.\<close>

definition ring_free :: "stream \<Rightarrow> bool" where
  "ring_free s \<longleftrightarrow>
     length (snd (stream_log s)) < sm_max_msgs s \<or> \<not> stream_pinned s (log_lo (stream_log s))"

lemma ring_free_retain:
  assumes "stream_inv s"
  shows "ring_free s \<longleftrightarrow>
    length (snd (stream_log s)) < sm_max_msgs s \<or> log_lo (stream_log s) < stream_retain s"
proof (cases "snd (stream_log s) = []")
  case True
  with stream_inv_wf [OF assms] show ?thesis by (simp add: ring_free_def log_wf_def)
next
  case False
  with retain_pinned [OF assms log_at_lo [OF stream_inv_wf [OF assms]]] show ?thesis
    by (auto simp: ring_free_def)
qed

lemma ring_free_trimmed:
  assumes "stream_inv s" "trimmed (stream_retain s) s s1"
  shows "(length (snd (stream_log s1)) < sm_max_msgs s \<or> log_lo (stream_log s1) < stream_retain s) \<longleftrightarrow>
    ring_free s"
proof -
  note t = trimmedD(4) [OF assms(2)] and wf = stream_inv_wf [OF assms(1)]
  have wf1: "log_wf (sm_max_msgs s) (stream_log s1)"
    using stream_inv_wf [OF stream_inv_trimmed [OF assms]] by (simp add: trimmed_frame [OF assms(2)])
  have eq: "fst (stream_log s1) = fst (stream_log s)" "log_lo (stream_log s) \<le> log_lo (stream_log s1)"
    "log_lo (stream_log s1) \<le> stream_retain s \<or> log_lo (stream_log s1) = log_lo (stream_log s)"
    using t by (auto simp: log_trim_def)
  have len: "log_lo l + length (snd l) = fst l" if "log_wf c l" for c l
    using that by (simp add: log_wf_def log_lo_def)
  from len [OF wf] len [OF wf1] eq show ?thesis
    using wf by (auto simp: ring_free_retain [OF assms(1)] log_wf_def)
qed

lemma stream_append_impl_cases:
  assumes "stream_inv s" "sm_nparts s > 1 \<longrightarrow> part < sm_nparts s" "d \<noteq> []" "fst (malloc_ok h)"
    "stream_append_impl h now s (Some d) part = (seq, s')"
  obtains s1 where "trimmed (stream_retain s) s s1" "seq = 0" "s' = s1"
      "\<not> ((sm_max_bytes s = 0 \<or> pinned_bytes s + length d \<le> sm_max_bytes s) \<and> ring_free s \<and>
          store_accepts (sm_store s1) d)"
  | s1 w where "trimmed (stream_retain s) s s1" "put_ready s1 d part"
      "stream_wrap_debit s1 (stream_retain s) = Some w" "stream_put_locked now s1 d part w = (seq, s')"
      "store_accepts (sm_store s1) d"
      "sm_max_bytes s = 0 \<or> pinned_bytes s + length d \<le> sm_max_bytes s" "ring_free s"
  using assms(1,3-5)
proof (cases rule: stream_append_shape)
  case (1 s1)
  note inv1 = stream_inv_trimmed [OF assms(1) 1(1)]
  have "log_truncate (stream_log s1) (stream_retain s) = stream_log s1"
    using 1(5) by (intro log_truncate_all) auto
  then have "pinned_bytes s = log_bytes (stream_log s1)"
    using pinned_trimmed [OF assms(1) 1(1)] by simp
  with 1(4) have "\<not> (sm_max_bytes s = 0 \<or> pinned_bytes s + length d \<le> sm_max_bytes s)"
    using append_fits_iff [OF inv1] assms(3) by (simp add: trimmed_frame [OF 1(1)])
  with that(1) [OF 1(1-3)] show ?thesis by blast
next
  case (2 s1)
  note inv1 = stream_inv_trimmed [OF assms(1) 2(1)] and f = trimmed_frame [OF 2(1)]
  have live: "store_live (sm_store s1)" "st_cap (sm_store s1) = sm_max_msgs s1"
    using inv1 by (auto simp: stream_inv_def)
  have ready: "put_ready s1 d part" using inv1 2(2) assms(2) f by (simp add: put_ready_def)
  have "pinned_bytes s \<le> log_bytes (stream_log s1)"
    using pinned_trimmed [OF assms(1) 2(1)] log_truncate_bytes_le by simp
  with 2(2) have fit: "sm_max_bytes s = 0 \<or> pinned_bytes s + length d \<le> sm_max_bytes s"
    using append_fits_iff [OF inv1] assms(3) by (auto simp: f)
  note free = ring_free_trimmed [OF assms(1) 2(1)]
  show ?thesis
  proof (cases "stream_wrap_debit s1 (stream_retain s)")
    case None
    with free have "\<not> ring_free s"
      by (auto simp: stream_wrap_debit_eq [OF live] f split: if_splits)
    with None 2(3) that(1) [OF 2(1)] show ?thesis by simp
  next
    case (Some w)
    with free have rf: "ring_free s"
      by (auto simp: stream_wrap_debit_eq [OF live] f split: if_splits)
    from Some 2(3) have put: "stream_put_locked now s1 d part w = (seq, s')" by simp
    from ready Some put show ?thesis
    proof (cases rule: stream_put_cases)
      case 1
      with that(1) [OF 2(1)] show ?thesis by simp
    next
      case 2
      with that(2) [OF \<open>trimmed _ s s1\<close> ready Some put _ fit rf] show ?thesis by simp
    qed
  qed
qed

lemma store_accepts_trimmed:
  "trimmed r s s1 \<Longrightarrow> store_accepts (sm_store s1) d = store_accepts (sm_store s) d"
  using trimmedD(4) [of r s s1] by (simp add: store_accepts_def log_trim_def)


section \<open>Operations and the invariant\<close>

lemma retain_floor_in_flight [simp]:
  "retain_floor (s\<lparr>sm_in_flight := k\<rparr>) cs f l r = retain_floor s cs f l r"
  by (induction cs arbitrary: r) (simp_all add: consumer_floor_locked_def Let_def)

lemma parts_ok_frame:
  "sm_nparts s' = sm_nparts s \<Longrightarrow> sm_part_cap s' = sm_part_cap s \<Longrightarrow> sm_msg_part s' = sm_msg_part s \<Longrightarrow>
   sm_max_msgs s' = sm_max_msgs s \<Longrightarrow> parts_ok s' = parts_ok s"
  by (cases "sm_msg_part s") (simp_all add: parts_ok_def)

lemma stream_in_flight_parts [simp]:
  "part_at_locked (s\<lparr>sm_in_flight := k\<rparr>) q = part_at_locked s q"
  "parts_ok (s\<lparr>sm_in_flight := k\<rparr>) = parts_ok s"
  "watermark (s\<lparr>sm_in_flight := k\<rparr>) c p = watermark s c p"
  using part_at_frame [of "s\<lparr>sm_in_flight := k\<rparr>" s q] parts_ok_frame [of "s\<lparr>sm_in_flight := k\<rparr>" s]
  by (simp_all add: watermark_def)

lemma stream_in_flight [simp]:
  "stream_inv (s\<lparr>sm_in_flight := k\<rparr>) = stream_inv s"
  "stream_unacked (s\<lparr>sm_in_flight := k\<rparr>) c q = stream_unacked s c q"
  "stream_pinned (s\<lparr>sm_in_flight := k\<rparr>) q = stream_pinned s q"
  by (simp_all add: stream_inv_def bytes_ok_def stream_unacked_def stream_pinned_def)

lemma pinned_in_flight [simp]:
  "pinned_bytes (s\<lparr>sm_in_flight := k\<rparr>) = pinned_bytes s"
  "ring_free (s\<lparr>sm_in_flight := k\<rparr>) = ring_free s"
proof -
  have "stream_pinned (s\<lparr>sm_in_flight := k\<rparr>) = stream_pinned s" by (rule ext) simp
  then show "pinned_bytes (s\<lparr>sm_in_flight := k\<rparr>) = pinned_bytes s"
    "ring_free (s\<lparr>sm_in_flight := k\<rparr>) = ring_free s"
    by (simp_all add: pinned_bytes_def ring_free_def)
qed

lemma stream_begin [simp]:
  "stream_inv s \<Longrightarrow> stream_begin_op s = (True, s\<lparr>sm_in_flight := sm_in_flight s + 1\<rparr>)"
  by (simp add: stream_begin_op_def stream_inv_def)

lemma partition_of_less: "0 < n \<Longrightarrow> cmq_stream_partition_of key n < n"
  by (auto simp: cmq_stream_partition_of_def split: option.splits)

text \<open>Both ways of appending run the same body on some partition of the stream.\<close>

lemma cmq_stream_append_body:
  assumes "stream_inv s" "cmq_stream_append h now s data = (seq, s')"
  obtains s2 where "stream_append_impl h now (s\<lparr>sm_in_flight := sm_in_flight s + 1\<rparr>) data 0 = (seq, s2)"
    "s' = stream_end_op s2"
proof (cases "data = None \<or> data = Some []")
  case True
  with assms(2) have "seq = 0" "s' = s" by (auto simp: cmq_stream_append_def)
  with True that [of "s\<lparr>sm_in_flight := sm_in_flight s + 1\<rparr>"] show ?thesis
    by (auto simp: stream_append_noop stream_end_op_def)
next
  case False
  with assms that show ?thesis
    by (auto simp: cmq_stream_append_def split: prod.splits)
qed

lemma cmq_stream_append_key_body:
  assumes "stream_inv s" "cmq_stream_append_key h now s key data = (seq, s')"
  obtains "seq = 0" "s' = s"
  | s2 part where
    "stream_append_impl h now (s\<lparr>sm_in_flight := sm_in_flight s + 1\<rparr>) data part = (seq, s2)"
    "s' = stream_end_op s2" "sm_nparts s > 1 \<longrightarrow> part < sm_nparts s"
    "part = (if sm_nparts s > 1 then cmq_stream_partition_of key (sm_nparts s) else 0)"
proof (cases "key = None \<or> key = Some [] \<or> data = None \<or> data = Some []")
  case True
  with assms that(1) show ?thesis by (simp add: cmq_stream_append_key_def)
next
  case False
  let ?p = "if sm_nparts s > 1 then cmq_stream_partition_of key (sm_nparts s) else 0"
  obtain q s2 where "stream_append_impl h now (s\<lparr>sm_in_flight := sm_in_flight s + 1\<rparr>) data ?p = (q, s2)"
    by fastforce
  with that(2) [of ?p] False assms partition_of_less [of "sm_nparts s" key] show ?thesis
    by (auto simp: cmq_stream_append_key_def Let_def split: if_splits)
qed

text \<open>Every append keeps the invariant, whatever it does.\<close>

lemma stream_append_impl_inv:
  assumes "stream_inv s" "sm_nparts s > 1 \<longrightarrow> part < sm_nparts s"
    "stream_append_impl h now s data part = (seq, s')"
  shows "stream_inv s'"
proof (cases "data = None \<or> data = Some [] \<or> \<not> fst (malloc_ok h)")
  case True
  with assms show ?thesis by (simp add: stream_append_noop [OF True])
next
  case False
  then obtain d where d: "data = Some d" "d \<noteq> []" "fst (malloc_ok h)" by auto
  from assms(1,2) d(2,3) assms(3) [unfolded d(1)] show ?thesis
  proof (cases rule: stream_append_impl_cases)
    case (1 s1)
    with stream_inv_trimmed [OF assms(1) 1(1)] show ?thesis by simp
  next
    case (2 s1 w)
    from 2(2-4) show ?thesis by (cases rule: stream_put_cases) (use 2(2) in \<open>simp_all add: put_ready_def\<close>)
  qed
qed

subsection \<open>The consumer table\<close>

lemma consumer_lookup_set: "consumer_lookup cs n = Some c \<Longrightarrow> c \<in> set cs \<and> co_name c = n"
  by (induction cs) (auto split: if_splits)

lemma consumer_lookup_none: "consumer_lookup cs n = None \<longleftrightarrow> n \<notin> co_name ` set cs"
  by (induction cs) auto

lemma consumer_lookup_update:
  "(\<And>c. co_name (f c) = co_name c) \<Longrightarrow>
   consumer_lookup (consumer_update cs nm f) n =
     (if n = nm then map_option f (consumer_lookup cs n) else consumer_lookup cs n)"
  by (induction cs) auto

lemma consumer_lookup_delete:
  "consumer_delete cs nm = Some cs' \<Longrightarrow> n \<noteq> nm \<Longrightarrow> consumer_lookup cs' n = consumer_lookup cs n"
  by (induction cs arbitrary: cs') (auto split: if_splits)

lemma consumer_lookup_append:
  "consumer_lookup (cs @ ds) n =
     (case consumer_lookup cs n of None \<Rightarrow> consumer_lookup ds n | Some c \<Rightarrow> Some c)"
  by (induction cs) auto

lemma consumer_lookup_map:
  "(\<And>c. co_name (f c) = co_name c) \<Longrightarrow>
   consumer_lookup (map f cs) n = map_option f (consumer_lookup cs n)"
  by (induction cs) auto

lemma consumer_delete_some:
  "consumer_delete cs nm = Some cs' \<Longrightarrow> \<exists>a c b. cs = a @ c # b \<and> cs' = a @ b \<and> co_name c = nm"
proof (induction cs arbitrary: cs')
  case (Cons x cs)
  show ?case
  proof (cases "co_name x = nm")
    case True
    with Cons(2) have "x # cs = [] @ x # cs'" "co_name x = nm" by simp_all
    then show ?thesis by fastforce
  next
    case False
    with Cons(2) obtain ds where "consumer_delete cs nm = Some ds" "cs' = x # ds" by auto
    with Cons(1) [of ds] obtain a c b where "cs = a @ c # b" "ds = a @ b" "co_name c = nm" by auto
    with \<open>cs' = x # ds\<close> have "x # cs = (x # a) @ c # b" "cs' = (x # a) @ b" "co_name c = nm" by simp_all
    then show ?thesis by blast
  qed
qed simp

lemma consumer_update_names: "(\<And>c. co_name (f c) = co_name c) \<Longrightarrow> map co_name (consumer_update cs nm f) = map co_name cs"
  by (induction cs) auto

lemma consumers_ok_update:
  assumes "consumers_ok cs" "\<And>c. co_name (f c) = co_name c" "\<And>c. consumer_ok c \<Longrightarrow> consumer_ok (f c)"
  shows "consumers_ok (consumer_update cs nm f)"
proof -
  have "list_all consumer_ok cs \<Longrightarrow> list_all consumer_ok (consumer_update cs nm f)"
    using assms(3) by (induction cs) auto
  moreover have "length (consumer_update cs nm f) = length cs" by (induction cs) auto
  ultimately show ?thesis using assms(1) by (simp add: consumers_ok_def consumer_update_names [OF assms(2)])
qed

lemma consumers_ok_delete: "consumers_ok cs \<Longrightarrow> consumer_delete cs nm = Some cs' \<Longrightarrow> consumers_ok cs'"
  by (drule consumer_delete_some) (auto simp: consumers_ok_def)


lemma acked_min_in: "acked_min as m \<in> insert m (set as)"
  by (induction as arbitrary: m) (auto split: if_splits)

lemma consumer_sync_simps [simp]:
  "co_name (consumer_sync_acked c n) = co_name c"
  "co_acked_part (consumer_sync_acked c n) = co_acked_part c"
  by (simp_all add: consumer_sync_acked_def)

lemma consumer_ok_sync: "consumer_ok c \<Longrightarrow> consumer_ok (consumer_sync_acked c n)"
proof -
  assume ok: "consumer_ok c"
  let ?as = "drop 1 (take n (co_acked_part c))" and ?a = "co_acked_part c ! 0"
  have "?a \<in> set (co_acked_part c)" using ok by (simp add: consumer_ok_def CMQ_STREAM_MAX_PARTS_def)
  moreover have "set ?as \<subseteq> set (co_acked_part c)" by (meson order_trans set_drop_subset set_take_subset)
  ultimately have "acked_min ?as ?a \<in> set (co_acked_part c)" using acked_min_in [of ?as ?a] by auto
  with ok show ?thesis by (simp add: consumer_sync_acked_def consumer_ok_def)
qed

lemma consumer_ok_part:
  assumes "consumer_ok c" "seq < UINT64_MAX"
  shows "consumer_ok (c\<lparr>co_acked_part := (co_acked_part c)[p := seq]\<rparr>)"
    "consumer_ok (c\<lparr>co_acked_seq := seq\<rparr>)"
    "consumer_ok (c\<lparr>co_acked_seq := seq, co_acked_part := (co_acked_part c)[p := seq]\<rparr>)"
  using assms set_update_subset_insert [of "co_acked_part c" p seq] by (auto simp: consumer_ok_def)

lemma consumer_ack_name [simp]:
  "co_name (consumer_ack s seq c) = co_name c" "co_name (consumer_ack_part s p seq c) = co_name c"
  by (simp_all add: consumer_ack_def consumer_ack_part_def Let_def)

lemma consumer_ok_ack:
  assumes "seq < UINT64_MAX" "consumer_ok c"
  shows "consumer_ok (consumer_ack s seq c)" "consumer_ok (consumer_ack_part s p seq c)"
  using assms by (auto simp: consumer_ack_def consumer_ack_part_def Let_def
      intro!: consumer_ok_sync consumer_ok_part)

lemma watermark_ack:
  assumes "consumer_ok c" "parts_ok s" "0 < sm_max_msgs s" "p < sm_nparts s"
  shows "watermark s (consumer_ack s seq c) p =
    (if p = part_at_locked s seq then max seq (watermark s c p) else watermark s c p)"
proof -
  have "part_at_locked s seq < sm_nparts s" by (rule part_at_less [OF assms(2,3)])
  then show ?thesis
    using assms(1,2,4) by (auto simp: watermark_def consumer_ack_def Let_def consumer_ok_def parts_ok_def)
qed

lemma watermark_ack_part:
  assumes "consumer_ok c" "parts_ok s" "part < sm_nparts s" "p < sm_nparts s"
  shows "watermark s (consumer_ack_part s part seq c) p =
    (if p = part then max seq (watermark s c p) else watermark s c p)"
  using assms by (auto simp: watermark_def consumer_ack_part_def consumer_ok_def parts_ok_def)

lemma consumers_update_inv:
  "stream_inv s \<Longrightarrow> consumers_ok cs \<Longrightarrow> stream_inv (s\<lparr>sm_consumers := cs\<rparr>)"
  using parts_ok_frame [of "s\<lparr>sm_consumers := cs\<rparr>" s] by (auto simp: stream_inv_def bytes_ok_def)

lemma stream_consumers_simps [simp]:
  "part_at_locked (s\<lparr>sm_consumers := cs\<rparr>) q = part_at_locked s q"
  "watermark (s\<lparr>sm_consumers := cs\<rparr>) c p = watermark s c p"
  "stream_unacked (s\<lparr>sm_consumers := cs\<rparr>) c q = stream_unacked s c q"
  using part_at_frame [of "s\<lparr>sm_consumers := cs\<rparr>" s] by (simp_all add: watermark_def stream_unacked_def)

lemma seq_in_bounds: "stream_inv s \<Longrightarrow> seq \<le> cmq_store_last_seq (sm_store s) \<Longrightarrow> seq < UINT64_MAX"
  using st.seq_bound [of "sm_store s"] stream_inv_wf [of s]
  by (auto simp: stream_inv_def st.last_seq log_wf_def UINT64_MAX_def split: if_splits)

lemma stream_ack_impl_cases:
  assumes "stream_inv s" "stream_consumer_ack_impl s name seq = (ok, s')"
  obtains "\<not> ok" "s' = s"
  | "ok" "s' = s\<lparr>sm_consumers := consumer_update (sm_consumers s) name (consumer_ack s seq)\<rparr>"
    "stream_inv s'" "seq < UINT64_MAX"
proof (cases "s' = s \<and> \<not> ok")
  case False
  with assms(2) have s': "s' = s\<lparr>sm_consumers := consumer_update (sm_consumers s) name (consumer_ack s seq)\<rparr>"
    and ok: "ok" and q: "seq \<le> cmq_store_last_seq (sm_store s)"
    by (auto simp: stream_consumer_ack_impl_def Let_def split: if_splits)
  have b: "seq < UINT64_MAX" by (rule seq_in_bounds [OF assms(1) q])
  have "consumers_ok (consumer_update (sm_consumers s) name (consumer_ack s seq))"
    using assms(1) consumer_ok_ack(1) [OF b] by (intro consumers_ok_update) (auto simp: stream_inv_def)
  with that(2) [OF ok s' _ b] consumers_update_inv [OF assms(1)] s' show ?thesis by simp
qed (use that(1) in simp)

lemma stream_ack_part_impl_cases:
  assumes "stream_inv s" "stream_consumer_ack_part_impl s name part seq = (ok, s')"
  obtains "\<not> ok" "s' = s"
  | "ok" "s' = s\<lparr>sm_consumers := consumer_update (sm_consumers s) name (consumer_ack_part s part seq)\<rparr>"
    "stream_inv s'" "seq < UINT64_MAX" "part < sm_nparts s" "part_at_locked s seq = part"
proof (cases "s' = s \<and> \<not> ok")
  case False
  with assms(2) have s': "s' = s\<lparr>sm_consumers := consumer_update (sm_consumers s) name (consumer_ack_part s part seq)\<rparr>"
    and ok: "ok" and q: "seq \<le> cmq_store_last_seq (sm_store s)" and p: "part < sm_nparts s"
      "sm_nparts s > 1 \<longrightarrow> part_at_locked s seq = part"
    by (auto simp: stream_consumer_ack_part_impl_def Let_def split: if_splits)
  have p': "part_at_locked s seq = part"
    using p by (auto simp: part_at_locked_def split: option.splits)
  have b: "seq < UINT64_MAX" by (rule seq_in_bounds [OF assms(1) q])
  have "consumers_ok (consumer_update (sm_consumers s) name (consumer_ack_part s part seq))"
    using assms(1) consumer_ok_ack(2) [OF b] by (intro consumers_ok_update) (auto simp: stream_inv_def)
  with that(2) [OF ok s' _ b p(1) p'] consumers_update_inv [OF assms(1)] s' show ?thesis by simp
qed (use that(1) in simp)

lemma stream_add_impl_cases:
  assumes "stream_inv s" "stream_add_consumer_impl s name = (ok, s')"
  obtains "s' = s"
  | c where "s' = s\<lparr>sm_consumers := sm_consumers s @ [c]\<rparr>" "stream_inv s'" "co_name c = name" "ok"
    "consumer_lookup (sm_consumers s) name = None"
    "c = consumer_init_parts \<lparr>co_name = name, co_acked_seq = 0, co_acked_part = []\<rparr>
       (cmq_store_first_seq (sm_store s) - 1)"
proof (cases "s' = s")
  case False
  define c where "c = consumer_init_parts \<lparr>co_name = name, co_acked_seq = 0, co_acked_part = []\<rparr>
       (cmq_store_first_seq (sm_store s) - 1)"
  from False assms(2) have s': "s' = s\<lparr>sm_consumers := sm_consumers s @ [c]\<rparr>" and ok: "ok"
    and new: "consumer_lookup (sm_consumers s) name = None"
    and len: "length (sm_consumers s) < CMQ_MAX_CONSUMERS"
    and nm: "strnlen name CMQ_MAX_NAME \<noteq> 0" "strnlen name CMQ_MAX_NAME < CMQ_MAX_NAME"
    by (auto simp: stream_add_consumer_impl_def Let_def c_def split: if_splits)
  have "cmq_store_first_seq (sm_store s) \<le> cmq_store_last_seq (sm_store s)"
    using assms(1) st.first_le_last [of "sm_store s"]
    by (cases "snd (stream_log s) = []") (auto simp: stream_inv_def st.first_seq st.last_seq st.msg_count)
  from seq_in_bounds [OF assms(1) this] nm have "consumer_ok c"
    by (auto simp: c_def consumer_init_parts_def consumer_ok_def strnlen_def)
  moreover have "co_name c = name" by (simp add: c_def consumer_init_parts_def)
  ultimately have "consumers_ok (sm_consumers s @ [c])"
    using assms(1) len new by (auto simp: consumers_ok_def stream_inv_def consumer_lookup_none)
  with that(2) [OF s' _ \<open>co_name c = name\<close> ok new c_def] consumers_update_inv [OF assms(1)] s'
  show ?thesis by simp
qed (use that(1) in simp)


section \<open>Runs\<close>

datatype stream_event =
    Append heap nat "bytes option"
  | Append_Key heap nat "bytes option" "bytes option"
  | Add_Consumer string
  | Remove_Consumer string
  | Ack string nat
  | Ack_Part string nat nat
  | Set_Partitions heap nat

fun stream_exec :: "stream_event \<Rightarrow> stream \<Rightarrow> stream" where
  "stream_exec (Append h now data) s = snd (cmq_stream_append h now s data)"
| "stream_exec (Append_Key h now key data) s = snd (cmq_stream_append_key h now s key data)"
| "stream_exec (Add_Consumer n) s = snd (cmq_stream_add_consumer s n)"
| "stream_exec (Remove_Consumer n) s = snd (cmq_stream_remove_consumer s n)"
| "stream_exec (Ack n q) s = snd (cmq_stream_consumer_ack s n q)"
| "stream_exec (Ack_Part n p q) s = snd (cmq_stream_consumer_ack_part s n p q)"
| "stream_exec (Set_Partitions h n) s = snd (cmq_stream_set_partitions h s n)"

text \<open>Runs whose events all satisfy a condition in the state they happen in.\<close>

inductive stream_run :: "(stream \<Rightarrow> stream_event \<Rightarrow> bool) \<Rightarrow> stream \<Rightarrow> stream \<Rightarrow> bool" for P where
  start: "stream_run P s s"
| more: "stream_run P s s' \<Longrightarrow> P s' e \<Longrightarrow> stream_run P s (stream_exec e s')"

text \<open>Consumer \<open>name\<close> gives up its claim on message \<open>q\<close>: it leaves, or acknowledges \<open>q\<close>'s partition
  up to \<open>q\<close> or beyond.\<close>

fun releases :: "string \<Rightarrow> nat \<Rightarrow> stream \<Rightarrow> stream_event \<Rightarrow> bool" where
  "releases name q s (Remove_Consumer n) = (n = name)"
| "releases name q s (Ack n q') = (n = name \<and> q \<le> q' \<and> part_at_locked s q' = part_at_locked s q)"
| "releases name q s (Ack_Part n p q') = (n = name \<and> q \<le> q' \<and> part_at_locked s q' = part_at_locked s q)"
| "releases name q s _ = False"

definition stream_pending :: "stream \<Rightarrow> string \<Rightarrow> nat \<Rightarrow> bool" where
  "stream_pending s name q \<longleftrightarrow>
     (case consumer_lookup (sm_consumers s) name of None \<Rightarrow> False | Some c \<Rightarrow> stream_unacked s c q)"

lemma stream_pending_in_flight [simp]:
  "stream_pending (s\<lparr>sm_in_flight := k\<rparr>) name q = stream_pending s name q"
  by (cases "consumer_lookup (sm_consumers s) name") (simp_all add: stream_pending_def)

lemma stream_end_op_simps [simp]:
  "stream_log (stream_end_op s) = stream_log s" "stream_inv (stream_end_op s) = stream_inv s"
  "stream_pending (stream_end_op s) name q = stream_pending s name q"
  "sm_consumers (stream_end_op s) = sm_consumers s" "sm_nparts (stream_end_op s) = sm_nparts s"
  "part_at_locked (stream_end_op s) q = part_at_locked s q"
  "sm_max_msgs (stream_end_op s) = sm_max_msgs s" "sm_store (stream_end_op s) = sm_store s"
  "sm_max_bytes (stream_end_op s) = sm_max_bytes s"
  by (simp_all add: stream_end_op_def)

text \<open>\<open>holds_on name q m s\<close>: message \<open>q\<close> is stored and \<open>name\<close> still has to acknowledge it.\<close>

definition holds_on :: "string \<Rightarrow> nat \<Rightarrow> bytes \<Rightarrow> stream \<Rightarrow> bool" where
  "holds_on name q m s \<longleftrightarrow> stream_inv s \<and> log_at (stream_log s) q = Some m \<and> stream_pending s name q"

lemma holds_on_simps [simp]:
  "holds_on name q m (stream_end_op s) = holds_on name q m s"
  "holds_on name q m (s\<lparr>sm_in_flight := k\<rparr>) = holds_on name q m s"
  by (simp_all add: holds_on_def)

lemma holds_on_append:
  assumes "holds_on name q m s" "sm_nparts s > 1 \<longrightarrow> part < sm_nparts s"
    "stream_append_impl h now s data part = (seq, s')"
  shows "holds_on name q m s'"
proof -
  have inv: "stream_inv s" and at: "log_at (stream_log s) q = Some m" using assms(1) by (auto simp: holds_on_def)
  obtain c where c: "consumer_lookup (sm_consumers s) name = Some c" "stream_unacked s c q"
    using assms(1) by (auto simp: holds_on_def stream_pending_def split: option.splits)
  have "stream_retain s \<le> q"
    using floor_unacked [OF inv _ at c(2)] consumer_lookup_set [OF c(1)] by simp
  from stream_append_impl_retains [OF inv assms(2,3) at this] c show ?thesis
    by (auto simp: holds_on_def stream_pending_def stream_unacked_def watermark_def)
qed

lemma holds_on_consumers:
  assumes "holds_on name q m s" "stream_inv (s\<lparr>sm_consumers := cs\<rparr>)"
    "\<And>c. consumer_lookup (sm_consumers s) name = Some c \<Longrightarrow> consumer_ok c \<Longrightarrow> stream_unacked s c q \<Longrightarrow>
       \<exists>c'. consumer_lookup cs name = Some c' \<and> stream_unacked s c' q"
  shows "holds_on name q m (s\<lparr>sm_consumers := cs\<rparr>)"
proof -
  obtain c where c: "consumer_lookup (sm_consumers s) name = Some c" "stream_unacked s c q"
    using assms(1) by (auto simp: holds_on_def stream_pending_def split: option.splits)
  moreover have "consumer_ok c"
    using assms(1) consumer_lookup_set [OF c(1)] by (auto simp: holds_on_def stream_inv_def consumers_ok_def list_all_iff)
  ultimately show ?thesis using assms(1,2,3) by (fastforce simp: holds_on_def stream_pending_def)
qed

lemma unacked_ack:
  assumes "stream_inv s" "consumer_ok c" "stream_unacked s c q"
    "q' < q \<or> part_at_locked s q' \<noteq> part_at_locked s q"
  shows "stream_unacked s (consumer_ack s q' c) q"
    "part_at_locked s q' = part \<Longrightarrow> part < sm_nparts s \<Longrightarrow> stream_unacked s (consumer_ack_part s part q' c) q"
proof -
  have p: "parts_ok s" "0 < sm_max_msgs s"
    using assms(1) stream_inv_wf [OF assms(1)] by (auto simp: stream_inv_def log_wf_def)
  note less = part_at_less [OF p]
  show "stream_unacked s (consumer_ack s q' c) q"
    using assms(3,4) watermark_ack [OF assms(2) p less] by (auto simp: stream_unacked_def)
  show "stream_unacked s (consumer_ack_part s part q' c) q"
    if "part_at_locked s q' = part" "part < sm_nparts s"
    using assms(3,4) that watermark_ack_part [OF assms(2) p(1) that(2) less] by (auto simp: stream_unacked_def)
qed

definition with_parts :: "stream \<Rightarrow> nat \<Rightarrow> stream" where
  "with_parts s n =
     s\<lparr>sm_msg_part := (if n = 1 then None else Some (replicate (sm_max_msgs s) 0)),
       sm_part_cap := (if n = 1 then 0 else sm_max_msgs s), sm_nparts := n,
       sm_consumers := map (\<lambda>c. consumer_init_parts c (co_acked_seq c)) (sm_consumers s)\<rparr>"

lemma set_partitions_eq:
  assumes "stream_inv s"
  shows "snd (cmq_stream_set_partitions h s n) =
    (if 1 \<le> n \<and> n \<le> CMQ_STREAM_MAX_PARTS \<and> sm_nparts s \<noteq> n \<and> cmq_store_last_seq (sm_store s) = 0 \<and>
        (n = 1 \<or> fst (malloc_ok h)) then with_parts s n else s)"
proof (cases "1 \<le> n \<and> n \<le> CMQ_STREAM_MAX_PARTS \<and> sm_nparts s \<noteq> n \<and> cmq_store_last_seq (sm_store s) = 0")
  case True
  then show ?thesis using assms unfolding cmq_stream_set_partitions_def parts_alloc_locked_def with_parts_def
    by (simp add: stream_end_op_def)
next
  case False
  then show ?thesis using assms unfolding cmq_stream_set_partitions_def
    by (auto simp: stream_end_op_def)
qed

lemma set_partitions_cases:
  assumes "stream_inv s"
  obtains "snd (cmq_stream_set_partitions h s n) = s"
  | "1 \<le> n" "n \<le> CMQ_STREAM_MAX_PARTS" "snd (stream_log s) = []"
    "snd (cmq_stream_set_partitions h s n) = with_parts s n"
proof -
  have live: "store_live (sm_store s)" using assms by (simp add: stream_inv_def)
  have last0: "snd (stream_log s) = []" if "cmq_store_last_seq (sm_store s) = 0"
    using that stream_inv_wf [OF assms] by (cases "snd (stream_log s)") (auto simp: st.last_seq [OF live] log_wf_def)
  show ?thesis using that last0 set_partitions_eq [OF assms, of h n] by presburger
qed

lemma set_partitions_inv:
  assumes "stream_inv s"
  shows "stream_inv (snd (cmq_stream_set_partitions h s n))"
    "snd (stream_log s) \<noteq> [] \<Longrightarrow> snd (cmq_stream_set_partitions h s n) = s"
proof -
  have cs: "consumers_ok (map (\<lambda>c. consumer_init_parts c (co_acked_seq c)) (sm_consumers s))"
    using assms by (auto simp: stream_inv_def consumers_ok_def list_all_iff consumer_ok_def
        consumer_init_parts_def comp_def)
  have m: "0 < sm_max_msgs s" using stream_inv_wf [OF assms] by (simp add: log_wf_def)
  from assms show "stream_inv (snd (cmq_stream_set_partitions h s n))"
  proof (cases rule: set_partitions_cases [where h = h and n = n])
    case 2
    show ?thesis unfolding 2(4) with_parts_def using assms 2(1,2) cs m
      by (auto simp: stream_inv_def bytes_ok_def parts_ok_def)
  qed (use assms in simp)
  from assms show "snd (stream_log s) \<noteq> [] \<Longrightarrow> snd (cmq_stream_set_partitions h s n) = s"
    by (cases rule: set_partitions_cases [where h = h and n = n]) auto
qed


lemma holds_on_add:
  assumes "holds_on name q m s" "stream_add_consumer_impl s n = (ok, s')"
  shows "holds_on name q m s'"
proof -
  have inv: "stream_inv s" using assms(1) by (simp add: holds_on_def)
  from inv assms(2) show ?thesis
  proof (cases rule: stream_add_impl_cases)
    case (2 c)
    then show ?thesis by (auto simp: consumer_lookup_append intro: holds_on_consumers [OF assms(1)])
  qed (use assms(1) in simp)
qed

lemma stream_remove_impl_inv:
  assumes "stream_inv s"
  shows "stream_inv (snd (stream_remove_consumer_impl s n))"
proof -
  have "consumers_ok (sm_consumers s)" using assms by (simp add: stream_inv_def)
  with assms show ?thesis
    by (auto simp: stream_remove_consumer_impl_def split: option.splits
        intro: consumers_update_inv consumers_ok_delete)
qed

lemma holds_on_remove:
  assumes "holds_on name q m s" "n \<noteq> name"
  shows "holds_on name q m (snd (stream_remove_consumer_impl s n))"
proof (cases "consumer_delete (sm_consumers s) n")
  case (Some cs)
  have "stream_inv s" using assms(1) by (simp add: holds_on_def)
  from stream_remove_impl_inv [OF this, of n] Some have "stream_inv (s\<lparr>sm_consumers := cs\<rparr>)"
    by (simp add: stream_remove_consumer_impl_def)
  from holds_on_consumers [OF assms(1) this] consumer_lookup_delete [OF Some, of name] assms(2) Some
  show ?thesis by (simp add: stream_remove_consumer_impl_def)
qed (use assms(1) in \<open>simp add: stream_remove_consumer_impl_def\<close>)

text \<open>An acknowledgement that changes one consumer's entry keeps \<open>holds_on\<close> if the entry does.\<close>

lemma holds_on_update:
  assumes "holds_on name q m s" "stream_inv (s\<lparr>sm_consumers := consumer_update (sm_consumers s) n f\<rparr>)"
    "\<And>c. co_name (f c) = co_name c"
    "\<And>c. name = n \<Longrightarrow> consumer_ok c \<Longrightarrow> stream_unacked s c q \<Longrightarrow> stream_unacked s (f c) q"
  shows "holds_on name q m (s\<lparr>sm_consumers := consumer_update (sm_consumers s) n f\<rparr>)"
  using assms by (intro holds_on_consumers [OF assms(1,2)]) (auto simp: consumer_lookup_update)

lemma holds_on_ack:
  assumes "holds_on name q m s" "stream_consumer_ack_impl s n q' = (ok, s')"
    "n \<noteq> name \<or> q' < q \<or> part_at_locked s q' \<noteq> part_at_locked s q"
  shows "holds_on name q m s'"
proof -
  have inv: "stream_inv s" using assms(1) by (simp add: holds_on_def)
  from inv assms(2) show ?thesis
  proof (cases rule: stream_ack_impl_cases)
    case 2
    show ?thesis unfolding 2(2) using assms(3) unacked_ack(1) [OF inv]
      by (intro holds_on_update [OF assms(1) 2(3) [unfolded 2(2)]]) auto
  qed (use assms(1) in simp)
qed

lemma holds_on_ack_part:
  assumes "holds_on name q m s" "stream_consumer_ack_part_impl s n p q' = (ok, s')"
    "n \<noteq> name \<or> q' < q \<or> part_at_locked s q' \<noteq> part_at_locked s q"
  shows "holds_on name q m s'"
proof -
  have inv: "stream_inv s" using assms(1) by (simp add: holds_on_def)
  from inv assms(2) show ?thesis
  proof (cases rule: stream_ack_part_impl_cases)
    case 2
    show ?thesis unfolding 2(2) using assms(3) unacked_ack(2) [OF inv _ _ _ 2(6,5)]
      by (intro holds_on_update [OF assms(1) 2(3) [unfolded 2(2)]]) auto
  qed (use assms(1) in simp)
qed

lemma stream_exec_holds_on:
  assumes "holds_on name q m s" "\<not> releases name q s e"
  shows "holds_on name q m (stream_exec e s)"
proof -
  let ?s = "s\<lparr>sm_in_flight := sm_in_flight s + 1\<rparr>"
  have inv: "stream_inv s" using assms(1) by (simp add: holds_on_def)
  have h: "holds_on name q m ?s" using assms(1) by simp
  show ?thesis
  proof (cases e)
    case (Append hp now data)
    obtain seq s' where r: "cmq_stream_append hp now s data = (seq, s')" by fastforce
    from inv r obtain s2 where i: "stream_append_impl hp now ?s data 0 = (seq, s2)" and "s' = stream_end_op s2"
      by (rule cmq_stream_append_body)
    with holds_on_append [OF h _ i] r Append show ?thesis by simp
  next
    case (Append_Key hp now key data)
    obtain seq s' where r: "cmq_stream_append_key hp now s key data = (seq, s')" by fastforce
    from inv r show ?thesis
    proof (cases rule: cmq_stream_append_key_body)
      case (2 s2 part)
      with holds_on_append [OF h _ 2(1)] r Append_Key show ?thesis by simp
    qed (use assms(1) r Append_Key in simp)
  next
    case (Add_Consumer n)
    with holds_on_add [OF h, of n] inv h show ?thesis
      by (cases "stream_add_consumer_impl ?s n") (simp add: cmq_stream_add_consumer_def)
  next
    case (Remove_Consumer n)
    with holds_on_remove [OF h, of n] assms(2) inv show ?thesis
      by (cases "stream_remove_consumer_impl ?s n") (simp add: cmq_stream_remove_consumer_def)
  next
    case (Ack n q')
    with holds_on_ack [OF h, of n q'] assms inv show ?thesis
      by (cases "stream_consumer_ack_impl ?s n q'") (auto simp: cmq_stream_consumer_ack_def)
  next
    case (Ack_Part n p q')
    with holds_on_ack_part [OF h, of n p q'] assms inv show ?thesis
      by (cases "stream_consumer_ack_part_impl ?s n p q'") (auto simp: cmq_stream_consumer_ack_part_def)
  next
    case (Set_Partitions hp n)
    have "snd (stream_log s) \<noteq> []"
      using assms(1) by (auto simp: holds_on_def log_at_def log_lo_def split: if_splits)
    with set_partitions_inv(2) [OF inv] assms(1) Set_Partitions show ?thesis by simp
  qed
qed


lemma stream_exec_inv:
  assumes "stream_inv s"
  shows "stream_inv (stream_exec e s)"
proof -
  let ?s = "s\<lparr>sm_in_flight := sm_in_flight s + 1\<rparr>"
  have inv: "stream_inv ?s" using assms by simp
  show ?thesis
  proof (cases e)
    case (Append hp now data)
    obtain seq s' where r: "cmq_stream_append hp now s data = (seq, s')" by fastforce
    from assms r obtain s2 where i: "stream_append_impl hp now ?s data 0 = (seq, s2)" and "s' = stream_end_op s2"
      by (rule cmq_stream_append_body)
    with stream_append_impl_inv [OF inv _ i] r Append show ?thesis by simp
  next
    case (Append_Key hp now key data)
    obtain seq s' where r: "cmq_stream_append_key hp now s key data = (seq, s')" by fastforce
    from assms r show ?thesis
    proof (cases rule: cmq_stream_append_key_body)
      case (2 s2 part)
      with stream_append_impl_inv [OF inv _ 2(1)] r Append_Key show ?thesis by simp
    qed (use assms r Append_Key in simp)
  next
    case (Add_Consumer n)
    obtain ok s2 where r: "stream_add_consumer_impl ?s n = (ok, s2)" by fastforce
    from inv r have "stream_inv s2" by (cases rule: stream_add_impl_cases) (use inv in simp_all)
    with Add_Consumer r assms inv show ?thesis by (simp add: cmq_stream_add_consumer_def)
  next
    case (Remove_Consumer n)
    with stream_remove_impl_inv [OF inv, of n] assms show ?thesis
      by (cases "stream_remove_consumer_impl ?s n") (simp add: cmq_stream_remove_consumer_def)
  next
    case (Ack n q)
    obtain ok s2 where r: "stream_consumer_ack_impl ?s n q = (ok, s2)" by fastforce
    from inv r have "stream_inv s2" by (cases rule: stream_ack_impl_cases) (use inv in simp_all)
    with Ack r assms inv show ?thesis by (simp add: cmq_stream_consumer_ack_def)
  next
    case (Ack_Part n p q)
    obtain ok s2 where r: "stream_consumer_ack_part_impl ?s n p q = (ok, s2)" by fastforce
    from inv r have "stream_inv s2" by (cases rule: stream_ack_part_impl_cases) (use inv in simp_all)
    with Ack_Part r assms inv show ?thesis by (simp add: cmq_stream_consumer_ack_part_def)
  next
    case (Set_Partitions hp n)
    with set_partitions_inv(1) [OF assms] show ?thesis by simp
  qed
qed

lemma stream_create_inv:
  assumes "cmq_stream_create h name mm mb = Some s"
    "(if mm > 0 then mm else 1024) * STORE_MAX_MSG \<le> SIZE_MAX" "mb \<le> SIZE_MAX"
  shows "stream_inv s"
proof -
  from assms(1) obtain h' st where st: "cmq_store_create h' (if mm > 0 then mm else 1024) = Some st"
    and s: "s = \<lparr>sm_name = name, sm_store = st, sm_consumers = [],
        sm_max_msgs = (if mm > 0 then mm else 1024), sm_max_bytes = mb, sm_total_bytes = 0,
        sm_cursor_path = [], sm_nparts = 1, sm_msg_part = None, sm_part_cap = 0,
        sm_in_flight = 0, sm_dying = False\<rparr>"
    unfolding cmq_stream_create_def by (auto split: if_splits prod.splits bool.splits option.splits)
  from cmq_store_create_live [OF st] assms(2,3) show ?thesis
    by (auto simp: s stream_inv_def bytes_ok_def parts_ok_def consumers_ok_def log_bytes_def
        CMQ_STREAM_MAX_PARTS_def split: if_splits)
qed

lemma stream_run_inv: "stream_run P s s' \<Longrightarrow> stream_inv s \<Longrightarrow> stream_inv s'"
  by (induction rule: stream_run.induct) (auto intro: stream_exec_inv)

lemma stream_run_holds_on:
  "stream_run P s s' \<Longrightarrow> (\<And>s e. P s e \<Longrightarrow> \<not> releases name q s e) \<Longrightarrow>
   holds_on name q m s \<Longrightarrow> holds_on name q m s'"
  by (induction rule: stream_run.induct) (auto intro: stream_exec_holds_on)

section \<open>Delivery\<close>

lemma part_search_least:
  "part_search s part q l = 0 \<and> (\<forall>q'. q \<le> q' \<and> q' \<le> l \<longrightarrow> part_at_locked s q' \<noteq> part) \<or>
   q \<le> part_search s part q l \<and> part_search s part q l \<le> l \<and>
   part_at_locked s (part_search s part q l) = part \<and>
   (\<forall>q'. q \<le> q' \<and> q' < part_search s part q l \<longrightarrow> part_at_locked s q' \<noteq> part)"
proof (induction s part q l rule: part_search.induct)
  case (1 s part q l)
  show ?case
  proof (cases "q \<le> l \<and> part_at_locked s q \<noteq> part")
    case True
    then have eq: "part_search s part q l = part_search s part (q + 1) l"
      by (subst part_search.simps) simp
    have ext: "q \<le> q' \<longleftrightarrow> q' = q \<or> q + 1 \<le> q'" for q' by auto
    from 1 True show ?thesis unfolding eq ext by auto
  qed (subst (1 2 3 4 5) part_search.simps, auto)
qed

text \<open>\<open>deliverable s c part q\<close>: message \<open>q\<close> is stored, in \<open>part\<close>, and not acknowledged by \<open>c\<close>.\<close>

definition deliverable :: "stream \<Rightarrow> consumer \<Rightarrow> nat \<Rightarrow> nat \<Rightarrow> bool" where
  "deliverable s c part q \<longleftrightarrow>
     log_at (stream_log s) q \<noteq> None \<and> part_at_locked s q = part \<and> watermark s c part < q"

lemma deliverable_range:
  assumes "stream_inv s"
  shows "deliverable s c part q \<longleftrightarrow>
    0 < q \<and> cmq_store_first_seq (sm_store s) \<le> q \<and> q \<le> cmq_store_last_seq (sm_store s) \<and>
    part_at_locked s q = part \<and> watermark s c part < q"
  using assms st.retained_iff [of "sm_store s" q]
  by (auto simp: stream_inv_def deliverable_def)

lemma part_at_single: "parts_ok s \<Longrightarrow> sm_nparts s \<le> 1 \<Longrightarrow> part_at_locked s q = 0"
  by (auto simp: parts_ok_def part_at_locked_def split: option.splits)

lemma next_part_impl_least:
  assumes "stream_inv s" "consumer_lookup (sm_consumers s) name = Some c" "part < sm_nparts s"
    "stream_consumer_next_part_impl s name part = q"
  shows "if q = 0 then \<forall>q'. \<not> deliverable s c part q'
    else deliverable s c part q \<and> (\<forall>q' < q. \<not> deliverable s c part q')"
proof -
  let ?f = "cmq_store_first_seq (sm_store s)" and ?l = "cmq_store_last_seq (sm_store s)"
  let ?w = "watermark s c part" and ?start = "max ?f (watermark s c part + 1)"
  have live: "store_live (sm_store s)" and p: "parts_ok s" using assms(1) by (auto simp: stream_inv_def)
  have "consumer_ok c"
    using assms(1) consumer_lookup_set [OF assms(2)] by (auto simp: stream_inv_def consumers_ok_def list_all_iff)
  then have w: "?w < UINT64_MAX"
    using assms(3) p nth_mem [of part "co_acked_part c"] by (auto simp: watermark_def consumer_ok_def parts_ok_def)
  then have "wrap64 (?w + 1) = ?w + 1" by (intro wrap64_id) (simp add: UINT64_MAX_def)
  then have q: "q = (if ?l = 0 \<or> ?start > ?l then 0
      else if sm_nparts s \<le> 1 then ?start else part_search s part ?start ?l)"
    using assms(2-4) by (auto simp: stream_consumer_next_part_impl_def Let_def watermark_def max_def split: if_splits)
  have single: "part_at_locked s x = part" if "sm_nparts s \<le> 1" for x
    using part_at_single [OF p that] that assms(3) by simp
  note range = deliverable_range [OF assms(1)]
  show ?thesis
  proof (cases "?l = 0 \<or> ?start > ?l")
    case True
    with q have "q = 0" by simp
    moreover have "\<not> deliverable s c part q'" for q' using True by (auto simp: range)
    ultimately show ?thesis by simp
  next
    case False
    show ?thesis
    proof (cases "sm_nparts s \<le> 1")
      case True
      with False q single show ?thesis by (auto simp: range)
    next
      case n: False
      then have "q = part_search s part ?start ?l" using q False by simp
      with part_search_least [of s part ?start ?l] show ?thesis by (auto simp: range)
    qed
  qed
qed


text \<open>A consumer that takes the next message of a partition and acknowledges it, up to \<open>n\<close> times.\<close>

fun drain :: "nat \<Rightarrow> stream \<Rightarrow> string \<Rightarrow> nat \<Rightarrow> nat list \<times> stream" where
  "drain 0 s name part = ([], s)"
| "drain (Suc n) s name part =
     (let q = cmq_stream_consumer_next_part s name part
      in if q = 0 then ([], s)
         else case drain n (snd (cmq_stream_consumer_ack_part s name part q)) name part of
           (qs, s') \<Rightarrow> (q # qs, s'))"

definition deliverables :: "stream \<Rightarrow> consumer \<Rightarrow> nat \<Rightarrow> nat list" where
  "deliverables s c part = filter (deliverable s c part) [log_lo (stream_log s) ..< fst (stream_log s)]"

lemma filter_upt_least:
  assumes "P q" "lo \<le> q" "q < hi" "\<forall>q' < q. \<not> P q'"
  shows "filter P [lo ..< hi] = q # filter (\<lambda>x. P x \<and> q < x) [lo ..< hi]"
proof -
  have split: "[lo ..< hi] = [lo ..< q] @ q # [Suc q ..< hi]"
    using assms(2,3) upt_add_eq_append [of lo q "hi - q"] by (simp add: upt_conv_Cons)
  have "filter P [lo ..< q] = []" "filter (\<lambda>x. P x \<and> q < x) [lo ..< q] = []"
    using assms(4) by (auto simp: filter_empty_conv)
  moreover have "filter (\<lambda>x. P x \<and> q < x) [Suc q ..< hi] = filter P [Suc q ..< hi]"
    by (rule filter_cong) auto
  ultimately show ?thesis using assms(1) by (simp add: split)
qed

lemma consumer_ack_part_in_flight [simp]:
  "consumer_ack_part (s\<lparr>sm_in_flight := k\<rparr>) part q = consumer_ack_part s part q"
  by (rule ext) (simp add: consumer_ack_part_def)

lemma next_part_eq:
  "stream_inv s \<Longrightarrow> cmq_stream_consumer_next_part s name part = stream_consumer_next_part_impl s name part"
proof -
  have "part_search (s\<lparr>sm_in_flight := k\<rparr>) part q l = part_search s part q l" for k q l
    by (induction s part q l rule: part_search.induct) (subst (1 2) part_search.simps, simp)
  then show "stream_inv s \<Longrightarrow> ?thesis"
    by (auto simp: cmq_stream_consumer_next_part_def stream_consumer_next_part_impl_def Let_def
        split: option.splits)
qed

lemma ack_part_eq:
  assumes "stream_inv s" "consumer_lookup (sm_consumers s) name = Some c" "part < sm_nparts s"
    "deliverable s c part q"
  shows "cmq_stream_consumer_ack_part s name part q =
    (True, s\<lparr>sm_consumers := consumer_update (sm_consumers s) name (consumer_ack_part s part q)\<rparr>)"
  using assms by (auto simp: deliverable_range [OF assms(1)] cmq_stream_consumer_ack_part_def
      stream_consumer_ack_part_impl_def stream_end_op_def Let_def)

lemma ack_part_deliverable:
  assumes "stream_inv s" "consumer_lookup (sm_consumers s) name = Some c" "part < sm_nparts s"
    "deliverable s c part q"
    "s' = s\<lparr>sm_consumers := consumer_update (sm_consumers s) name (consumer_ack_part s part q)\<rparr>"
    "c' = consumer_ack_part s part q c"
  shows "stream_inv s'" "consumer_lookup (sm_consumers s') name = Some c'"
    "stream_log s' = stream_log s" "sm_nparts s' = sm_nparts s"
    "deliverable s' c' part x \<longleftrightarrow> deliverable s c part x \<and> q < x"
proof -
  have ok: "consumer_ok c" "parts_ok s"
    using assms(1) consumer_lookup_set [OF assms(2)] by (auto simp: stream_inv_def consumers_ok_def list_all_iff)
  have "stream_exec (Ack_Part name part q) s = s'" using ack_part_eq [OF assms(1-4)] assms(5) by simp
  with stream_exec_inv [OF assms(1)] show "stream_inv s'" by metis
  show "consumer_lookup (sm_consumers s') name = Some c'"
    using assms(2,5,6) by (simp add: consumer_lookup_update)
  show "stream_log s' = stream_log s" "sm_nparts s' = sm_nparts s" using assms(5) by simp_all
  have "watermark s c part < q" using assms(4) by (simp add: deliverable_def)
  then show "deliverable s' c' part x \<longleftrightarrow> deliverable s c part x \<and> q < x"
    using watermark_ack_part [OF ok assms(3,3), of q] assms(5,6) by (auto simp: deliverable_def)
qed

lemma drain_delivers:
  "stream_inv s \<Longrightarrow> consumer_lookup (sm_consumers s) name = Some c \<Longrightarrow> part < sm_nparts s \<Longrightarrow>
   length (deliverables s c part) \<le> n \<Longrightarrow>
   fst (drain n s name part) = deliverables s c part \<and>
   cmq_stream_consumer_next_part (snd (drain n s name part)) name part = 0"
proof (induction n arbitrary: s c)
  case (Suc n)
  define q where "q = cmq_stream_consumer_next_part s name part"
  have least: "if q = 0 then \<forall>q'. \<not> deliverable s c part q'
      else deliverable s c part q \<and> (\<forall>q' < q. \<not> deliverable s c part q')"
    using next_part_impl_least [OF Suc(2-4)] next_part_eq [OF Suc(2)] by (simp add: q_def)
  show ?case
  proof (cases "q = 0")
    case True
    with least have "deliverables s c part = []" by (simp add: deliverables_def filter_empty_conv)
    with True show ?thesis by (simp add: q_def)
  next
    case False
    with least have d: "deliverable s c part q" and l: "\<forall>q' < q. \<not> deliverable s c part q'" by auto
    define s' where "s' = s\<lparr>sm_consumers := consumer_update (sm_consumers s) name (consumer_ack_part s part q)\<rparr>"
    note a = ack_part_deliverable [OF Suc(2-4) d s'_def refl]
    have at: "log_lo (stream_log s) \<le> q" "q < fst (stream_log s)"
      using d by (auto simp: deliverable_def log_at_def split: if_splits)
    have del: "deliverables s c part = q # deliverables s' (consumer_ack_part s part q c) part"
      using filter_upt_least [OF d at l] ext [of "deliverable s' (consumer_ack_part s part q c) part", OF a(5)]
      by (simp add: deliverables_def a(3))
    moreover have "part < sm_nparts s'" using Suc(4) a(4) by simp
    ultimately have "fst (drain n s' name part) = deliverables s' (consumer_ack_part s part q c) part \<and>
        cmq_stream_consumer_next_part (snd (drain n s' name part)) name part = 0"
      using Suc(5) by (intro Suc(1) [OF a(1,2)]) simp_all
    with False del ack_part_eq [OF Suc(2-4) d] show ?thesis
      by (cases "drain n s' name part") (simp add: q_def [symmetric] s'_def [symmetric])
  qed
next
  case 0
  then have "deliverables s c part = []" by simp
  then have none: "\<not> deliverable s c part x" for x
    by (auto simp: deliverables_def filter_empty_conv deliverable_def log_at_def split: if_splits)
  with next_part_impl_least [OF 0(1-3)] next_part_eq [OF 0(1)] 0 show ?case
    by (auto split: if_splits)
qed


section \<open>Examples\<close>

lemma replicate_two: "replicate 2 x = [x, x]"
  by (simp add: numeral_2_eq_2)

lemmas stream_eval =
  cmq_stream_create_def cmq_store_create_def stream_begin_op_def stream_end_op_def
  cmq_stream_add_consumer_def stream_add_consumer_impl_def consumer_init_parts_def
  cmq_stream_append_def stream_append_impl_def stream_wrap_debit_def stream_put_locked_def
  cmq_store_put_owned_def store_put_owned_impl_def store_begin_op_def store_end_op_def
  cmq_store_first_seq_def cmq_store_last_seq_def cmq_store_count_def cmq_store_seq_len_def
  store_first_seq_impl_def store_last_seq_impl_def store_seq_len_impl_def store_oldest_def slot_at_def
  cmq_stream_set_partitions_def parts_alloc_locked_def
  consumer_floor_locked_def part_at_locked_def strnlen_def empty_slot_def
  cmq_stream_consumer_ack_part_def stream_consumer_ack_part_impl_def consumer_ack_part_def
  consumer_sync_acked_def
  CMQ_MAX_NAME_def CMQ_MAX_CONSUMERS_def CMQ_STREAM_MAX_PARTS_def SIZE_MAX_def UINT64_MAX_def
  STORE_MAX_MSG_def sizeof_store_slot_def wrap64_def replicate_two Let_def

text \<open>A stream of two slots with one consumer, then with one message.\<close>

definition stream_example0 :: stream where
  "stream_example0 = stream_exec (Add_Consumer ''c'') (the (cmq_stream_create [] ''s'' 2 0))"

definition stream_example :: stream where
  "stream_example = stream_exec (Append [] 0 (Some [7])) stream_example0"

lemma stream_example_inv: "stream_inv stream_example0" "stream_inv stream_example"
proof -
  have "cmq_stream_create [] ''s'' 2 0 = Some (the (cmq_stream_create [] ''s'' 2 0))"
    by (simp add: stream_eval)
  from stream_create_inv [OF this] have "stream_inv (the (cmq_stream_create [] ''s'' 2 0))"
    by (simp add: SIZE_MAX_def STORE_MAX_MSG_def)
  then show "stream_inv stream_example0" "stream_inv stream_example"
    by (simp_all only: stream_example0_def stream_example_def stream_exec_inv)
qed

lemma stream_example0_eq:
  "stream_example0 =
     \<lparr>sm_name = ''s'',
      sm_store = \<lparr>st_ring = [empty_slot, empty_slot], st_cap = 2, st_head_seq = 1, st_count = 0,
        st_in_flight = 0, st_dying = False\<rparr>,
      sm_consumers = [\<lparr>co_name = ''c'', co_acked_seq = 0, co_acked_part = replicate 16 0\<rparr>],
      sm_max_msgs = 2, sm_max_bytes = 0, sm_total_bytes = 0, sm_cursor_path = [], sm_nparts = 1,
      sm_msg_part = None, sm_part_cap = 0, sm_in_flight = 0, sm_dying = False\<rparr>"
  by (simp add: stream_example0_def stream_eval)

lemma stream_example_eq:
  "stream_example =
     \<lparr>sm_name = ''s'',
      sm_store = \<lparr>st_ring = [\<lparr>sl_seq = 1, sl_data = Some [7], sl_len = 1, sl_timestamp_ms = 0, sl_valid = True\<rparr>,
           empty_slot], st_cap = 2, st_head_seq = 2, st_count = 1, st_in_flight = 0, st_dying = False\<rparr>,
      sm_consumers = [\<lparr>co_name = ''c'', co_acked_seq = 0, co_acked_part = replicate 16 0\<rparr>],
      sm_max_msgs = 2, sm_max_bytes = 0, sm_total_bytes = 1, sm_cursor_path = [], sm_nparts = 1,
      sm_msg_part = None, sm_part_cap = 0, sm_in_flight = 0, sm_dying = False\<rparr>"
  unfolding stream_example_def stream_example0_eq by (simp add: stream_eval)

lemma stream_example_log: "stream_log stream_example = (2, [[7]])"
  by (simp add: stream_example_eq store_log_def slot_at_def numeral_2_eq_2)

section \<open>Outcome of an append\<close>

lemma stream_append_accepted:
  assumes "stream_inv s" "d \<noteq> []" "fst (malloc_ok h)"
  shows "fst (cmq_stream_append h now s (Some d)) \<noteq> 0 \<longleftrightarrow>
    length d \<le> STORE_MAX_MSG \<and> st_head_seq (sm_store s) \<noteq> UINT64_MAX \<and>
    (sm_max_bytes s = 0 \<or> pinned_bytes s + length d \<le> sm_max_bytes s) \<and> ring_free s"
proof -
  let ?s = "s\<lparr>sm_in_flight := sm_in_flight s + 1\<rparr>"
  obtain seq s' where r: "cmq_stream_append h now s (Some d) = (seq, s')" by fastforce
  from assms(1) r obtain s2 where i: "stream_append_impl h now ?s (Some d) 0 = (seq, s2)"
    by (rule cmq_stream_append_body)
  have inv: "stream_inv ?s" "sm_nparts ?s > 1 \<longrightarrow> 0 < sm_nparts ?s" using assms(1) by simp_all
  have acc: "store_accepts (sm_store s) d \<longleftrightarrow> length d \<le> STORE_MAX_MSG \<and> st_head_seq (sm_store s) \<noteq> UINT64_MAX"
    using assms(2) by (simp add: store_accepts_def)
  from inv assms(2,3) i have "seq \<noteq> 0 \<longleftrightarrow> store_accepts (sm_store s) d \<and>
      (sm_max_bytes s = 0 \<or> pinned_bytes s + length d \<le> sm_max_bytes s) \<and> ring_free s"
  proof (cases rule: stream_append_impl_cases)
    case (1 s1)
    with store_accepts_trimmed [OF 1(1)] show ?thesis by auto
  next
    case (2 s1 w)
    from 2(2-4) have "seq \<noteq> 0" by (cases rule: stream_put_cases) (use 2(5) in auto)
    with 2 store_accepts_trimmed [OF 2(1)] show ?thesis by simp
  qed
  with r acc show ?thesis by simp
qed

lemma stream_append_impl_stored:
  assumes "stream_inv s" "sm_nparts s > 1 \<longrightarrow> part < sm_nparts s"
    "stream_append_impl h now s (Some d) part = (seq, s')" "seq \<noteq> 0"
  shows "seq = st_head_seq (sm_store s) \<and> stream_inv s' \<and> log_at (stream_log s') seq = Some d \<and>
    part_at_locked s' seq = (if sm_nparts s > 1 then part else 0) \<and> sm_consumers s' = sm_consumers s"
proof -
  have d: "d \<noteq> []" "fst (malloc_ok h)" using assms(3,4) stream_append_noop [of "Some d" h now s part] by auto
  from assms(1,2) d assms(3) show ?thesis
  proof (cases rule: stream_append_impl_cases)
    case (2 s1 w)
    note f = trimmed_frame [OF 2(1)]
    have head: "st_head_seq (sm_store s1) = st_head_seq (sm_store s)"
      using trimmedD(4) [OF 2(1)] by (simp add: log_trim_def)
    have inv1: "stream_inv s1" using 2(2) by (simp add: put_ready_def)
    from 2(2-4) show ?thesis
    proof (cases rule: stream_put_cases)
      case put: 2
      have "log_at (stream_log s') seq = Some d"
        using log_at_put [OF stream_inv_wf [OF inv1], of d seq] put(1,5) by simp
      moreover have "part_at_locked s' seq = (if sm_nparts s > 1 then part else 0)"
        using part_at_put [OF 2(2-4) put(2)] by (simp add: f)
      ultimately show ?thesis using put head f by simp
    qed (use assms(4) in simp)
  qed (use assms(4) in simp)
qed

lemma stream_read_back:
  assumes "stream_inv s" "log_at (stream_log s) q = Some d"
  shows "\<exists>m. cmq_stream_read [] s (sm_store s) q = Some m \<and> msg_seq m = q \<and> msg_data m = d \<and> msg_len m = length d"
proof -
  have inv: "store_inv (sm_store s)" "\<not> st_dying (sm_store s)" using assms(1) by (auto simp: stream_inv_def store_live_def)
  from store_get_spec [OF inv(1), of "[]" q] assms(2) obtain m
    where m: "store_get_impl [] (sm_store s) (sm_store s) q = Some m" "msg_data m = d" by auto
  with store_get_some(1) [OF m(1)] store_get_at [OF inv(1) m(1)] assms(1) cmq_store_get_eq [OF inv(2)]
  show ?thesis by (simp add: cmq_stream_read_def)
qed

lemma stream_read_end: "cmq_stream_read h (stream_end_op s) st q = cmq_stream_read h s st q"
  by (simp add: cmq_stream_read_def stream_begin_op_def stream_end_op_def)

section \<open>Properties\<close>

text \<open>
  C3. No unacknowledged message is lost. Take any message \<open>q\<close> that is in the stream and that consumer
  \<open>name\<close> has not acknowledged. Through every sequence of appends (keyed or not, with or without memory),
  consumer joins and leaves, acknowledgements and repartitioning, the message stays readable with the
  same bytes and stays pending for \<open>name\<close>, until \<open>name\<close> acknowledges its partition up to \<open>q\<close> or leaves.
\<close>

theorem stream_no_loss:
  assumes "stream_inv s" "log_at (store_log (sm_store s)) q = Some m" "stream_pending s name q"
    "stream_run (\<lambda>s e. \<not> releases name q s e) s s'"
  shows "log_at (store_log (sm_store s')) q = Some m \<and> stream_pending s' name q \<and> stream_inv s'"
proof -
  have "holds_on name q m s" using assms(1-3) by (simp add: holds_on_def)
  with stream_run_holds_on [OF assms(4)] have "holds_on name q m s'" by simp
  then show ?thesis by (simp add: holds_on_def)
qed

theorem stream_no_loss_witness:
  "log_at (store_log (sm_store (stream_exec (Append [] 1 (Some [8])) stream_example))) 1 = Some [7]"
proof -
  have "log_at (store_log (sm_store stream_example)) 1 = Some [7]"
    by (simp add: stream_example_log log_at_def log_lo_def)
  moreover have "stream_pending stream_example ''c'' 1"
    by (simp add: stream_pending_def stream_example_eq stream_unacked_def watermark_def)
  moreover have "stream_run (\<lambda>s e. \<not> releases ''c'' 1 s e) stream_example
      (stream_exec (Append [] 1 (Some [8])) stream_example)"
    by (rule stream_run.more [OF stream_run.start]) simp
  ultimately show ?thesis using stream_no_loss [OF stream_example_inv(2)] by blast
qed




text \<open>
  C19. Accounting in every reachable state: after any sequence of operations on a new stream whose capacity
  times the largest message fits in \<^verbatim>\<open>size_t\<close>, \<^verbatim>\<open>total_bytes\<close> is exactly the sum of the stored lengths, it is
  within \<^verbatim>\<open>max_bytes\<close>, at most \<^verbatim>\<open>max_msgs\<close> messages are stored, and the consumer table has at most 64
  entries with distinct names.
\<close>

theorem stream_reachable:
  assumes "cmq_stream_create h name mm mb = Some s0"
    "(if mm > 0 then mm else 1024) * STORE_MAX_MSG \<le> SIZE_MAX" "mb \<le> SIZE_MAX"
    "stream_run (\<lambda>_ _. True) s0 s"
  shows "sm_total_bytes s = log_bytes (store_log (sm_store s)) \<and>
    (sm_max_bytes s > 0 \<longrightarrow> sm_total_bytes s \<le> sm_max_bytes s) \<and>
    cmq_stream_msg_count s \<le> sm_max_msgs s \<and>
    length (sm_consumers s) \<le> CMQ_MAX_CONSUMERS \<and> distinct (map co_name (sm_consumers s))"
proof -
  have inv: "stream_inv s" by (rule stream_run_inv [OF assms(4) stream_create_inv [OF assms(1-3)]])
  then have "cmq_stream_msg_count s = length (snd (stream_log s))"
    by (simp add: cmq_stream_msg_count_def st.msg_count stream_inv_def stream_begin_op_def)
  with inv stream_inv_wf [OF inv] show ?thesis
    by (auto simp: stream_inv_def bytes_ok_def consumers_ok_def log_wf_def)
qed

theorem stream_reachable_witness:
  "cmq_stream_msg_count stream_example \<le> sm_max_msgs stream_example"
proof -
  have "cmq_stream_create [] ''s'' 2 0 = Some (the (cmq_stream_create [] ''s'' 2 0))"
    by (simp add: stream_eval)
  moreover have "stream_run (\<lambda>_ _. True) (the (cmq_stream_create [] ''s'' 2 0)) stream_example"
    unfolding stream_example_def stream_example0_def by (intro stream_run.intros TrueI)
  ultimately show ?thesis
    using stream_reachable [of "[]" "''s''" 2 0] by (simp add: SIZE_MAX_def STORE_MAX_MSG_def)
qed

text \<open>
  C20. \<^verbatim>\<open>cmq_stream_consumer_next_part\<close> returns the lowest stored message of the partition above the
  consumer's watermark, and 0 only when there is none.
\<close>

theorem stream_next_part_least:
  assumes "stream_inv s" "consumer_lookup (sm_consumers s) name = Some c" "part < sm_nparts s"
    "cmq_stream_consumer_next_part s name part = q"
  shows "if q = 0 then \<forall>q'. \<not> deliverable s c part q'
    else deliverable s c part q \<and> (\<forall>q' < q. \<not> deliverable s c part q')"
  by (rule next_part_impl_least [OF assms(1-3)]) (simp add: assms(4) [symmetric] next_part_eq [OF assms(1)])

theorem stream_next_part_least_witness:
  "cmq_stream_consumer_next_part stream_example ''c'' 0 \<noteq> 0"
proof
  assume z: "cmq_stream_consumer_next_part stream_example ''c'' 0 = 0"
  let ?c = "\<lparr>co_name = ''c'', co_acked_seq = 0, co_acked_part = replicate 16 0\<rparr>"
  have "consumer_lookup (sm_consumers stream_example) ''c'' = Some ?c" "0 < sm_nparts stream_example"
    by (simp_all add: stream_example_eq)
  from stream_next_part_least [OF stream_example_inv(2) this z]
  have "\<not> deliverable stream_example ?c 0 1" by simp
  moreover have "log_at (store_log (sm_store stream_example)) 1 = Some [7]"
    by (simp add: stream_example_log log_at_def log_lo_def)
  ultimately show False
    by (simp add: deliverable_def) (simp add: stream_example_eq part_at_locked_def watermark_def)
qed

text \<open>
  C21. A consumer that keeps fetching the next message of a partition and acknowledging it receives every
  stored message of that partition above its watermark exactly once, in increasing order, and then
  finds the partition empty. As many rounds as there are stored messages are enough.
\<close>

theorem stream_drain:
  assumes "stream_inv s" "consumer_lookup (sm_consumers s) name = Some c" "part < sm_nparts s"
    "cmq_stream_msg_count s \<le> n"
  shows "fst (drain n s name part) = deliverables s c part \<and>
    cmq_stream_consumer_next_part (snd (drain n s name part)) name part = 0"
proof -
  have "length (deliverables s c part) \<le> fst (stream_log s) - log_lo (stream_log s)"
    unfolding deliverables_def by (rule le_trans [OF length_filter_le]) simp
  also have "\<dots> = length (snd (stream_log s))"
    using stream_inv_wf [OF assms(1)] by (simp add: log_wf_def log_lo_def)
  also have "\<dots> = cmq_stream_msg_count s"
    using assms(1) by (simp add: cmq_stream_msg_count_def st.msg_count stream_inv_def stream_begin_op_def)
  finally show ?thesis using assms(4) by (intro drain_delivers [OF assms(1-3)]) simp
qed

theorem stream_drain_witness:
  "fst (drain 2 stream_example ''c'' 0) = [1]"
proof -
  let ?c = "\<lparr>co_name = ''c'', co_acked_seq = 0, co_acked_part = replicate 16 0\<rparr>"
  have "consumer_lookup (sm_consumers stream_example) ''c'' = Some ?c" "0 < sm_nparts stream_example"
    "cmq_stream_msg_count stream_example \<le> 2"
    by (simp_all add: stream_example_eq cmq_stream_msg_count_def stream_begin_op_def cmq_store_count_def
        store_begin_op_def)
  from stream_drain [OF stream_example_inv(2) this]
  have "fst (drain 2 stream_example ''c'' 0) = deliverables stream_example ?c 0" by simp
  also have "\<dots> = [1]"
    by (simp add: deliverables_def stream_example_log log_lo_def numeral_2_eq_2 deliverable_def log_at_def)
      (simp add: stream_example_eq part_at_locked_def watermark_def)
  finally show ?thesis .
qed

text \<open>
  What an accepted keyed append does: it returns the next sequence number, the stored message can be
  read back byte for byte with its length, it is filed under the partition the key hashes to, and no
  consumer's watermark moves.
\<close>

theorem stream_append_key_stored:
  assumes "stream_inv s" "cmq_stream_append_key h now s (Some k) (Some d) = (seq, s')" "seq \<noteq> 0"
  shows "seq = st_head_seq (sm_store s) \<and> stream_inv s' \<and>
    (\<exists>m. cmq_stream_read [] s' (sm_store s') seq = Some m \<and> msg_seq m = seq \<and> msg_data m = d \<and>
       msg_len m = length d) \<and>
    part_at_locked s' seq = (if sm_nparts s > 1 then cmq_stream_partition_of (Some k) (sm_nparts s) else 0) \<and>
    sm_consumers s' = sm_consumers s"
proof -
  let ?s = "s\<lparr>sm_in_flight := sm_in_flight s + 1\<rparr>"
  from assms(1,2) show ?thesis
  proof (cases rule: cmq_stream_append_key_body)
    case (2 s2 part)
    have inv: "stream_inv ?s" "sm_nparts ?s > 1 \<longrightarrow> part < sm_nparts ?s" using assms(1) 2(3) by simp_all
    note stored = stream_append_impl_stored [OF inv 2(1) assms(3)]
    have "\<exists>m. cmq_stream_read [] s2 (sm_store s2) seq = Some m \<and> msg_seq m = seq \<and> msg_data m = d \<and>
        msg_len m = length d"
      using stream_read_back [of s2 seq d] stored by blast
    with stored 2(2,4) show ?thesis by (auto simp: stream_read_end)
  qed (use assms(3) in simp)
qed

theorem stream_append_key_stored_witness:
  "fst (cmq_stream_append_key [] 1 stream_example (Some [1]) (Some [8])) = 2"
proof -
  obtain seq s' where r: "cmq_stream_append_key [] 1 stream_example (Some [1]) (Some [8]) = (seq, s')" by fastforce
  moreover have "fst (cmq_stream_append_key [] 1 stream_example (Some [1]) (Some [8])) \<noteq> 0"
    unfolding stream_example_eq by (simp add: stream_eval cmq_stream_append_key_def)
  ultimately show ?thesis
    using stream_append_key_stored [OF stream_example_inv(2) r] by (simp add: stream_example_eq)
qed

text \<open>
  C22. A partition without traffic stops a full stream for good. The floor is the lowest watermark over all
  partitions, and the watermark of a partition that holds no messages never moves. If the ring is full and some
  consumer's watermark for some partition is below the oldest message, an append is refused, even when that
  consumer has acknowledged every stored message, as in the witness.
\<close>

theorem stream_idle_partition_stalls:
  assumes "stream_inv s" "c \<in> set (sm_consumers s)" "p < sm_nparts s"
    "watermark s c p < cmq_stream_first_seq s" "cmq_stream_msg_count s = sm_max_msgs s"
  shows "fst (cmq_stream_append h now s data) = 0"
proof -
  have live: "store_live (sm_store s)" using assms(1) by (simp add: stream_inv_def)
  have m: "cmq_stream_msg_count s = length (snd (stream_log s))" "0 < sm_max_msgs s"
    using assms(1) stream_inv_wf [OF assms(1)]
    by (simp_all add: cmq_stream_msg_count_def st.msg_count [OF live] log_wf_def)
  then have "cmq_stream_first_seq s = log_lo (stream_log s)"
    using assms(1,5) by (auto simp: cmq_stream_first_seq_def st.first_seq [OF live])
  with assms(2-5) m have full: "\<not> ring_free s" by (auto simp: ring_free_def stream_pinned_def)
  show ?thesis
  proof (cases "data = None \<or> data = Some [] \<or> \<not> fst (malloc_ok h)")
    case True
    then show ?thesis using assms(1) by (auto simp: cmq_stream_append_def stream_append_noop)
  next
    case False
    then obtain d where "data = Some d" "d \<noteq> []" "fst (malloc_ok h)" by auto
    with stream_append_accepted [OF assms(1), of d h now] full show ?thesis by simp
  qed
qed

text \<open>Two slots, two partitions, one consumer; two messages in partition 0, both acknowledged.\<close>

definition stall_example :: stream where
  "stall_example =
     \<lparr>sm_name = ''s'',
      sm_store = \<lparr>st_ring = [\<lparr>sl_seq = 1, sl_data = Some [7], sl_len = 1, sl_timestamp_ms = 0, sl_valid = True\<rparr>,
           \<lparr>sl_seq = 2, sl_data = Some [8], sl_len = 1, sl_timestamp_ms = 0, sl_valid = True\<rparr>],
         st_cap = 2, st_head_seq = 3, st_count = 2, st_in_flight = 0, st_dying = False\<rparr>,
      sm_consumers = [\<lparr>co_name = ''c'', co_acked_seq = 0, co_acked_part = 2 # 0 # replicate 14 0\<rparr>],
      sm_max_msgs = 2, sm_max_bytes = 0, sm_total_bytes = 2, sm_cursor_path = [], sm_nparts = 2,
      sm_msg_part = Some [0, 0], sm_part_cap = 2, sm_in_flight = 0, sm_dying = False\<rparr>"

lemma stall_example_reached:
  "stall_example = stream_exec (Ack ''c'' 2) (stream_exec (Append [] 0 (Some [8]))
     (stream_exec (Append [] 0 (Some [7])) (stream_exec (Set_Partitions [] 2) stream_example0)))"
proof -
  let ?s = "\<lambda>ring head cnt tot. \<lparr>sm_name = ''s'',
      sm_store = \<lparr>st_ring = ring, st_cap = 2, st_head_seq = head, st_count = cnt, st_in_flight = 0, st_dying = False\<rparr>,
      sm_consumers = [\<lparr>co_name = ''c'', co_acked_seq = 0, co_acked_part = replicate 16 0\<rparr>],
      sm_max_msgs = 2, sm_max_bytes = 0, sm_total_bytes = tot, sm_cursor_path = [], sm_nparts = 2,
      sm_msg_part = Some [0, 0], sm_part_cap = 2, sm_in_flight = 0, sm_dying = False\<rparr>"
  let ?m = "\<lambda>q d. \<lparr>sl_seq = q, sl_data = Some [d], sl_len = 1, sl_timestamp_ms = 0, sl_valid = True\<rparr>"
  have 1: "stream_exec (Set_Partitions [] 2) stream_example0 = ?s [empty_slot, empty_slot] 1 0 0"
    unfolding stream_example0_eq by (simp add: stream_eval)
  have 2: "stream_exec (Append [] 0 (Some [7])) (?s [empty_slot, empty_slot] 1 0 0) = ?s [?m 1 7, empty_slot] 2 1 1"
    by (simp add: stream_eval take_replicate)
  have 3: "stream_exec (Append [] 0 (Some [8])) (?s [?m 1 7, empty_slot] 2 1 1) = ?s [?m 1 7, ?m 2 8] 3 2 2"
    by (simp add: stream_eval)
  have r: "replicate 16 (0::nat) = 0 # 0 # replicate 14 0" by (simp add: eval_nat_numeral)
  have 4: "stream_exec (Ack ''c'' 2) (?s [?m 1 7, ?m 2 8] 3 2 2) = stall_example"
    by (simp add: stream_eval stall_example_def cmq_stream_consumer_ack_def stream_consumer_ack_impl_def consumer_ack_def r)
  show ?thesis unfolding 1 2 3 4 by simp
qed

theorem stream_idle_partition_stalls_witness:
  "fst (cmq_stream_append [] 1 stall_example (Some [9])) = 0 \<and>
   cmq_stream_consumer_next_part stall_example ''c'' 0 = 0 \<and>
   cmq_stream_consumer_next_part stall_example ''c'' 1 = 0"
proof -
  let ?c = "\<lparr>co_name = ''c'', co_acked_seq = 0, co_acked_part = 2 # 0 # replicate 14 0\<rparr>"
  have inv: "stream_inv stall_example"
    unfolding stall_example_reached by (intro stream_exec_inv stream_example_inv)
  have "?c \<in> set (sm_consumers stall_example)" "1 < sm_nparts stall_example"
    "watermark stall_example ?c 1 < cmq_stream_first_seq stall_example"
    "cmq_stream_msg_count stall_example = sm_max_msgs stall_example"
    by (simp_all add: stall_example_def watermark_def cmq_stream_first_seq_def cmq_stream_msg_count_def stream_eval)
  from stream_idle_partition_stalls [OF inv this] show ?thesis
    by (simp add: stall_example_def cmq_stream_consumer_next_part_def stream_consumer_next_part_impl_def
        stream_eval part_search.simps)
qed

end
