(* ===== verification/CMQ_Parser.thy ===== *)
theory CMQ_Parser
  imports CMQ_Prelude
begin

text \<open>
  The wire protocol (\<^verbatim>\<open>src/proto/cmq_proto.h\<close>) and its incremental frame parser
  (\<^verbatim>\<open>src/proto/cmq_parser.c\<close>). Bytes arrive in pieces of any size; the parser keeps the unread
  ones, queues complete frames up to a limit, and parks what it cannot take while the queue is full.
  The input buffer is the list of its first \<^verbatim>\<open>inbuf_len\<close> bytes with the consume offset and the
  capacity beside it; a capacity of 0 is the \<^verbatim>\<open>NULL\<close> buffer a failed reset leaves. Frame nodes come
  from a slab and fall back to \<^verbatim>\<open>malloc\<close>; both answers are drawn from the heap.
\<close>

section \<open>Protocol\<close>

definition CMQ_PROTO_MAGIC_0 :: u8 where "CMQ_PROTO_MAGIC_0 = 0xCA"
definition CMQ_PROTO_MAGIC_1 :: u8 where "CMQ_PROTO_MAGIC_1 = 0xFE"
definition CMQ_PROTO_VERSION :: u8 where "CMQ_PROTO_VERSION = 0x01"
definition CMQ_FLAG_COMPRESSED :: u8 where "CMQ_FLAG_COMPRESSED = 0x01"
definition CMQ_OP_PUBLISH :: u8 where "CMQ_OP_PUBLISH = 0x03"
definition CMQ_OP_MESSAGE :: u8 where "CMQ_OP_MESSAGE = 0x09"
definition CMQ_OP_REQUEST :: u8 where "CMQ_OP_REQUEST = 0x0F"
definition CMQ_OP_RESPONSE :: u8 where "CMQ_OP_RESPONSE = 0x10"
definition CMQ_OP_BATCH :: u8 where "CMQ_OP_BATCH = 0x12"

definition CMQ_HEADER_LEN :: nat where "CMQ_HEADER_LEN = 9"
definition CMQ_MAX_PAYLOAD :: nat where "CMQ_MAX_PAYLOAD = 16 * 1024 * 1024"
definition CMQ_MAX_FRAME_PAYLOAD :: nat where
  "CMQ_MAX_FRAME_PAYLOAD = CMQ_MAX_PAYLOAD + 256 * 2 + 65536 + 64"
definition CMQ_PARSER_FRAME_QUEUE_MAX :: nat where "CMQ_PARSER_FRAME_QUEUE_MAX = 64"
definition CMQ_PARSER_QUEUED_BYTES_FACTOR :: nat where "CMQ_PARSER_QUEUED_BYTES_FACTOR = 2"

record frame_hdr =
  hdr_magic0 :: u8
  hdr_magic1 :: u8
  hdr_version :: u8
  hdr_flags :: u8
  hdr_op :: u8
  hdr_length :: u32

record frame =
  fr_hdr :: frame_hdr
  fr_payload :: "bytes option"
  fr_payload_len :: nat

record frame_node =
  nd_frame :: frame
  nd_from_slab :: bool

record parser =
  pr_inbuf :: bytes
  pr_off :: nat
  pr_cap :: nat
  pr_queue :: "frame_node list"
  pr_queued :: nat
  pr_queued_bytes :: nat
  pr_max_payload :: nat
  pr_error :: bool
  pr_hold :: bytes
  pr_hold_cap :: nat

section \<open>Queue of frames\<close>

definition queue_budget :: "parser \<Rightarrow> nat" where
  "queue_budget p =
     (if pr_max_payload p \<le> SIZE_MAX div CMQ_PARSER_QUEUED_BYTES_FACTOR
      then pr_max_payload p * CMQ_PARSER_QUEUED_BYTES_FACTOR else SIZE_MAX)"

definition cmq_push_frame :: "heap \<Rightarrow> parser \<Rightarrow> frame \<Rightarrow> bool \<times> heap \<times> parser" where
  "cmq_push_frame h p f =
     (if pr_queued p \<ge> CMQ_PARSER_FRAME_QUEUE_MAX then (False, h, p)
      else if pr_queued_bytes p > queue_budget p \<or>
              fr_payload_len f > queue_budget p - pr_queued_bytes p then (False, h, p)
      else
        (let (slab, h1) = malloc_ok h;
             (ok, h2) = (if slab then (True, h1) else malloc_ok h1)
         in if \<not> ok then (False, h2, p\<lparr>pr_error := True\<rparr>)
            else (True, h2,
                  p\<lparr>pr_queue := pr_queue p @ [\<lparr>nd_frame = f, nd_from_slab = slab\<rparr>],
                    pr_queued := pr_queued p + 1,
                    pr_queued_bytes := pr_queued_bytes p + fr_payload_len f\<rparr>)))"

definition cmq_parser_create :: "heap \<Rightarrow> parser option \<times> heap" where
  "cmq_parser_create h =
     (case malloc_ok h of (False, h) \<Rightarrow> (None, h)
      | (True, h) \<Rightarrow>
     (case malloc_ok h of (False, h) \<Rightarrow> (None, h)
      | (True, h) \<Rightarrow>
     (case malloc_ok h of (False, h) \<Rightarrow> (None, h)
      | (True, h) \<Rightarrow>
        (Some \<lparr>pr_inbuf = [], pr_off = 0, pr_cap = 1024, pr_queue = [], pr_queued = 0,
               pr_queued_bytes = 0, pr_max_payload = CMQ_MAX_PAYLOAD, pr_error = False,
               pr_hold = [], pr_hold_cap = 0\<rparr>, h))))"

definition cmq_parser_set_max_payload :: "parser \<Rightarrow> nat \<Rightarrow> parser" where
  "cmq_parser_set_max_payload p n =
     p\<lparr>pr_max_payload :=
         (if n = 0 then CMQ_MAX_PAYLOAD
          else if n > CMQ_MAX_FRAME_PAYLOAD then CMQ_MAX_FRAME_PAYLOAD else n)\<rparr>"

definition cmq_parser_reset :: "heap \<Rightarrow> parser \<Rightarrow> parser" where
  "cmq_parser_reset h p =
     p\<lparr>pr_queue := [], pr_queued := 0, pr_queued_bytes := 0, pr_error := False,
       pr_hold := [], pr_hold_cap := 0, pr_inbuf := [], pr_off := 0,
       pr_cap := (if fst (malloc_ok h) then 1024 else 0)\<rparr>"

section \<open>Buffers\<close>

text \<open>The doubling loops. A capacity of 0 is replaced before they start, so the guard on it is idle.\<close>

function grow_cap :: "nat \<Rightarrow> nat \<Rightarrow> nat option" where
  "grow_cap cap need =
     (if 0 < cap \<and> cap < need
      then (if cap > SIZE_MAX div 2 then None else grow_cap (2 * cap) need)
      else Some cap)"
  by pat_completeness auto
termination
  by (relation "measure (\<lambda>(cap, need). need - cap)") auto

declare grow_cap.simps [simp del]

definition parser_hold_append :: "heap \<Rightarrow> parser \<Rightarrow> bytes \<Rightarrow> nat \<Rightarrow> bool \<times> heap \<times> parser" where
  "parser_hold_append h p data hard =
     (if data = [] then (True, h, p)
      else if length (pr_hold p) > hard \<or> length data > hard - length (pr_hold p) then (False, h, p)
      else
        (let need = length (pr_hold p) + length data
         in if need > pr_hold_cap p then
              (case grow_cap (if pr_hold_cap p > 0 then pr_hold_cap p else 256) need of
                 None \<Rightarrow> (False, h, p)
               | Some ncap \<Rightarrow>
                   (let ncap = (if ncap > hard then hard else ncap)
                    in if need > ncap then (False, h, p)
                       else case malloc_ok h of
                         (False, h) \<Rightarrow> (False, h, p)
                       | (True, h) \<Rightarrow>
                           (True, h, p\<lparr>pr_hold := pr_hold p @ data, pr_hold_cap := ncap\<rparr>)))
            else (True, h, p\<lparr>pr_hold := pr_hold p @ data\<rparr>)))"

definition ensure_inbuf :: "heap \<Rightarrow> parser \<Rightarrow> nat \<Rightarrow> bool \<times> heap \<times> parser" where
  "ensure_inbuf h p need =
     (if need \<le> pr_cap p then (True, h, p)
      else case grow_cap (if pr_cap p > 0 then pr_cap p else 1024) need of
        None \<Rightarrow> (False, h, p)
      | Some newcap \<Rightarrow>
          (case malloc_ok h of
             (False, h) \<Rightarrow> (False, h, p)
           | (True, h) \<Rightarrow> (True, h, p\<lparr>pr_cap := newcap\<rparr>)))"

section \<open>Parsing\<close>

definition parser_have_frames :: "parser \<Rightarrow> bool \<Rightarrow> int" where
  "parser_have_frames p produced = (if produced \<or> pr_queue p \<noteq> [] then 1 else - 1)"

definition bad_prefix :: "bytes \<Rightarrow> bool" where
  "bad_prefix b \<longleftrightarrow>
     b ! 0 \<noteq> CMQ_PROTO_MAGIC_0 \<or> b ! 1 \<noteq> CMQ_PROTO_MAGIC_1 \<or> b ! 2 \<noteq> CMQ_PROTO_VERSION"

definition bad_compressed :: "u8 \<Rightarrow> u8 \<Rightarrow> bool" where
  "bad_compressed flags op \<longleftrightarrow>
     flags AND CMQ_FLAG_COMPRESSED \<noteq> 0 \<and> op \<noteq> CMQ_OP_BATCH \<and> op \<noteq> CMQ_OP_PUBLISH \<and>
     op \<noteq> CMQ_OP_MESSAGE \<and> op \<noteq> CMQ_OP_REQUEST \<and> op \<noteq> CMQ_OP_RESPONSE"

definition hdr_payload_len :: "bytes \<Rightarrow> nat" where
  "hdr_payload_len hb = unat (get_le32 (hb ! 5) (hb ! 6) (hb ! 7) (hb ! 8))"

definition frame_of :: "bytes \<Rightarrow> frame" where
  "frame_of hb =
     (let n = hdr_payload_len hb
      in \<lparr>fr_hdr = \<lparr>hdr_magic0 = hb ! 0, hdr_magic1 = hb ! 1, hdr_version = hb ! 2, hdr_flags = hb ! 3,
                    hdr_op = hb ! 4, hdr_length = of_nat n\<rparr>,
          fr_payload = (if n > 0 then Some (take n (drop CMQ_HEADER_LEN hb)) else None),
          fr_payload_len = n\<rparr>)"

abbreviation unread :: "parser \<Rightarrow> bytes" where
  "unread p \<equiv> drop (pr_off p) (pr_inbuf p)"

lemma push_inbuf:
  "cmq_push_frame h p f = (ok, h', p') \<Longrightarrow> pr_inbuf p' = pr_inbuf p \<and> pr_off p' = pr_off p"
  by (auto simp: cmq_push_frame_def Let_def split: if_splits prod.splits)

function parser_parse_loop ::
    "heap \<Rightarrow> parser \<Rightarrow> bool \<Rightarrow> int option \<times> bool \<times> heap \<times> parser" where
  "parser_parse_loop h p produced =
     (if length (unread p) < CMQ_HEADER_LEN then (None, produced, h, p)
      else
        (let hb = unread p; n = hdr_payload_len hb
         in if bad_prefix hb \<or> bad_compressed (hb ! 3) (hb ! 4) \<or> n > pr_max_payload p then
              (Some (parser_have_frames p produced), produced, h, p\<lparr>pr_error := True\<rparr>)
            else if length hb < CMQ_HEADER_LEN + n then (None, produced, h, p)
            else case (if n > 0 then malloc_ok h else (True, h)) of
              (False, h) \<Rightarrow>
                (Some (parser_have_frames p produced), produced, h, p\<lparr>pr_error := True\<rparr>)
            | (True, h) \<Rightarrow>
                (case cmq_push_frame h p (frame_of hb) of
                   (False, h, p') \<Rightarrow> (Some (parser_have_frames p' produced), produced, h, p')
                 | (True, h, p') \<Rightarrow>
                     parser_parse_loop h (p'\<lparr>pr_off := pr_off p' + (CMQ_HEADER_LEN + n)\<rparr>) True)))"
  by pat_completeness auto
termination
  by (relation "measure (\<lambda>(h, p, produced). length (pr_inbuf p) - pr_off p)")
    (auto simp: CMQ_HEADER_LEN_def dest!: push_inbuf [OF sym])

declare parser_parse_loop.simps [simp del]

definition parser_compact :: "parser \<Rightarrow> parser" where
  "parser_compact p =
     (if pr_off p > 0 \<and> (pr_off p \<ge> 4096 \<or> pr_off p * 2 \<ge> length (pr_inbuf p))
      then p\<lparr>pr_inbuf := unread p, pr_off := 0\<rparr> else p)"

definition parser_parse_inbuf :: "heap \<Rightarrow> parser \<Rightarrow> int \<times> heap \<times> parser" where
  "parser_parse_inbuf h p =
     (if length (unread p) \<ge> 3 \<and> bad_prefix (unread p) then
        (parser_have_frames p False, h, p\<lparr>pr_error := True\<rparr>)
      else case parser_parse_loop h p False of
        (Some rc, _, h, p) \<Rightarrow> (rc, h, p)
      | (None, produced, h, p) \<Rightarrow>
          if length (unread p) \<ge> 3 \<and> bad_prefix (unread p) then
            (parser_have_frames p produced, h, p\<lparr>pr_error := True\<rparr>)
          else (if produced then 1 else 0, h, parser_compact p))"

section \<open>Feeding\<close>

definition parser_hard :: "parser \<Rightarrow> nat" where
  "parser_hard p = CMQ_HEADER_LEN + pr_max_payload p"

definition feed_rc :: "parser \<Rightarrow> bool \<Rightarrow> int" where
  "feed_rc p any = (if pr_queue p \<noteq> [] \<or> any then 1 else - 1)"

text \<open>\<^verbatim>\<open>CMQ_FEED_STOP\<close>: unread input is dropped, so the error is latched.\<close>

definition feed_stop :: "heap \<Rightarrow> parser \<Rightarrow> bool \<Rightarrow> bytes \<Rightarrow> int \<times> heap \<times> parser" where
  "feed_stop h p any rest =
     (feed_rc p any, h, if rest \<noteq> [] then p\<lparr>pr_error := True\<rparr> else p)"

text \<open>Make room and append one chunk; it fails when the buffer cannot grow.\<close>

definition feed_compact :: "parser \<Rightarrow> nat \<Rightarrow> parser" where
  "feed_compact p chunk =
     (if pr_off p > 0 \<and> pr_off p + length (unread p) + chunk > pr_cap p
      then p\<lparr>pr_inbuf := unread p, pr_off := 0\<rparr> else p)"

definition feed_append :: "heap \<Rightarrow> parser \<Rightarrow> bytes \<Rightarrow> bool \<times> heap \<times> parser" where
  "feed_append h p chunk =
     (let p = feed_compact p (length chunk)
      in case (if length (pr_inbuf p) + length chunk > pr_cap p
               then ensure_inbuf h p (length (pr_inbuf p) + length chunk) else (True, h, p)) of
           (False, h, p) \<Rightarrow> (False, h, p)
         | (True, h, p) \<Rightarrow> (True, h, p\<lparr>pr_inbuf := pr_inbuf p @ chunk\<rparr>))"

text \<open>The loop of \<^verbatim>\<open>cmq_parser_feed\<close> over the bytes not yet taken.\<close>

function feed_loop :: "heap \<Rightarrow> parser \<Rightarrow> bool \<Rightarrow> bytes \<Rightarrow> int \<times> heap \<times> parser" where
  "feed_loop h p any data =
     (if data = [] then (if any then 1 else 0, h, p)
      else if pr_error p then (feed_rc p any, h, p)
      else if length (unread p) > parser_hard p then feed_stop h (p\<lparr>pr_error := True\<rparr>) any data
      else
        (let (rc, h1, p1) = (if length (unread p) = parser_hard p then parser_parse_inbuf h p else (0, h, p));
             any1 = (any \<or> rc > 0);
             room = parser_hard p - length (unread p1)
         in if rc < 0 then feed_stop h1 p1 any data
            else if length (unread p1) > parser_hard p then feed_stop h1 (p1\<lparr>pr_error := True\<rparr>) any1 data
            else if room = 0 then
              (case parser_hold_append h1 p1 data (parser_hard p) of
                 (False, h2, p2) \<Rightarrow> (feed_rc p2 any1, h2, p2\<lparr>pr_error := True\<rparr>)
               | (True, h2, p2) \<Rightarrow> (if pr_queue p2 \<noteq> [] \<or> any1 \<or> pr_hold p2 \<noteq> [] then 1 else - 1, h2, p2))
            else
              (case feed_append h1 p1 (take room data) of
                 (False, h2, p2) \<Rightarrow> feed_stop h2 p2 any1 data
               | (True, h2, p2) \<Rightarrow>
                   (case parser_parse_inbuf h2 p2 of
                      (rc, h3, p3) \<Rightarrow>
                        if rc < 0 then feed_stop h3 p3 any1 (drop room data)
                        else feed_loop h3 p3 (any1 \<or> rc > 0) (drop room data)))))"
  by pat_completeness auto
termination
  by (relation "measure (\<lambda>(h, p, any, data). length data)")
    (auto simp: neq_Nil_conv)

declare feed_loop.simps [simp del]

definition cmq_parser_feed_nohold :: "heap \<Rightarrow> parser \<Rightarrow> bytes \<Rightarrow> int \<times> heap \<times> parser" where
  "cmq_parser_feed_nohold h p data =
     (if data = [] then (0, h, p)
      else if pr_cap p = 0 then (- 1, h, p)
      else if pr_error p then (if pr_queue p \<noteq> [] then 1 else - 1, h, p)
      else feed_loop h p False data)"

definition cmq_parser_feed :: "heap \<Rightarrow> parser \<Rightarrow> bytes \<Rightarrow> int \<times> heap \<times> parser" where
  "cmq_parser_feed h p data =
     (if data = [] then (0, h, p)
      else if pr_cap p = 0 then (- 1, h, p)
      else if pr_error p then (if pr_queue p \<noteq> [] then 1 else - 1, h, p)
      else if pr_hold p \<noteq> [] then
        (case cmq_parser_feed_nohold h (p\<lparr>pr_hold := [], pr_hold_cap := 0\<rparr>) (pr_hold p) of
           (hr, h1, p1) \<Rightarrow>
             if pr_error p1 then (if pr_queue p1 \<noteq> [] then 1 else - 1, h1, p1)
             else if hr < 0 then (- 1, h1, p1)
             else if pr_hold p1 \<noteq> [] then
               (case parser_hold_append h1 p1 data (parser_hard p) of
                  (False, h2, p2) \<Rightarrow> (feed_rc p2 (hr > 0), h2, p2\<lparr>pr_error := True\<rparr>)
                | (True, h2, p2) \<Rightarrow> (1, h2, p2))
             else feed_loop h1 p1 (hr > 0) data)
      else feed_loop h p False data)"

definition cmq_parser_drain_inbuf :: "heap \<Rightarrow> parser \<Rightarrow> int \<times> heap \<times> parser" where
  "cmq_parser_drain_inbuf h p =
     (if pr_cap p = 0 then (- 1, h, p)
      else if pr_error p then (if pr_queue p \<noteq> [] then 1 else - 1, h, p)
      else case parser_parse_inbuf h p of
        (rc, h1, p1) \<Rightarrow>
          if rc < 0 then (- 1, h1, p1)
          else if pr_hold p1 \<noteq> [] \<and> \<not> pr_error p1 then
            (case cmq_parser_feed_nohold h1 (p1\<lparr>pr_hold := [], pr_hold_cap := 0\<rparr>) (pr_hold p1) of
               (fr, h2, p2) \<Rightarrow> (if fr < 0 then - 1 else if fr > 0 then 1 else rc, h2, p2))
          else (rc, h1, p1))"

definition cmq_parser_pending_error :: "parser \<Rightarrow> bool" where
  "cmq_parser_pending_error p = pr_error p"

definition cmq_parser_frame :: "parser \<Rightarrow> frame option" where
  "cmq_parser_frame p = (case pr_queue p of [] \<Rightarrow> None | n # _ \<Rightarrow> Some (nd_frame n))"

definition cmq_parser_next :: "parser \<Rightarrow> bool \<times> parser" where
  "cmq_parser_next p =
     (case pr_queue p of
        [] \<Rightarrow> (False, p)
      | n # ns \<Rightarrow>
          (ns \<noteq> [],
           p\<lparr>pr_queue := ns,
             pr_queued := (if pr_queued p > 0 then pr_queued p - 1 else pr_queued p),
             pr_queued_bytes :=
               (if pr_queued_bytes p \<ge> fr_payload_len (nd_frame n)
                then pr_queued_bytes p - fr_payload_len (nd_frame n) else 0)\<rparr>))"

text \<open>Encoding into a buffer of the given size: the bytes written, none when it does not fit.\<close>

definition cmq_frame_encode :: "nat \<Rightarrow> u8 \<Rightarrow> u8 \<Rightarrow> bytes option \<Rightarrow> nat \<Rightarrow> bytes" where
  "cmq_frame_encode buf_size op flags payload payload_len =
     (if payload_len > UINT32_MAX then []
      else if payload_len > 0 \<and> payload = None then []
      else if payload_len > SIZE_MAX - CMQ_HEADER_LEN then []
      else if buf_size < CMQ_HEADER_LEN + payload_len then []
      else
        [CMQ_PROTO_MAGIC_0, CMQ_PROTO_MAGIC_1, CMQ_PROTO_VERSION, flags, op] @
        put_le32 (of_nat payload_len) @
        (case payload of None \<Rightarrow> [] | Some d \<Rightarrow> take payload_len d))"


section \<open>Frames and their encoding\<close>

definition encode_frame :: "frame \<Rightarrow> bytes" where
  "encode_frame f =
     [hdr_magic0 (fr_hdr f), hdr_magic1 (fr_hdr f), hdr_version (fr_hdr f), hdr_flags (fr_hdr f),
      hdr_op (fr_hdr f)] @ put_le32 (hdr_length (fr_hdr f)) @
     (case fr_payload f of None \<Rightarrow> [] | Some d \<Rightarrow> d)"

definition frame_ok :: "frame \<Rightarrow> bool" where
  "frame_ok f \<longleftrightarrow>
     hdr_magic0 (fr_hdr f) = CMQ_PROTO_MAGIC_0 \<and> hdr_magic1 (fr_hdr f) = CMQ_PROTO_MAGIC_1 \<and>
     hdr_version (fr_hdr f) = CMQ_PROTO_VERSION \<and>
     \<not> bad_compressed (hdr_flags (fr_hdr f)) (hdr_op (fr_hdr f)) \<and>
     hdr_length (fr_hdr f) = of_nat (fr_payload_len f) \<and>
     fr_payload_len f \<le> CMQ_MAX_FRAME_PAYLOAD \<and>
     (case fr_payload f of None \<Rightarrow> fr_payload_len f = 0
      | Some d \<Rightarrow> 0 < fr_payload_len f \<and> length d = fr_payload_len f)"

lemmas parser_consts = CMQ_HEADER_LEN_def CMQ_MAX_FRAME_PAYLOAD_def CMQ_MAX_PAYLOAD_def
  CMQ_PARSER_FRAME_QUEUE_MAX_def CMQ_PARSER_QUEUED_BYTES_FACTOR_def

lemma header_split:
  assumes "CMQ_HEADER_LEN \<le> length hb"
  obtains b0 b1 b2 b3 b4 b5 b6 b7 b8 r where "hb = b0 # b1 # b2 # b3 # b4 # b5 # b6 # b7 # b8 # r"
proof -
  from assms have "Suc (Suc (Suc (Suc (Suc (Suc (Suc (Suc (Suc 0)))))))) \<le> length hb"
    by (simp add: CMQ_HEADER_LEN_def)
  with that show ?thesis by (auto simp: Suc_le_length_iff)
qed

lemma encode_frame_length:
  "frame_ok f \<Longrightarrow> length (encode_frame f) = CMQ_HEADER_LEN + fr_payload_len f"
  by (auto simp: encode_frame_def frame_ok_def CMQ_HEADER_LEN_def split: option.splits)

lemma encode_frame_of [codec]:
  assumes "CMQ_HEADER_LEN + hdr_payload_len hb \<le> length hb"
  shows "encode_frame (frame_of hb) = take (CMQ_HEADER_LEN + hdr_payload_len hb) hb"
proof -
  from assms have "CMQ_HEADER_LEN \<le> length hb" by simp
  then obtain b0 b1 b2 b3 b4 b5 b6 b7 b8 r where hb: "hb = b0 # b1 # b2 # b3 # b4 # b5 # b6 # b7 # b8 # r"
    by (rule header_split)
  let ?n = "hdr_payload_len hb"
  have w: "put_le32 (of_nat ?n) = [b5, b6, b7, b8]"
    by (simp add: hb hdr_payload_len_def)
  have nine: "CMQ_HEADER_LEN + k = Suc (Suc (Suc (Suc (Suc (Suc (Suc (Suc (Suc k))))))))" for k
    by (simp add: CMQ_HEADER_LEN_def)
  have pay: "(case if ?n > 0 then Some (take ?n d) else None of None \<Rightarrow> [] | Some d \<Rightarrow> d) = take ?n d" for d :: bytes
    by simp
  show ?thesis unfolding nine encode_frame_def frame_of_def Let_def frame.simps frame_hdr.simps w pay
    by (simp add: hb CMQ_HEADER_LEN_def)
qed

lemma frame_of_ok:
  assumes "CMQ_HEADER_LEN + hdr_payload_len hb \<le> length hb" "\<not> bad_prefix hb"
    "\<not> bad_compressed (hb ! 3) (hb ! 4)" "hdr_payload_len hb \<le> CMQ_MAX_FRAME_PAYLOAD"
  shows "frame_ok (frame_of hb)" "fr_payload_len (frame_of hb) = hdr_payload_len hb"
  using assms by (auto simp: frame_ok_def frame_of_def Let_def bad_prefix_def)

lemma frame_of_encode [codec]:
  assumes "frame_ok f"
  shows "hdr_payload_len (encode_frame f @ r) = fr_payload_len f"
    "frame_of (encode_frame f @ r) = f" "\<not> bad_prefix (encode_frame f @ r)"
    "\<not> bad_compressed ((encode_frame f @ r) ! 3) ((encode_frame f @ r) ! 4)"
proof -
  have le: "fr_payload_len f < 2 ^ 32"
    using assms by (simp add: frame_ok_def parser_consts)
  show len: "hdr_payload_len (encode_frame f @ r) = fr_payload_len f"
    using assms le by (simp add: hdr_payload_len_def encode_frame_def put_le32_def frame_ok_def unat_of_nat32)
  show "frame_of (encode_frame f @ r) = f"
    unfolding frame_of_def Let_def len using assms
    by (cases f; cases "fr_hdr f"; cases "fr_payload f")
      (auto simp: frame_ok_def encode_frame_def put_le32_def CMQ_HEADER_LEN_def)
  show "\<not> bad_prefix (encode_frame f @ r)"
    "\<not> bad_compressed ((encode_frame f @ r) ! 3) ((encode_frame f @ r) ! 4)"
    using assms by (simp_all add: bad_prefix_def encode_frame_def frame_ok_def)
qed

lemma cmq_frame_encode_ok:
  assumes "frame_ok f" "length (encode_frame f) \<le> n"
  shows "cmq_frame_encode n (hdr_op (fr_hdr f)) (hdr_flags (fr_hdr f)) (fr_payload f) (fr_payload_len f) =
    encode_frame f"
  using assms encode_frame_length [OF assms(1)]
  by (auto simp: cmq_frame_encode_def encode_frame_def frame_ok_def parser_consts UINT32_MAX_def SIZE_MAX_def
      split: option.splits)

section \<open>Invariant\<close>

definition PARSER_HARD :: nat where
  "PARSER_HARD = CMQ_HEADER_LEN + CMQ_MAX_FRAME_PAYLOAD"

definition queue_ok :: "parser \<Rightarrow> bool" where
  "queue_ok p \<longleftrightarrow>
     pr_queued p = length (pr_queue p) \<and> pr_queued p \<le> CMQ_PARSER_FRAME_QUEUE_MAX \<and>
     pr_queued_bytes p = sum_list (map (fr_payload_len \<circ> nd_frame) (pr_queue p)) \<and>
     pr_queued_bytes p \<le> 2 * CMQ_MAX_FRAME_PAYLOAD \<and>
     list_all (frame_ok \<circ> nd_frame) (pr_queue p)"

definition parser_inv :: "parser \<Rightarrow> bool" where
  "parser_inv p \<longleftrightarrow>
     queue_ok p \<and> 0 < pr_max_payload p \<and> pr_max_payload p \<le> CMQ_MAX_FRAME_PAYLOAD \<and>
     pr_off p \<le> length (pr_inbuf p) \<and> length (pr_inbuf p) \<le> pr_cap p \<and> pr_cap p \<le> 2 * PARSER_HARD \<and>
     length (unread p) \<le> PARSER_HARD \<and>
     length (pr_hold p) \<le> pr_hold_cap p \<and> pr_hold_cap p \<le> PARSER_HARD"

definition queued_wire :: "parser \<Rightarrow> bytes" where
  "queued_wire p = concat (map (encode_frame \<circ> nd_frame) (pr_queue p))"

definition wire :: "parser \<Rightarrow> bytes" where
  "wire p = queued_wire p @ unread p @ pr_hold p"

text \<open>\<open>parsed p p'\<close>: bytes move from the buffer to the queue and nothing is lost.\<close>

definition parsed :: "parser \<Rightarrow> parser \<Rightarrow> bool" where
  "parsed p p' \<longleftrightarrow>
     parser_inv p' \<and> queued_wire p' @ unread p' = queued_wire p @ unread p \<and>
     pr_hold p' = pr_hold p \<and> pr_hold_cap p' = pr_hold_cap p \<and> pr_max_payload p' = pr_max_payload p \<and>
     pr_cap p' = pr_cap p \<and> length (unread p') \<le> length (unread p) \<and>
     (\<exists>ns. pr_queue p' = pr_queue p @ ns) \<and> (pr_error p \<longrightarrow> pr_error p')"

lemma parsed_refl: "parser_inv p \<Longrightarrow> parsed p p"
  by (simp add: parsed_def)

lemma parsed_trans: "parsed p p' \<Longrightarrow> parsed p' p'' \<Longrightarrow> parsed p p''"
  unfolding parsed_def by auto

lemma parser_error_simps [simp]:
  "queue_ok (p\<lparr>pr_error := b\<rparr>) = queue_ok p" "queued_wire (p\<lparr>pr_error := b\<rparr>) = queued_wire p"
  "parser_inv (p\<lparr>pr_error := b\<rparr>) = parser_inv p"
  by (simp_all add: parser_inv_def queue_ok_def queued_wire_def)

lemma parsed_error: "parsed p p' \<Longrightarrow> parsed p (p'\<lparr>pr_error := True\<rparr>)"
  by (simp add: parsed_def)

lemma queue_budget_eq: "parser_inv p \<Longrightarrow> queue_budget p = 2 * pr_max_payload p"
  by (auto simp: queue_budget_def parser_inv_def parser_consts SIZE_MAX_def)

definition push_full :: "parser \<Rightarrow> frame \<Rightarrow> bool" where
  "push_full p f \<longleftrightarrow> pr_queued p \<ge> CMQ_PARSER_FRAME_QUEUE_MAX \<or> pr_queued_bytes p > queue_budget p \<or>
     fr_payload_len f > queue_budget p - pr_queued_bytes p"

definition pushed :: "parser \<Rightarrow> frame \<Rightarrow> bool \<Rightarrow> parser" where
  "pushed p f slab =
     p\<lparr>pr_queue := pr_queue p @ [\<lparr>nd_frame = f, nd_from_slab = slab\<rparr>], pr_queued := pr_queued p + 1,
       pr_queued_bytes := pr_queued_bytes p + fr_payload_len f\<rparr>"

lemma push_when_full: "push_full p f \<Longrightarrow> cmq_push_frame h p f = (False, h, p)"
  by (auto simp: cmq_push_frame_def push_full_def)

lemma push_when_room:
  assumes "\<not> push_full p f"
  obtains h' where "cmq_push_frame h p f = (False, h', p\<lparr>pr_error := True\<rparr>)"
  | h' slab where "cmq_push_frame h p f = (True, h', pushed p f slab)"
proof -
  obtain slab h1 where 1: "malloc_ok h = (slab, h1)" by fastforce
  obtain ok h2 where 2: "(if slab then (True, h1) else malloc_ok h1) = (ok, h2)" by fastforce
  have "cmq_push_frame h p f =
      (if ok then (True, h2, pushed p f slab) else (False, h2, p\<lparr>pr_error := True\<rparr>))"
    using assms 1 2 by (simp add: cmq_push_frame_def push_full_def pushed_def)
  with that show ?thesis by (cases ok) simp_all
qed

lemma push_cases:
  assumes "parser_inv p" "cmq_push_frame h p f = (ok, h', p')" "frame_ok f" "fr_payload_len f \<le> pr_max_payload p"
  obtains "\<not> ok" "p' = p" "pr_queue p \<noteq> []"
  | "\<not> ok" "p' = p\<lparr>pr_error := True\<rparr>"
  | slab where "ok" "p' = pushed p f slab" "queue_ok p'"
proof (cases "push_full p f")
  case True
  have "pr_queue p \<noteq> []"
  proof
    assume "pr_queue p = []"
    with assms(1) have "pr_queued p = 0" "pr_queued_bytes p = 0" by (auto simp: parser_inv_def queue_ok_def)
    with True assms(4) queue_budget_eq [OF assms(1)] show False by (simp add: push_full_def parser_consts)
  qed
  with push_when_full [OF True, of h] assms(2) show ?thesis by (intro that(1)) simp_all
next
  case False
  have q: "queue_ok p" "pr_max_payload p \<le> CMQ_MAX_FRAME_PAYLOAD" using assms(1) by (auto simp: parser_inv_def)
  have b: "pr_queued_bytes p + fr_payload_len f \<le> 2 * CMQ_MAX_FRAME_PAYLOAD"
    "pr_queued p < CMQ_PARSER_FRAME_QUEUE_MAX"
    using False q(2) queue_budget_eq [OF assms(1)] by (auto simp: push_full_def)
  have ok: "queue_ok (pushed p f slab)" for slab
    unfolding pushed_def using q(1) b assms(3) by (simp add: queue_ok_def)
  from False show ?thesis
  proof (cases rule: push_when_room [where h = h])
    case (1 h1)
    with assms(2) show ?thesis by (intro that(2)) simp_all
  next
    case (2 h1 slab)
    with assms(2) have "ok" "p' = pushed p f slab" by simp_all
    with ok [of slab] show ?thesis by (intro that(3)) simp_all
  qed
qed


section \<open>Parsing loses nothing\<close>

lemma pushed_simps [simp]:
  "pr_inbuf (pushed p f b) = pr_inbuf p" "pr_off (pushed p f b) = pr_off p" "pr_cap (pushed p f b) = pr_cap p"
  "pr_max_payload (pushed p f b) = pr_max_payload p" "pr_hold (pushed p f b) = pr_hold p"
  "pr_hold_cap (pushed p f b) = pr_hold_cap p" "pr_error (pushed p f b) = pr_error p"
  "pr_queue (pushed p f b) = pr_queue p @ [\<lparr>nd_frame = f, nd_from_slab = b\<rparr>]"
  by (simp_all add: pushed_def)

lemma parsed_push:
  assumes "parser_inv p" "queue_ok (pushed p (frame_of (unread p)) b)"
    "CMQ_HEADER_LEN + hdr_payload_len (unread p) \<le> length (unread p)"
  shows "parsed p ((pushed p (frame_of (unread p)) b)\<lparr>pr_off := pr_off p + (CMQ_HEADER_LEN + hdr_payload_len (unread p))\<rparr>)"
    (is "parsed p ?p")
proof -
  let ?k = "CMQ_HEADER_LEN + hdr_payload_len (unread p)"
  have un: "unread ?p = drop ?k (unread p)" by (simp add: add.commute)
  have "queue_ok ?p" using assms(2) by (simp add: queue_ok_def)
  then have "parser_inv ?p" using assms(1,3) un by (auto simp: parser_inv_def)
  moreover have "queued_wire ?p @ unread ?p = queued_wire p @ unread p"
    unfolding un by (simp add: queued_wire_def encode_frame_of [OF assms(3)] del: drop_drop)
  ultimately show ?thesis using un by (simp add: parsed_def)
qed

text \<open>One round of the loop: what it needs, and what it does.\<close>

definition hdr_good :: "parser \<Rightarrow> bool" where
  "hdr_good p \<longleftrightarrow>
     \<not> bad_prefix (unread p) \<and> \<not> bad_compressed (unread p ! 3) (unread p ! 4) \<and>
     hdr_payload_len (unread p) \<le> pr_max_payload p"

definition frame_complete :: "parser \<Rightarrow> bool" where
  "frame_complete p \<longleftrightarrow>
     CMQ_HEADER_LEN \<le> length (unread p) \<and> hdr_good p \<and>
     CMQ_HEADER_LEN + hdr_payload_len (unread p) \<le> length (unread p)"

lemma parse_loop_idle:
  "length (unread p) < CMQ_HEADER_LEN \<or>
   (hdr_good p \<and> length (unread p) < CMQ_HEADER_LEN + hdr_payload_len (unread p)) \<Longrightarrow>
   parser_parse_loop h p b = (None, b, h, p)"
  by (subst parser_parse_loop.simps) (auto simp: hdr_good_def Let_def)

lemma parse_loop_bad:
  "CMQ_HEADER_LEN \<le> length (unread p) \<Longrightarrow> \<not> hdr_good p \<Longrightarrow>
   parser_parse_loop h p b = (Some (parser_have_frames p b), b, h, p\<lparr>pr_error := True\<rparr>)"
  by (subst parser_parse_loop.simps) (auto simp: hdr_good_def Let_def)

lemma parse_loop_frame:
  assumes "frame_complete p"
  shows "parser_parse_loop h p b =
    (case (if hdr_payload_len (unread p) > 0 then malloc_ok h else (True, h)) of
       (False, h) \<Rightarrow> (Some (parser_have_frames p b), b, h, p\<lparr>pr_error := True\<rparr>)
     | (True, h) \<Rightarrow>
         (case cmq_push_frame h p (frame_of (unread p)) of
            (False, h, p') \<Rightarrow> (Some (parser_have_frames p' b), b, h, p')
          | (True, h, p') \<Rightarrow>
              parser_parse_loop h (p'\<lparr>pr_off := pr_off p' + (CMQ_HEADER_LEN + hdr_payload_len (unread p))\<rparr>) True))"
  using assms by (subst parser_parse_loop.simps) (simp add: frame_complete_def hdr_good_def Let_def not_less)

abbreviation advanced :: "parser \<Rightarrow> bool \<Rightarrow> parser" where
  "advanced p slab \<equiv>
     (pushed p (frame_of (unread p)) slab)\<lparr>pr_off := pr_off p + (CMQ_HEADER_LEN + hdr_payload_len (unread p))\<rparr>"

lemma parse_loop_cases:
  assumes "parser_inv p" "parser_parse_loop h p b = (r, b', h', p')"
  obtains (idle) "r = None" "p' = p" "b' = b" "\<not> frame_complete p"
  | (bad) rc where "r = Some rc" "p' = p\<lparr>pr_error := True\<rparr>" "b' = b"
  | (full) "r = Some 1" "p' = p" "b' = b"
  | (more) h2 slab where "frame_complete p" "parsed p (advanced p slab)"
      "parser_parse_loop h2 (advanced p slab) True = (r, b', h', p')"
proof (cases "frame_complete p")
  case False
  show ?thesis
  proof (cases "CMQ_HEADER_LEN \<le> length (unread p) \<and> \<not> hdr_good p")
    case True
    with assms(2) show ?thesis by (intro that(2)) (auto simp: parse_loop_bad)
  next
    case ok: False
    with False have "parser_parse_loop h p b = (None, b, h, p)"
      by (intro parse_loop_idle) (auto simp: frame_complete_def)
    with assms(2) False show ?thesis by (intro that(1)) auto
  qed
next
  case True
  let ?n = "hdr_payload_len (unread p)" and ?f = "frame_of (unread p)"
  have f: "frame_ok ?f" "fr_payload_len ?f \<le> pr_max_payload p"
    using True assms(1) frame_of_ok [of "unread p"] by (auto simp: frame_complete_def hdr_good_def parser_inv_def)
  obtain ok h1 where al: "(if ?n > 0 then malloc_ok h else (True, h)) = (ok, h1)" by fastforce
  note eq = assms(2) [unfolded parse_loop_frame [OF True] al]
  show ?thesis
  proof (cases ok)
    case False
    with eq show ?thesis by (intro that(2)) auto
  next
    case ok: True
    obtain ok2 h2 p2 where push: "cmq_push_frame h1 p ?f = (ok2, h2, p2)" by (metis prod_cases3)
    from assms(1) push f show ?thesis
    proof (cases rule: push_cases)
      case 1
      with eq ok push show ?thesis by (intro that(3)) (auto simp: parser_have_frames_def)
    next
      case 2
      with eq ok push show ?thesis by (intro that(2)) auto
    next
      case (3 slab)
      with True parsed_push [OF assms(1), of slab] have "parsed p (advanced p slab)"
        by (simp add: frame_complete_def)
      with eq ok push 3 True show ?thesis by (intro that(4) [of slab h2]) simp_all
    qed
  qed
qed

lemma parse_loop_parsed:
  "parser_inv p \<Longrightarrow> parser_parse_loop h p b = (r, b', h', p') \<Longrightarrow>
   parsed p p' \<and> (\<forall>rc. r = Some rc \<and> rc < 0 \<longrightarrow> pr_error p')"
proof (induction "length (unread p)" arbitrary: h p b rule: less_induct)
  case less
  from less(2,3) show ?case
  proof (cases rule: parse_loop_cases)
    case (more h2 slab)
    have inv: "parser_inv (advanced p slab)" using more(2) by (simp add: parsed_def)
    have "length (unread (advanced p slab)) < length (unread p)"
      using more(1) by (auto simp: frame_complete_def CMQ_HEADER_LEN_def)
    from less(1) [OF this inv more(3)] parsed_trans [OF more(2)] show ?thesis by blast
  qed (use parsed_refl [OF less(2)] parsed_error [OF parsed_refl [OF less(2)]] in auto)
qed

lemma parsed_compact:
  assumes "parsed p p'"
  shows "parsed p (parser_compact p')"
proof -
  have "parsed p' (parser_compact p')"
    using assms by (auto simp: parsed_def parser_compact_def parser_inv_def queue_ok_def queued_wire_def)
  with assms show ?thesis by (rule parsed_trans)
qed

lemma parse_inbuf_parsed:
  assumes "parser_inv p" "parser_parse_inbuf h p = (rc, h', p')"
  shows "parsed p p'" "rc < 0 \<Longrightarrow> pr_error p'"
proof -
  obtain r b1 h1 p1 where l: "parser_parse_loop h p False = (r, b1, h1, p1)" by (metis prod_cases4)
  note lp = parse_loop_parsed [OF assms(1) l]
  then have p1: "parsed p p1" by simp
  show "parsed p p'"
    using assms(2) l parsed_error [OF parsed_refl [OF assms(1)]] parsed_error [OF p1] parsed_compact [OF p1] p1
    by (auto simp: parser_parse_inbuf_def split: if_splits option.splits)
  show "pr_error p'" if "rc < 0"
    using assms(2) l lp that by (auto simp: parser_parse_inbuf_def split: if_splits option.splits)
qed


section \<open>Feeding loses nothing\<close>

lemma grow_cap_bounds:
  "grow_cap cap need = Some c \<Longrightarrow> cap \<le> c \<and> (0 < cap \<longrightarrow> need \<le> c) \<and> (c = cap \<or> c < 2 * need)"
proof (induction cap need rule: grow_cap.induct)
  case (1 cap need)
  show ?case
  proof (cases "0 < cap \<and> cap < need")
    case True
    with 1(2) have "\<not> cap > SIZE_MAX div 2" "grow_cap (2 * cap) need = Some c"
      by (auto simp: grow_cap.simps [of cap need] split: if_splits)
    with 1(1) True show ?thesis by fastforce
  next
    case False
    with 1(2) show ?thesis by (auto simp: grow_cap.simps [of cap need])
  qed
qed

lemma grow_cap_some: "need \<le> SIZE_MAX div 2 \<Longrightarrow> \<exists>c. grow_cap cap need = Some c"
proof (induction cap need rule: grow_cap.induct)
  case (1 cap need)
  then show ?case by (subst grow_cap.simps) auto
qed

text \<open>\<open>kept p p' data\<close>: nothing of \<open>data\<close> and nothing held before is lost, unless the error is latched.\<close>

definition kept :: "parser \<Rightarrow> parser \<Rightarrow> bytes \<Rightarrow> bool" where
  "kept p p' data \<longleftrightarrow>
     parser_inv p' \<and> pr_max_payload p' = pr_max_payload p \<and> (pr_cap p > 0 \<longrightarrow> pr_cap p' > 0) \<and>
     (\<exists>ns. pr_queue p' = pr_queue p @ ns) \<and> (pr_error p \<longrightarrow> pr_error p') \<and>
     (pr_error p' \<or> wire p' = wire p @ data)"

lemma kept_parsed: "parsed p p' \<Longrightarrow> kept p p' []"
  unfolding parsed_def kept_def wire_def by (auto simp: append_assoc [symmetric] simp del: append_assoc)

lemma kept_trans: "kept p p' a \<Longrightarrow> kept p' p'' b \<Longrightarrow> kept p p'' (a @ b)"
  unfolding kept_def by auto

lemma kept_error: "kept p p' a \<Longrightarrow> kept p (p'\<lparr>pr_error := True\<rparr>) b"
  unfolding kept_def by auto

lemma kept_when_error: "kept p p' a \<Longrightarrow> pr_error p' \<Longrightarrow> kept p p' b"
  unfolding kept_def by auto

lemma wire_error [simp]: "wire (p\<lparr>pr_error := b\<rparr>) = wire p"
  by (simp add: wire_def)

lemma hold_append_kept:
  assumes "parser_inv p" "parser_hold_append h p data hard = (ok, h', p')" "hard \<le> PARSER_HARD"
  shows "if ok then kept p p' data \<and> pr_error p' = pr_error p else p' = p"
proof (cases "ok \<and> data \<noteq> []")
  case True
  let ?need = "length (pr_hold p) + length data"
  obtain cap where p': "p' = p\<lparr>pr_hold := pr_hold p @ data, pr_hold_cap := cap\<rparr>" "?need \<le> cap" "cap \<le> PARSER_HARD"
  proof (cases "?need > pr_hold_cap p")
    case need: True
    with True assms(2) have "p' = p\<lparr>pr_hold := pr_hold p @ data, pr_hold_cap := pr_hold_cap p'\<rparr> \<and>
        ?need \<le> pr_hold_cap p' \<and> pr_hold_cap p' \<le> hard"
      by (auto simp: parser_hold_append_def Let_def split: if_splits option.splits prod.splits bool.splits)
    with assms(3) that [of "pr_hold_cap p'"] show ?thesis by auto
  next
    case False
    with True assms(2) have "p' = p\<lparr>pr_hold := pr_hold p @ data\<rparr>"
      by (auto simp: parser_hold_append_def Let_def split: if_splits)
    with False assms(1) that [of "pr_hold_cap p"] show ?thesis by (auto simp: parser_inv_def)
  qed
  have "parser_inv p'" using assms(1) p' by (simp add: parser_inv_def queue_ok_def)
  with True p'(1) show ?thesis by (simp add: kept_def wire_def queued_wire_def)
next
  case False
  then have "p' = p" using assms(2)
    by (auto simp: parser_hold_append_def Let_def split: if_splits option.splits prod.splits bool.splits)
  with False assms(1) show ?thesis by (simp add: kept_def)
qed


lemma ensure_inbuf_cases:
  assumes "parser_inv p" "ensure_inbuf h p need = (ok, h', p')" "need \<le> PARSER_HARD"
  shows "p' = p\<lparr>pr_cap := pr_cap p'\<rparr> \<and> pr_cap p \<le> pr_cap p' \<and> pr_cap p' \<le> 2 * PARSER_HARD \<and>
    (ok \<longrightarrow> need \<le> pr_cap p')"
proof (cases "need \<le> pr_cap p")
  case True
  with assms show ?thesis by (auto simp: ensure_inbuf_def parser_inv_def)
next
  case False
  let ?c = "if pr_cap p > 0 then pr_cap p else 1024"
  have c: "pr_cap p \<le> 2 * PARSER_HARD" using assms(1) by (simp add: parser_inv_def)
  show ?thesis
  proof (cases "grow_cap ?c need")
    case None
    with False assms(2) c show ?thesis by (auto simp: ensure_inbuf_def)
  next
    case (Some nc)
    have "0 < ?c" "?c \<le> 2 * PARSER_HARD" using c by (auto simp: PARSER_HARD_def parser_consts)
    with grow_cap_bounds [OF Some] assms(3) have nc: "?c \<le> nc" "need \<le> nc" "nc \<le> 2 * PARSER_HARD" by auto
    then have "pr_cap p \<le> nc" by (auto split: if_splits)
    with Some False assms(2) c nc show ?thesis
      by (cases "fst (malloc_ok h)"; cases "malloc_ok h") (auto simp: ensure_inbuf_def)
  qed
qed

lemma feed_append_cases:
  assumes "parser_inv p" "feed_append h p chunk = (ok, h', p')" "pr_hold p = []"
    "length (unread p) + length chunk \<le> PARSER_HARD"
  shows "kept p p' (if ok then chunk else [])" "pr_error p' = pr_error p" "pr_hold p' = []"
    "unread p' = (if ok then unread p @ chunk else unread p)"
proof -
  define q where "q = feed_compact p (length chunk)"
  have q: "parser_inv q" "unread q = unread p" "queued_wire q = queued_wire p" "pr_hold q = []"
      "pr_queue q = pr_queue p" "pr_max_payload q = pr_max_payload p" "pr_error q = pr_error p" "pr_cap q = pr_cap p"
    using assms(1,3) by (auto simp: q_def feed_compact_def parser_inv_def queue_ok_def queued_wire_def)
  have need: "length (pr_inbuf q) + length chunk \<le> PARSER_HARD" if "length (pr_inbuf q) + length chunk > pr_cap q"
  proof -
    have "length (pr_inbuf q) = length (unread p)"
      using that assms(1) by (auto simp: q_def feed_compact_def parser_inv_def split: if_splits)
    with assms(4) show ?thesis by simp
  qed
  have "p' = q\<lparr>pr_cap := pr_cap p', pr_inbuf := pr_inbuf q @ (if ok then chunk else [])\<rparr> \<and>
      pr_cap q \<le> pr_cap p' \<and> pr_cap p' \<le> 2 * PARSER_HARD \<and>
      (ok \<longrightarrow> length (pr_inbuf q) + length chunk \<le> pr_cap p')"
  proof (cases "length (pr_inbuf q) + length chunk > pr_cap q")
    case True
    obtain ok1 h1 p1 where e: "ensure_inbuf h q (length (pr_inbuf q) + length chunk) = (ok1, h1, p1)"
      by (metis prod_cases3)
    from ensure_inbuf_cases [OF q(1) e need [OF True]] obtain c where "p1 = q\<lparr>pr_cap := c\<rparr>" "pr_cap q \<le> c"
      "c \<le> 2 * PARSER_HARD" "ok1 \<longrightarrow> length (pr_inbuf q) + length chunk \<le> c" by blast
    with True e assms(2) show ?thesis by (cases ok1) (auto simp: feed_append_def q_def [symmetric] Let_def)
  next
    case False
    with assms(2) q(1) show ?thesis
      by (auto simp: feed_append_def q_def [symmetric] Let_def parser_inv_def)
  qed
  then obtain c where p': "p' = q\<lparr>pr_cap := c, pr_inbuf := pr_inbuf q @ (if ok then chunk else [])\<rparr>"
    and c: "pr_cap q \<le> c" "c \<le> 2 * PARSER_HARD" "ok \<longrightarrow> length (pr_inbuf q) + length chunk \<le> c" by blast
  have off: "pr_off q \<le> length (pr_inbuf q)" using q(1) by (simp add: parser_inv_def)
  then show un: "unread p' = (if ok then unread p @ chunk else unread p)" using q(2) by (simp add: p')
  have "length (unread p') \<le> PARSER_HARD" unfolding un using assms(4) by auto
  then have inv: "parser_inv p'" using q(1) c by (auto simp: p' parser_inv_def queue_ok_def)
  show "pr_error p' = pr_error p" "pr_hold p' = []" using q by (simp_all add: p')
  have "queued_wire p' = queued_wire q" by (simp add: p' queued_wire_def)
  with inv un q c(1) assms(3) show "kept p p' (if ok then chunk else [])"
    by (simp add: kept_def wire_def) (simp add: p')
qed

text \<open>One round of the feed loop, for input that can be taken.\<close>

lemma feed_loop_round:
  assumes "data \<noteq> []" "\<not> pr_error p" "length (unread p) \<le> parser_hard p"
    "(if length (unread p) = parser_hard p then parser_parse_inbuf h p else (0, h, p)) = (rc1, h1, p1)"
    "parser_hold_append h1 p1 data (parser_hard p) = (ok2, h2, p2)"
    "feed_append h1 p1 (take (parser_hard p - length (unread p1)) data) = (ok3, h3, p3)"
    "parser_parse_inbuf h3 p3 = (rc4, h4, p4)"
  shows "feed_loop h p any data =
    (if rc1 < 0 then feed_stop h1 p1 any data
     else if length (unread p1) > parser_hard p then feed_stop h1 (p1\<lparr>pr_error := True\<rparr>) (any \<or> rc1 > 0) data
     else if length (unread p1) = parser_hard p then
       (if ok2 then (if pr_queue p2 \<noteq> [] \<or> any \<or> rc1 > 0 \<or> pr_hold p2 \<noteq> [] then 1 else - 1, h2, p2)
        else (feed_rc p2 (any \<or> rc1 > 0), h2, p2\<lparr>pr_error := True\<rparr>))
     else if \<not> ok3 then feed_stop h3 p3 (any \<or> rc1 > 0) data
     else if rc4 < 0 then feed_stop h4 p4 (any \<or> rc1 > 0) (drop (parser_hard p - length (unread p1)) data)
     else feed_loop h4 p4 ((any \<or> rc1 > 0) \<or> rc4 > 0) (drop (parser_hard p - length (unread p1)) data))"
proof -
  have room: "parser_hard p - length (unread p1) = 0 \<longleftrightarrow>
      length (unread p1) = parser_hard p \<or> length (unread p1) > parser_hard p" by auto
  show ?thesis
    using assms by (subst feed_loop.simps) (cases ok2; cases ok3; simp add: room disj_assoc not_less Let_def)
qed

lemma feed_loop_kept:
  "parser_inv p \<Longrightarrow> pr_hold p = [] \<Longrightarrow> feed_loop h p any data = (rc, h', p') \<Longrightarrow>
   kept p p' data \<and> (rc < 0 \<longrightarrow> pr_error p')"
proof (induction "length data" arbitrary: h p any data rule: less_induct)
  case less
  note inv = less(2) and hold = less(3) and eq = less(4)
  have self: "kept p p []" using inv by (simp add: kept_def)
  have hard: "parser_hard p \<le> PARSER_HARD" using inv by (simp add: parser_hard_def PARSER_HARD_def parser_inv_def)
  show ?case
  proof (cases "data = [] \<or> pr_error p \<or> length (unread p) > parser_hard p")
    case True
    with eq self kept_error [OF self] kept_when_error [OF self] show ?thesis
      by (subst (asm) feed_loop.simps) (auto simp: feed_stop_def feed_rc_def split: if_splits)
  next
    case False
    obtain rc1 h1 p1 where 1: "(if length (unread p) = parser_hard p then parser_parse_inbuf h p else (0, h, p)) = (rc1, h1, p1)"
      by (metis prod_cases3)
    let ?room = "parser_hard p - length (unread p1)"
    obtain ok2 h2 p2 where 2: "parser_hold_append h1 p1 data (parser_hard p) = (ok2, h2, p2)" by (metis prod_cases3)
    obtain ok3 h3 p3 where 3: "feed_append h1 p1 (take ?room data) = (ok3, h3, p3)" by (metis prod_cases3)
    obtain rc4 h4 p4 where 4: "parser_parse_inbuf h3 p3 = (rc4, h4, p4)" by (metis prod_cases3)
    have go: "data \<noteq> []" "\<not> pr_error p" "length (unread p) \<le> parser_hard p" using False by auto
    note eq' = eq [unfolded feed_loop_round [OF go 1 2 3 4]]
    have p1: "parsed p p1" using 1 parse_inbuf_parsed(1) [OF inv] parsed_refl [OF inv] by (auto split: if_splits)
    have inv1: "parser_inv p1" "pr_hold p1 = []" using p1 hold by (auto simp: parsed_def)
    note k1 = kept_parsed [OF p1]
    consider (bad) "rc1 < 0 \<or> length (unread p1) > parser_hard p"
      | (park) "\<not> rc1 < 0" "length (unread p1) = parser_hard p"
      | (take) "\<not> rc1 < 0" "length (unread p1) < parser_hard p" by linarith
    then show ?thesis
    proof cases
      case bad
      with eq' go kept_error [OF k1] show ?thesis by (auto simp: feed_stop_def split: if_splits)
    next
      case park
      have "pr_hold p2 \<noteq> []" if ok2
        using 2 that go(1) by (auto simp: parser_hold_append_def Let_def split: if_splits option.splits prod.splits bool.splits)
      with park eq' hold_append_kept [OF inv1(1) 2 hard] kept_trans [OF k1, of p2 data] kept_error [OF k1]
      show ?thesis by (cases ok2) auto
    next
      case take
      have "length (unread p1) + length (take ?room data) \<le> PARSER_HARD" using hard take by auto
      note f = feed_append_cases [OF inv1(1) 3 inv1(2) this]
      note k3 = kept_trans [OF k1 f(1)]
      have inv3: "parser_inv p3" using f(1) by (simp add: kept_def)
      note p4 = parse_inbuf_parsed [OF inv3 4]
      note k4 = kept_trans [OF k3 kept_parsed [OF p4(1)]]
      consider "\<not> ok3" | "ok3" "rc4 < 0" | "ok3" "\<not> rc4 < 0" by blast
      then show ?thesis
      proof cases
        case 1
        with eq' take go kept_error [OF k3] show ?thesis by (auto simp: feed_stop_def)
      next
        case 2
        with eq' take p4(2) kept_error [OF k4] kept_when_error [OF k4] show ?thesis
          by (auto simp: feed_stop_def split: if_splits)
      next
        case 3
        have lt: "length (drop ?room data) < length data" using take go(1) by (cases data) auto
        have i4: "parser_inv p4" "pr_hold p4 = []" using p4(1) f(3) by (auto simp: parsed_def)
        have "feed_loop h4 p4 ((any \<or> rc1 > 0) \<or> rc4 > 0) (drop ?room data) = (rc, h', p')"
          using eq' take 3 by (simp split: if_splits)
        from less(1) [OF lt i4 this] kept_trans [OF k4, of p' "drop ?room data"] 3 show ?thesis by simp
      qed
    qed
  qed
qed


lemma kept_unhold:
  assumes "kept (p\<lparr>pr_hold := [], pr_hold_cap := 0\<rparr>) p' (pr_hold p @ data)"
  shows "kept p p' data"
  using assms by (simp add: kept_def wire_def queued_wire_def)

lemma parser_inv_unhold: "parser_inv p \<Longrightarrow> parser_inv (p\<lparr>pr_hold := [], pr_hold_cap := 0\<rparr>)"
  by (simp add: parser_inv_def queue_ok_def)

lemma feed_nohold_kept:
  assumes "parser_inv p" "pr_hold p = []" "pr_cap p > 0" "cmq_parser_feed_nohold h p data = (rc, h', p')"
  shows "kept p p' data \<and> (rc < 0 \<longrightarrow> pr_error p')"
proof -
  have self: "kept p p []" using assms(1) by (simp add: kept_def)
  show ?thesis
    using assms self feed_loop_kept [OF assms(1,2)] kept_when_error [OF self]
    by (auto simp: cmq_parser_feed_nohold_def split: if_splits)
qed

lemma feed_kept:
  assumes "parser_inv p" "pr_cap p > 0" "cmq_parser_feed h p data = (rc, h', p')"
  shows "kept p p' data \<and> (rc < 0 \<longrightarrow> pr_error p')"
proof -
  have self: "kept p p []" using assms(1) by (simp add: kept_def)
  have hard: "parser_hard p \<le> PARSER_HARD"
    using assms(1) by (simp add: parser_hard_def PARSER_HARD_def parser_inv_def)
  show ?thesis
  proof (cases "data \<noteq> [] \<and> \<not> pr_error p \<and> pr_hold p \<noteq> []")
    case False
    with assms self kept_when_error [OF self] feed_loop_kept [OF assms(1), of h False data]
    show ?thesis by (auto simp: cmq_parser_feed_def split: if_splits)
  next
    case True
    let ?p = "p\<lparr>pr_hold := [], pr_hold_cap := 0\<rparr>"
    obtain hr h1 p1 where 1: "cmq_parser_feed_nohold h ?p (pr_hold p) = (hr, h1, p1)" by (metis prod_cases3)
    obtain ok h2 p2 where 2: "parser_hold_append h1 p1 data (parser_hard p) = (ok, h2, p2)" by (metis prod_cases3)
    have k1: "kept ?p p1 (pr_hold p)" and neg: "hr < 0 \<longrightarrow> pr_error p1"
      using feed_nohold_kept [OF parser_inv_unhold [OF assms(1)] _ _ 1] assms(2) by auto
    have inv1: "parser_inv p1" using k1 by (simp add: kept_def)
    have eq: "cmq_parser_feed h p data =
        (if pr_error p1 then (if pr_queue p1 \<noteq> [] then 1 else - 1, h1, p1)
         else if pr_hold p1 \<noteq> [] then
           (if ok then (1, h2, p2) else (feed_rc p2 (hr > 0), h2, p2\<lparr>pr_error := True\<rparr>))
         else feed_loop h1 p1 (hr > 0) data)"
      using True assms(2) 1 2 neg by (cases ok) (simp_all add: cmq_parser_feed_def)
    consider "pr_error p1" | "\<not> pr_error p1" "pr_hold p1 \<noteq> []" | "\<not> pr_error p1" "pr_hold p1 = []" by blast
    then show ?thesis
    proof cases
      case 1
      with eq assms(3) kept_unhold [OF kept_when_error [OF k1]] show ?thesis by auto
    next
      case 2
      with eq assms(3) hold_append_kept [OF inv1 \<open>parser_hold_append _ _ _ _ = _\<close> hard]
        kept_unhold [OF kept_trans [OF k1]] kept_unhold [OF kept_error [OF k1]]
      show ?thesis by (auto split: if_splits)
    next
      case 3
      with eq assms(3) have "feed_loop h1 p1 (hr > 0) data = (rc, h', p')" by simp
      from feed_loop_kept [OF inv1 3(2) this] kept_unhold [OF kept_trans [OF k1]] show ?thesis by blast
    qed
  qed
qed

lemma drain_kept:
  assumes "parser_inv p" "pr_cap p > 0" "cmq_parser_drain_inbuf h p = (rc, h', p')"
  shows "kept p p' [] \<and> (rc < 0 \<longrightarrow> pr_error p')"
proof -
  have self: "kept p p []" using assms(1) by (simp add: kept_def)
  obtain rc1 h1 p1 where 1: "parser_parse_inbuf h p = (rc1, h1, p1)" by (metis prod_cases3)
  note p1 = parse_inbuf_parsed [OF assms(1) 1]
  note k1 = kept_parsed [OF p1(1)]
  have inv1: "parser_inv p1" "pr_cap p1 > 0" using p1(1) assms(2) by (auto simp: parsed_def)
  let ?p = "p1\<lparr>pr_hold := [], pr_hold_cap := 0\<rparr>"
  obtain fr h2 p2 where 2: "cmq_parser_feed_nohold h1 ?p (pr_hold p1) = (fr, h2, p2)" by (metis prod_cases3)
  have k2: "kept ?p p2 (pr_hold p1 @ [])" "fr < 0 \<longrightarrow> pr_error p2"
    using feed_nohold_kept [OF parser_inv_unhold [OF inv1(1)] _ _ 2] inv1(2) by auto
  show ?thesis
    using assms(2,3) 1 2 self k1 p1(2) kept_trans [OF k1 kept_unhold [OF k2(1)]] k2(2)
    by (auto simp: cmq_parser_drain_inbuf_def split: if_splits)
qed

lemma next_wire:
  assumes "parser_inv p" "cmq_parser_frame p = Some f" "cmq_parser_next p = (again, p')"
  shows "parser_inv p'" "wire p = encode_frame f @ wire p'" "frame_ok f" "pr_error p' = pr_error p"
    "again \<longleftrightarrow> cmq_parser_frame p' \<noteq> None"
proof -
  obtain n ns where q: "pr_queue p = n # ns" "nd_frame n = f"
    using assms(2) by (auto simp: cmq_parser_frame_def split: list.splits)
  have p': "p' = p\<lparr>pr_queue := ns, pr_queued := length ns,
      pr_queued_bytes := sum_list (map (fr_payload_len \<circ> nd_frame) ns)\<rparr>"
    using assms(1,3) q by (simp add: cmq_parser_next_def parser_inv_def queue_ok_def)
  show "frame_ok f" "parser_inv p'" using assms(1) q by (auto simp: p' parser_inv_def queue_ok_def)
  show "wire p = encode_frame f @ wire p'" "pr_error p' = pr_error p" using q by (simp_all add: p' wire_def queued_wire_def)
  show "again \<longleftrightarrow> cmq_parser_frame p' \<noteq> None"
    using assms(3) q by (auto simp: cmq_parser_next_def cmq_parser_frame_def split: list.splits)
qed

section \<open>Runs\<close>

datatype parser_event = Feed heap bytes | Drain heap | Next | Set_Max nat | Reset heap

fun parser_exec :: "parser_event \<Rightarrow> parser \<Rightarrow> parser" where
  "parser_exec (Feed h d) p = snd (snd (cmq_parser_feed h p d))"
| "parser_exec (Drain h) p = snd (snd (cmq_parser_drain_inbuf h p))"
| "parser_exec Next p = snd (cmq_parser_next p)"
| "parser_exec (Set_Max n) p = cmq_parser_set_max_payload p n"
| "parser_exec (Reset h) p = cmq_parser_reset h p"

lemma parser_exec_inv:
  assumes "parser_inv p"
  shows "parser_inv (parser_exec e p)"
proof (cases e)
  case (Feed h d)
  obtain rc h' p' where r: "cmq_parser_feed h p d = (rc, h', p')" by (metis prod_cases3)
  show ?thesis
  proof (cases "pr_cap p > 0")
    case True
    from feed_kept [OF assms True r] r Feed show ?thesis by (simp add: kept_def)
  qed (use assms Feed in \<open>simp add: cmq_parser_feed_def\<close>)
next
  case (Drain h)
  obtain rc h' p' where r: "cmq_parser_drain_inbuf h p = (rc, h', p')" by (metis prod_cases3)
  show ?thesis
  proof (cases "pr_cap p > 0")
    case True
    from drain_kept [OF assms True r] r Drain show ?thesis by (simp add: kept_def)
  qed (use assms Drain in \<open>simp add: cmq_parser_drain_inbuf_def\<close>)
next
  case Next
  then show ?thesis
    using assms next_wire(1) [OF assms] by (cases "cmq_parser_next p"; cases "cmq_parser_frame p")
      (auto simp: cmq_parser_frame_def cmq_parser_next_def split: list.splits)
next
  case (Set_Max n)
  with assms show ?thesis
    by (auto simp: cmq_parser_set_max_payload_def parser_inv_def queue_ok_def parser_consts)
next
  case (Reset h)
  with assms show ?thesis
    by (auto simp: cmq_parser_reset_def parser_inv_def queue_ok_def PARSER_HARD_def parser_consts)
qed

lemma parser_create_inv:
  "cmq_parser_create h = (Some p, h') \<Longrightarrow> parser_inv p \<and> wire p = [] \<and> pr_cap p > 0 \<and> \<not> pr_error p \<and>
     pr_max_payload p = CMQ_MAX_PAYLOAD \<and> pr_queue p = [] \<and> unread p = [] \<and> pr_hold p = []"
  by (auto simp: cmq_parser_create_def parser_inv_def queue_ok_def PARSER_HARD_def parser_consts
      wire_def queued_wire_def split: prod.splits bool.splits)

lemma parser_fold_inv: "parser_inv p \<Longrightarrow> parser_inv (fold parser_exec es p)"
  by (induction es arbitrary: p) (simp_all add: parser_exec_inv)


section \<open>Complete decoding\<close>

text \<open>
  A valid stream of frames that fits the queue, cut into pieces at any points, with memory available
  (the empty heap): \<open>rest\<close> is what has not arrived yet and \<open>fs\<close> the frames not yet queued.
\<close>

definition frames_fit :: "parser \<Rightarrow> frame list \<Rightarrow> bool" where
  "frames_fit p fs \<longleftrightarrow>
     (\<forall>f \<in> set fs. frame_ok f \<and> fr_payload_len f \<le> pr_max_payload p) \<and>
     length (pr_queue p) + length fs \<le> CMQ_PARSER_FRAME_QUEUE_MAX \<and>
     pr_queued_bytes p + sum_list (map fr_payload_len fs) \<le> 2 * pr_max_payload p"

definition awaiting :: "parser \<Rightarrow> bytes \<Rightarrow> frame list \<Rightarrow> bool" where
  "awaiting p rest fs \<longleftrightarrow>
     parser_inv p \<and> \<not> pr_error p \<and> frames_fit p fs \<and> unread p @ rest = concat (map encode_frame fs)"

definition incomplete :: "parser \<Rightarrow> frame list \<Rightarrow> bool" where
  "incomplete p fs \<longleftrightarrow> (\<forall>f gs. fs = f # gs \<longrightarrow> length (unread p) < length (encode_frame f))"

lemma bad_prefix_append: "3 \<le> length u \<Longrightarrow> bad_prefix (u @ r) = bad_prefix u"
  by (cases u) (auto simp: bad_prefix_def nth_append)

lemma header_prefix:
  assumes "CMQ_HEADER_LEN \<le> length u"
  shows "hdr_payload_len (u @ r) = hdr_payload_len u" "bad_prefix (u @ r) = bad_prefix u"
    "(u @ r) ! 3 = u ! 3" "(u @ r) ! 4 = u ! 4"
  using assms by (simp_all add: hdr_payload_len_def bad_prefix_append CMQ_HEADER_LEN_def nth_append)

lemma awaiting_header:
  assumes "awaiting p rest (f # fs)" "CMQ_HEADER_LEN \<le> length (unread p)"
  shows "hdr_payload_len (unread p) = fr_payload_len f" "hdr_good p"
proof -
  have f: "frame_ok f" "fr_payload_len f \<le> pr_max_payload p" using assms(1) by (auto simp: awaiting_def frames_fit_def)
  have u: "unread p @ rest = encode_frame f @ concat (map encode_frame fs)" using assms(1) by (simp add: awaiting_def)
  note c = frame_of_encode [OF f(1), of "concat (map encode_frame fs)", folded u]
  from c(1) show n: "hdr_payload_len (unread p) = fr_payload_len f" by (simp add: header_prefix [OF assms(2)])
  from c(3,4) n f(2) show "hdr_good p" by (simp add: hdr_good_def header_prefix [OF assms(2)])
qed

lemma awaiting_prefix:
  assumes "awaiting p rest fs" "3 \<le> length (unread p)"
  shows "\<not> bad_prefix (unread p)"
proof (cases fs)
  case (Cons f gs)
  have f: "frame_ok f" using assms(1) Cons by (simp add: awaiting_def frames_fit_def)
  have u: "unread p @ rest = encode_frame f @ concat (map encode_frame gs)" using assms(1) Cons by (simp add: awaiting_def)
  from frame_of_encode(3) [OF f, of "concat (map encode_frame gs)", folded u] assms(2)
  show ?thesis by (simp add: bad_prefix_append)
qed (use assms in \<open>simp add: awaiting_def\<close>)

lemma push_nil: "\<not> push_full p f \<Longrightarrow> cmq_push_frame [] p f = (True, [], pushed p f True)"
  by (simp add: cmq_push_frame_def push_full_def pushed_def)

lemma awaiting_step:
  assumes "awaiting p rest (f # fs)" "length (encode_frame f) \<le> length (unread p)"
  shows "awaiting (advanced p True) rest fs" "map nd_frame (pr_queue (advanced p True)) = map nd_frame (pr_queue p) @ [f]"
    "parser_parse_loop [] p b = parser_parse_loop [] (advanced p True) True" "parsed p (advanced p True)"
    "length (unread (advanced p True)) < length (unread p)"
proof -
  have inv: "parser_inv p" and fit: "frames_fit p (f # fs)"
    and u: "unread p @ rest = encode_frame f @ concat (map encode_frame fs)"
    using assms(1) by (simp_all add: awaiting_def)
  have f: "frame_ok f" using fit by (simp add: frames_fit_def)
  have len: "CMQ_HEADER_LEN + fr_payload_len f \<le> length (unread p)" using assms(2) encode_frame_length [OF f] by simp
  then have hl: "CMQ_HEADER_LEN \<le> length (unread p)" by simp
  note h = awaiting_header [OF assms(1) hl]
  have split: "unread p = encode_frame f @ drop (length (encode_frame f)) (unread p)"
    using u assms(2) by (metis append_eq_append_conv_if append_take_drop_id)
  have fo: "frame_of (unread p) = f" using frame_of_encode(2) [OF f] split by metis
  have fc: "frame_complete p" using hl h len by (simp add: frame_complete_def)
  have room: "\<not> push_full p f"
    using fit queue_budget_eq [OF inv] inv by (auto simp: frames_fit_def push_full_def parser_inv_def queue_ok_def)
  have "fr_payload_len f \<le> pr_max_payload p" using fit by (simp add: frames_fit_def)
  with inv push_nil [OF room] f have qok: "queue_ok (pushed p f True)"
    by (cases rule: push_cases) simp_all
  show pa: "parsed p (advanced p True)"
    using parsed_push [OF inv, of True] qok fo h len by simp
  have "unread (advanced p True) = drop (length (encode_frame f)) (unread p)"
    by (simp add: h encode_frame_length [OF f] add.commute)
  moreover have "drop (length (encode_frame f)) (unread p) @ rest = concat (map encode_frame fs)"
    using u split by (metis append.assoc same_append_eq)
  moreover have "frames_fit (advanced p True) fs"
    using fit h fo by (simp add: frames_fit_def pushed_def)
  ultimately show "awaiting (advanced p True) rest fs"
    using pa assms(1) by (simp add: awaiting_def parsed_def pushed_def)
  show "map nd_frame (pr_queue (advanced p True)) = map nd_frame (pr_queue p) @ [f]" using fo by simp
  show "parser_parse_loop [] p b = parser_parse_loop [] (advanced p True) True"
    by (simp add: parse_loop_frame [OF fc] fo push_nil [OF room])
  show "length (unread (advanced p True)) < length (unread p)" using h len by (auto simp: CMQ_HEADER_LEN_def)
qed

lemma parse_loop_awaiting:
  "awaiting p rest fs \<Longrightarrow>
   \<exists>ds left b' p'. parser_parse_loop [] p b = (None, b', [], p') \<and> fs = ds @ left \<and>
     map nd_frame (pr_queue p') = map nd_frame (pr_queue p) @ ds \<and> awaiting p' rest left \<and> incomplete p' left \<and>
     parsed p p'"
proof (induction fs arbitrary: p b)
  case Nil
  then have "unread p = []" by (simp add: awaiting_def)
  then have "parser_parse_loop [] p b = (None, b, [], p)" by (intro parse_loop_idle) (simp add: CMQ_HEADER_LEN_def)
  with Nil show ?case by (simp add: incomplete_def parsed_refl awaiting_def)
next
  case (Cons f fs)
  show ?case
  proof (cases "length (encode_frame f) \<le> length (unread p)")
    case True
    note s = awaiting_step [OF Cons(2) True]
    from Cons(1) [OF s(1), of True] obtain ds left b' p' where
      "parser_parse_loop [] (advanced p True) True = (None, b', [], p')" "fs = ds @ left"
      "map nd_frame (pr_queue p') = map nd_frame (pr_queue (advanced p True)) @ ds" "awaiting p' rest left"
      "incomplete p' left" "parsed (advanced p True) p'" by blast
    with s(2,3) parsed_trans [OF s(4)] show ?thesis by (intro exI [of _ "f # ds"] exI [of _ left]) auto
  next
    case False
    have f: "frame_ok f" using Cons(2) by (simp add: awaiting_def frames_fit_def)
    have "parser_parse_loop [] p b = (None, b, [], p)"
      using False awaiting_header [OF Cons(2)] encode_frame_length [OF f] by (intro parse_loop_idle) auto
    with Cons(2) False show ?thesis
      by (intro exI [of _ "[]"] exI [of _ "f # fs"]) (simp add: incomplete_def parsed_refl awaiting_def)
  qed
qed


text \<open>What a step on a valid stream gives.\<close>

definition progressed :: "parser \<Rightarrow> parser \<Rightarrow> bytes \<Rightarrow> frame list \<Rightarrow> bool" where
  "progressed p p' rest fs \<longleftrightarrow>
     (\<exists>ds left. fs = ds @ left \<and> map nd_frame (pr_queue p') = map nd_frame (pr_queue p) @ ds \<and>
        awaiting p' rest left \<and> incomplete p' left) \<and>
     pr_hold p' = pr_hold p \<and> pr_max_payload p' = pr_max_payload p \<and> (pr_cap p > 0 \<longrightarrow> pr_cap p' > 0)"

lemma parse_inbuf_awaiting:
  assumes "awaiting p rest fs"
  shows "\<exists>rc p'. parser_parse_inbuf [] p = (rc, [], p') \<and> 0 \<le> rc \<and> progressed p p' rest fs"
proof -
  obtain ds left b' p' where l: "parser_parse_loop [] p False = (None, b', [], p')" "fs = ds @ left"
    "map nd_frame (pr_queue p') = map nd_frame (pr_queue p) @ ds" "awaiting p' rest left" "incomplete p' left" "parsed p p'"
    using parse_loop_awaiting [OF assms] by metis
  have "\<not> (3 \<le> length (unread p) \<and> bad_prefix (unread p))" "\<not> (3 \<le> length (unread p') \<and> bad_prefix (unread p'))"
    using awaiting_prefix [OF assms] awaiting_prefix [OF l(4)] by blast+
  then have "parser_parse_inbuf [] p = (if b' then 1 else 0, [], parser_compact p')"
    unfolding parser_parse_inbuf_def by (simp only: l(1) if_False prod.case option.case)
  moreover have pc: "parsed p (parser_compact p')" by (rule parsed_compact [OF l(6)])
  have un: "unread (parser_compact p') = unread p'" "pr_queue (parser_compact p') = pr_queue p'"
    "pr_queued_bytes (parser_compact p') = pr_queued_bytes p'" "pr_max_payload (parser_compact p') = pr_max_payload p'"
    "pr_error (parser_compact p') = pr_error p'"
    by (simp_all add: parser_compact_def)
  have "incomplete (parser_compact p') left" using l(5) unfolding incomplete_def un(1) .
  moreover have "awaiting (parser_compact p') rest left"
    using l(4) pc unfolding awaiting_def frames_fit_def un by (simp add: parsed_def)
  ultimately show ?thesis using l(2,3) pc un(2) by (auto simp: progressed_def parsed_def)
qed

lemma ensure_inbuf_nil: "need \<le> PARSER_HARD \<Longrightarrow> \<exists>p'. ensure_inbuf [] p need = (True, [], p')"
  using grow_cap_some [of need "if pr_cap p > 0 then pr_cap p else 1024"]
  by (auto simp: ensure_inbuf_def PARSER_HARD_def parser_consts SIZE_MAX_def)

lemma feed_append_nil:
  assumes "parser_inv p" "length (unread p) + length chunk \<le> PARSER_HARD"
  shows "\<exists>p'. feed_append [] p chunk = (True, [], p') \<and> pr_queue p' = pr_queue p \<and>
    pr_queued_bytes p' = pr_queued_bytes p"
proof -
  let ?q = "feed_compact p (length chunk)"
  have "length (pr_inbuf ?q) = length (unread p)" if "length (pr_inbuf ?q) + length chunk > pr_cap ?q"
    using that assms(1) by (auto simp: feed_compact_def parser_inv_def split: if_splits)
  then have "\<exists>p'. (if length (pr_inbuf ?q) + length chunk > pr_cap ?q
      then ensure_inbuf [] ?q (length (pr_inbuf ?q) + length chunk) else (True, [], ?q)) = (True, [], p')"
    using ensure_inbuf_nil [of "length (pr_inbuf ?q) + length chunk" ?q] assms(2) by auto
  then obtain p' where p': "(if length (pr_inbuf ?q) + length chunk > pr_cap ?q
      then ensure_inbuf [] ?q (length (pr_inbuf ?q) + length chunk) else (True, [], ?q)) = (True, [], p')" by blast
  have "pr_queue p' = pr_queue p" "pr_queued_bytes p' = pr_queued_bytes p"
    using p' by (auto simp: feed_compact_def ensure_inbuf_def split: if_splits option.splits)
  with p' show ?thesis by (simp add: feed_append_def Let_def)
qed

lemma awaiting_append:
  assumes "awaiting p (chunk @ rest) fs" "incomplete p fs" "pr_hold p = []" "chunk \<noteq> []"
    "length (unread p) + length chunk \<le> PARSER_HARD"
  shows "\<exists>p'. feed_append [] p chunk = (True, [], p') \<and> awaiting p' rest fs \<and> pr_hold p' = [] \<and>
    pr_queue p' = pr_queue p \<and> pr_max_payload p' = pr_max_payload p \<and> (pr_cap p > 0 \<longrightarrow> pr_cap p' > 0)"
proof -
  have inv: "parser_inv p" using assms(1) by (simp add: awaiting_def)
  from feed_append_nil [OF inv assms(5)] obtain p' where f: "feed_append [] p chunk = (True, [], p')"
    "pr_queue p' = pr_queue p" "pr_queued_bytes p' = pr_queued_bytes p" by blast
  note c = feed_append_cases [OF inv f(1) assms(3,5)]
  with f assms(1) show ?thesis by (simp add: awaiting_def frames_fit_def kept_def)
qed

lemma feed_loop_awaiting:
  "awaiting p (data @ rest) fs \<Longrightarrow> incomplete p fs \<Longrightarrow> pr_hold p = [] \<Longrightarrow>
   \<exists>rc p'. feed_loop [] p any data = (rc, [], p') \<and> 0 \<le> rc \<and> progressed p p' rest fs"
proof (induction "length data" arbitrary: p any data fs rule: less_induct)
  case less
  show ?case
  proof (cases "data = []")
    case True
    then have "feed_loop [] p any data = (if any then 1 else 0, [], p)" by (subst feed_loop.simps) simp
    with True less(2,3) show ?thesis by (auto simp: progressed_def)
  next
    case False
    have aw: "parser_inv p" "\<not> pr_error p" using less(2) by (auto simp: awaiting_def)
    from False less(2) obtain f gs where fs: "fs = f # gs" by (cases fs) (auto simp: awaiting_def)
    then have "frame_ok f" "fr_payload_len f \<le> pr_max_payload p" using less(2) by (auto simp: awaiting_def frames_fit_def)
    then have lt: "length (unread p) < parser_hard p"
      using less(3) fs encode_frame_length by (auto simp: incomplete_def parser_hard_def)
    let ?room = "parser_hard p - length (unread p)"
    have hard: "parser_hard p \<le> PARSER_HARD" using aw by (simp add: parser_hard_def PARSER_HARD_def parser_inv_def)
    have ch: "take ?room data \<noteq> []" "length (unread p) + length (take ?room data) \<le> PARSER_HARD"
      using False lt hard by auto
    have "awaiting p (take ?room data @ drop ?room data @ rest) fs"
      using less(2) by (metis append.assoc append_take_drop_id)
    from awaiting_append [OF this less(3,4) ch] obtain p3 where 3: "feed_append [] p (take ?room data) = (True, [], p3)"
      "awaiting p3 (drop ?room data @ rest) fs" "pr_hold p3 = []" "pr_queue p3 = pr_queue p"
      "pr_max_payload p3 = pr_max_payload p" "pr_cap p > 0 \<longrightarrow> pr_cap p3 > 0"
      by (elim exE conjE) (rule that)
    from parse_inbuf_awaiting [OF 3(2)] obtain rc4 p4 where 4: "parser_parse_inbuf [] p3 = (rc4, [], p4)" "0 \<le> rc4"
      "progressed p3 p4 (drop ?room data @ rest) fs" by blast
    obtain ok2 h2 p2 where 2: "parser_hold_append [] p data (parser_hard p) = (ok2, h2, p2)" by (metis prod_cases3)
    have eq: "feed_loop [] p any data = feed_loop [] p4 (any \<or> rc4 > 0) (drop ?room data)"
      using feed_loop_round [OF False aw(2), of "[]" 0 "[]" p ok2 h2 p2 True "[]" p3 rc4 "[]" p4 any] lt 2 3(1) 4(1,2)
      by simp
    have "progressed p p4 (drop ?room data @ rest) fs" using 4(3) 3(3-6) less(4) by (auto simp: progressed_def)
    then obtain ds left where left: "fs = ds @ left" "map nd_frame (pr_queue p4) = map nd_frame (pr_queue p) @ ds"
      "awaiting p4 (drop ?room data @ rest) left" "incomplete p4 left" "pr_hold p4 = []"
      "pr_max_payload p4 = pr_max_payload p" "pr_cap p > 0 \<longrightarrow> pr_cap p4 > 0"
      using less(4) unfolding progressed_def by auto
    have "length (drop ?room data) < length data" using False lt by (cases data) auto
    from less(1) [OF this left(3-5), of "any \<or> rc4 > 0"] obtain rc p' where
      "feed_loop [] p4 (any \<or> rc4 > 0) (drop ?room data) = (rc, [], p')" "0 \<le> rc" "progressed p4 p' rest left" by blast
    with eq left less(4) show ?thesis unfolding progressed_def by auto
  qed
qed

lemma feed_awaiting:
  assumes "awaiting p (data @ rest) fs" "incomplete p fs" "pr_hold p = []" "pr_cap p > 0"
  shows "progressed p (snd (snd (cmq_parser_feed [] p data))) rest fs"
proof (cases "data = []")
  case True
  with assms show ?thesis by (auto simp: cmq_parser_feed_def progressed_def)
next
  case False
  with assms(1,3,4) have "cmq_parser_feed [] p data = feed_loop [] p False data"
    by (simp add: cmq_parser_feed_def awaiting_def)
  with feed_loop_awaiting [OF assms(1-3), of False] show ?thesis by auto
qed

lemma feed_chunks:
  "awaiting p (concat chunks) fs \<Longrightarrow> incomplete p fs \<Longrightarrow> pr_hold p = [] \<Longrightarrow> pr_cap p > 0 \<Longrightarrow>
   progressed p (fold (\<lambda>d q. snd (snd (cmq_parser_feed [] q d))) chunks p) [] fs"
proof (induction chunks arbitrary: p fs)
  case Nil
  then show ?case by (auto simp: progressed_def)
next
  case (Cons d chunks)
  let ?p = "snd (snd (cmq_parser_feed [] p d))"
  have pr: "progressed p ?p (concat chunks) fs" using feed_awaiting [of p d "concat chunks" fs] Cons(2-5) by simp
  then obtain ds left where left: "fs = ds @ left" "map nd_frame (pr_queue ?p) = map nd_frame (pr_queue p) @ ds"
    "awaiting ?p (concat chunks) left" "incomplete ?p left" "pr_hold ?p = []"
    "pr_max_payload ?p = pr_max_payload p" "pr_cap ?p > 0"
    using Cons(4,5) unfolding progressed_def by auto
  from Cons(1) [OF left(3-5,7)] left Cons(4) show ?case unfolding progressed_def by auto
qed

lemma incomplete_end: "awaiting p [] fs \<Longrightarrow> incomplete p fs \<Longrightarrow> fs = []"
  by (cases fs) (auto simp: awaiting_def incomplete_def)


section \<open>Input and output of a run\<close>

fun event_input :: "parser_event \<Rightarrow> bytes" where
  "event_input (Feed h d) = d"
| "event_input _ = []"

fun event_output :: "parser_event \<Rightarrow> parser \<Rightarrow> frame list" where
  "event_output Next p = (case cmq_parser_frame p of None \<Rightarrow> [] | Some f \<Rightarrow> [f])"
| "event_output _ p = []"

fun parser_io :: "parser_event list \<Rightarrow> parser \<Rightarrow> bytes \<times> frame list \<times> parser" where
  "parser_io [] p = ([], [], p)"
| "parser_io (e # es) p =
     (case parser_io es (parser_exec e p) of
        (i, out, q) \<Rightarrow> (event_input e @ i, event_output e p @ out, q))"

fun streaming :: "parser_event \<Rightarrow> bool" where
  "streaming (Reset h) = False"
| "streaming (Set_Max n) = False"
| "streaming _ = True"

lemma exec_conserves:
  assumes "parser_inv p" "pr_cap p > 0" "streaming e"
  shows "(pr_error p \<longrightarrow> pr_error (parser_exec e p)) \<and> pr_cap (parser_exec e p) > 0 \<and>
    (\<not> pr_error (parser_exec e p) \<longrightarrow>
       wire p @ event_input e = concat (map encode_frame (event_output e p)) @ wire (parser_exec e p))"
proof (cases e)
  case (Feed h d)
  obtain rc h' p' where r: "cmq_parser_feed h p d = (rc, h', p')" by (metis prod_cases3)
  from feed_kept [OF assms(1,2) r] r Feed assms(2) show ?thesis by (auto simp: kept_def)
next
  case (Drain h)
  obtain rc h' p' where r: "cmq_parser_drain_inbuf h p = (rc, h', p')" by (metis prod_cases3)
  from drain_kept [OF assms(1,2) r] r Drain assms(2) show ?thesis by (auto simp: kept_def)
next
  case Next
  obtain again p' where r: "cmq_parser_next p = (again, p')" by fastforce
  show ?thesis
  proof (cases "cmq_parser_frame p")
    case None
    then have "p' = p" using r by (auto simp: cmq_parser_frame_def cmq_parser_next_def split: list.splits)
    with None r Next assms(2) show ?thesis by simp
  next
    case (Some f)
    have "pr_cap p' = pr_cap p" using r by (auto simp: cmq_parser_next_def split: list.splits)
    with next_wire [OF assms(1) Some r] r Next Some assms(2) show ?thesis by simp
  qed
qed (use assms(3) in simp_all)

lemma io_conserves:
  "parser_inv p \<Longrightarrow> pr_cap p > 0 \<Longrightarrow> list_all streaming es \<Longrightarrow> parser_io es p = (i, out, q) \<Longrightarrow>
   (pr_error p \<longrightarrow> pr_error q) \<and> (\<not> pr_error q \<longrightarrow> wire p @ i = concat (map encode_frame out) @ wire q)"
proof (induction es arbitrary: p i out)
  case (Cons e es)
  obtain i' out' where r: "parser_io es (parser_exec e p) = (i', out', q)" and i: "i = event_input e @ i'"
    and out: "out = event_output e p @ out'"
    using Cons(5) by (auto split: prod.splits)
  have "streaming e" using Cons(4) by simp
  note s = exec_conserves [OF Cons(2,3) this]
  have "list_all streaming es" using Cons(4) by simp
  with Cons(1) [OF parser_exec_inv [OF Cons(2)] _ _ r] s
  have "pr_error (parser_exec e p) \<longrightarrow> pr_error q"
    "\<not> pr_error q \<longrightarrow> wire (parser_exec e p) @ i' = concat (map encode_frame out') @ wire q" by auto
  with s i out show ?case by (metis append.assoc concat_append map_append)
qed simp

section \<open>Properties\<close>

definition parser_new :: parser where
  "parser_new = the (fst (cmq_parser_create []))"

lemma parser_new_create: "cmq_parser_create [] = (Some parser_new, [])"
  by (simp add: parser_new_def cmq_parser_create_def)

lemmas parser_new_facts = parser_create_inv [OF parser_new_create]

text \<open>
  C15. No byte is lost, duplicated or reordered. Run any sequence of feeds, retries and pops on a parser, with
  any pieces, any memory failures and any queue-full pauses on the way. As long as no error is latched, the bytes
  it held at first followed by all bytes fed are exactly the encodings of the frames popped, in order,
  followed by what it still holds.
\<close>

theorem parser_conserves:
  assumes "parser_inv p" "pr_cap p > 0" "list_all streaming es" "parser_io es p = (i, out, q)"
    "\<not> cmq_parser_pending_error q"
  shows "wire p @ i = concat (map encode_frame out) @ wire q"
  using io_conserves [OF assms(1-4)] assms(5) by (simp add: cmq_parser_pending_error_def)

theorem parser_conserves_witness:
  "\<exists>out q. parser_io [Feed [] [0xCA, 0xFE], Next] parser_new = ([0xCA, 0xFE], out, q) \<and>
     [0xCA, 0xFE] = concat (map encode_frame out) @ wire q"
proof -
  have r: "parser_io [Feed [] [0xCA, 0xFE], Next] parser_new =
      ([0xCA, 0xFE], [], parser_new\<lparr>pr_inbuf := [0xCA, 0xFE]\<rparr>)"
    by (simp add: parser_new_def cmq_parser_create_def cmq_parser_feed_def feed_loop.simps parser_hard_def
        parser_consts feed_append_def feed_compact_def parser_parse_inbuf_def parser_parse_loop.simps
        parser_compact_def cmq_parser_frame_def cmq_parser_next_def)
  have "wire parser_new @ [0xCA, 0xFE] = concat (map encode_frame []) @ wire (parser_new\<lparr>pr_inbuf := [0xCA, 0xFE]\<rparr>)"
    by (rule parser_conserves [OF _ _ _ r])
      (use parser_new_facts in \<open>simp_all add: cmq_parser_pending_error_def\<close>)
  with r parser_new_facts show ?thesis by auto
qed

text \<open>
  C23. Memory is bounded whatever the peer sends. After any sequence of operations on a new parser, with any
  allocation failures, at most 64 frames with at most twice the largest frame payload are queued, and the input
  and hold buffers never grow beyond twice and once the size of one largest frame with its header.
\<close>

theorem parser_bounded:
  assumes "cmq_parser_create h = (Some p, h')"
  shows "let q = fold parser_exec es p in
    length (pr_queue q) \<le> CMQ_PARSER_FRAME_QUEUE_MAX \<and>
    sum_list (map (fr_payload_len \<circ> nd_frame) (pr_queue q)) \<le> 2 * CMQ_MAX_FRAME_PAYLOAD \<and>
    length (pr_inbuf q) \<le> pr_cap q \<and> pr_cap q \<le> 2 * (CMQ_HEADER_LEN + CMQ_MAX_FRAME_PAYLOAD) \<and>
    length (pr_hold q) \<le> pr_hold_cap q \<and> pr_hold_cap q \<le> CMQ_HEADER_LEN + CMQ_MAX_FRAME_PAYLOAD"
proof -
  have "parser_inv (fold parser_exec es p)" using parser_create_inv [OF assms] by (simp add: parser_fold_inv)
  then show ?thesis by (simp add: Let_def parser_inv_def queue_ok_def PARSER_HARD_def)
qed

theorem parser_bounded_witness:
  "length (pr_queue (fold parser_exec [Feed [] [1, 2, 3]] parser_new)) \<le> CMQ_PARSER_FRAME_QUEUE_MAX"
  using parser_bounded [OF parser_new_create, of "[Feed [] [1, 2, 3]]"] by (simp add: Let_def)

text \<open>
  C6. Decoding does not depend on how the bytes are cut. Frames encoded by \<^verbatim>\<open>cmq_frame_encode\<close>, at most 64 of them
  and within the payload budget, sent back to back and received in any pieces, come out of a new parser as
  exactly those frames, with no error and nothing left over.
\<close>

theorem parser_chunking:
  assumes "\<forall>f \<in> set fs. frame_ok f \<and> fr_payload_len f \<le> CMQ_MAX_PAYLOAD"
    "length fs \<le> CMQ_PARSER_FRAME_QUEUE_MAX" "sum_list (map fr_payload_len fs) \<le> 2 * CMQ_MAX_PAYLOAD"
    "concat chunks = concat (map (\<lambda>f. cmq_frame_encode (CMQ_HEADER_LEN + fr_payload_len f) (hdr_op (fr_hdr f))
       (hdr_flags (fr_hdr f)) (fr_payload f) (fr_payload_len f)) fs)"
    "p = fold (\<lambda>d q. snd (snd (cmq_parser_feed [] q d))) chunks parser_new"
  shows "map nd_frame (pr_queue p) = fs \<and> \<not> cmq_parser_pending_error p \<and> unread p = [] \<and> pr_hold p = []"
proof -
  have "map (\<lambda>f. cmq_frame_encode (CMQ_HEADER_LEN + fr_payload_len f) (hdr_op (fr_hdr f))
       (hdr_flags (fr_hdr f)) (fr_payload f) (fr_payload_len f)) fs = map encode_frame fs"
    using assms(1) by (intro map_cong refl cmq_frame_encode_ok) (simp_all add: encode_frame_length)
  with assms(4) have ch: "concat chunks = concat (map encode_frame fs)" by simp
  have q0: "pr_queued_bytes parser_new = 0" by (simp add: parser_new_def cmq_parser_create_def)
  have "awaiting parser_new (concat chunks) fs"
    using assms(1-3) parser_new_facts ch q0 by (simp add: awaiting_def frames_fit_def)
  moreover have "incomplete parser_new fs"
    using assms(1) parser_new_facts encode_frame_length by (auto simp: incomplete_def CMQ_HEADER_LEN_def)
  ultimately have "progressed parser_new p [] fs"
    unfolding assms(5) using parser_new_facts by (intro feed_chunks) simp_all
  then obtain ds left where "fs = ds @ left" "map nd_frame (pr_queue p) = ds" "awaiting p [] left" "incomplete p left"
    "pr_hold p = []"
    using parser_new_facts by (auto simp: progressed_def)
  moreover from this have "left = []" by (intro incomplete_end)
  ultimately show ?thesis by (simp add: awaiting_def cmq_parser_pending_error_def)
qed

definition ping_frame :: frame where
  "ping_frame =
     \<lparr>fr_hdr = \<lparr>hdr_magic0 = 0xCA, hdr_magic1 = 0xFE, hdr_version = 1, hdr_flags = 0, hdr_op = 0x0A, hdr_length = 0\<rparr>,
      fr_payload = None, fr_payload_len = 0\<rparr>"

theorem parser_chunking_witness:
  "map nd_frame (pr_queue (fold (\<lambda>d q. snd (snd (cmq_parser_feed [] q d)))
     [[0xCA], [0xFE, 1, 0, 0x0A, 0, 0], [0, 0]] parser_new)) = [ping_frame]"
proof -
  have "frame_ok ping_frame"
    by (simp add: ping_frame_def frame_ok_def CMQ_PROTO_MAGIC_0_def CMQ_PROTO_MAGIC_1_def CMQ_PROTO_VERSION_def
        bad_compressed_def)
  moreover have "cmq_frame_encode (CMQ_HEADER_LEN + 0) 0x0A 0 None 0 = [0xCA, 0xFE, 1, 0, 0x0A, 0, 0, 0, 0]"
    by (simp add: cmq_frame_encode_def CMQ_PROTO_MAGIC_0_def CMQ_PROTO_MAGIC_1_def CMQ_PROTO_VERSION_def put_le32_def)
  ultimately show ?thesis
    using parser_chunking [OF _ _ _ _ refl, of "[ping_frame]" "[[0xCA], [0xFE, 1, 0, 0x0A, 0, 0], [0, 0]]"]
    by (simp add: ping_frame_def parser_consts)
qed

text \<open>
  C24. Errors are final and visible. Once an error is latched, feeding and retrying change nothing and report the
  frames still queued as long as there are any and failure after that. A parser between frames that receives three
  bytes which are not the start of a frame latches the error and keeps the frames it had.
\<close>

theorem parser_error_latch:
  assumes "parser_inv p" "pr_cap p > 0" "data \<noteq> []"
  shows "(pr_error p \<longrightarrow>
      cmq_parser_feed h p data = (if pr_queue p \<noteq> [] then 1 else - 1, h, p) \<and>
      cmq_parser_drain_inbuf h p = (if pr_queue p \<noteq> [] then 1 else - 1, h, p)) \<and>
    (\<not> pr_error p \<and> unread p = [] \<and> pr_hold p = [] \<and> 3 \<le> length data \<and> bad_prefix data \<longrightarrow>
      (\<exists>p'. cmq_parser_feed [] p data = (if pr_queue p \<noteq> [] then 1 else - 1, [], p') \<and>
         cmq_parser_pending_error p' \<and> pr_queue p' = pr_queue p))"
proof (intro conjI impI)
  assume "pr_error p"
  with assms(2,3) show "cmq_parser_feed h p data = (if pr_queue p \<noteq> [] then 1 else - 1, h, p)"
    "cmq_parser_drain_inbuf h p = (if pr_queue p \<noteq> [] then 1 else - 1, h, p)"
    by (simp_all add: cmq_parser_feed_def cmq_parser_drain_inbuf_def)
next
  assume as: "\<not> pr_error p \<and> unread p = [] \<and> pr_hold p = [] \<and> 3 \<le> length data \<and> bad_prefix data"
  then have b: "\<not> pr_error p" "unread p = []" "pr_hold p = []" "3 \<le> length data" "bad_prefix data" by simp_all
  have hard: "parser_hard p \<le> PARSER_HARD" "0 < parser_hard p" "3 \<le> parser_hard p"
    using assms(1) by (simp_all add: parser_hard_def PARSER_HARD_def parser_inv_def CMQ_HEADER_LEN_def)
  let ?c = "take (parser_hard p) data"
  have c3: "3 \<le> length ?c" "length (unread p) + length ?c \<le> PARSER_HARD" using b hard by auto
  have bad: "bad_prefix ?c" using b(5) bad_prefix_append [OF c3(1), of "drop (parser_hard p) data"] by simp
  from feed_append_nil [OF assms(1) c3(2)] obtain p3 where f: "feed_append [] p ?c = (True, [], p3)" "pr_queue p3 = pr_queue p"
    by blast
  have u: "unread p3 = ?c" using feed_append_cases(4) [OF assms(1) f(1) b(3) c3(2)] b(2) by simp
  have parse: "parser_parse_inbuf [] p3 = (parser_have_frames p3 False, [], p3\<lparr>pr_error := True\<rparr>)"
    unfolding parser_parse_inbuf_def u using c3(1) bad by simp
  have z: "length (unread p) = 0" using b(2) by simp
  obtain ok2 h2 p2 where ha: "parser_hold_append [] p data (parser_hard p) = (ok2, h2, p2)" by (metis prod_cases3)
  have r1: "(if length (unread p) = parser_hard p then parser_parse_inbuf [] p else (0, [], p)) = (0, [], p)"
    unfolding z using hard(2) by simp
  have f1: "feed_append [] p (take (parser_hard p - length (unread p)) data) = (True, [], p3)" unfolding z using f(1) by simp
  have "feed_loop [] p False data =
      (if pr_queue p = [] then feed_stop [] (p3\<lparr>pr_error := True\<rparr>) False (drop (parser_hard p) data)
       else feed_loop [] (p3\<lparr>pr_error := True\<rparr>) True (drop (parser_hard p) data))"
    using feed_loop_round [OF assms(3) b(1) _ r1 ha f1 parse, of False] hard(2) unfolding z
    by (simp add: parser_have_frames_def f(2))
  moreover have "cmq_parser_feed [] p data = feed_loop [] p False data"
    using assms b by (simp add: cmq_parser_feed_def)
  moreover have "feed_loop [] (p3\<lparr>pr_error := True\<rparr>) True r = (1, [], p3\<lparr>pr_error := True\<rparr>)" for r
    by (subst feed_loop.simps) (simp add: feed_rc_def)
  ultimately show "\<exists>p'. cmq_parser_feed [] p data = (if pr_queue p \<noteq> [] then 1 else - 1, [], p') \<and>
      cmq_parser_pending_error p' \<and> pr_queue p' = pr_queue p"
    using f(2) by (auto simp: feed_stop_def feed_rc_def cmq_parser_pending_error_def)
qed

theorem parser_error_latch_witness:
  "\<exists>p'. cmq_parser_feed [] parser_new [1, 2, 3] = (- 1, [], p') \<and> cmq_parser_pending_error p'"
proof -
  have "bad_prefix [1, 2, 3]" by (simp add: bad_prefix_def CMQ_PROTO_MAGIC_0_def)
  with parser_error_latch [of parser_new "[1, 2, 3]" "[]"] parser_new_facts show ?thesis by auto
qed

end
