(* ===== verification/CMQ_Sublist.thy ===== *)
theory CMQ_Sublist
  imports CMQ_Prelude
begin

text \<open>
  The subscription trie (\<^verbatim>\<open>src/server/cmq_sublist.c\<close>): subjects are dot-separated tokens, \<^verbatim>\<open>*\<close> stands for
  one token and a final \<^verbatim>\<open>>\<close> for any number of them. A node's sibling chain is the list of its parent's
  children. The loops that walk down the trie, remember the nodes they pass in arrays and undo from the
  deepest one up are recursions on the remaining tokens that undo on the way back. Subscriber pointers are
  numbers, 0 for \<^verbatim>\<open>NULL\<close>.
\<close>

section \<open>Subjects\<close>

fun has_dot_dot :: "string \<Rightarrow> bool" where
  "has_dot_dot (a # b # r) = ((a = CHR ''.'' \<and> b = CHR ''.'') \<or> has_dot_dot (b # r))"
| "has_dot_dot _ = False"

fun gt_placed :: "string \<Rightarrow> bool" where
  "gt_placed [] = True"
| "gt_placed (c # r) =
     (\<not> (c = CHR ''>'' \<and> (r \<noteq> [] \<and> hd r \<noteq> CHR ''.'' \<or> r \<noteq> [] \<and> hd r = CHR ''.'')) \<and> gt_placed r)"

definition validate_subject :: "string \<Rightarrow> bool" where
  "validate_subject s \<longleftrightarrow>
     s \<noteq> [] \<and> last s \<noteq> CHR ''.'' \<and> hd s \<noteq> CHR ''.'' \<and> \<not> has_dot_dot s \<and> gt_placed s"

function tokenize_from :: "nat \<Rightarrow> string \<Rightarrow> string list option" where
  "tokenize_from n s =
     (if s = [] then Some []
      else if n \<ge> 64 then None
      else
        (let t = takeWhile (\<lambda>c. c \<noteq> CHR ''.'') s; r = dropWhile (\<lambda>c. c \<noteq> CHR ''.'') s
         in if t = [] then None
            else if length t > 255 then None
            else map_option ((#) t) (tokenize_from (n + 1) (tl r))))"
  by pat_completeness auto
termination
proof (relation "measure (\<lambda>(n, s). length s)")
  fix n :: nat and s t r :: string
  assume "s \<noteq> []" and r: "r = dropWhile (\<lambda>c. c \<noteq> CHR ''.'') s"
  have "length r \<le> length s" unfolding r by (rule length_dropWhile_le)
  with \<open>s \<noteq> []\<close> have "length (tl r) < length s" by (cases s) auto
  then show "((n + 1, tl r), n, s) \<in> measure (\<lambda>(n, s). length s)" by simp
qed simp

declare tokenize_from.simps [simp del]

lemma tokenize_from_nil [simp]: "tokenize_from n [] = Some []"
  by (simp add: tokenize_from.simps)

definition tokenize :: "string \<Rightarrow> string list option" where
  "tokenize s = tokenize_from 0 s"

definition cmq_sublist_subject_valid :: "string \<Rightarrow> bool" where
  "cmq_sublist_subject_valid s \<longleftrightarrow> validate_subject s \<and> tokenize s \<noteq> None"

definition cmq_sublist_publish_subject_valid :: "string \<Rightarrow> bool" where
  "cmq_sublist_publish_subject_valid s \<longleftrightarrow>
     cmq_sublist_subject_valid s \<and> list_all (\<lambda>c. c \<noteq> CHR ''*'' \<and> c \<noteq> CHR ''>'') s"

section \<open>Nodes\<close>

type_synonym sub = nat

datatype sl_node =
  SlNode (sl_token: "string option") (sl_is_pwc: bool) (sl_is_fwc: bool)
    (sl_subs: "sub list") (sl_sub_cap: nat) (sl_children: "sl_node list")

definition cmq_sl_node_create :: "heap \<Rightarrow> string option \<Rightarrow> bool \<Rightarrow> bool \<Rightarrow> sl_node option \<times> heap" where
  "cmq_sl_node_create h token pwc fwc =
     (case malloc_ok h of
        (False, h) \<Rightarrow> (None, h)
      | (True, h) \<Rightarrow>
          (case (if token = None then (True, h) else malloc_ok h) of
             (False, h) \<Rightarrow> (None, h)
           | (True, h) \<Rightarrow> (Some (SlNode token pwc fwc [] 0 []), h)))"

text \<open>The first child with the wanted wildcard or token.\<close>

fun find_child :: "sl_node list \<Rightarrow> string \<Rightarrow> bool \<Rightarrow> bool \<Rightarrow> nat option" where
  "find_child [] t pwc fwc = None"
| "find_child (c # cs) t pwc fwc =
     (if pwc \<and> sl_is_pwc c then Some 0
      else if fwc \<and> sl_is_fwc c then Some 0
      else if \<not> pwc \<and> \<not> fwc \<and> \<not> sl_is_pwc c \<and> \<not> sl_is_fwc c \<and> sl_token c = Some t then Some 0
      else map_option Suc (find_child cs t pwc fwc))"

definition add_child :: "heap \<Rightarrow> string option \<Rightarrow> bool \<Rightarrow> bool \<Rightarrow> sl_node list \<Rightarrow> sl_node list option \<times> heap" where
  "add_child h token pwc fwc cs =
     (case cmq_sl_node_create h token pwc fwc of
        (None, h) \<Rightarrow> (None, h)
      | (Some c, h) \<Rightarrow> (Some (c # cs), h))"

definition unlink_child :: "nat \<Rightarrow> sl_node list \<Rightarrow> sl_node list" where
  "unlink_child i cs = take i cs @ drop (Suc i) cs"

definition sl_empty :: "sl_node \<Rightarrow> bool" where
  "sl_empty c \<longleftrightarrow> sl_subs c = [] \<and> sl_children c = []"

definition node_add_sub :: "heap \<Rightarrow> sl_node \<Rightarrow> sub \<Rightarrow> bool \<times> heap \<times> sl_node" where
  "node_add_sub h node d =
     (case node of SlNode tok pwc fwc subs cap ch \<Rightarrow>
        if length subs \<ge> cap then
          (if cap \<noteq> 0 \<and> cap > SIZE_MAX div 2 div 8 then (False, h, node)
           else
             (let new_cap = (if cap = 0 then 4 else cap * 2)
              in if new_cap > SIZE_MAX div 8 then (False, h, node)
                 else case malloc_ok h of
                   (False, h) \<Rightarrow> (False, h, node)
                 | (True, h) \<Rightarrow> (True, h, SlNode tok pwc fwc (subs @ [d]) new_cap ch)))
        else (True, h, SlNode tok pwc fwc (subs @ [d]) cap ch))"

text \<open>Removal moves the last entry into the hole.\<close>

fun index_of :: "sub \<Rightarrow> sub list \<Rightarrow> nat option" where
  "index_of d [] = None"
| "index_of d (x # xs) = (if x = d then Some 0 else map_option Suc (index_of d xs))"

definition node_remove_sub :: "sl_node \<Rightarrow> sub \<Rightarrow> bool \<times> sl_node" where
  "node_remove_sub node d =
     (case node of SlNode tok pwc fwc subs cap ch \<Rightarrow>
        case index_of d subs of
          None \<Rightarrow> (False, node)
        | Some i \<Rightarrow> (True, SlNode tok pwc fwc (butlast (subs[i := last subs])) cap ch))"

section \<open>The list of subscriptions\<close>

record sublist =
  sb_root :: sl_node
  sb_count :: nat
  sb_in_flight :: int
  sb_dying :: bool

definition sublist_begin_op :: "sublist \<Rightarrow> bool \<times> sublist" where
  "sublist_begin_op sl =
     (if sb_dying sl then (False, sl) else (True, sl\<lparr>sb_in_flight := sb_in_flight sl + 1\<rparr>))"

definition sublist_end_op :: "sublist \<Rightarrow> sublist" where
  "sublist_end_op sl = sl\<lparr>sb_in_flight := sb_in_flight sl - 1\<rparr>"

definition cmq_sublist_create :: "heap \<Rightarrow> sublist option" where
  "cmq_sublist_create h =
     (if fst (malloc_ok h)
      then Some \<lparr>sb_root = SlNode None False False [] 0 [], sb_count = 0, sb_in_flight = 0, sb_dying = False\<rparr>
      else None)"

text \<open>
  Insertion below a node. A failure on the way back drops the nodes this call created, as
  \<^verbatim>\<open>rollback_created\<close> does from the deepest one up, stopping at the first that is not empty.
\<close>

fun sl_insert :: "heap \<Rightarrow> string list \<Rightarrow> sub \<Rightarrow> sl_node \<Rightarrow> bool \<times> heap \<times> sl_node" where
  "sl_insert h [] d node = node_add_sub h node d"
| "sl_insert h (t # ts) d (SlNode tok pwc fwc subs cap ch) =
     (let is_pwc = (t = ''*''); is_fwc = (t = ''>'')
      in case find_child ch t is_pwc is_fwc of
           Some i \<Rightarrow>
             (case sl_insert h ts d (ch ! i) of
                (ok, h, c) \<Rightarrow> (ok, h, SlNode tok pwc fwc subs cap (ch[i := c])))
         | None \<Rightarrow>
             (case add_child h (if is_pwc \<or> is_fwc then None else Some t) is_pwc is_fwc ch of
                (None, h) \<Rightarrow> (False, h, SlNode tok pwc fwc subs cap ch)
              | (Some ch', h) \<Rightarrow>
                  (case sl_insert h ts d (ch' ! 0) of
                     (True, h, c) \<Rightarrow> (True, h, SlNode tok pwc fwc subs cap (ch'[0 := c]))
                   | (False, h, c) \<Rightarrow>
                       (False, h, SlNode tok pwc fwc subs cap
                          (if sl_empty c then unlink_child 0 (ch'[0 := c]) else ch'[0 := c])))))"

definition cmq_sublist_insert :: "heap \<Rightarrow> sublist \<Rightarrow> string \<Rightarrow> sub \<Rightarrow> bool \<times> sublist" where
  "cmq_sublist_insert h sl subject d =
     (if \<not> validate_subject subject then (False, sl)
      else case tokenize subject of
        None \<Rightarrow> (False, sl)
      | Some ts \<Rightarrow>
          (case sublist_begin_op sl of
             (False, sl) \<Rightarrow> (False, sl)
           | (True, sl) \<Rightarrow>
               (case sl_insert h ts d (sb_root sl) of
                  (True, _, r) \<Rightarrow> (True, sublist_end_op (sl\<lparr>sb_root := r, sb_count := sb_count sl + 1\<rparr>))
                | (False, _, r) \<Rightarrow> (False, sublist_end_op (sl\<lparr>sb_root := r\<rparr>)))))"

text \<open>Removal below a node; on success empty nodes are pruned on the way back, the root stays.\<close>

fun sl_remove :: "string list \<Rightarrow> sub \<Rightarrow> sl_node \<Rightarrow> bool \<times> sl_node" where
  "sl_remove [] d node = node_remove_sub node d"
| "sl_remove (t # ts) d (SlNode tok pwc fwc subs cap ch) =
     (case find_child ch t (t = ''*'') (t = ''>'') of
        None \<Rightarrow> (False, SlNode tok pwc fwc subs cap ch)
      | Some i \<Rightarrow>
          (case sl_remove ts d (ch ! i) of
             (False, c) \<Rightarrow> (False, SlNode tok pwc fwc subs cap (ch[i := c]))
           | (True, c) \<Rightarrow>
               (True, SlNode tok pwc fwc subs cap
                  (if sl_empty c then unlink_child i (ch[i := c]) else ch[i := c]))))"

definition cmq_sublist_remove :: "sublist \<Rightarrow> string \<Rightarrow> sub \<Rightarrow> bool \<times> sublist" where
  "cmq_sublist_remove sl subject d =
     (if d = 0 \<or> \<not> validate_subject subject then (False, sl)
      else case tokenize subject of
        None \<Rightarrow> (False, sl)
      | Some ts \<Rightarrow>
          (case sublist_begin_op sl of
             (False, sl) \<Rightarrow> (False, sl)
           | (True, sl) \<Rightarrow>
               (case sl_remove ts d (sb_root sl) of
                  (ok, r) \<Rightarrow>
                    (ok, sublist_end_op (sl\<lparr>sb_root := r,
                       sb_count := (if ok \<and> sb_count sl > 0 then sb_count sl - 1 else sb_count sl)\<rparr>)))))"

section \<open>Matching\<close>

record sublist_result =
  rs_entries :: "sub list"
  rs_cap :: nat

definition result_append :: "heap \<Rightarrow> sublist_result \<Rightarrow> sub \<Rightarrow> bool \<times> heap \<times> sublist_result" where
  "result_append h r d =
     (if length (rs_entries r) \<ge> rs_cap r then
        (if rs_cap r \<noteq> 0 \<and> rs_cap r > SIZE_MAX div 2 div 8 then (False, h, r)
         else
           (let new_cap = (if rs_cap r = 0 then 8 else rs_cap r * 2)
            in if new_cap > SIZE_MAX div 8 then (False, h, r)
               else case malloc_ok h of
                 (False, h) \<Rightarrow> (False, h, r)
               | (True, h) \<Rightarrow> (True, h, \<lparr>rs_entries = rs_entries r @ [d], rs_cap = new_cap\<rparr>)))
      else (True, h, r\<lparr>rs_entries := rs_entries r @ [d]\<rparr>))"

fun append_all :: "heap \<Rightarrow> sublist_result \<Rightarrow> sub list \<Rightarrow> bool \<times> heap \<times> sublist_result" where
  "append_all h r [] = (True, h, r)"
| "append_all h r (d # ds) =
     (case result_append h r d of
        (False, h, r) \<Rightarrow> (False, h, r)
      | (True, h, r) \<Rightarrow> append_all h r ds)"

fun append_fwc :: "heap \<Rightarrow> sublist_result \<Rightarrow> sl_node list \<Rightarrow> bool \<times> heap \<times> sublist_result" where
  "append_fwc h r [] = (True, h, r)"
| "append_fwc h r (c # cs) =
     (if \<not> sl_is_fwc c then append_fwc h r cs
      else case append_all h r (sl_subs c) of
        (False, h, r) \<Rightarrow> (False, h, r)
      | (True, h, r) \<Rightarrow> append_fwc h r cs)"

text \<open>\<open>match_recursive\<close> takes the tokens from \<^verbatim>\<open>depth\<close> on; its loop over the children is a function of its own.\<close>

function match_recursive :: "heap \<Rightarrow> sublist_result \<Rightarrow> string list \<Rightarrow> sl_node \<Rightarrow> bool \<times> heap \<times> sublist_result"
  and match_children :: "heap \<Rightarrow> sublist_result \<Rightarrow> string \<Rightarrow> string list \<Rightarrow> sl_node list \<Rightarrow> bool \<times> heap \<times> sublist_result"
  where
  "match_recursive h r [] node =
     (case append_all h r (sl_subs node) of
        (False, h, r) \<Rightarrow> (False, h, r)
      | (True, h, r) \<Rightarrow> append_fwc h r (sl_children node))"
| "match_recursive h r (t # ts) node = match_children h r t ts (sl_children node)"
| "match_children h r t ts [] = (True, h, r)"
| "match_children h r t ts (c # cs) =
     (case (if sl_is_fwc c then append_all h r (sl_subs c)
            else if sl_is_pwc c then match_recursive h r ts c
            else if sl_token c = Some t then match_recursive h r ts c
            else (True, h, r)) of
        (False, h, r) \<Rightarrow> (False, h, r)
      | (True, h, r) \<Rightarrow> match_children h r t ts cs)"
  by pat_completeness auto
termination
  by (relation "measures [\<lambda>x. case x of Inl (h, r, ts, node) \<Rightarrow> 2 * length ts
                            | Inr (h, r, t, ts, cs) \<Rightarrow> 2 * length ts + 1,
                          \<lambda>x. case x of Inl (h, r, ts, node) \<Rightarrow> 0 | Inr (h, r, t, ts, cs) \<Rightarrow> length cs]") auto

definition cmq_sublist_match :: "heap \<Rightarrow> sublist \<Rightarrow> string \<Rightarrow> sub list option" where
  "cmq_sublist_match h sl subject =
     (case tokenize subject of
        None \<Rightarrow> None
      | Some ts \<Rightarrow>
          (case sublist_begin_op sl of
             (False, _) \<Rightarrow> None
           | (True, sl) \<Rightarrow>
               (case match_recursive h \<lparr>rs_entries = [], rs_cap = 0\<rparr> ts (sb_root sl) of
                  (False, _, _) \<Rightarrow> None
                | (True, _, r) \<Rightarrow> Some (rs_entries r))))"

definition cmq_sublist_count :: "sublist \<Rightarrow> nat" where
  "cmq_sublist_count sl = (case sublist_begin_op sl of (False, _) \<Rightarrow> 0 | (True, sl) \<Rightarrow> sb_count sl)"

section \<open>Freeing\<close>

text \<open>The pointers \<^verbatim>\<open>node_free_data\<close> passes to \<^verbatim>\<open>free\<close>, in its order.\<close>

fun node_free_data :: "sl_node \<Rightarrow> sub list" where
  "node_free_data (SlNode tok pwc fwc subs cap ch) = subs @ concat (map node_free_data ch)"

definition cmq_sublist_free_data :: "sublist \<Rightarrow> sub list \<times> sublist" where
  "cmq_sublist_free_data sl =
     (case sublist_begin_op sl of
        (False, sl) \<Rightarrow> ([], sl)
      | (True, sl) \<Rightarrow> (node_free_data (sb_root sl), sublist_end_op sl))"

text \<open>
  The fields when the block itself is freed; \<^verbatim>\<open>drained\<close> says whether the last operation left within the
  wait of 50 ms, which changes nothing here: the nodes are freed either way.
\<close>

definition cmq_sublist_destroy :: "bool \<Rightarrow> sublist \<Rightarrow> sublist" where
  "cmq_sublist_destroy drained sl =
     (let sl = sl\<lparr>sb_dying := True\<rparr>;
          sl = (if drained then sl\<lparr>sb_in_flight := 0\<rparr> else sl)
      in case sb_root sl of SlNode tok pwc fwc subs cap ch \<Rightarrow>
           sl\<lparr>sb_root := SlNode tok pwc fwc subs cap [], sb_count := 0\<rparr>)"

section \<open>What the trie stands for\<close>

datatype label = Lit string | Pwc | Fwc

definition label_of :: "sl_node \<Rightarrow> label" where
  "label_of c = (if sl_is_fwc c then Fwc else if sl_is_pwc c then Pwc else Lit (the (sl_token c)))"

definition token_label :: "string \<Rightarrow> label" where
  "token_label t = (if t = ''*'' then Pwc else if t = ''>'' then Fwc else Lit t)"

text \<open>Which patterns cover a subject: the meaning of the two wildcards.\<close>

fun covers :: "label list \<Rightarrow> string list \<Rightarrow> bool" where
  "covers [] ts = (ts = [])"
| "covers (Fwc # ls) ts = (ls = [])"
| "covers (l # ls) [] = False"
| "covers (Pwc # ls) (t # ts) = covers ls ts"
| "covers (Lit s # ls) (t # ts) = (s = t \<and> covers ls ts)"

type_synonym registry = "(label list \<times> sub) multiset"

definition prefixed :: "label \<Rightarrow> registry \<Rightarrow> registry" where
  "prefixed l M = image_mset (\<lambda>(ls, d). (l # ls, d)) M"

fun entries :: "sl_node \<Rightarrow> registry" where
  "entries (SlNode tok pwc fwc subs cap ch) =
     image_mset (Pair []) (mset subs) + sum_list (map (\<lambda>c. prefixed (label_of c) (entries c)) ch)"

definition matching :: "registry \<Rightarrow> string list \<Rightarrow> sub multiset" where
  "matching M ts = image_mset snd (filter_mset (\<lambda>e. covers (fst e) ts) M)"

text \<open>
  The shape of the trie: a child has one of the two wildcards or a token other than their names, siblings have
  different labels, no child is empty and every array has room for its entries.
\<close>

fun sl_shape :: "sl_node \<Rightarrow> bool" where
  "sl_shape (SlNode tok pwc fwc subs cap ch) =
     (case tok of None \<Rightarrow> pwc \<noteq> fwc | Some t \<Rightarrow> \<not> pwc \<and> \<not> fwc \<and> t \<noteq> ''*'' \<and> t \<noteq> ''>'')"

fun sl_wf :: "sl_node \<Rightarrow> bool" where
  "sl_wf (SlNode tok pwc fwc subs cap ch) =
     (length subs \<le> cap \<and> distinct (map label_of ch) \<and>
      (\<forall>c \<in> set ch. sl_shape c \<and> \<not> sl_empty c \<and> sl_wf c))"

definition sb_inv :: "sublist \<Rightarrow> bool" where
  "sb_inv sl \<longleftrightarrow> sl_wf (sb_root sl) \<and> sb_count sl = size (entries (sb_root sl)) \<and> \<not> sb_dying sl"

subsection \<open>Lists of siblings\<close>

lemma unlink_update [simp]: "i < length ch \<Longrightarrow> unlink_child i (ch[i := c]) = unlink_child i ch"
  by (simp add: unlink_child_def)

lemma unlink_head [simp]: "unlink_child 0 (c # cs) = cs"
  by (simp add: unlink_child_def)

lemma set_unlink: "set (unlink_child i ch) \<subseteq> set ch"
  by (auto simp: unlink_child_def dest: in_set_takeD in_set_dropD)

lemma sum_unlink:
  fixes f :: "sl_node \<Rightarrow> registry"
  assumes "i < length ch"
  shows "sum_list (map f ch) = f (ch ! i) + sum_list (map f (unlink_child i ch))"
    and "sum_list (map f (ch[i := c])) = f c + sum_list (map f (unlink_child i ch))"
proof -
  have "ch = take i ch @ ch ! i # drop (Suc i) ch" by (rule id_take_nth_drop [OF assms])
  then have "sum_list (map f ch) = sum_list (map f (take i ch @ ch ! i # drop (Suc i) ch))" by simp
  then show "sum_list (map f ch) = f (ch ! i) + sum_list (map f (unlink_child i ch))"
    by (simp only: unlink_child_def map_append list.map sum_list_append sum_list.Cons ac_simps)
  show "sum_list (map f (ch[i := c])) = f c + sum_list (map f (unlink_child i ch))"
    using assms by (simp add: upd_conv_take_nth_drop unlink_child_def ac_simps)
qed

lemma distinct_unlink: "distinct (map f ch) \<Longrightarrow> distinct (map f (unlink_child i ch))"
proof (induction ch arbitrary: i)
  case (Cons c ch)
  show ?case
  proof (cases i)
    case 0
    then show ?thesis using Cons.prems by simp
  next
    case (Suc j)
    have "unlink_child i (c # ch) = c # unlink_child j ch" by (simp add: Suc unlink_child_def)
    then show ?thesis using Cons set_unlink [of j ch] by auto
  qed
qed (simp add: unlink_child_def)

lemma map_update_same: "i < length xs \<Longrightarrow> f x = f (xs ! i) \<Longrightarrow> map f (xs[i := x]) = map f xs"
  by (metis list_update_id map_update)

subsection \<open>Registered entries\<close>

lemma prefixed_empty [simp]: "prefixed l {#} = {#}"
  by (simp add: prefixed_def)

lemma prefixed_add [simp]: "prefixed l (M + N) = prefixed l M + prefixed l N"
  by (simp add: prefixed_def)

lemma prefixed_single [simp]: "prefixed l {#(ls, d)#} = {#(l # ls, d)#}"
  by (simp add: prefixed_def)

lemma matching_empty [simp]: "matching {#} ts = {#}"
  by (simp add: matching_def)

lemma matching_add [simp]: "matching (M + N) ts = matching M ts + matching N ts"
  by (simp add: matching_def)

lemma matching_single: "matching {#(ls, d)#} ts = (if covers ls ts then {#d#} else {#})"
  by (simp add: matching_def)

lemma matching_sum: "matching (sum_list Ms) ts = sum_list (map (\<lambda>M. matching M ts) Ms)"
  by (induction Ms) auto

lemma matching_here: "matching (image_mset (Pair []) M) ts = (if ts = [] then M else {#})"
  by (simp add: matching_def filter_mset_image_mset image_mset.compositionality comp_def)

lemma matching_prefixed:
  "matching (prefixed l M) ts =
     (case l of
        Fwc \<Rightarrow> image_mset snd (filter_mset (\<lambda>e. fst e = []) M)
      | Pwc \<Rightarrow> (case ts of [] \<Rightarrow> {#} | t # ts \<Rightarrow> matching M ts)
      | Lit s \<Rightarrow> (case ts of [] \<Rightarrow> {#} | t # ts \<Rightarrow> if s = t then matching M ts else {#}))"
proof -
  have "matching (prefixed l M) ts = image_mset snd (filter_mset (\<lambda>e. covers (l # fst e) ts) M)"
    by (simp add: matching_def prefixed_def filter_mset_image_mset image_mset.compositionality comp_def case_prod_unfold)
  then show ?thesis
    by (cases l; cases ts) (simp_all add: matching_def)
qed

lemma entries_here: "image_mset snd (filter_mset (\<lambda>e. fst e = []) (entries n)) = mset (sl_subs n)"
proof (cases n)
  case (SlNode tok pwc fwc subs cap ch)
  have "filter_mset (\<lambda>e. fst e = []) (prefixed l M) = {#}" for l M
    by (auto simp: prefixed_def filter_mset_image_mset case_prod_unfold)
  then have "filter_mset (\<lambda>e. fst e = []) (sum_list (map (\<lambda>c. prefixed (label_of c) (entries c)) cs)) = {#}" for cs
    by (induction cs) auto
  then show ?thesis
    by (simp add: SlNode filter_mset_image_mset image_mset.compositionality comp_def)
qed

lemma shape_label:
  "sl_shape c \<Longrightarrow> label_of c = Fwc \<longleftrightarrow> sl_is_fwc c"
  "sl_shape c \<Longrightarrow> label_of c = Pwc \<longleftrightarrow> sl_is_pwc c"
  "sl_shape c \<Longrightarrow> label_of c = Lit s \<longleftrightarrow> sl_token c = Some s"
  by (cases c; auto simp: label_of_def split: option.splits)+

subsection \<open>Matching finds the covered entries\<close>

lemma result_append_ok:
  "result_append h r d = (True, h', r') \<Longrightarrow> rs_entries r' = rs_entries r @ [d]"
  by (auto simp: result_append_def Let_def split: if_splits bool.splits prod.splits)

lemma append_all_ok:
  "append_all h r ds = (True, h', r') \<Longrightarrow> rs_entries r' = rs_entries r @ ds"
  by (induction h r ds rule: append_all.induct)
    (auto split: prod.splits bool.splits dest!: result_append_ok)

lemma append_fwc_ok:
  "append_fwc h r cs = (True, h', r') \<Longrightarrow>
     rs_entries r' = rs_entries r @ concat (map sl_subs (filter sl_is_fwc cs))"
  by (induction h r cs rule: append_fwc.induct)
    (auto split: prod.splits bool.splits if_splits dest!: append_all_ok)

abbreviation below :: "sl_node list \<Rightarrow> registry" where
  "below ch \<equiv> sum_list (map (\<lambda>c. prefixed (label_of c) (entries c)) ch)"

lemma matching_below_nil:
  "\<forall>c \<in> set ch. sl_shape c \<Longrightarrow> matching (below ch) [] = mset (concat (map sl_subs (filter sl_is_fwc ch)))"
proof (induction ch)
  case (Cons c ch)
  then have "matching (prefixed (label_of c) (entries c)) [] = (if sl_is_fwc c then mset (sl_subs c) else {#})"
    using shape_label [of c] by (cases "label_of c") (auto simp: matching_prefixed entries_here)
  with Cons show ?case by simp
qed simp

lemma matching_child:
  assumes "sl_shape c"
  shows "matching (prefixed (label_of c) (entries c)) (t # ts) =
    (if sl_is_fwc c then mset (sl_subs c)
     else if sl_is_pwc c \<or> sl_token c = Some t then matching (entries c) ts else {#})"
  using assms shape_label [OF assms] by (cases "label_of c") (auto simp: matching_prefixed entries_here)

lemma match_ok:
  "match_recursive h r ts n = (True, h', r') \<Longrightarrow> sl_wf n \<Longrightarrow>
     mset (rs_entries r') = mset (rs_entries r) + matching (entries n) ts"
  "match_children h r t ts ch = (True, h', r') \<Longrightarrow> \<forall>c \<in> set ch. sl_shape c \<and> sl_wf c \<Longrightarrow>
     mset (rs_entries r') = mset (rs_entries r) + matching (below ch) (t # ts)"
proof (induction h r ts n and h r t ts ch arbitrary: h' r' and h' r' rule: match_recursive_match_children.induct)
  case (1 h r node)
  then show ?case
    by (cases node)
      (auto simp: matching_here matching_below_nil split: prod.splits bool.splits
        dest!: append_all_ok append_fwc_ok)
next
  case (2 h r t ts node)
  then show ?case by (cases node) (auto simp: matching_here)
next
  case (3 h r t ts)
  then show ?case by simp
next
  case (4 h r t ts c cs)
  from 4(4) obtain h1 r1 where
    one: "(if sl_is_fwc c then append_all h r (sl_subs c)
           else if sl_is_pwc c then match_recursive h r ts c
           else if sl_token c = Some t then match_recursive h r ts c
           else (True, h, r)) = (True, h1, r1)" and
    two: "match_children h1 r1 t ts cs = (True, h', r')"
    by (simp split: prod.splits bool.splits)
  have "mset (rs_entries r1) = mset (rs_entries r) + matching (prefixed (label_of c) (entries c)) (t # ts)"
    using one 4(5) 4(1) [of h1 r1] 4(2) [of h1 r1]
    by (auto simp: matching_child dest!: append_all_ok split: if_splits)
  moreover have "mset (rs_entries r') = mset (rs_entries r1) + matching (below cs) (t # ts)"
    using 4(3) [OF one [symmetric] _ _ two] 4(5) by simp
  ultimately show ?case by simp
qed

subsection \<open>Children by label\<close>

lemma find_child_Some:
  "find_child ch t (t = ''*'') (t = ''>'') = Some i \<Longrightarrow> \<forall>c \<in> set ch. sl_shape c \<Longrightarrow>
     i < length ch \<and> label_of (ch ! i) = token_label t"
proof (induction ch arbitrary: i)
  case (Cons c ch)
  then show ?case
    by (cases c) (auto simp: token_label_def label_of_def split: if_splits option.splits)
qed simp

lemma find_child_None:
  "find_child ch t (t = ''*'') (t = ''>'') = None \<Longrightarrow> \<forall>c \<in> set ch. sl_shape c \<Longrightarrow>
     \<forall>c \<in> set ch. label_of c \<noteq> token_label t"
proof (induction ch)
  case (Cons c ch)
  then show ?case
    by (cases c) (auto simp: token_label_def label_of_def split: if_splits option.splits)
qed simp

text \<open>A child keeps its label through every operation below it.\<close>

definition same_label :: "sl_node \<Rightarrow> sl_node \<Rightarrow> bool" where
  "same_label c c' \<longleftrightarrow> sl_token c' = sl_token c \<and> sl_is_pwc c' = sl_is_pwc c \<and> sl_is_fwc c' = sl_is_fwc c"

lemma same_label_of: "same_label c c' \<Longrightarrow> label_of c' = label_of c \<and> sl_shape c' = sl_shape c"
  by (cases c; cases c') (auto simp: same_label_def label_of_def)

subsection \<open>Insertion\<close>

lemma add_child_cases:
  obtains h' where "add_child h tok pwc fwc cs = (None, h')"
  | h' where "add_child h tok pwc fwc cs = (Some (SlNode tok pwc fwc [] 0 [] # cs), h')"
proof -
  obtain b h1 where 1: "malloc_ok h = (b, h1)" by (cases "malloc_ok h")
  obtain b' h2 where 2: "malloc_ok h1 = (b', h2)" by (cases "malloc_ok h1")
  show thesis
    using that 1 2 by (cases b; cases b'; cases tok) (auto simp: add_child_def cmq_sl_node_create_def)
qed

lemma node_add_sub_spec:
  assumes "node_add_sub h n d = (ok, h', n')" "sl_wf n"
  shows "if ok then sl_wf n' \<and> same_label n n' \<and> \<not> sl_empty n' \<and> entries n' = add_mset ([], d) (entries n)
         else n' = n"
proof (cases n)
  case (SlNode tok pwc fwc subs cap ch)
  then show ?thesis
    using assms by (auto simp: node_add_sub_def Let_def same_label_def sl_empty_def Suc_le_eq
      split: if_splits prod.splits bool.splits)
qed

definition inserted :: "bool \<Rightarrow> sl_node \<Rightarrow> sl_node \<Rightarrow> label list \<Rightarrow> sub \<Rightarrow> bool" where
  "inserted ok n n' ls d \<longleftrightarrow>
     (if ok then sl_wf n' \<and> same_label n n' \<and> \<not> sl_empty n' \<and> entries n' = add_mset (ls, d) (entries n)
      else n' = n)"

lemma inserted_child:
  assumes "inserted ok (ch ! i) c ls d" "sl_wf (SlNode tok pwc fwc subs cap ch)"
    and "i < length ch" "label_of (ch ! i) = l"
  shows "inserted ok (SlNode tok pwc fwc subs cap ch) (SlNode tok pwc fwc subs cap (ch[i := c])) (l # ls) d"
proof (cases ok)
  case True
  with assms have c: "sl_wf c" "same_label (ch ! i) c" "\<not> sl_empty c" "entries c = add_mset (ls, d) (entries (ch ! i))"
    by (simp_all add: inserted_def)
  from c(2) have lab: "label_of c = label_of (ch ! i)" "sl_shape c = sl_shape (ch ! i)"
    by (simp_all add: same_label_of)
  have m: "map label_of (ch[i := c]) = map label_of ch" using assms(3) lab(1) by (rule map_update_same)
  have "below (ch[i := c]) = add_mset (l # ls, d) (below ch)"
    using assms(3,4) lab(1) c(4) by (simp add: sum_unlink [OF assms(3)] prefixed_def)
  moreover have "\<forall>x \<in> set (ch[i := c]). sl_shape x \<and> \<not> sl_empty x \<and> sl_wf x"
    using assms(2,3) c lab(2) by (auto dest!: subsetD [OF set_update_subset_insert])
  ultimately show ?thesis
    using True assms(2,3) m by (auto simp: inserted_def same_label_def sl_empty_def)
qed (use assms in \<open>simp add: inserted_def\<close>)

lemma inserted_new:
  assumes "inserted True (SlNode t p f [] 0 []) c ls d" "sl_wf (SlNode tok pwc fwc subs cap ch)"
    and "label_of (SlNode t p f [] 0 []) = l" "sl_shape (SlNode t p f [] 0 [])" "\<forall>x \<in> set ch. label_of x \<noteq> l"
  shows "inserted True (SlNode tok pwc fwc subs cap ch) (SlNode tok pwc fwc subs cap (c # ch)) (l # ls) d"
proof -
  from assms(1) have c: "sl_wf c" "same_label (SlNode t p f [] 0 []) c" "\<not> sl_empty c" "entries c = {#(ls, d)#}"
    by (simp_all add: inserted_def)
  from same_label_of [OF c(2)] assms(3,4) have "label_of c = l" "sl_shape c" by (simp_all del: sl_shape.simps)
  with c assms(2,5) show ?thesis
    by (auto simp: inserted_def same_label_def sl_empty_def image_iff)
qed

lemma sl_insert_spec:
  "sl_insert h ts d n = (ok, h', n') \<Longrightarrow> sl_wf n \<Longrightarrow> inserted ok n n' (map token_label ts) d"
proof (induction ts arbitrary: h n ok h' n')
  case Nil
  then show ?case using node_add_sub_spec [of h n d ok h' n'] by (simp add: inserted_def)
next
  case (Cons t ts)
  obtain tok pwc fwc subs cap ch where n: "n = SlNode tok pwc fwc subs cap ch" by (cases n)
  from Cons.prems(2) have shapes: "\<forall>c \<in> set ch. sl_shape c" by (simp add: n)
  show ?case
  proof (cases "find_child ch t (t = ''*'') (t = ''>'')")
    case (Some i)
    note f = find_child_Some [OF Some shapes]
    obtain h1 c where c: "sl_insert h ts d (ch ! i) = (ok, h1, c)" "n' = SlNode tok pwc fwc subs cap (ch[i := c])"
      using Cons.prems(1) Some by (auto simp: n split: prod.splits)
    have "inserted ok (ch ! i) c (map token_label ts) d"
      using Cons.IH [OF c(1)] Cons.prems(2) f by (simp add: n)
    then show ?thesis using inserted_child Cons.prems(2) f by (simp add: n c(2) del: sl_wf.simps)
  next
    case None
    note f = find_child_None [OF None shapes]
    define x where "x = (if t = ''*'' \<or> t = ''>'' then None else Some t)"
    let ?c0 = "SlNode x (t = ''*'') (t = ''>'') [] 0 []"
    have x: "label_of ?c0 = token_label t" "sl_shape ?c0" "sl_wf ?c0" "sl_empty ?c0"
      by (auto simp: x_def label_of_def token_label_def sl_empty_def)
    show ?thesis
    proof (cases rule: add_child_cases [of h x "t = ''*''" "t = ''>''" ch])
      case (1 h1)
      then show ?thesis using Cons.prems(1) None by (simp add: n inserted_def x_def [symmetric])
    next
      case (2 h1)
      obtain ok1 h2 c where c: "sl_insert h1 ts d ?c0 = (ok1, h2, c)" by (cases "sl_insert h1 ts d ?c0")
      note ih = Cons.IH [OF c x(3)]
      show ?thesis
      proof (cases ok1)
        case True
        then show ?thesis
          using Cons.prems None 2 c inserted_new [OF _ _ x(1,2) f] ih
          by (auto simp: n x_def [symmetric] simp del: sl_wf.simps)
      next
        case False
        then show ?thesis
          using Cons.prems None 2 c ih x(4) by (simp add: n x_def [symmetric] inserted_def del: sl_wf.simps)
      qed
    qed
  qed
qed

subsection \<open>Removal\<close>

lemma index_of_Some: "index_of d xs = Some i \<Longrightarrow> i < length xs \<and> xs ! i = d"
  by (induction xs arbitrary: i) (auto split: if_splits)

lemma index_of_None: "index_of d xs = None \<longleftrightarrow> d \<notin> set xs"
  by (induction xs) auto

lemma mset_swap_remove:
  assumes "i < length xs"
  shows "mset (butlast (xs[i := last xs])) = mset xs - {#xs ! i#}"
proof (cases xs rule: rev_cases)
  case (snoc ys y)
  then show ?thesis
    using assms by (cases "i = length ys") (auto simp: list_update_append nth_append butlast_append mset_update)
qed (use assms in simp)

lemma prefixed_mem: "(l # ls, d) \<in># prefixed l' M \<longleftrightarrow> l = l' \<and> (ls, d) \<in># M"
  by (auto simp: prefixed_def)

lemma below_mem: "(l # ls, d) \<in># below ch \<longleftrightarrow> (\<exists>c \<in> set ch. label_of c = l \<and> (ls, d) \<in># entries c)"
  by (induction ch) (auto simp: prefixed_mem)

lemma below_nil: "([], d) \<notin># below ch"
  by (induction ch) (auto simp: prefixed_def)

lemma entries_mem_below:
  "(l # ls, d) \<in># entries (SlNode tok pwc fwc subs cap ch) \<longleftrightarrow> (l # ls, d) \<in># below ch"
  by auto

lemma entries_mem_at:
  assumes "distinct (map label_of ch)" "i < length ch" "label_of (ch ! i) = l"
  shows "(l # ls, d) \<in># below ch \<longleftrightarrow> (ls, d) \<in># entries (ch ! i)"
proof -
  have "c = ch ! i" if "c \<in> set ch" "label_of c = l" for c
    using assms that by (auto simp: distinct_map dest: inj_onD)
  with assms(2,3) show ?thesis unfolding below_mem by (metis nth_mem)
qed

definition removed :: "bool \<Rightarrow> sl_node \<Rightarrow> sl_node \<Rightarrow> label list \<Rightarrow> sub \<Rightarrow> bool" where
  "removed ok n n' ls d \<longleftrightarrow>
     sl_wf n' \<and> same_label n n' \<and> (ok \<longleftrightarrow> (ls, d) \<in># entries n) \<and>
     entries n' = entries n - {#(ls, d)#} \<and> (\<not> ok \<longrightarrow> n' = n)"

lemma node_remove_sub_spec:
  assumes "node_remove_sub n d = (ok, n')" "sl_wf n"
  shows "removed ok n n' [] d"
proof (cases n)
  case (SlNode tok pwc fwc subs cap ch)
  show ?thesis
  proof (cases "index_of d subs")
    case None
    then have "([], d) \<notin># entries n" using below_nil [of d ch] by (auto simp: SlNode index_of_None)
    with None assms show ?thesis by (simp add: SlNode node_remove_sub_def removed_def same_label_def)
  next
    case (Some i)
    note i = index_of_Some [OF Some]
    then have d: "d \<in># mset subs" by auto
    have "image_mset (Pair []) (mset subs - {#d#}) + below ch =
        image_mset (Pair []) (mset subs) + below ch - {#([], d)#}"
      using d by (simp add: image_mset_Diff)
    moreover have "length (butlast (subs[i := last subs])) \<le> cap"
      using assms(2) by (simp add: SlNode) linarith
    ultimately show ?thesis
      using Some assms i d
      by (auto simp: SlNode node_remove_sub_def removed_def same_label_def mset_swap_remove)
  qed
qed

lemma removed_child:
  assumes r: "removed True (ch ! i) c ls d" and wf: "sl_wf (SlNode tok pwc fwc subs cap ch)"
    and i: "i < length ch" and l: "label_of (ch ! i) = l"
  shows "removed True (SlNode tok pwc fwc subs cap ch)
    (SlNode tok pwc fwc subs cap (if sl_empty c then unlink_child i (ch[i := c]) else ch[i := c])) (l # ls) d"
proof -
  from r have c: "sl_wf c" "same_label (ch ! i) c" "(ls, d) \<in># entries (ch ! i)"
      "entries c = entries (ch ! i) - {#(ls, d)#}"
    by (simp_all add: removed_def)
  from c(2) have lab: "label_of c = label_of (ch ! i)" "sl_shape c = sl_shape (ch ! i)"
    by (simp_all add: same_label_of)
  let ?ch = "if sl_empty c then unlink_child i (ch[i := c]) else ch[i := c]"
  have m: "map label_of (ch[i := c]) = map label_of ch" using i lab(1) by (rule map_update_same)
  have "distinct (map label_of ?ch)"
    using wf m i distinct_unlink [of label_of ch i] by simp
  moreover have "\<forall>x \<in> set ?ch. sl_shape x \<and> \<not> sl_empty x \<and> sl_wf x"
    using wf i c(1) lab(2) set_unlink [of i ch]
    by (auto dest!: subsetD [OF set_update_subset_insert] split: if_splits)
  ultimately have wf': "sl_wf (SlNode tok pwc fwc subs cap ?ch)" using wf unfolding sl_wf.simps by blast
  have "sl_empty c \<Longrightarrow> entries c = {#}" by (cases c) (simp add: sl_empty_def)
  moreover have e: "entries (ch ! i) = add_mset (ls, d) (entries c)" using c(3,4) by simp
  ultimately have "below ?ch = prefixed l (entries c) + below (unlink_child i ch)"
    using i l lab(1) by (simp add: sum_unlink(2) [OF i])
  then have "add_mset (l # ls, d) (below ?ch) = below ch"
    using e l by (simp add: sum_unlink(1) [OF i] prefixed_def)
  then have "below ?ch = below ch - {#(l # ls, d)#}" "(l # ls, d) \<in># below ch"
    by (metis add_mset_remove_trivial, metis union_single_eq_member)
  with wf' show ?thesis
    by (auto simp: removed_def same_label_def simp del: sl_wf.simps)
qed

lemma sl_remove_spec:
  "sl_remove ts d n = (ok, n') \<Longrightarrow> sl_wf n \<Longrightarrow> removed ok n n' (map token_label ts) d"
proof (induction ts arbitrary: n ok n')
  case Nil
  then show ?case by (simp add: node_remove_sub_spec)
next
  case (Cons t ts)
  obtain tok pwc fwc subs cap ch where n: "n = SlNode tok pwc fwc subs cap ch" by (cases n)
  from Cons.prems(2) have shapes: "\<forall>c \<in> set ch. sl_shape c" and dist: "distinct (map label_of ch)"
    by (simp_all add: n)
  show ?case
  proof (cases "find_child ch t (t = ''*'') (t = ''>'')")
    case None
    note f = find_child_None [OF None shapes]
    then have "(token_label t # map token_label ts, d) \<notin># below ch" unfolding below_mem by blast
    then have "(token_label t # map token_label ts, d) \<notin># entries n" unfolding n entries_mem_below .
    with Cons.prems None show ?thesis by (simp add: n removed_def same_label_def del: entries.simps)
  next
    case (Some i)
    note f = find_child_Some [OF Some shapes]
    obtain ok1 c where c: "sl_remove ts d (ch ! i) = (ok1, c)" by (cases "sl_remove ts d (ch ! i)")
    have r: "removed ok1 (ch ! i) c (map token_label ts) d"
      using Cons.IH [OF c] Cons.prems(2) f by (simp add: n)
    show ?thesis
    proof (cases ok1)
      case True
      then show ?thesis
        using Cons.prems Some c removed_child [OF _ _ f [THEN conjunct1] f [THEN conjunct2]] r
        by (auto simp: n simp del: sl_wf.simps)
    next
      case False
      with r have "(map token_label ts, d) \<notin># entries (ch ! i)" "c = ch ! i" by (simp_all add: removed_def)
      then have "(token_label t # map token_label ts, d) \<notin># entries n"
        using entries_mem_at [OF dist, of i] f unfolding n entries_mem_below by simp
      with Cons.prems Some c False \<open>c = ch ! i\<close> show ?thesis
        by (simp add: n removed_def same_label_def del: entries.simps)
    qed
  qed
qed

subsection \<open>Subjects and their tokens\<close>

fun join_dots :: "string list \<Rightarrow> string" where
  "join_dots [] = []"
| "join_dots [t] = t"
| "join_dots (t # ts) = t @ CHR ''.'' # join_dots ts"

definition good_token :: "string \<Rightarrow> bool" where
  "good_token t \<longleftrightarrow> t \<noteq> [] \<and> length t \<le> 255 \<and> CHR ''.'' \<notin> set t"

lemma join_Cons: "join_dots (t # ts) = (if ts = [] then t else t @ CHR ''.'' # join_dots ts)"
  by (cases ts) auto

lemma takeWhile_dotless: "CHR ''.'' \<notin> set t \<Longrightarrow> takeWhile (\<lambda>c. c \<noteq> CHR ''.'') t = t"
  by (rule takeWhile_eq_all_conv [THEN iffD2]) auto

lemma split_dot:
  assumes "CHR ''.'' \<notin> set t"
  shows "takeWhile (\<lambda>c. c \<noteq> CHR ''.'') (t @ CHR ''.'' # r) = t"
    and "dropWhile (\<lambda>c. c \<noteq> CHR ''.'') (t @ CHR ''.'' # r) = CHR ''.'' # r"
    and "dropWhile (\<lambda>c. c \<noteq> CHR ''.'') t = []"
  using assms by (induction t) auto

lemma join_nonempty: "list_all good_token ts \<Longrightarrow> ts \<noteq> [] \<Longrightarrow> join_dots ts \<noteq> []"
  by (cases ts) (auto simp: join_Cons good_token_def)

lemma tokenize_join:
  "list_all good_token ts \<Longrightarrow> n + length ts \<le> 64 \<Longrightarrow> tokenize_from n (join_dots ts) = Some ts"
proof (induction ts arbitrary: n)
  case Nil
  then show ?case by (subst tokenize_from.simps) simp
next
  case (Cons t ts)
  then have t: "t \<noteq> []" "length t \<le> 255" "CHR ''.'' \<notin> set t" by (simp_all add: good_token_def)
  show ?case
  proof (cases "ts = []")
    case True
    with Cons t show ?thesis
      by (subst tokenize_from.simps) (simp add: takeWhile_dotless split_dot)
  next
    case False
    with Cons t show ?thesis
      by (subst tokenize_from.simps) (simp add: join_Cons split_dot)
  qed
qed

lemma tokenize_sound:
  "tokenize_from n s = Some ts \<Longrightarrow> s = [] \<or> last s \<noteq> CHR ''.'' \<Longrightarrow>
     join_dots ts = s \<and> list_all good_token ts \<and> (s \<noteq> [] \<longrightarrow> ts \<noteq> [] \<and> n + length ts \<le> 64)"
proof (induction n s arbitrary: ts rule: tokenize_from.induct)
  case (1 n s)
  show ?case
  proof (cases "s = []")
    case True
    with 1(2) show ?thesis by (simp add: tokenize_from.simps)
  next
    case False
    let ?t = "takeWhile (\<lambda>c. c \<noteq> CHR ''.'') s" and ?r = "dropWhile (\<lambda>c. c \<noteq> CHR ''.'') s"
    have s: "s = ?t @ ?r" by simp
    obtain ts' where t: "?t \<noteq> []" "length ?t \<le> 255" "\<not> n \<ge> 64" "tokenize_from (n + 1) (tl ?r) = Some ts'" "ts = ?t # ts'"
      using 1(2) False by (subst (asm) tokenize_from.simps) (auto simp: Let_def split: if_splits)
    have good: "good_token ?t" using t(1,2) by (auto simp: good_token_def dest: set_takeWhileD)
    have dot: "?r \<noteq> [] \<Longrightarrow> hd ?r = CHR ''.''" using hd_dropWhile by blast
    have lastr: "?r \<noteq> [] \<Longrightarrow> last ?r = last s" by (metis s last_appendR)
    have "tl ?r = [] \<or> last (tl ?r) \<noteq> CHR ''.''"
      using 1(3) False lastr by (metis last_tl tl_Nil)
    moreover have nz: "?r \<noteq> [] \<Longrightarrow> tl ?r \<noteq> []"
      using 1(3) False dot lastr by (metis last_ConsL list.exhaust_sel)
    ultimately have ih: "join_dots ts' = tl ?r" "list_all good_token ts'"
        "tl ?r \<noteq> [] \<Longrightarrow> ts' \<noteq> [] \<and> n + 1 + length ts' \<le> 64"
      using 1(1) [OF False t(3) refl refl t(1) _ t(4)] t(2) by auto
    show ?thesis
    proof (cases "?r = []")
      case True
      then have "ts' = []" using t(4) by (simp only: list.sel tokenize_from_nil) simp
      then show ?thesis using True t good s by simp
    next
      case nr: False
      with ih nz have "join_dots ts = ?t @ CHR ''.'' # tl ?r" by (simp add: t(5) join_Cons)
      also have "\<dots> = s" using dot [OF nr] nr s by (metis list.collapse)
      finally show ?thesis using ih(2) ih(3) [OF nz [OF nr]] good t(5) by simp
    qed
  qed
qed

lemma gt_placed_iff: "gt_placed s \<longleftrightarrow> CHR ''>'' \<notin> set (butlast s)"
  by (induction s) auto

lemma dot_dot_Cons: "has_dot_dot (c # r) \<longleftrightarrow> (c = CHR ''.'' \<and> r \<noteq> [] \<and> hd r = CHR ''.'') \<or> has_dot_dot r"
  by (cases r) auto

lemma dot_dot_append:
  "CHR ''.'' \<notin> set t \<Longrightarrow> has_dot_dot (t @ CHR ''.'' # r) \<longleftrightarrow> has_dot_dot (CHR ''.'' # r)"
  by (induction t) (auto simp: dot_dot_Cons)

lemma dot_dot_dotless: "CHR ''.'' \<notin> set t \<Longrightarrow> \<not> has_dot_dot t"
  by (induction t) (auto simp: dot_dot_Cons)

lemma join_dots_clean:
  "list_all good_token ts \<Longrightarrow> ts \<noteq> [] \<Longrightarrow>
     hd (join_dots ts) \<noteq> CHR ''.'' \<and> last (join_dots ts) \<noteq> CHR ''.'' \<and> \<not> has_dot_dot (join_dots ts)"
proof (induction ts)
  case (Cons t ts)
  then have t: "t \<noteq> []" "CHR ''.'' \<notin> set t" by (simp_all add: good_token_def)
  then have h: "hd t \<noteq> CHR ''.''" "last t \<noteq> CHR ''.''" by (metis hd_in_set, metis last_in_set)
  show ?case
  proof (cases "ts = []")
    case True
    with t h show ?thesis by (simp add: dot_dot_dotless)
  next
    case False
    with Cons have ih: "hd (join_dots ts) \<noteq> CHR ''.''" "last (join_dots ts) \<noteq> CHR ''.''" "\<not> has_dot_dot (join_dots ts)"
        "join_dots ts \<noteq> []"
      by (simp_all add: join_nonempty)
    with False t h show ?thesis by (simp add: join_Cons dot_dot_append dot_dot_Cons)
  qed
qed simp

lemma subject_tokens:
  "cmq_sublist_subject_valid s \<and> tokenize s = Some ts \<longleftrightarrow>
     s = join_dots ts \<and> ts \<noteq> [] \<and> length ts \<le> 64 \<and> list_all good_token ts \<and> CHR ''>'' \<notin> set (butlast s)"
  (is "?L \<longleftrightarrow> ?R")
proof
  assume ?L
  then show ?R
    using tokenize_sound [of 0 s ts]
    by (auto simp: cmq_sublist_subject_valid_def validate_subject_def tokenize_def gt_placed_iff)
next
  assume r: ?R
  then have "tokenize s = Some ts" by (simp add: tokenize_def tokenize_join)
  with r join_dots_clean [of ts] join_nonempty [of ts] show ?L
    by (auto simp: cmq_sublist_subject_valid_def validate_subject_def gt_placed_iff)
qed

subsection \<open>Matching succeeds when memory lasts\<close>

text \<open>The result array at least half full, so it never reaches its limit before \<open>2 ^ 59\<close> entries.\<close>

definition result_fits :: "nat \<Rightarrow> sublist_result \<Rightarrow> bool" where
  "result_fits m r \<longleftrightarrow> length (rs_entries r) + m \<le> 2 ^ 59 \<and> rs_cap r \<le> 8 + 2 * length (rs_entries r)"

lemma result_append_fits:
  assumes "result_fits (Suc m) r"
  obtains r' where "result_append [] r d = (True, [], r')" "result_fits m r'"
proof (cases "rs_cap r \<le> length (rs_entries r)")
  case True
  with assms have small: "rs_cap r \<le> 576460752303423487" by (simp add: result_fits_def)
  then have "result_append [] r d =
      (True, [], \<lparr>rs_entries = rs_entries r @ [d], rs_cap = if rs_cap r = 0 then 8 else rs_cap r * 2\<rparr>)"
    using True by (simp add: result_append_def Let_def SIZE_MAX_def)
  moreover have "result_fits m \<lparr>rs_entries = rs_entries r @ [d], rs_cap = if rs_cap r = 0 then 8 else rs_cap r * 2\<rparr>"
    using assms True by (simp add: result_fits_def)
  ultimately show ?thesis by (rule that)
next
  case False
  then have "result_append [] r d = (True, [], r\<lparr>rs_entries := rs_entries r @ [d]\<rparr>)"
    by (simp add: result_append_def)
  moreover have "result_fits m (r\<lparr>rs_entries := rs_entries r @ [d]\<rparr>)" using assms by (simp add: result_fits_def)
  ultimately show ?thesis by (rule that)
qed

lemma append_all_fits:
  "result_fits (length ds + m) r \<Longrightarrow> \<exists>r'. append_all [] r ds = (True, [], r') \<and> result_fits m r'"
proof (induction ds arbitrary: r)
  case (Cons d ds)
  then obtain r1 where "result_append [] r d = (True, [], r1)" "result_fits (length ds + m) r1"
    using result_append_fits [of "length ds + m" r d] by auto
  with Cons.IH [of r1] show ?case by simp
qed simp

lemma append_fwc_fits:
  "result_fits (length (concat (map sl_subs (filter sl_is_fwc cs))) + m) r \<Longrightarrow>
     \<exists>r'. append_fwc [] r cs = (True, [], r') \<and> result_fits m r'"
proof (induction cs arbitrary: r)
  case (Cons c cs)
  show ?case
  proof (cases "sl_is_fwc c")
    case True
    with Cons.prems obtain r1 where "append_all [] r (sl_subs c) = (True, [], r1)"
      "result_fits (length (concat (map sl_subs (filter sl_is_fwc cs))) + m) r1"
      using append_all_fits [of "sl_subs c" "length (concat (map sl_subs (filter sl_is_fwc cs))) + m" r]
      by (auto simp: add.assoc)
    with True Cons.IH [of r1] show ?thesis by simp
  next
    case False
    with Cons show ?thesis by simp
  qed
qed simp

lemma match_fits:
  "result_fits (size (matching (entries n) ts) + m) r \<Longrightarrow> sl_wf n \<Longrightarrow> h = [] \<Longrightarrow>
     \<exists>r'. match_recursive h r ts n = (True, [], r') \<and> result_fits m r'"
  "result_fits (size (matching (below ch) (t # ts)) + m) r \<Longrightarrow> \<forall>c \<in> set ch. sl_shape c \<and> sl_wf c \<Longrightarrow> h = [] \<Longrightarrow>
     \<exists>r'. match_children h r t ts ch = (True, [], r') \<and> result_fits m r'"
proof (induction h r ts n and h r t ts ch arbitrary: m and m rule: match_recursive_match_children.induct)
  case (1 h r node)
  obtain tok pwc fwc subs cap ch where n: "node = SlNode tok pwc fwc subs cap ch" by (cases node)
  with 1(2) have "\<forall>c \<in> set ch. sl_shape c" by simp
  then have "size (matching (entries node) []) = length subs + length (concat (map sl_subs (filter sl_is_fwc ch)))"
    by (simp add: n matching_here matching_below_nil)
  with 1(1,3) obtain r1 where "append_all h r subs = (True, [], r1)"
    "result_fits (length (concat (map sl_subs (filter sl_is_fwc ch))) + m) r1"
    using append_all_fits [of subs "length (concat (map sl_subs (filter sl_is_fwc ch))) + m" r]
    by (auto simp: add.assoc)
  with append_fwc_fits [of ch m r1] show ?case by (simp add: n)
next
  case (2 h r t ts node)
  then show ?case by (cases node) (auto simp: matching_here)
next
  case (3 h r t ts)
  then show ?case by simp
next
  case (4 h r t ts c cs)
  let ?m = "size (matching (below cs) (t # ts)) + m"
  let ?step = "if sl_is_fwc c then append_all h r (sl_subs c)
           else if sl_is_pwc c then match_recursive h r ts c
           else if sl_token c = Some t then match_recursive h r ts c
           else (True, h, r)"
  have c: "sl_shape c" "sl_wf c" using 4(5) by simp_all
  have f: "result_fits (size (matching (prefixed (label_of c) (entries c)) (t # ts)) + ?m) r"
    using 4(4) by (simp add: add.assoc)
  have "\<exists>r1. ?step = (True, [], r1) \<and> result_fits ?m r1"
  proof (cases "sl_is_fwc c")
    case True
    then show ?thesis using f 4(6) append_all_fits [of "sl_subs c" ?m r] by (simp add: matching_child c)
  next
    case False
    then show ?thesis
      using f 4(6) 4(1) [OF False, of ?m] 4(2) [OF False, of ?m] c(2)
      by (cases "sl_is_pwc c") (auto simp: matching_child c(1))
  qed
  then obtain r1 where r1: "?step = (True, [], r1)" "result_fits ?m r1" by blast
  have "\<exists>r'. match_children [] r1 t ts cs = (True, [], r') \<and> result_fits m r'"
    using 4(3) [OF r1(1) [symmetric] refl refl, of m] r1(2) 4(5) by simp
  then show ?case using r1(1) by simp
qed

section \<open>The contract of a subscription registry\<close>

text \<open>
  What the server relies on: a registry is a bag of patterns with their subscribers; accepted insertions add
  one entry, accepted removals take one away, refused calls change nothing, and a match that has the memory
  for its result returns the subscribers of the covering patterns.
\<close>

definition pattern_of :: "string \<Rightarrow> label list" where
  "pattern_of s = map token_label (the (tokenize s))"

locale subscription_registry =
  fixes inv :: "'s \<Rightarrow> bool"
    and view :: "'s \<Rightarrow> registry"
    and ins :: "heap \<Rightarrow> 's \<Rightarrow> string \<Rightarrow> sub \<Rightarrow> bool \<times> 's"
    and rem :: "'s \<Rightarrow> string \<Rightarrow> sub \<Rightarrow> bool \<times> 's"
    and mat :: "heap \<Rightarrow> 's \<Rightarrow> string \<Rightarrow> sub list option"
    and cnt :: "'s \<Rightarrow> nat"
  assumes ins_law: "inv s \<Longrightarrow> ins h s subj d = (ok, s') \<Longrightarrow>
      inv s' \<and> (if ok then view s' = add_mset (pattern_of subj, d) (view s) else s' = s)"
    and rem_law: "inv s \<Longrightarrow> rem s subj d = (ok, s') \<Longrightarrow>
      inv s' \<and> (if ok then (pattern_of subj, d) \<in># view s \<and> view s' = view s - {#(pattern_of subj, d)#} else s' = s)"
    and mat_law: "inv s \<Longrightarrow> mat h s subj = Some ds \<Longrightarrow> mset ds = matching (view s) (the (tokenize subj))"
    and cnt_law: "inv s \<Longrightarrow> cnt s = size (view s)"

datatype sub_event = Subscribe heap string sub | Unsubscribe string sub

context subscription_registry
begin

text \<open>A run of calls next to the bag its results describe.\<close>

fun drive :: "sub_event list \<Rightarrow> 's \<Rightarrow> registry \<Rightarrow> 's \<times> registry" where
  "drive [] s R = (s, R)"
| "drive (Subscribe h subj d # es) s R =
     (case ins h s subj d of (ok, s) \<Rightarrow> drive es s (if ok then add_mset (pattern_of subj, d) R else R))"
| "drive (Unsubscribe subj d # es) s R =
     (case rem s subj d of (ok, s) \<Rightarrow> drive es s (if ok then R - {#(pattern_of subj, d)#} else R))"

lemma drive_view: "inv s \<Longrightarrow> drive es s (view s) = (s', R) \<Longrightarrow> inv s' \<and> view s' = R"
proof (induction es arbitrary: s)
  case Nil
  then show ?case by auto
next
  case (Cons e es)
  show ?case
  proof (cases e)
    case (Subscribe h subj d)
    obtain ok s1 where one: "ins h s subj d = (ok, s1)" by (cases "ins h s subj d")
    have "drive es s1 (view s1) = (s', R)"
      using Cons.prems(2) Subscribe one ins_law [OF Cons.prems(1) one] by (cases ok) simp_all
    with Cons.IH ins_law [OF Cons.prems(1) one] show ?thesis by blast
  next
    case (Unsubscribe subj d)
    obtain ok s1 where one: "rem s subj d = (ok, s1)" by (cases "rem s subj d")
    have "drive es s1 (view s1) = (s', R)"
      using Cons.prems(2) Unsubscribe one rem_law [OF Cons.prems(1) one] by (cases ok) simp_all
    with Cons.IH rem_law [OF Cons.prems(1) one] show ?thesis by blast
  qed
qed

lemma drive_match:
  assumes "inv s" "drive es s (view s) = (s', R)"
  shows "mat h s' subj = Some ds \<Longrightarrow> mset ds = matching R (the (tokenize subj))"
    and "cnt s' = size R"
  using drive_view [OF assms] mat_law cnt_law by blast+

end

lemma begin_live: "\<not> sb_dying sl \<Longrightarrow> sublist_begin_op sl = (True, sl\<lparr>sb_in_flight := sb_in_flight sl + 1\<rparr>)"
  by (simp add: sublist_begin_op_def)

lemma sublist_insert_law:
  assumes "sb_inv sl" "cmq_sublist_insert h sl subj d = (ok, sl')"
  shows "sb_inv sl' \<and> (if ok then entries (sb_root sl') = add_mset (pattern_of subj, d) (entries (sb_root sl)) else sl' = sl)"
proof (cases "validate_subject subj \<and> tokenize subj \<noteq> None")
  case True
  then obtain ts where ts: "tokenize subj = Some ts" by blast
  obtain b h' r where r: "sl_insert h ts d (sb_root sl) = (b, h', r)" by (cases "sl_insert h ts d (sb_root sl)")
  have "inserted b (sb_root sl) r (map token_label ts) d"
    using sl_insert_spec [OF r] assms(1) by (simp add: sb_inv_def)
  then show ?thesis
    using assms True ts r
    by (cases b) (auto simp: cmq_sublist_insert_def sb_inv_def inserted_def begin_live sublist_end_op_def pattern_of_def)
next
  case False
  then have "cmq_sublist_insert h sl subj d = (False, sl)" by (auto simp: cmq_sublist_insert_def split: option.splits)
  with assms show ?thesis by simp
qed

lemma sublist_remove_law:
  assumes "sb_inv sl" "cmq_sublist_remove sl subj d = (ok, sl')"
  shows "sb_inv sl' \<and>
    (if ok then (pattern_of subj, d) \<in># entries (sb_root sl) \<and>
       entries (sb_root sl') = entries (sb_root sl) - {#(pattern_of subj, d)#} else sl' = sl)"
proof (cases "d \<noteq> 0 \<and> validate_subject subj \<and> tokenize subj \<noteq> None")
  case True
  then obtain ts where ts: "tokenize subj = Some ts" by blast
  obtain b r where r: "sl_remove ts d (sb_root sl) = (b, r)" by (cases "sl_remove ts d (sb_root sl)")
  have "removed b (sb_root sl) r (map token_label ts) d"
    using sl_remove_spec [OF r] assms(1) by (simp add: sb_inv_def)
  then show ?thesis
    using assms True ts r
    by (cases b)
      (auto simp: cmq_sublist_remove_def sb_inv_def removed_def begin_live sublist_end_op_def pattern_of_def size_Diff_singleton)
next
  case False
  then have "cmq_sublist_remove sl subj d = (False, sl)" by (auto simp: cmq_sublist_remove_def split: option.splits)
  with assms show ?thesis by simp
qed

lemma sublist_match_law:
  assumes "sb_inv sl" "cmq_sublist_match h sl subj = Some ds"
  shows "mset ds = matching (entries (sb_root sl)) (the (tokenize subj))"
proof (cases "tokenize subj")
  case (Some ts)
  obtain ok h' r where r: "match_recursive h \<lparr>rs_entries = [], rs_cap = 0\<rparr> ts (sb_root sl) = (ok, h', r)"
    by (cases "match_recursive h \<lparr>rs_entries = [], rs_cap = 0\<rparr> ts (sb_root sl)")
  have "ok" "ds = rs_entries r"
    using assms Some r by (cases ok; simp add: cmq_sublist_match_def sb_inv_def begin_live)+
  then show ?thesis using match_ok(1) [of h _ ts "sb_root sl" h' r] r assms(1) Some by (simp add: sb_inv_def)
qed (use assms in \<open>simp add: cmq_sublist_match_def\<close>)

interpretation trie: subscription_registry sb_inv "\<lambda>sl. entries (sb_root sl)"
  cmq_sublist_insert cmq_sublist_remove cmq_sublist_match cmq_sublist_count
proof unfold_locales
  show "sb_inv sl \<Longrightarrow> cmq_sublist_count sl = size (entries (sb_root sl))" for sl
    by (simp add: cmq_sublist_count_def begin_live sb_inv_def)
qed (fact sublist_insert_law sublist_remove_law sublist_match_law)+

section \<open>Properties\<close>

fun sub_run :: "sub_event list \<Rightarrow> sublist \<Rightarrow> registry \<Rightarrow> sublist \<times> registry" where
  "sub_run [] sl R = (sl, R)"
| "sub_run (Subscribe h subj d # es) sl R =
     (case cmq_sublist_insert h sl subj d of
        (ok, sl) \<Rightarrow> sub_run es sl (if ok then add_mset (pattern_of subj, d) R else R))"
| "sub_run (Unsubscribe subj d # es) sl R =
     (case cmq_sublist_remove sl subj d of
        (ok, sl) \<Rightarrow> sub_run es sl (if ok then R - {#(pattern_of subj, d)#} else R))"

lemma sub_run_drive: "sub_run es sl R = trie.drive es sl R"
  by (induction es sl R rule: sub_run.induct) (simp_all split: prod.splits)

lemma sublist_create_inv: "cmq_sublist_create h = Some sl \<Longrightarrow> sb_inv sl \<and> entries (sb_root sl) = {#}"
  by (auto simp: cmq_sublist_create_def sb_inv_def split: if_splits)

lemma sub_run_view:
  assumes "cmq_sublist_create h0 = Some sl0" "sub_run es sl0 {#} = (sl, R)"
  shows "sb_inv sl" "entries (sb_root sl) = R" "cmq_sublist_count sl = size R"
    and "cmq_sublist_match h sl subj = Some ds \<Longrightarrow> mset ds = matching R (the (tokenize subj))"
proof -
  have "trie.drive es sl0 (entries (sb_root sl0)) = (sl, R)" and inv: "sb_inv sl0"
    using assms sublist_create_inv [OF assms(1)] by (simp_all add: sub_run_drive)
  from trie.drive_view [OF inv this(1)] trie.drive_match [OF inv this(1)]
  show "sb_inv sl" "entries (sb_root sl) = R" "cmq_sublist_count sl = size R"
    and "cmq_sublist_match h sl subj = Some ds \<Longrightarrow> mset ds = matching R (the (tokenize subj))"
    by blast+
qed

lemma matching_size: "size (matching M ts) \<le> size M"
  by (simp add: matching_def size_filter_mset_lesseq)

lemma sublist_match_total:
  assumes "sb_inv sl" "size (entries (sb_root sl)) \<le> 2 ^ 59" "tokenize subj = Some ts"
  shows "\<exists>ds. cmq_sublist_match [] sl subj = Some ds"
proof -
  have "result_fits (size (matching (entries (sb_root sl)) ts) + 0) \<lparr>rs_entries = [], rs_cap = 0\<rparr>"
    using matching_size [of "entries (sb_root sl)" ts] assms(2) by (simp add: result_fits_def)
  from match_fits(1) [OF this] assms(1) obtain r where
    "match_recursive [] \<lparr>rs_entries = [], rs_cap = 0\<rparr> ts (sb_root sl) = (True, [], r)"
    by (auto simp: sb_inv_def)
  with assms show ?thesis by (simp add: cmq_sublist_match_def begin_live sb_inv_def)
qed

text \<open>
  C4. Delivery: after any sequence of subscriptions and cancellations on a new list, with any failures of memory, a
  match that returns a result names exactly the subscribers whose accepted and not yet cancelled patterns cover
  the subject, each as often as it is registered. With memory and at most \<open>2 ^ 59\<close> registrations every
  subject that splits into tokens has a result, and the count is the number of registrations.
\<close>

theorem sublist_delivers:
  assumes "cmq_sublist_create h0 = Some sl0" "sub_run es sl0 {#} = (sl, R)"
  shows "(\<forall>h ds. cmq_sublist_match h sl subj = Some ds \<longrightarrow> mset ds = matching R (the (tokenize subj))) \<and>
    (size R \<le> 2 ^ 59 \<and> tokenize subj \<noteq> None \<longrightarrow> (\<exists>ds. cmq_sublist_match [] sl subj = Some ds)) \<and>
    cmq_sublist_count sl = size R"
  using sub_run_view [OF assms] sublist_match_total by auto

definition sub_new :: sublist where
  "sub_new = \<lparr>sb_root = SlNode None False False [] 0 [], sb_count = 0, sb_in_flight = 0, sb_dying = False\<rparr>"

lemma sub_new_create: "cmq_sublist_create [] = Some sub_new"
  by (simp add: cmq_sublist_create_def sub_new_def)

definition sub_example :: "sub_event list" where
  "sub_example = [Subscribe [] ''a.*'' 1, Subscribe [] ''a.>'' 2, Subscribe [] ''a.b'' 3, Subscribe [False] ''c'' 4,
     Unsubscribe ''a.b'' 3]"

lemmas sub_eval = sub_example_def sub_new_def sub_new_create cmq_sublist_insert_def cmq_sublist_remove_def
  validate_subject_def tokenize_def tokenize_from.simps sublist_begin_op_def sublist_end_op_def node_add_sub_def
  add_child_def cmq_sl_node_create_def node_remove_sub_def sl_empty_def unlink_child_def SIZE_MAX_def
  pattern_of_def token_label_def

lemma sub_example_run:
  "snd (sub_run sub_example sub_new {#}) = {#([Lit ''a'', Pwc], 1), ([Lit ''a'', Fwc], 2)#}"
  by (simp add: sub_eval)

theorem sublist_delivers_witness:
  "\<exists>sl ds. fst (sub_run sub_example sub_new {#}) = sl \<and> cmq_sublist_match [] sl ''a.x'' = Some ds \<and> mset ds = {#1, 2#}"
proof -
  obtain sl where sl: "sub_run sub_example sub_new {#} = (sl, {#([Lit ''a'', Pwc], 1), ([Lit ''a'', Fwc], 2)#})"
    using sub_example_run by (cases "sub_run sub_example sub_new {#}") simp
  have t: "tokenize ''a.x'' = Some [''a'', ''x'']" by (simp add: tokenize_def tokenize_from.simps)
  show ?thesis
    using sublist_delivers [OF sub_new_create sl, of "''a.x''"] by (auto simp: sl t matching_def)
qed

text \<open>
  C25. Refused calls leave no trace: an insertion that fails, for a bad subject or at any of its allocations,
  leaves the list exactly as it was, nodes included. A removal succeeds exactly when that subscriber
  is registered under that subject, and otherwise changes nothing.
\<close>

theorem sublist_refused_unchanged:
  assumes "cmq_sublist_create h0 = Some sl0" "sub_run es sl0 {#} = (sl, R)"
  shows "(\<not> fst (cmq_sublist_insert h sl subj d) \<longrightarrow> snd (cmq_sublist_insert h sl subj d) = sl) \<and>
    (fst (cmq_sublist_remove sl subj d) \<longleftrightarrow>
      d \<noteq> 0 \<and> cmq_sublist_subject_valid subj \<and> (pattern_of subj, d) \<in># R) \<and>
    (\<not> fst (cmq_sublist_remove sl subj d) \<longrightarrow> snd (cmq_sublist_remove sl subj d) = sl)"
proof -
  note v = sub_run_view(1,2) [OF assms]
  have "fst (cmq_sublist_remove sl subj d) \<longleftrightarrow>
      d \<noteq> 0 \<and> cmq_sublist_subject_valid subj \<and> (pattern_of subj, d) \<in># R"
  proof (cases "d \<noteq> 0 \<and> cmq_sublist_subject_valid subj")
    case True
    then obtain ts where ts: "tokenize subj = Some ts" by (auto simp: cmq_sublist_subject_valid_def)
    obtain b r where r: "sl_remove ts d (sb_root sl) = (b, r)" by (cases "sl_remove ts d (sb_root sl)")
    have "b \<longleftrightarrow> (pattern_of subj, d) \<in># R"
      using sl_remove_spec [OF r] v ts by (simp add: sb_inv_def removed_def pattern_of_def)
    then show ?thesis
      using True ts r v(1)
      by (simp add: cmq_sublist_remove_def cmq_sublist_subject_valid_def begin_live sb_inv_def)
  qed (auto simp: cmq_sublist_remove_def cmq_sublist_subject_valid_def split: option.splits)
  then show ?thesis
    using sublist_insert_law [OF v(1) prod.collapse [symmetric]] sublist_remove_law [OF v(1) prod.collapse [symmetric]]
    by (metis (full_types))
qed

theorem sublist_refused_unchanged_witness:
  "cmq_sublist_create [] = Some sub_new \<and> sub_run [] sub_new {#} = (sub_new, {#}) \<and>
   snd (cmq_sublist_insert [True, True, False] sub_new ''a'' 1) = sub_new"
  using sublist_refused_unchanged [OF sub_new_create, of "[]" sub_new "{#}" "[True, True, False]" "''a''" 1]
  by (simp add: sub_eval)

text \<open>
  Subjects and token lists are two forms of the same thing. A subject is accepted and splits into the given tokens
  exactly when it is those tokens joined by dots, there are 1 to 64 of them, each has 1 to 255 characters and
  no dot, and the character \<^verbatim>\<open>>\<close> occurs only at the very end.
\<close>

theorem subject_valid_tokens:
  "cmq_sublist_subject_valid s \<and> tokenize s = Some ts \<longleftrightarrow>
     s = join_dots ts \<and> ts \<noteq> [] \<and> length ts \<le> 64 \<and> list_all good_token ts \<and> CHR ''>'' \<notin> set (butlast s)"
  by (rule subject_tokens)

text \<open>Freeing the data passes every registered pointer to \<^verbatim>\<open>free\<close> once per registration.\<close>

lemma node_free_data_entries: "mset (node_free_data n) = image_mset snd (entries n)"
proof (induction n)
  case (SlNode tok pwc fwc subs cap ch)
  have "image_mset snd (prefixed l M) = image_mset snd M" for l M
    by (simp add: prefixed_def image_mset.compositionality comp_def case_prod_unfold)
  with SlNode have "mset (concat (map node_free_data ch)) = image_mset snd (below ch)"
    by (induction ch) simp_all
  then show ?case by (simp add: image_mset.compositionality comp_def)
qed

end
