(* ===== verification/CMQ_Idempo.thy ===== *)
theory CMQ_Idempo
  imports CMQ_Prelude
begin

text \<open>
  The idempotent-producer table (\<^verbatim>\<open>src/server/cmq_idempo.c\<close>): per producer the highest sequence number seen and
  a window of 64 bits below it. The table is an array of 256 slots with linear probing; every call holds the
  lock, so it is one step.
\<close>

section \<open>Model\<close>

definition CMQ_IDEMPO_MAGIC :: bytes where
  "CMQ_IDEMPO_MAGIC = map byte_of ''CMQI''"

definition CMQ_IDEMPO_HDR_LEN :: nat where "CMQ_IDEMPO_HDR_LEN = 16"
definition CMQ_IDEMPO_PIDS :: nat where "CMQ_IDEMPO_PIDS = 256"
definition CMQ_IDEMPO_WIN :: u64 where "CMQ_IDEMPO_WIN = 64"

record idempo_slot =
  is_pid :: u32
  is_used :: bool
  is_last :: u64
  is_bits :: u64

type_synonym idempo = "idempo_slot list"

definition cmq_idempo_create :: "heap \<Rightarrow> idempo option" where
  "cmq_idempo_create h =
     (if fst (malloc_ok h)
      then Some (replicate CMQ_IDEMPO_PIDS \<lparr>is_pid = 0, is_used = False, is_last = 0, is_bits = 0\<rparr>)
      else None)"

text \<open>The pointer at \<^verbatim>\<open>*t\<close> is an option.\<close>

definition cmq_idempo_reload_attach :: "heap \<Rightarrow> idempo option \<Rightarrow> int \<times> idempo option" where
  "cmq_idempo_reload_attach h t =
     (case t of
        Some _ \<Rightarrow> (0, t)
      | None \<Rightarrow> (case cmq_idempo_create h of None \<Rightarrow> (- 1, t) | Some n \<Rightarrow> (0, Some n)))"

definition cmq_idempo_encode :: "nat \<Rightarrow> u32 \<Rightarrow> u64 \<Rightarrow> bytes option" where
  "cmq_idempo_encode cap pid seq =
     (if cap < CMQ_IDEMPO_HDR_LEN \<or> pid = 0 then None
      else Some (CMQ_IDEMPO_MAGIC @ put_be32 pid @ put_be64 seq))"

definition cmq_idempo_parse :: "bytes \<Rightarrow> (u32 \<times> u64) option" where
  "cmq_idempo_parse hdr =
     (if length hdr < CMQ_IDEMPO_HDR_LEN then None
      else if take 4 hdr \<noteq> CMQ_IDEMPO_MAGIC then None
      else
        (let p = get_be32 (hdr ! 4) (hdr ! 5) (hdr ! 6) (hdr ! 7)
         in if p = 0 then None
            else Some (p, get_be64 (hdr ! 8) (hdr ! 9) (hdr ! 10) (hdr ! 11) (hdr ! 12) (hdr ! 13) (hdr ! 14) (hdr ! 15))))"

text \<open>The probe loop from index \<open>i\<close> on, with the first empty slot met so far.\<close>

definition probe_index :: "u32 \<Rightarrow> nat \<Rightarrow> nat" where
  "probe_index pid i = unat ((pid * 2654435761 + of_nat i) mod of_nat CMQ_IDEMPO_PIDS)"

function idempo_probe :: "idempo \<Rightarrow> u32 \<Rightarrow> bool \<Rightarrow> nat \<Rightarrow> int \<Rightarrow> int" where
  "idempo_probe t pid alloc i hole =
     (if i < CMQ_IDEMPO_PIDS then
        (let idx = probe_index pid i
         in if is_used (t ! idx) \<and> is_pid (t ! idx) = pid then int idx
            else idempo_probe t pid alloc (Suc i) (if \<not> is_used (t ! idx) \<and> hole < 0 then int idx else hole))
      else if alloc \<and> hole \<ge> 0 then hole
      else if alloc then - 2 else - 1)"
  by pat_completeness auto
termination
  by (relation "measure (\<lambda>(t, pid, alloc, i, hole). CMQ_IDEMPO_PIDS - i)") auto

declare idempo_probe.simps [simp del]

definition idempo_find :: "idempo \<Rightarrow> u32 \<Rightarrow> bool \<Rightarrow> int" where
  "idempo_find t pid alloc = idempo_probe t pid alloc 0 (- 1)"

text \<open>What \<^verbatim>\<open>cmq_idempo_check\<close> does to the slot of the producer.\<close>

definition idempo_slot_check :: "idempo_slot \<Rightarrow> u32 \<Rightarrow> u64 \<Rightarrow> int \<times> idempo_slot" where
  "idempo_slot_check s pid seq =
     (if \<not> is_used s then (1, s\<lparr>is_used := True, is_pid := pid, is_last := seq, is_bits := 1\<rparr>)
      else if seq > is_last s then
        (let d = seq - is_last s
         in (1, s\<lparr>is_bits := (if d \<ge> CMQ_IDEMPO_WIN then 1 else push_bit (unat d) (is_bits s) OR 1), is_last := seq\<rparr>))
      else
        (let d = is_last s - seq
         in if d \<ge> CMQ_IDEMPO_WIN then (0, s)
            else
              (let mask = push_bit (unat d) 1
               in if is_bits s AND mask \<noteq> 0 then (0, s) else (1, s\<lparr>is_bits := is_bits s OR mask\<rparr>))))"

definition cmq_idempo_check :: "idempo \<Rightarrow> u32 \<Rightarrow> u64 \<Rightarrow> int \<times> idempo" where
  "cmq_idempo_check t pid seq =
     (if pid = 0 then (- 1, t)
      else
        (let idx = idempo_find t pid True
         in if idx = - 2 then (- 2, t)
            else case idempo_slot_check (t ! nat idx) pid seq of (rc, s) \<Rightarrow> (rc, t[nat idx := s])))"

section \<open>Header round trip\<close>

lemma idempo_parse_encode:
  assumes "cmq_idempo_encode cap pid seq = Some hdr"
  shows "length hdr = CMQ_IDEMPO_HDR_LEN \<and> cmq_idempo_parse (hdr @ rest) = Some (pid, seq)"
  using assms
  by (auto simp: cmq_idempo_encode_def cmq_idempo_parse_def CMQ_IDEMPO_MAGIC_def CMQ_IDEMPO_HDR_LEN_def
      put_be64_def put_be32_def get_be64_def split: if_splits)

text \<open>Conversely, a header that parses is the encoding of what it parses to.\<close>

lemma take_drop_nth: "m + n \<le> length xs \<Longrightarrow> take n (drop m xs) = map ((!) xs) [m ..< m + n]"
  by (intro nth_equalityI) auto

lemma take16: "16 \<le> length xs \<Longrightarrow> take 16 xs = take 4 xs @ map ((!) xs) [4 ..< 16]"
  using take_add [of 4 12 xs] take_drop_nth [of 4 12 xs] by simp

lemma idempo_encode_parse:
  assumes "cmq_idempo_parse hdr = Some (pid, seq)"
  shows "cmq_idempo_encode CMQ_IDEMPO_HDR_LEN pid seq = Some (take CMQ_IDEMPO_HDR_LEN hdr)"
proof -
  have split: "ucast (drop_bit 32 (push_bit 32 (ucast a)) OR drop_bit 32 (ucast b) :: u64) = a"
    "ucast (push_bit 32 (ucast a) OR ucast b :: u64) = b" for a b :: u32
    by (auto intro!: bit_word_eqI simp: bit_simps)
  show ?thesis
    using assms
    by (auto simp: cmq_idempo_encode_def cmq_idempo_parse_def CMQ_IDEMPO_HDR_LEN_def put_be64_def get_be64_def
        Let_def split take16 upt_rec split: if_splits)
qed

section \<open>The slot of a producer\<close>

lemma probe_index_nat: "i < 256 \<Longrightarrow> probe_index pid i = (unat (pid * 2654435761) + i) mod 256"
proof -
  assume i: "i < 256"
  have "probe_index pid i = unat (pid * 2654435761 + of_nat i) mod 256"
    by (simp add: probe_index_def unat_mod_distrib CMQ_IDEMPO_PIDS_def)
  also have "\<dots> = (unat (pid * 2654435761) + i) mod 2 ^ 32 mod 256"
    using i by (simp add: unat_word_ariths(1) unat_of_nat32)
  also have "\<dots> = (unat (pid * 2654435761) + i) mod 256"
    by (rule mod_mod_cancel) simp
  finally show ?thesis .
qed

lemma probe_index_less: "i < 256 \<Longrightarrow> probe_index pid i < 256"
  by (simp add: probe_index_nat)

lemma mod_shift: "j < 256 \<Longrightarrow> (a + (j + (256 - a mod 256)) mod 256) mod 256 = j" for a j :: nat
proof -
  assume j: "j < 256"
  define q r where "q = a div 256" and "r = a mod 256"
  have a: "a = 256 * q + r" "r < 256" by (simp_all add: q_def r_def)
  have "a + (j + (256 - r)) = j + 256 * (q + 1)" using a by simp
  then have "(a + (j + (256 - r))) mod 256 = (j + 256 * (q + 1)) mod 256" by (rule arg_cong)
  also have "\<dots> = j" unfolding mod_mult_self2 using j by (rule mod_less)
  finally show ?thesis unfolding mod_add_right_eq r_def .
qed

lemma probe_index_surj:
  assumes "j < 256"
  obtains i where "i < 256" "probe_index pid i = j"
  using that [of "(j + (256 - unat (pid * 2654435761) mod 256)) mod 256"] mod_shift [OF assms]
  by (simp add: probe_index_nat)

definition owns :: "idempo_slot \<Rightarrow> u32 \<Rightarrow> bool" where
  "owns s pid \<longleftrightarrow> is_used s \<and> is_pid s = pid"

lemma idempo_probe_step:
  assumes "i < 256" "\<not> owns (t ! probe_index pid i) pid"
  shows "idempo_probe t pid True i e =
    idempo_probe t pid True (Suc i) (if \<not> is_used (t ! probe_index pid i) \<and> e < 0 then int (probe_index pid i) else e)"
  using assms unfolding owns_def by (subst idempo_probe.simps) (simp only: CMQ_IDEMPO_PIDS_def Let_def if_True if_False)

lemma idempo_probe_hit:
  "k < 256 \<Longrightarrow> i \<le> k \<Longrightarrow> owns (t ! probe_index pid k) pid \<Longrightarrow>
     \<exists>k' < 256. idempo_probe t pid True i e = int (probe_index pid k') \<and> owns (t ! probe_index pid k') pid"
proof (induction "k - i" arbitrary: i e)
  case 0
  then show ?case
    by (intro exI [of _ i]) (simp add: owns_def idempo_probe.simps [of _ _ _ i] CMQ_IDEMPO_PIDS_def)
next
  case (Suc n)
  then have i: "i < 256" "n = k - Suc i" "Suc i \<le> k" by simp_all
  show ?case
  proof (cases "owns (t ! probe_index pid i) pid")
    case True
    with i show ?thesis
      by (intro exI [of _ i]) (simp add: owns_def idempo_probe.simps [of _ _ _ i] CMQ_IDEMPO_PIDS_def)
  next
    case False
    with i Suc show ?thesis unfolding idempo_probe_step [OF i(1) False] by blast
  qed
qed

lemma idempo_probe_miss:
  "\<forall>k < 256. \<not> owns (t ! probe_index pid k) pid \<Longrightarrow>
     if e \<ge> 0 then idempo_probe t pid True i e = e
     else if \<exists>k. i \<le> k \<and> k < 256 \<and> \<not> is_used (t ! probe_index pid k)
       then \<exists>k < 256. idempo_probe t pid True i e = int (probe_index pid k) \<and> \<not> is_used (t ! probe_index pid k)
     else idempo_probe t pid True i e = - 2"
proof (induction "256 - i" arbitrary: i e)
  case 0
  then show ?case by (simp add: idempo_probe.simps CMQ_IDEMPO_PIDS_def) auto
next
  case (Suc n)
  then have i: "i < 256" "n = 256 - Suc i" by simp_all
  let ?u = "is_used (t ! probe_index pid i)"
  have step: "idempo_probe t pid True i e = idempo_probe t pid True (Suc i) (if \<not> ?u \<and> e < 0 then int (probe_index pid i) else e)"
    using Suc.prems i(1) by (intro idempo_probe_step) simp_all
  note ih = Suc.hyps(1) [OF i(2) Suc.prems]
  show ?case
  proof (cases "\<not> ?u \<and> e < 0")
    case True
    then have "idempo_probe t pid True i e = int (probe_index pid i)"
      using step ih [of "int (probe_index pid i)"] by simp
    moreover have "\<exists>k. i \<le> k \<and> k < 256 \<and> \<not> is_used (t ! probe_index pid k)" using True i by blast
    ultimately show ?thesis using True i(1) by simp blast
  next
    case False
    then have same: "idempo_probe t pid True i e = idempo_probe t pid True (Suc i) e"
      unfolding step by (simp only: False if_False)
    have "(\<exists>k. i \<le> k \<and> k < 256 \<and> \<not> is_used (t ! probe_index pid k)) \<longleftrightarrow>
        (\<exists>k. Suc i \<le> k \<and> k < 256 \<and> \<not> is_used (t ! probe_index pid k))" if "e < 0"
    proof -
      have "k \<noteq> i" if "\<not> is_used (t ! probe_index pid k)" for k using False \<open>e < 0\<close> that by blast
      then have "i \<le> k \<longleftrightarrow> Suc i \<le> k" if "\<not> is_used (t ! probe_index pid k)" for k using that by fastforce
      then show ?thesis by blast
    qed
    then show ?thesis using ih [of e] unfolding same by (cases "e < 0") (simp_all only: not_less [symmetric] if_True if_False not_False_eq_True not_True_eq_False)
  qed
qed

text \<open>
  Searching with allocation finds the slot of the producer if it has one, else a free slot if there is one.
\<close>

lemma idempo_find_cases [case_names hit free full]:
  obtains j where "j < 256" "idempo_find t pid True = int j" "owns (t ! j) pid"
  | j where "j < 256" "idempo_find t pid True = int j" "\<not> is_used (t ! j)" "\<forall>i < 256. \<not> owns (t ! i) pid"
  | "idempo_find t pid True = - 2" "\<forall>i < 256. is_used (t ! i) \<and> \<not> owns (t ! i) pid"
proof (cases "\<exists>j < 256. owns (t ! j) pid")
  case True
  then obtain j k where j: "owns (t ! j) pid" "k < 256" "probe_index pid k = j" by (metis probe_index_surj)
  then obtain k' where "k' < 256" "idempo_find t pid True = int (probe_index pid k')" "owns (t ! probe_index pid k') pid"
    using idempo_probe_hit [of k 0 t pid "- 1"] by (auto simp: idempo_find_def)
  then show thesis by (intro that(1) [of "probe_index pid k'"] probe_index_less)
next
  case no: False
  then have miss: "\<forall>k < 256. \<not> owns (t ! probe_index pid k) pid" using probe_index_less by blast
  show thesis
  proof (cases "\<exists>j < 256. \<not> is_used (t ! j)")
    case True
    then have "\<exists>k. 0 \<le> k \<and> k < 256 \<and> \<not> is_used (t ! probe_index pid k)" by (metis probe_index_surj le0)
    then obtain k where "k < 256" "idempo_find t pid True = int (probe_index pid k)" "\<not> is_used (t ! probe_index pid k)"
      using idempo_probe_miss [OF miss, of "- 1" 0] by (auto simp: idempo_find_def)
    with no show thesis by (intro that(2) [of "probe_index pid k"] probe_index_less) auto
  next
    case False
    then have "\<not> (\<exists>k. 0 \<le> k \<and> k < 256 \<and> \<not> is_used (t ! probe_index pid k))" using probe_index_less by blast
    then have "idempo_find t pid True = - 2"
      using idempo_probe_miss [OF miss, of "- 1" 0] by (simp add: idempo_find_def)
    with no False show thesis by (intro that(3)) auto
  qed
qed

section \<open>The window\<close>

text \<open>
  The window of a producer against the set of its accepted numbers: \<open>is_last\<close> is the largest, and the bit at
  distance \<open>d < 64\<close> below it is set exactly for accepted numbers.
\<close>

definition window_ok :: "u64 set \<Rightarrow> idempo_slot \<Rightarrow> bool" where
  "window_ok A s \<longleftrightarrow>
     is_last s \<in> A \<and> (\<forall>q \<in> A. q \<le> is_last s) \<and>
     (\<forall>q. q \<le> is_last s \<and> unat (is_last s - q) < 64 \<longrightarrow> bit (is_bits s) (unat (is_last s - q)) = (q \<in> A))"

lemma win_iff: "d \<ge> CMQ_IDEMPO_WIN \<longleftrightarrow> \<not> unat d < 64"
  by (simp add: CMQ_IDEMPO_WIN_def word_le_nat_alt not_less)

lemma unat_diff: "q \<le> (p :: u64) \<Longrightarrow> unat (p - q) = unat p - unat q"
  by (rule unat_sub)

lemma bit_mask_word: "(b :: u64) AND 2 ^ n = 0 \<longleftrightarrow> \<not> bit b n"
  by (simp add: bit_iff_and_push_bit_not_eq_0)

lemma window_first: "window_ok {seq} \<lparr>is_pid = p, is_used = True, is_last = seq, is_bits = 1\<rparr>"
proof -
  have "bit (1 :: u64) (unat (seq - q)) = (q = seq)" if "q \<le> seq" for q
    using unat_diff [OF that] that by (auto simp: bit_1_iff word_le_nat_alt word_unat_eq_iff)
  then show ?thesis by (simp add: window_ok_def)
qed

lemma window_advance:
  assumes "window_ok A s" "seq > is_last s"
  shows "window_ok (insert seq A)
    (s\<lparr>is_bits := (if seq - is_last s \<ge> CMQ_IDEMPO_WIN then 1 else push_bit (unat (seq - is_last s)) (is_bits s) OR 1),
       is_last := seq\<rparr>)"
proof -
  let ?d = "unat (seq - is_last s)" and ?l = "is_last s"
  have d: "?d = unat seq - unat ?l" "unat ?l < unat seq"
    using assms(2) unat_diff [OF less_imp_le [OF assms(2)]] by (simp_all add: word_less_nat_alt)
  have "bit (if seq - ?l \<ge> CMQ_IDEMPO_WIN then 1 else push_bit ?d (is_bits s) OR 1) (unat (seq - q)) = (q \<in> insert seq A)"
    if q: "q \<le> seq" "unat (seq - q) < 64" for q
  proof -
    note dq = unat_diff [OF q(1)]
    have eq: "unat (seq - q) = 0 \<longleftrightarrow> q = seq"
      using dq q(1) by (auto simp: word_le_nat_alt word_unat_eq_iff)
    show ?thesis
    proof (cases "q \<le> ?l")
      case True
      then have dl: "unat (?l - q) = unat ?l - unat q" by (rule unat_diff)
      have "unat (seq - q) = ?d + unat (?l - q)" and ne: "q \<noteq> seq"
        using d dl dq True q(1) by (auto simp: word_le_nat_alt)
      then show ?thesis
        using assms(1) True q(2) eq
        by (auto simp: window_ok_def win_iff bit_simps)
    next
      case False
      then have "q \<notin> A" and "unat (seq - q) < ?d"
        using assms(1) d dq q(1) by (auto simp: window_ok_def word_le_nat_alt)
      with eq q(2) show ?thesis by (auto simp: bit_simps)
    qed
  qed
  moreover have "\<forall>q \<in> insert seq A. q \<le> seq" using assms by (fastforce simp: window_ok_def)
  ultimately show ?thesis by (simp add: window_ok_def)
qed

lemma window_fill:
  assumes "window_ok A s" "seq \<le> is_last s" "unat (is_last s - seq) < 64"
  shows "window_ok (insert seq A) (s\<lparr>is_bits := is_bits s OR push_bit (unat (is_last s - seq)) 1\<rparr>)"
proof -
  let ?l = "is_last s"
  have "bit (is_bits s OR push_bit (unat (?l - seq)) 1) (unat (?l - q)) = (q \<in> insert seq A)"
    if q: "q \<le> ?l" "unat (?l - q) < 64" for q
  proof -
    have "unat (?l - q) = unat (?l - seq) \<longleftrightarrow> q = seq"
      using unat_diff [OF q(1)] unat_diff [OF assms(2)] q(1) assms(2)
      by (auto simp: word_le_nat_alt word_unat_eq_iff)
    with q assms(1) show ?thesis by (auto simp: window_ok_def bit_simps)
  qed
  then show ?thesis using assms by (simp add: window_ok_def)
qed

definition fresh :: "u64 set \<Rightarrow> u64 \<Rightarrow> u64 \<Rightarrow> bool" where
  "fresh A l seq \<longleftrightarrow> seq > l \<or> (l - seq < 64 \<and> seq \<notin> A)"

lemma slot_check_used:
  assumes "window_ok A s" "is_used s"
  shows "\<exists>s'. idempo_slot_check s pid seq = (if fresh A (is_last s) seq then 1 else 0, s') \<and>
    is_used s' \<and> is_pid s' = is_pid s \<and>
    (if fresh A (is_last s) seq then window_ok (insert seq A) s' else s' = s)"
proof (cases "seq > is_last s")
  case True
  then show ?thesis
    using window_advance [OF assms(1) True] assms(2)
    by (simp add: idempo_slot_check_def fresh_def Let_def)
next
  case False
  then have le: "seq \<le> is_last s" by simp
  show ?thesis
  proof (cases "unat (is_last s - seq) < 64")
    case True
    then have "is_last s - seq < 64" by (simp add: word_less_nat_alt)
    moreover have "bit (is_bits s) (unat (is_last s - seq)) = (seq \<in> A)"
      using assms(1) le True by (simp add: window_ok_def)
    ultimately show ?thesis
      using False True assms window_fill [OF assms(1) le True]
      by (simp add: idempo_slot_check_def fresh_def Let_def win_iff bit_mask_word)
  next
    case no: False
    then have "\<not> is_last s - seq < 64" by (simp add: word_less_nat_alt)
    then show ?thesis
      using False no assms by (simp add: idempo_slot_check_def fresh_def Let_def win_iff)
  qed
qed

section \<open>The table against the accepted numbers\<close>

abbreviation seqs :: "(u32 \<times> u64) set \<Rightarrow> u32 \<Rightarrow> u64 set" where
  "seqs A pid \<equiv> {q. (pid, q) \<in> A}"

definition idempo_used :: "idempo \<Rightarrow> nat set" where
  "idempo_used t = {i. i < 256 \<and> is_used (t ! i)}"

definition idempo_inv :: "idempo \<Rightarrow> (u32 \<times> u64) set \<Rightarrow> bool" where
  "idempo_inv t A \<longleftrightarrow>
     length t = 256 \<and> inj_on (\<lambda>i. is_pid (t ! i)) (idempo_used t) \<and>
     fst ` A = (\<lambda>i. is_pid (t ! i)) ` idempo_used t \<and>
     (\<forall>i \<in> idempo_used t. window_ok (seqs A (is_pid (t ! i))) (t ! i))"

lemma idempo_create_inv: "cmq_idempo_create h = Some t \<Longrightarrow> idempo_inv t {}"
proof -
  assume t: "cmq_idempo_create h = Some t"
  then have "idempo_used t = {}"
    by (auto simp: cmq_idempo_create_def idempo_used_def CMQ_IDEMPO_PIDS_def split: if_splits)
  with t show ?thesis by (auto simp: cmq_idempo_create_def idempo_inv_def CMQ_IDEMPO_PIDS_def split: if_splits)
qed

lemma idempo_pids: "idempo_inv t A \<Longrightarrow> card (fst ` A) = card (idempo_used t)"
  by (simp add: idempo_inv_def card_image)

lemma idempo_used_finite [simp]: "finite (idempo_used t)"
  by (simp add: idempo_used_def)

lemma owns_used: "j < 256 \<Longrightarrow> owns (t ! j) pid \<longleftrightarrow> j \<in> idempo_used t \<and> is_pid (t ! j) = pid"
  by (simp add: owns_def idempo_used_def)

lemma no_owner: "idempo_inv t A \<Longrightarrow> \<forall>i < 256. \<not> owns (t ! i) pid \<Longrightarrow> pid \<notin> fst ` A"
proof
  assume inv: "idempo_inv t A" and no: "\<forall>i < 256. \<not> owns (t ! i) pid" and "pid \<in> fst ` A"
  then have "pid \<in> (\<lambda>i. is_pid (t ! i)) ` idempo_used t" by (simp add: idempo_inv_def)
  with no show False by (auto simp: owns_def idempo_used_def)
qed

lemma window_Max: "window_ok A s \<Longrightarrow> Max A = is_last s"
  by (auto simp: window_ok_def intro!: Max_eqI)

text \<open>What the table decides, from the accepted numbers alone.\<close>

definition idempo_decide :: "(u32 \<times> u64) set \<Rightarrow> u32 \<Rightarrow> u64 \<Rightarrow> int" where
  "idempo_decide A pid seq =
     (if pid = 0 then - 1
      else if pid \<in> fst ` A then (if fresh (seqs A pid) (Max (seqs A pid)) seq then 1 else 0)
      else if card (fst ` A) < 256 then 1 else - 2)"

lemma idempo_update_same:
  assumes "idempo_inv t A" "j \<in> idempo_used t" "is_used s" "is_pid s = is_pid (t ! j)"
    and "window_ok (insert seq (seqs A (is_pid s))) s"
  shows "idempo_inv (t[j := s]) (insert (is_pid s, seq) A)"
proof -
  have l: "length t = 256" and j: "j < 256" using assms by (simp_all add: idempo_inv_def idempo_used_def)
  have used: "idempo_used (t[j := s]) = idempo_used t"
    using assms(2,3) l j by (auto simp: idempo_used_def nth_list_update)
  have pid: "is_pid (t[j := s] ! i) = is_pid (t ! i)" for i
    using assms(4) l j by (cases "i = j") simp_all
  have "window_ok (seqs (insert (is_pid s, seq) A) (is_pid (t[j := s] ! i))) (t[j := s] ! i)" if i: "i \<in> idempo_used t" for i
  proof (cases "i = j")
    case True
    have "seqs (insert (is_pid s, seq) A) (is_pid s) = insert seq (seqs A (is_pid s))" by auto
    with True l j assms(5) show ?thesis by simp
  next
    case False
    then have "is_pid (t ! i) \<noteq> is_pid s" using assms(1,2,4) i by (auto simp: idempo_inv_def dest: inj_onD)
    then have "seqs (insert (is_pid s, seq) A) (is_pid (t ! i)) = seqs A (is_pid (t ! i))" by auto
    with False assms(1) i show ?thesis by (simp add: idempo_inv_def)
  qed
  moreover have "is_pid s \<in> fst ` A" using assms(1,2,4) by (simp add: idempo_inv_def)
  ultimately show ?thesis
    using assms(1) l by (simp add: idempo_inv_def used pid insert_absorb)
qed

lemma idempo_update_new:
  assumes "idempo_inv t A" "j < 256" "\<not> is_used (t ! j)" "pid \<notin> fst ` A"
    and s: "s = \<lparr>is_pid = pid, is_used = True, is_last = seq, is_bits = 1\<rparr>"
  shows "idempo_inv (t[j := s]) (insert (pid, seq) A)"
proof -
  have l: "length t = 256" using assms by (simp add: idempo_inv_def)
  have used: "idempo_used (t[j := s]) = insert j (idempo_used t)" "j \<notin> idempo_used t"
    using assms(2,3) l by (auto simp: idempo_used_def nth_list_update s)
  have pid: "is_pid (t[j := s] ! i) = is_pid (t ! i)" "t[j := s] ! i = t ! i" if "i \<in> idempo_used t" for i
    using that used(2) by (metis nth_list_update_neq)+
  have at: "t[j := s] ! j = s" using l assms(2) by simp
  have none: "is_pid (t ! i) \<noteq> pid" if "i \<in> idempo_used t" for i
    using assms(1,4) that by (auto simp: idempo_inv_def)
  have inj: "inj_on (\<lambda>i. is_pid (t[j := s] ! i)) (insert j (idempo_used t))"
    using assms(1) none pid(1) at by (auto simp: idempo_inv_def inj_on_def s)
  have "seqs (insert (pid, seq) A) pid = {seq}" using assms(4) by force
  then have "window_ok (seqs (insert (pid, seq) A) (is_pid s)) s" by (simp add: s window_first)
  moreover have "window_ok (seqs (insert (pid, seq) A) (is_pid (t ! i))) (t ! i)" if "i \<in> idempo_used t" for i
    using assms(1) that none [OF that] by (auto simp: idempo_inv_def)
  ultimately have "\<forall>i \<in> insert j (idempo_used t). window_ok (seqs (insert (pid, seq) A) (is_pid (t[j := s] ! i))) (t[j := s] ! i)"
    using at pid(2) by simp
  moreover have "fst ` insert (pid, seq) A = (\<lambda>i. is_pid (t[j := s] ! i)) ` insert j (idempo_used t)"
    using assms(1) at pid(1) by (simp add: idempo_inv_def s)
  ultimately show ?thesis using inj l by (simp add: idempo_inv_def used(1))
qed

lemma idempo_check_spec:
  assumes "idempo_inv t A" "cmq_idempo_check t pid seq = (rc, t')"
  shows "rc = idempo_decide A pid seq \<and> (if rc = 1 then idempo_inv t' (insert (pid, seq) A) else t' = t)"
proof (cases "pid = 0")
  case True
  with assms(2) show ?thesis by (simp add: cmq_idempo_check_def idempo_decide_def)
next
  case pid: False
  have l: "length t = 256" using assms(1) by (simp add: idempo_inv_def)
  show ?thesis
  proof (cases rule: idempo_find_cases [of t pid])
    case (hit j)
    then have j: "j \<in> idempo_used t" "is_pid (t ! j) = pid" by (simp_all add: owns_used)
    have w: "window_ok (seqs A pid) (t ! j)" using assms(1) j by (auto simp: idempo_inv_def)
    have mem: "pid \<in> fst ` A" using assms(1) j by (auto simp: idempo_inv_def)
    obtain s' where s': "idempo_slot_check (t ! j) pid seq = (if fresh (seqs A pid) (is_last (t ! j)) seq then 1 else 0, s')"
      "is_used s'" "is_pid s' = pid"
      "if fresh (seqs A pid) (is_last (t ! j)) seq then window_ok (insert seq (seqs A pid)) s' else s' = t ! j"
      using slot_check_used [OF w, of pid seq] j by (auto simp: idempo_used_def)
    have "rc = (if fresh (seqs A pid) (is_last (t ! j)) seq then 1 else 0)" "t' = t[j := s']"
      using assms(2) pid hit(2) s'(1) by (simp_all add: cmq_idempo_check_def)
    moreover have "idempo_decide A pid seq = (if fresh (seqs A pid) (is_last (t ! j)) seq then 1 else 0)"
      using pid mem window_Max [OF w] by (simp add: idempo_decide_def)
    ultimately show ?thesis
      using idempo_update_same [OF assms(1) j(1) s'(2), of seq] s' j(2) by (auto split: if_splits)
  next
    case (free j)
    then have none: "pid \<notin> fst ` A" using assms(1) no_owner by blast
    have "idempo_used t \<subseteq> {..<256} - {j}" using free(3) by (auto simp: idempo_used_def)
    then have "card (idempo_used t) \<le> card ({..<256} - {j})" by (intro card_mono) simp_all
    then have "card (fst ` A) < 256" using free(1) idempo_pids [OF assms(1)] by simp
    moreover have "rc = 1" "t' = t[j := \<lparr>is_pid = pid, is_used = True, is_last = seq, is_bits = 1\<rparr>]"
      using assms(2) pid free(2,3) by (auto simp: cmq_idempo_check_def idempo_slot_check_def intro!: arg_cong [where f = "list_update t j"])
    ultimately show ?thesis
      using idempo_update_new [OF assms(1) free(1,3) none refl] none pid by (simp add: idempo_decide_def)
  next
    case full
    then have none: "pid \<notin> fst ` A" using no_owner [OF assms(1)] by blast
    have "idempo_used t = {..<256}" using full(2) by (auto simp: idempo_used_def)
    then have "card (fst ` A) = 256" using idempo_pids [OF assms(1)] by simp
    with none pid full(1) assms(2) show ?thesis by (simp add: cmq_idempo_check_def idempo_decide_def)
  qed
qed

section \<open>Properties\<close>

text \<open>A run of checks, with the pairs it accepted in order.\<close>

fun idempo_run :: "(u32 \<times> u64) list \<Rightarrow> idempo \<Rightarrow> (u32 \<times> u64) list \<times> idempo" where
  "idempo_run [] t = ([], t)"
| "idempo_run ((pid, seq) # es) t =
     (case cmq_idempo_check t pid seq of
        (rc, t1) \<Rightarrow>
          (case idempo_run es t1 of (acc, t2) \<Rightarrow> (if rc = 1 then (pid, seq) # acc else acc, t2)))"

lemma idempo_accepts_new:
  "idempo_inv t A \<Longrightarrow> cmq_idempo_check t pid seq = (1, t') \<Longrightarrow> (pid, seq) \<notin> A"
proof -
  assume inv: "idempo_inv t A" and c: "cmq_idempo_check t pid seq = (1, t')"
  from idempo_check_spec [OF inv c] have one: "idempo_decide A pid seq = 1" by simp
  show "(pid, seq) \<notin> A"
  proof
    assume m: "(pid, seq) \<in> A"
    then have p: "pid \<in> fst ` A" by force
    then obtain i where i: "i \<in> idempo_used t" "is_pid (t ! i) = pid" using inv by (auto simp: idempo_inv_def)
    then have w: "window_ok (seqs A pid) (t ! i)" using inv by (auto simp: idempo_inv_def)
    then have "seq \<le> is_last (t ! i)" using m by (simp add: window_ok_def)
    then have "\<not> fresh (seqs A pid) (Max (seqs A pid)) seq" using m window_Max [OF w] by (simp add: fresh_def)
    with one p show False by (simp add: idempo_decide_def split: if_splits)
  qed
qed

lemma idempo_run_inv:
  "idempo_inv t A \<Longrightarrow> idempo_run es t = (acc, t') \<Longrightarrow>
     idempo_inv t' (A \<union> set acc) \<and> distinct acc \<and> set acc \<inter> A = {}"
proof (induction es arbitrary: t A acc t')
  case Nil
  then show ?case by simp
next
  case (Cons e es)
  obtain pid seq where e: "e = (pid, seq)" by (cases e)
  obtain rc t1 where c: "cmq_idempo_check t pid seq = (rc, t1)" by (cases "cmq_idempo_check t pid seq")
  obtain acc1 t2 where r: "idempo_run es t1 = (acc1, t2)" by (cases "idempo_run es t1")
  note s = idempo_check_spec [OF Cons.prems(1) c]
  show ?case
  proof (cases "rc = 1")
    case True
    with s have "idempo_inv t1 (insert (pid, seq) A)" by simp
    from Cons.IH [OF this r] True Cons.prems c r e idempo_accepts_new [of t A pid seq t1] show ?thesis by auto
  next
    case False
    with s have "t1 = t" by simp
    with Cons.IH [OF _ r, of A] False Cons.prems c r e show ?thesis by auto
  qed
qed

lemma idempo_reach:
  assumes "cmq_idempo_create h = Some t0" "idempo_run es t0 = (acc, t)"
  shows "idempo_inv t (set acc)" "distinct acc"
  using idempo_run_inv [OF idempo_create_inv [OF assms(1)] assms(2)] by simp_all

text \<open>
  C11. Exactly-once decision: after any run of checks the answer is a function of the pairs accepted so far.
  A producer seen before is answered 1 for numbers above all its accepted ones and for numbers less than 64 below
  the largest that were not accepted, else 0; a new producer is answered 1 while fewer than 256 are known
  and -2 after that. No pair is ever accepted twice.
\<close>

theorem idempo_exactly_once:
  assumes "cmq_idempo_create h = Some t0" "idempo_run es t0 = (acc, t)"
  shows "fst (cmq_idempo_check t pid seq) = idempo_decide (set acc) pid seq \<and> distinct acc"
  using idempo_check_spec [OF idempo_reach(1) [OF assms] prod.collapse [symmetric]] idempo_reach(2) [OF assms] by simp

theorem idempo_exactly_once_witness:
  "\<exists>t0. cmq_idempo_create [] = Some t0 \<and> fst (cmq_idempo_check t0 5 100) = 1"
proof -
  obtain t0 where t0: "cmq_idempo_create [] = Some t0" by (simp add: cmq_idempo_create_def)
  have "idempo_decide (set []) 5 100 = 1" by (simp add: idempo_decide_def)
  with idempo_exactly_once [OF t0, of "[]" "[]" t0 5 100] t0 show ?thesis by simp
qed

text \<open>
  The 16-byte header and the pair it carries determine each other: a header the encoder writes parses to
  its producer and number, whatever follows it, and a header that parses is, up to its first 16 bytes, the encoding
  of the result. Both refuse producer 0.
\<close>

theorem idempo_header_roundtrip:
  "(cmq_idempo_encode cap pid seq = Some hdr \<longrightarrow> cmq_idempo_parse (hdr @ rest) = Some (pid, seq)) \<and>
   (cmq_idempo_parse buf = Some (p, q) \<longrightarrow> p \<noteq> 0 \<and> cmq_idempo_encode CMQ_IDEMPO_HDR_LEN p q = Some (take CMQ_IDEMPO_HDR_LEN buf))"
  using idempo_parse_encode [of cap pid seq hdr rest] idempo_encode_parse [of buf p q]
  by (auto simp: cmq_idempo_parse_def Let_def split: if_splits)

theorem idempo_header_roundtrip_witness:
  "\<exists>hdr. cmq_idempo_encode 16 7 9 = Some hdr \<and> cmq_idempo_parse (hdr @ [1]) = Some (7, 9)"
proof -
  obtain hdr where h: "cmq_idempo_encode 16 7 9 = Some hdr" by (simp add: cmq_idempo_encode_def CMQ_IDEMPO_HDR_LEN_def)
  with idempo_header_roundtrip [of 16 7 9 hdr "[1]"] show ?thesis by blast
qed

end
