(* ===== verification/CMQ_Limits.thy ===== *)
theory CMQ_Limits
  imports CMQ_Prelude
begin

text \<open>
  The two fixed-window limiters: messages per subject (\<^verbatim>\<open>src/server/cmq_subject_rl.c\<close>) and messages, bytes and
  connections per account (\<^verbatim>\<open>src/enterprise/cmq_quota.c\<close>). Both keep their counters in a fixed table searched by
  bounded linear probing from an FNV-1a hash. A call is one step: its compare-and-swap loops are taken to succeed
  at once, so the theorems are about calls that do not overlap. \<^verbatim>\<open>now\<close> is the monotonic clock in milliseconds.
\<close>

section \<open>Probing\<close>

definition fnv1a :: "string \<Rightarrow> nat \<Rightarrow> u64" where
  "fnv1a s max_len = foldl (\<lambda>h c. (h XOR ucast (byte_of c)) * 0x100000001b3) 0xcbf29ce484222325 (take max_len s)"

datatype probe = Hit nat | Claim nat | Exhausted

text \<open>
  Along the positions: an empty key whose counter is 0 is claimed, one whose counter is not 0 is skipped, a key
  equal in its first 255 characters is a hit, any other is skipped.
\<close>

fun probe_slots :: "(nat \<Rightarrow> string) \<Rightarrow> (nat \<Rightarrow> nat) \<Rightarrow> nat list \<Rightarrow> string \<Rightarrow> probe" where
  "probe_slots key cnt [] s = Exhausted"
| "probe_slots key cnt (i # is) s =
     (if key i = [] then (if cnt i = 0 then Claim i else probe_slots key cnt is s)
      else if \<not> strncmp_eq 255 (key i) s then probe_slots key cnt is s
      else Hit i)"

text \<open>The difference of two readings of the clock, as the unsigned subtraction computes it.\<close>

definition elapsed :: "nat \<Rightarrow> nat \<Rightarrow> nat" where
  "elapsed now w = (now + 2 ^ 64 - w) mod 2 ^ 64"

lemma elapsed_simp [simp]: "w \<le> now \<Longrightarrow> now < 2 ^ 64 \<Longrightarrow> elapsed now w = now - w"
proof -
  assume *: "w \<le> now" "now < 2 ^ 64"
  then have "now + 2 ^ 64 - w = (now - w) + 2 ^ 64" by simp
  then have "elapsed now w = (now - w) mod 2 ^ 64" unfolding elapsed_def by (simp only: mod_add_self2)
  also have "\<dots> = now - w" using * by (intro mod_less) linarith
  finally show ?thesis .
qed

section \<open>Messages per subject\<close>

definition CMQ_SUBJECT_RL_SLOTS :: nat where "CMQ_SUBJECT_RL_SLOTS = 4096"
definition CMQ_SUBJECT_RL_MAX_PROBE :: nat where "CMQ_SUBJECT_RL_MAX_PROBE = 32"
definition CMQ_SUBJECT_RL_KEY_MAX :: nat where "CMQ_SUBJECT_RL_KEY_MAX = 255"

record subject_slot =
  ss_key :: string
  ss_window_start_ms :: nat
  ss_count :: nat

record subject_rl =
  rl_max_per_sec :: nat
  rl_slots :: "subject_slot list"

definition cmq_subject_rl_create :: "heap \<Rightarrow> nat \<Rightarrow> subject_rl option" where
  "cmq_subject_rl_create h max_msgs_per_sec =
     (if fst (malloc_ok h)
      then Some \<lparr>rl_max_per_sec = max_msgs_per_sec,
                 rl_slots = replicate CMQ_SUBJECT_RL_SLOTS \<lparr>ss_key = [], ss_window_start_ms = 0, ss_count = 0\<rparr>\<rparr>
      else None)"

definition cmq_subject_rl_limit :: "subject_rl option \<Rightarrow> nat" where
  "cmq_subject_rl_limit rl = (case rl of Some r \<Rightarrow> rl_max_per_sec r | None \<Rightarrow> 0)"

definition cmq_subject_rl_reload :: "heap \<Rightarrow> subject_rl option \<Rightarrow> int \<Rightarrow> int \<times> subject_rl option" where
  "cmq_subject_rl_reload h rl m =
     (if m < 0 \<or> m > 1000000 then (- 1, rl)
      else if m = 0 then (0, rl)
      else case rl of
        None \<Rightarrow> (case cmq_subject_rl_create h (nat m) of None \<Rightarrow> (- 1, None) | Some r \<Rightarrow> (0, Some r))
      | Some r \<Rightarrow> (0, Some (r\<lparr>rl_max_per_sec := nat m\<rparr>)))"

definition rl_positions :: "string \<Rightarrow> nat list" where
  "rl_positions s =
     (let idx = unat (fnv1a s CMQ_SUBJECT_RL_KEY_MAX mod of_nat CMQ_SUBJECT_RL_SLOTS)
      in map (\<lambda>p. (idx + p) mod CMQ_SUBJECT_RL_SLOTS) [0 ..< CMQ_SUBJECT_RL_MAX_PROBE])"

definition rl_probe :: "subject_rl \<Rightarrow> string \<Rightarrow> probe" where
  "rl_probe rl s =
     probe_slots (\<lambda>i. ss_key (rl_slots rl ! i)) (\<lambda>i. ss_count (rl_slots rl ! i)) (rl_positions s) s"

text \<open>A hit: restart an expired window, then count the message if the window has room.\<close>

definition rl_window :: "nat \<Rightarrow> nat \<Rightarrow> subject_slot \<Rightarrow> bool \<times> subject_slot" where
  "rl_window limit now s =
     (let s = (if elapsed now (ss_window_start_ms s) \<ge> 1000
               then s\<lparr>ss_window_start_ms := now, ss_count := 0\<rparr> else s)
      in if ss_count s < limit then (True, s\<lparr>ss_count := ss_count s + 1\<rparr>) else (False, s))"

definition cmq_subject_rl_check :: "nat \<Rightarrow> subject_rl \<Rightarrow> string \<Rightarrow> bool \<times> subject_rl" where
  "cmq_subject_rl_check now rl subject =
     (if rl_max_per_sec rl = 0 then (True, rl)
      else case rl_probe rl subject of
        Claim i \<Rightarrow>
          (True, rl\<lparr>rl_slots := (rl_slots rl)[i :=
             \<lparr>ss_key = take (strnlen subject CMQ_SUBJECT_RL_KEY_MAX) subject, ss_window_start_ms = now, ss_count = 1\<rparr>]\<rparr>)
      | Hit i \<Rightarrow>
          (case rl_window (rl_max_per_sec rl) now (rl_slots rl ! i) of
             (ok, s) \<Rightarrow> (ok, rl\<lparr>rl_slots := (rl_slots rl)[i := s]\<rparr>))
      | Exhausted \<Rightarrow> (True, rl))"

section \<open>Quotas per account\<close>

definition CMQ_QUOTA_SLOTS :: nat where "CMQ_QUOTA_SLOTS = 1024"
definition CMQ_QUOTA_MAX_PROBE :: nat where "CMQ_QUOTA_MAX_PROBE = 16"
definition CMQ_QUOTA_KEY_MAX :: nat where "CMQ_QUOTA_KEY_MAX = 255"

record quota_slot =
  qs_account :: string
  qs_window_start_ms :: nat
  qs_msgs :: nat
  qs_bytes :: nat
  qs_connects :: nat

record quota =
  qt_max_msgs :: nat
  qt_max_bytes :: nat
  qt_max_connects :: nat
  qt_slots :: "quota_slot list"

definition cmq_quota_create :: "heap \<Rightarrow> nat \<Rightarrow> nat \<Rightarrow> nat \<Rightarrow> quota option" where
  "cmq_quota_create h max_msgs max_bytes max_connects =
     (if fst (malloc_ok h)
      then Some \<lparr>qt_max_msgs = max_msgs, qt_max_bytes = max_bytes, qt_max_connects = max_connects,
                 qt_slots = replicate CMQ_QUOTA_SLOTS
                   \<lparr>qs_account = [], qs_window_start_ms = 0, qs_msgs = 0, qs_bytes = 0, qs_connects = 0\<rparr>\<rparr>
      else None)"

definition cmq_quota_max_msgs :: "quota option \<Rightarrow> nat" where
  "cmq_quota_max_msgs q = (case q of Some q \<Rightarrow> qt_max_msgs q | None \<Rightarrow> 0)"

definition cmq_quota_max_bytes :: "quota option \<Rightarrow> nat" where
  "cmq_quota_max_bytes q = (case q of Some q \<Rightarrow> qt_max_bytes q | None \<Rightarrow> 0)"

definition cmq_quota_max_connects :: "quota option \<Rightarrow> nat" where
  "cmq_quota_max_connects q = (case q of Some q \<Rightarrow> qt_max_connects q | None \<Rightarrow> 0)"

definition cmq_quota_reload :: "heap \<Rightarrow> quota option \<Rightarrow> int \<Rightarrow> int \<Rightarrow> int \<Rightarrow> int \<times> quota option" where
  "cmq_quota_reload h q msgs bytes conns =
     (if msgs < 0 \<or> msgs > 10000000 then (- 1, q)
      else if bytes < 0 \<or> bytes > 1073741824 then (- 1, q)
      else if conns < 0 \<or> conns > 1000000 then (- 1, q)
      else if msgs = 0 \<and> bytes = 0 \<and> conns = 0 then (0, q)
      else case q of
        None \<Rightarrow> (case cmq_quota_create h (nat msgs) (nat bytes) (nat conns) of
                   None \<Rightarrow> (- 1, None) | Some q \<Rightarrow> (0, Some q))
      | Some q \<Rightarrow>
          (let q = (if msgs > 0 then q\<lparr>qt_max_msgs := nat msgs\<rparr> else q);
               q = (if bytes > 0 then q\<lparr>qt_max_bytes := nat bytes\<rparr> else q);
               q = (if conns > 0 then q\<lparr>qt_max_connects := nat conns\<rparr> else q)
           in (0, Some q)))"

definition quota_positions :: "string \<Rightarrow> nat list" where
  "quota_positions s =
     (let idx = unat (fnv1a s CMQ_QUOTA_KEY_MAX mod of_nat CMQ_QUOTA_SLOTS)
      in map (\<lambda>p. (idx + p) mod CMQ_QUOTA_SLOTS) [0 ..< CMQ_QUOTA_MAX_PROBE])"

definition quota_probe :: "quota \<Rightarrow> string \<Rightarrow> probe" where
  "quota_probe q acc =
     probe_slots (\<lambda>i. qs_account (qt_slots q ! i)) (\<lambda>i. qs_msgs (qt_slots q ! i)) (quota_positions acc) acc"

text \<open>The slot of the account, claimed if need be; \<open>None\<close> when the probe runs out.\<close>

definition find_or_claim :: "nat \<Rightarrow> quota \<Rightarrow> string \<Rightarrow> nat option \<times> quota" where
  "find_or_claim now q acc =
     (case quota_probe q acc of
        Claim i \<Rightarrow>
          (Some i, q\<lparr>qt_slots := (qt_slots q)[i := (qt_slots q ! i)
             \<lparr>qs_account := take (strnlen acc CMQ_QUOTA_KEY_MAX) acc, qs_window_start_ms := now\<rparr>]\<rparr>)
      | Hit i \<Rightarrow> (Some i, q)
      | Exhausted \<Rightarrow> (None, q))"

definition quota_publish_slot :: "quota \<Rightarrow> nat \<Rightarrow> nat \<Rightarrow> quota_slot \<Rightarrow> bool \<times> quota_slot" where
  "quota_publish_slot q now msg_len s =
     (let s = (if elapsed now (qs_window_start_ms s) \<ge> 1000
               then s\<lparr>qs_window_start_ms := now, qs_msgs := 0, qs_bytes := 0\<rparr> else s)
      in if qs_msgs s < qt_max_msgs q then (True, s\<lparr>qs_msgs := qs_msgs s + 1\<rparr>)
         else if qt_max_msgs q > 0 then (False, s)
         else if qt_max_bytes q > 0 then
           (if wrap64 (qs_bytes s + msg_len) \<le> qt_max_bytes q
            then (True, s\<lparr>qs_bytes := wrap64 (qs_bytes s + msg_len)\<rparr>) else (False, s))
         else (True, s))"

text \<open>The two readings of the clock in one call are taken to agree.\<close>

definition cmq_quota_check_publish :: "nat \<Rightarrow> quota \<Rightarrow> string \<Rightarrow> nat \<Rightarrow> bool \<times> quota" where
  "cmq_quota_check_publish now q account msg_len =
     (if qt_max_msgs q = 0 \<and> qt_max_bytes q = 0 then (True, q)
      else case find_or_claim now q account of
        (None, q) \<Rightarrow> (True, q)
      | (Some i, q) \<Rightarrow>
          (case quota_publish_slot q now msg_len (qt_slots q ! i) of
             (ok, s) \<Rightarrow> (ok, q\<lparr>qt_slots := (qt_slots q)[i := s]\<rparr>)))"

definition quota_connect_slot :: "quota \<Rightarrow> nat \<Rightarrow> quota_slot \<Rightarrow> bool \<times> quota_slot" where
  "quota_connect_slot q now s =
     (let s = (if elapsed now (qs_window_start_ms s) \<ge> 1000
               then s\<lparr>qs_window_start_ms := now, qs_connects := 0\<rparr> else s)
      in if qs_connects s < qt_max_connects q then (True, s\<lparr>qs_connects := qs_connects s + 1\<rparr>)
         else (False, s))"

definition cmq_quota_check_connect :: "nat \<Rightarrow> quota \<Rightarrow> string \<Rightarrow> bool \<times> quota" where
  "cmq_quota_check_connect now q account =
     (if qt_max_connects q = 0 then (True, q)
      else case find_or_claim now q account of
        (None, q) \<Rightarrow> (True, q)
      | (Some i, q) \<Rightarrow>
          (case quota_connect_slot q now (qt_slots q ! i) of
             (ok, s) \<Rightarrow> (ok, q\<lparr>qt_slots := (qt_slots q)[i := s]\<rparr>)))"

section \<open>Probing is stable\<close>

lemma probe_hit_stable:
  assumes "\<And>j. j \<in> set is \<Longrightarrow> key j \<noteq> [] \<Longrightarrow> key' j = key j"
    and "\<And>j. j \<in> set is \<Longrightarrow> key j = [] \<Longrightarrow> cnt j \<noteq> 0 \<Longrightarrow> key' j = [] \<and> cnt' j \<noteq> 0"
  shows "probe_slots key cnt is s = Hit i \<Longrightarrow> probe_slots key' cnt' is s = Hit i"
    and "probe_slots key cnt is s = Exhausted \<Longrightarrow> probe_slots key' cnt' is s = Exhausted"
  using assms by (induction "is") (auto split: if_splits)

lemma probe_hit_key:
  "probe_slots key cnt is s = Hit i \<Longrightarrow> i \<in> set is \<and> key i \<noteq> [] \<and> strncmp_eq 255 (key i) s"
  by (induction "is") (auto split: if_splits)

lemma probe_claim_key:
  "probe_slots key cnt is s = Claim i \<Longrightarrow> i \<in> set is \<and> key i = [] \<and> cnt i = 0"
  by (induction "is") (auto split: if_splits)

lemma probe_after_claim:
  assumes "probe_slots key cnt is s = Claim i" "k \<noteq> []" "strncmp_eq 255 k s"
  shows "probe_slots (key(i := k)) (cnt(i := c)) is s = Hit i"
  using assms by (induction "is") (auto split: if_splits)

lemma probe_same_key: "take 255 s = take 255 s' \<Longrightarrow> probe_slots key cnt is s = probe_slots key cnt is s'"
  by (induction "is") (auto simp: strncmp_eq_def)

lemma probe_cong:
  "\<forall>j \<in> set is. key j = key' j \<and> cnt j = cnt' j \<Longrightarrow> probe_slots key cnt is s = probe_slots key' cnt' is s"
  by (induction "is") auto

section \<open>Fixed windows\<close>

text \<open>
  The admissions of one slot, each with the start of its window: windows do not overlap, and each admits
  at most \<open>m\<close>. \<open>w\<close> and \<open>c\<close> are the current window and its counter.
\<close>

definition win_log :: "nat \<Rightarrow> nat \<Rightarrow> nat \<Rightarrow> nat \<Rightarrow> (nat \<times> nat) list \<Rightarrow> bool" where
  "win_log m w c now L \<longleftrightarrow>
     w \<le> now \<and> length (filter (\<lambda>e. fst e = w) L) \<le> c \<and> c \<le> m \<and>
     (\<forall>v. length (filter (\<lambda>e. fst e = v) L) \<le> m) \<and>
     (\<forall>e \<in> set L. fst e \<le> snd e \<and> snd e < fst e + 1000 \<and> snd e \<le> now \<and> (fst e = w \<or> fst e + 1000 \<le> w)) \<and>
     (\<forall>e \<in> set L. \<forall>e' \<in> set L. fst e = fst e' \<or> fst e + 1000 \<le> fst e' \<or> fst e' + 1000 \<le> fst e)"

lemma length_filter_imp:
  "\<forall>x \<in> set xs. P x \<longrightarrow> Q x \<Longrightarrow> length (filter P xs) \<le> length (filter Q xs)"
  by (induction xs) auto

lemma win_log_bound:
  assumes "win_log m w c now L"
  shows "length (filter (\<lambda>e. t \<le> snd e \<and> snd e < t + 1000) L) \<le> 2 * m"
proof -
  let ?P = "\<lambda>e. t \<le> snd e \<and> snd e < t + 1000" and ?F = "filter (\<lambda>e. t \<le> snd e \<and> snd e < t + 1000) L"
  define V where "V = fst ` set ?F"
  have fin: "finite V" by (simp add: V_def)
  have ends: "fst e = Min V \<or> fst e = Max V" if e: "e \<in> set ?F" for e
  proof (rule ccontr)
    assume no: "\<not> ?thesis"
    have "fst e \<in> V" using e unfolding V_def by (rule imageI)
    then have "V \<noteq> {}" by blast
    from no \<open>fst e \<in> V\<close> have lt: "Min V < fst e" "fst e < Max V" using fin Min_le Max_ge by (metis le_neq_implies_less)+
    obtain a b where ab: "a \<in> set ?F" "fst a = Min V" "b \<in> set ?F" "fst b = Max V"
      using Min_in [OF fin \<open>V \<noteq> {}\<close>] Max_in [OF fin \<open>V \<noteq> {}\<close>] by (auto simp: V_def)
    then have "fst a + 1000 \<le> fst e" "fst e + 1000 \<le> fst b"
      using lt e assms by (force simp: win_log_def)+
    moreover have "snd a < fst a + 1000" "t \<le> snd a" "snd b < t + 1000" "fst b \<le> snd b"
      using ab assms by (auto simp: win_log_def)
    ultimately show False by linarith
  qed
  have "length ?F \<le> length (filter (\<lambda>e. fst e = Min V) L) + length (filter (\<lambda>e. fst e = Max V) L)"
  proof -
    have "length ?F \<le> length (filter (\<lambda>e. fst e = Min V \<or> fst e = Max V) L)"
      using ends by (intro length_filter_imp) auto
    also have "\<dots> \<le> length (filter (\<lambda>e. fst e = Min V) L) + length (filter (\<lambda>e. fst e = Max V) L)"
      by (induction L) auto
    finally show ?thesis .
  qed
  also have "\<dots> \<le> 2 * m"
    using assms by (auto simp: win_log_def mult_2 intro!: add_mono)
  finally show ?thesis .
qed

lemma win_log_first: "0 < m \<Longrightarrow> win_log m now 1 now [(now, now)]"
  by (auto simp: win_log_def)

lemma win_log_restart:
  assumes "win_log m w c now L" "now \<le> now'" "w + 1000 \<le> now'"
  shows "win_log m now' 0 now' L"
proof -
  have "\<forall>e \<in> set L. fst e + 1000 \<le> now'" using assms by (force simp: win_log_def)
  then have "filter (\<lambda>e. fst e = now') L = []" by (auto simp: filter_empty_conv)
  with assms \<open>\<forall>e \<in> set L. fst e + 1000 \<le> now'\<close> show ?thesis by (auto simp: win_log_def)
qed

lemma win_log_later: "win_log m w c now L \<Longrightarrow> now \<le> now' \<Longrightarrow> win_log m w c now' L"
  by (fastforce simp: win_log_def)

lemma win_log_admit:
  assumes "win_log m w c now L" "c < m" "now < w + 1000"
  shows "win_log m w (c + 1) now (L @ [(w, now)])"
  using assms by (auto simp: win_log_def)

lemma rl_window_log:
  assumes "win_log m (ss_window_start_ms s) (ss_count s) now L" "now \<le> now'" "now' < 2 ^ 64"
    and "rl_window m now' s = (ok, s')"
  shows "\<exists>L'. map snd L' = map snd L @ (if ok then [now'] else []) \<and>
    win_log m (ss_window_start_ms s') (ss_count s') now' L' \<and> ss_key s' = ss_key s"
proof -
  define s1 where "s1 = (if elapsed now' (ss_window_start_ms s) \<ge> 1000
               then s\<lparr>ss_window_start_ms := now', ss_count := 0\<rparr> else s)"
  have w: "ss_window_start_ms s \<le> now'" using assms(1,2) by (simp add: win_log_def)
  have log: "win_log m (ss_window_start_ms s1) (ss_count s1) now' L" "now' < ss_window_start_ms s1 + 1000"
    using win_log_restart [OF assms(1,2)] win_log_later [OF assms(1,2)] w assms(3) by (auto simp: s1_def)
  have key: "ss_key s1 = ss_key s" by (simp add: s1_def)
  show ?thesis
  proof (cases "ss_count s1 < m")
    case True
    with assms(4) have "ok" "s' = s1\<lparr>ss_count := ss_count s1 + 1\<rparr>"
      unfolding rl_window_def s1_def [symmetric] by (simp_all add: Let_def)
    with win_log_admit [OF log(1) True log(2)] key show ?thesis
      by (intro exI [of _ "L @ [(ss_window_start_ms s1, now')]"]) simp
  next
    case False
    with assms(4) have "\<not> ok" "s' = s1"
      unfolding rl_window_def s1_def [symmetric] by (simp_all add: Let_def)
    with log(1) key show ?thesis by auto
  qed
qed

section \<open>Runs of the subject limiter\<close>

type_synonym rl_log = "(nat \<times> string \<times> bool) list"

definition rl_step :: "subject_rl \<times> rl_log \<Rightarrow> nat \<times> string \<Rightarrow> subject_rl \<times> rl_log" where
  "rl_step st e =
     (case cmq_subject_rl_check (fst e) (fst st) (snd e) of (ok, rl) \<Rightarrow> (rl, snd st @ [(fst e, snd e, ok)]))"

definition rl_run :: "(nat \<times> string) list \<Rightarrow> subject_rl \<Rightarrow> subject_rl \<times> rl_log" where
  "rl_run es rl = foldl rl_step (rl, []) es"

definition same_key :: "string \<Rightarrow> string \<Rightarrow> bool" where
  "same_key s u \<longleftrightarrow> take 255 s = take 255 u"

definition admits :: "string \<Rightarrow> rl_log \<Rightarrow> nat list" where
  "admits s log = map fst (filter (\<lambda>(t, u, ok). same_key s u \<and> ok) log)"

definition rejects :: "string \<Rightarrow> rl_log \<Rightarrow> nat list" where
  "rejects s log = map fst (filter (\<lambda>(t, u, ok). same_key s u \<and> \<not> ok) log)"

abbreviation rl_key :: "subject_rl \<Rightarrow> nat \<Rightarrow> string" where
  "rl_key rl i \<equiv> ss_key (rl_slots rl ! i)"

abbreviation rl_cnt :: "subject_rl \<Rightarrow> nat \<Rightarrow> nat" where
  "rl_cnt rl i \<equiv> ss_count (rl_slots rl ! i)"

lemma rl_positions_less: "i \<in> set (rl_positions s) \<Longrightarrow> i < 4096"
  by (auto simp: rl_positions_def Let_def CMQ_SUBJECT_RL_SLOTS_def)

lemma rl_probe_same: "same_key s u \<Longrightarrow> rl_probe rl u = rl_probe rl s"
proof -
  assume k: "same_key s u"
  then have "rl_positions u = rl_positions s"
    by (simp add: rl_positions_def fnv1a_def same_key_def CMQ_SUBJECT_RL_KEY_MAX_def)
  with k show ?thesis by (simp add: rl_probe_def same_key_def probe_same_key [of u s])
qed

text \<open>Slots keep their key once they have one; one that was burnt by an empty subject stays so.\<close>

definition rl_persist :: "subject_rl \<Rightarrow> subject_rl \<Rightarrow> bool" where
  "rl_persist rl rl' \<longleftrightarrow>
     rl_max_per_sec rl' = rl_max_per_sec rl \<and> length (rl_slots rl') = length (rl_slots rl) \<and>
     (\<forall>j < 4096. (rl_key rl j \<noteq> [] \<longrightarrow> rl_key rl' j = rl_key rl j) \<and>
        (rl_key rl j = [] \<and> rl_cnt rl j \<noteq> 0 \<longrightarrow> rl_key rl' j = [] \<and> rl_cnt rl' j \<noteq> 0))"

lemma rl_window_key: "rl_window m now s = (ok, s') \<Longrightarrow> ss_key s' = ss_key s"
  by (auto simp: rl_window_def Let_def split: if_splits)

lemma rl_check_persist:
  assumes "length (rl_slots rl) = 4096" "cmq_subject_rl_check now rl u = (ok, rl')"
  shows "rl_persist rl rl'"
proof (cases "rl_probe rl u")
  case (Hit i)
  then have "i < 4096" "rl_key rl i \<noteq> []"
    using probe_hit_key [OF Hit [unfolded rl_probe_def]] rl_positions_less by auto
  with Hit assms show ?thesis
    by (auto simp: cmq_subject_rl_check_def rl_persist_def nth_list_update split: if_splits prod.splits
        dest!: rl_window_key)
next
  case (Claim i)
  then have "i < 4096" "rl_key rl i = []" "rl_cnt rl i = 0"
    using probe_claim_key [OF Claim [unfolded rl_probe_def]] rl_positions_less by auto
  with Claim assms show ?thesis
    by (auto simp: cmq_subject_rl_check_def rl_persist_def nth_list_update split: if_splits)
next
  case Exhausted
  with assms show ?thesis by (auto simp: cmq_subject_rl_check_def rl_persist_def split: if_splits)
qed

lemma rl_probe_persist:
  assumes "rl_persist rl rl'"
  shows "rl_probe rl s = Hit i \<Longrightarrow> rl_probe rl' s = Hit i"
    and "rl_probe rl s = Exhausted \<Longrightarrow> rl_probe rl' s = Exhausted"
  unfolding rl_probe_def using assms rl_positions_less
  by (auto simp: rl_persist_def intro!: probe_hit_stable [where key = "rl_key rl" and cnt = "rl_cnt rl"])

definition absent :: "subject_rl \<Rightarrow> string \<Rightarrow> bool" where
  "absent rl s \<longleftrightarrow> (\<forall>i \<in> set (rl_positions s). rl_key rl i \<noteq> [] \<longrightarrow> \<not> strncmp_eq 255 (rl_key rl i) s)"

lemma absent_not_hit: "absent rl s \<Longrightarrow> rl_probe rl s \<noteq> Hit i"
  using probe_hit_key [of "rl_key rl" "rl_cnt rl" "rl_positions s" s i] by (auto simp: absent_def rl_probe_def)

lemma absent_other:
  assumes "absent rl s" "\<not> same_key s u" "length (rl_slots rl) = 4096" "cmq_subject_rl_check now rl u = (ok, rl')"
  shows "absent rl' s"
proof (cases "rl_probe rl u")
  case (Claim j)
  then have keys: "rl_key rl' i = rl_key rl i \<or> rl_key rl' i = take 255 u" if "i < 4096" for i
    using assms(3,4) that
    by (cases "i = j")
      (auto simp: cmq_subject_rl_check_def strnlen_def CMQ_SUBJECT_RL_KEY_MAX_def min_def split: if_splits)
  show ?thesis
    unfolding absent_def
  proof (intro ballI impI)
    fix i assume i: "i \<in> set (rl_positions s)" "rl_key rl' i \<noteq> []"
    from keys [OF rl_positions_less [OF i(1)]] show "\<not> strncmp_eq 255 (rl_key rl' i) s"
      using assms(1,2) i by (auto simp: absent_def strncmp_eq_def same_key_def)
  qed
next
  case (Hit j)
  then have "rl_key rl' i = rl_key rl i" if "i < 4096" for i
    using assms(3,4) that
    by (cases "i = j") (auto simp: cmq_subject_rl_check_def split: if_splits prod.splits dest!: rl_window_key)
  then show ?thesis using assms(1) rl_positions_less by (auto simp: absent_def)
next
  case Exhausted
  with assms show ?thesis by (auto simp: cmq_subject_rl_check_def split: if_splits)
qed

definition rl_inv :: "string \<Rightarrow> nat \<Rightarrow> subject_rl \<Rightarrow> nat \<Rightarrow> nat list \<Rightarrow> nat list \<Rightarrow> bool" where
  "rl_inv s m rl now A R \<longleftrightarrow>
     length (rl_slots rl) = 4096 \<and> rl_max_per_sec rl = m \<and>
     (case rl_probe rl s of
        Hit i \<Rightarrow> \<exists>L. map snd L = A \<and> win_log m (ss_window_start_ms (rl_slots rl ! i)) (rl_cnt rl i) now L
      | Claim i \<Rightarrow> absent rl s \<and> A = [] \<and> R = []
      | Exhausted \<Rightarrow> absent rl s \<and> R = [])"

lemma rl_inv_other:
  assumes inv: "rl_inv s m rl now A R" and u: "\<not> same_key s u" and now: "now \<le> now'"
    and c: "cmq_subject_rl_check now' rl u = (ok, rl')"
  shows "rl_inv s m rl' now' A R"
proof -
  have l: "length (rl_slots rl) = 4096" and m: "rl_max_per_sec rl = m" using inv by (simp_all add: rl_inv_def)
  have p: "rl_persist rl rl'" by (rule rl_check_persist [OF l c])
  then have l': "length (rl_slots rl') = 4096" "rl_max_per_sec rl' = m" using l m by (simp_all add: rl_persist_def)
  show ?thesis
  proof (cases "rl_probe rl s")
    case (Hit i)
    then have i: "i < 4096" "rl_key rl i \<noteq> []" "strncmp_eq 255 (rl_key rl i) s"
      using probe_hit_key [OF Hit [unfolded rl_probe_def]] rl_positions_less by auto
    have "rl_slots rl' ! i = rl_slots rl ! i"
    proof (cases "rl_probe rl u")
      case (Hit j)
      then have "strncmp_eq 255 (rl_key rl j) u" using probe_hit_key [OF Hit [unfolded rl_probe_def]] by simp
      then have "j \<noteq> i" using i(3) u by (auto simp: strncmp_eq_def same_key_def)
      with Hit c show ?thesis by (auto simp: cmq_subject_rl_check_def split: if_splits prod.splits)
    next
      case (Claim j)
      then have "j \<noteq> i" using probe_claim_key [OF Claim [unfolded rl_probe_def]] i(2) by auto
      with Claim c show ?thesis by (auto simp: cmq_subject_rl_check_def split: if_splits)
    next
      case Exhausted
      with c show ?thesis by (auto simp: cmq_subject_rl_check_def split: if_splits)
    qed
    then show ?thesis
      using inv Hit rl_probe_persist(1) [OF p Hit] l' win_log_later [OF _ now] by (auto simp: rl_inv_def)
  next
    case (Claim i)
    then have "absent rl' s" "A = []" "R = []" using inv absent_other [OF _ u l c] by (simp_all add: rl_inv_def)
    with absent_not_hit l' show ?thesis by (auto simp: rl_inv_def split: probe.splits)
  next
    case Exhausted
    then have "absent rl' s" "R = []" using inv absent_other [OF _ u l c] by (simp_all add: rl_inv_def)
    with rl_probe_persist(2) [OF p Exhausted] l' show ?thesis by (simp add: rl_inv_def)
  qed
qed

lemma rl_claim:
  assumes Claim: "rl_probe rl s = Claim i" and u: "same_key s u" and s: "s \<noteq> []"
    and l: "length (rl_slots rl) = 4096" and max: "rl_max_per_sec rl \<noteq> 0"
    and c: "cmq_subject_rl_check now rl u = (ok, rl')"
  shows "ok \<and> rl_probe rl' s = Hit i \<and> rl_cnt rl' i = 1 \<and> ss_window_start_ms (rl_slots rl' ! i) = now"
proof -
  have i: "i < 4096" using probe_claim_key [OF Claim [unfolded rl_probe_def]] rl_positions_less by auto
  let ?s = "\<lparr>ss_key = take 255 u, ss_window_start_ms = now, ss_count = 1\<rparr>"
  have r: "ok" "rl' = rl\<lparr>rl_slots := (rl_slots rl)[i := ?s]\<rparr>"
    using c max Claim rl_probe_same [OF u, of rl]
    by (auto simp: cmq_subject_rl_check_def strnlen_def CMQ_SUBJECT_RL_KEY_MAX_def min_def)
  have "take 255 u \<noteq> []" "strncmp_eq 255 (take 255 u) s" using u s by (auto simp: same_key_def strncmp_eq_def)
  note after = probe_after_claim [OF Claim [unfolded rl_probe_def] this, of 1]
  have "rl_probe rl' s = probe_slots ((rl_key rl)(i := take 255 u)) ((rl_cnt rl)(i := 1)) (rl_positions s) s"
    unfolding rl_probe_def by (rule probe_cong) (use r(2) i l in \<open>auto simp: nth_list_update\<close>)
  also note after
  finally show ?thesis using r i l by simp
qed

lemma rl_inv_same:
  assumes inv: "rl_inv s m rl now A R" and u: "same_key s u" and s: "s \<noteq> []" and m: "0 < m"
    and now: "now \<le> now'" "now' < 2 ^ 64" and c: "cmq_subject_rl_check now' rl u = (ok, rl')"
  shows "rl_inv s m rl' now' (A @ (if ok then [now'] else [])) (R @ (if ok then [] else [now']))"
proof -
  have l: "length (rl_slots rl) = 4096" and max: "rl_max_per_sec rl = m" using inv by (simp_all add: rl_inv_def)
  have p: "rl_persist rl rl'" by (rule rl_check_persist [OF l c])
  then have l': "length (rl_slots rl') = 4096" "rl_max_per_sec rl' = m" using l max by (simp_all add: rl_persist_def)
  note same = rl_probe_same [OF u, of rl]
  show ?thesis
  proof (cases "rl_probe rl s")
    case (Hit i)
    then have i: "i < 4096" using probe_hit_key [OF Hit [unfolded rl_probe_def]] rl_positions_less by auto
    obtain s' where w: "rl_window m now' (rl_slots rl ! i) = (ok, s')" "rl' = rl\<lparr>rl_slots := (rl_slots rl)[i := s']\<rparr>"
      using c m max Hit same by (auto simp: cmq_subject_rl_check_def split: prod.splits)
    obtain L where L: "map snd L = A" "win_log m (ss_window_start_ms (rl_slots rl ! i)) (rl_cnt rl i) now L"
      using inv Hit by (auto simp: rl_inv_def)
    have "rl_slots rl' ! i = s'" using w(2) i l by simp
    with rl_window_log [OF L(2) now w(1)] L(1) rl_probe_persist(1) [OF p Hit] l' show ?thesis
      by (auto simp: rl_inv_def)
  next
    case (Claim i)
    then have i: "i < 4096" using probe_claim_key [OF Claim [unfolded rl_probe_def]] rl_positions_less by auto
    have AR: "A = []" "R = []" using inv Claim by (simp_all add: rl_inv_def)
    have max0: "rl_max_per_sec rl \<noteq> 0" using m max by simp
    note r = rl_claim [OF Claim u s l max0 c]
    then have "ok" "rl_probe rl' s = Hit i" by simp_all
    then show ?thesis
      using r l' AR win_log_first [OF m, of now'] by (auto simp: rl_inv_def intro!: exI [of _ "[(now', now')]"])
  next
    case Exhausted
    then have "ok" "rl' = rl" using c m max same by (auto simp: cmq_subject_rl_check_def)
    with inv Exhausted show ?thesis by (simp add: rl_inv_def)
  qed
qed

lemma rl_create_inv:
  assumes "cmq_subject_rl_create h m = Some rl"
  shows "rl_inv s m rl 0 [] []"
proof -
  have rl: "rl = \<lparr>rl_max_per_sec = m, rl_slots = replicate 4096 \<lparr>ss_key = [], ss_window_start_ms = 0, ss_count = 0\<rparr>\<rparr>"
    using assms by (auto simp: cmq_subject_rl_create_def CMQ_SUBJECT_RL_SLOTS_def split: if_splits)
  then have a: "absent rl s" using rl_positions_less by (auto simp: absent_def)
  then show ?thesis using absent_not_hit [OF a] by (auto simp: rl_inv_def rl split: probe.splits)
qed

lemma rl_run_inv:
  assumes "cmq_subject_rl_create h m = Some rl0" "0 < m" "s \<noteq> []"
    and "sorted (map fst es)" "\<forall>e \<in> set es. fst e < 2 ^ 64" "rl_run es rl0 = (rl, log)"
  shows "rl_inv s m rl (if es = [] then 0 else fst (last es)) (admits s log) (rejects s log)"
  using assms(4-6)
proof (induction es arbitrary: rl log rule: rev_induct)
  case Nil
  then show ?case using rl_create_inv [OF assms(1)] by (simp add: rl_run_def admits_def rejects_def)
next
  case (snoc e es)
  obtain rl1 log1 where r1: "rl_run es rl0 = (rl1, log1)" by (cases "rl_run es rl0")
  obtain ok rl2 where c: "cmq_subject_rl_check (fst e) rl1 (snd e) = (ok, rl2)"
    by (cases "cmq_subject_rl_check (fst e) rl1 (snd e)")
  let ?now = "if es = [] then 0 else fst (last es)"
  have inv: "rl_inv s m rl1 ?now (admits s log1) (rejects s log1)"
    using snoc.IH [OF _ _ r1] snoc.prems(1,2) by (simp add: sorted_append)
  have now: "?now \<le> fst e" "fst e < 2 ^ 64"
    using snoc.prems(1,2) by (auto simp: sorted_append)
  have fin: "rl = rl2" "log = log1 @ [(fst e, snd e, ok)]"
    using snoc.prems(3) r1 c by (simp_all add: rl_run_def rl_step_def)
  show ?case
  proof (cases "same_key s (snd e)")
    case True
    with rl_inv_same [OF inv True assms(3,2) now c] show ?thesis by (cases ok) (simp_all add: fin admits_def rejects_def)
  next
    case False
    with rl_inv_other [OF inv False now(1) c] show ?thesis by (simp add: fin admits_def rejects_def)
  qed
qed

section \<open>Properties\<close>

text \<open>
  C16. The subject limiter holds its rate. Take any run of calls with a clock that does not go back, on a new
  limiter of \<open>m\<close> messages per second, and any subject that is not empty. If the subject has its place in the
  table, or could still get one, then no period of 1000 ms contains more than \<open>2 * m\<close> admissions of
  it (subjects that agree in 255 characters counted together). If the places it may take belong to others, it was never refused.
\<close>

theorem subject_rl_rate:
  assumes "cmq_subject_rl_create h m = Some rl0" "0 < m" "s \<noteq> []"
    and "sorted (map fst es)" "\<forall>e \<in> set es. fst e < 2 ^ 64" "rl_run es rl0 = (rl, log)"
  shows "if rl_probe rl s = Exhausted then rejects s log = []
    else \<forall>t. length (filter (\<lambda>x. t \<le> x \<and> x < t + 1000) (admits s log)) \<le> 2 * m"
proof (cases "rl_probe rl s")
  case (Hit i)
  with rl_run_inv [OF assms] obtain w c now L where L: "map snd L = admits s log" "win_log m w c now L"
    by (auto simp: rl_inv_def)
  have "length (filter (\<lambda>x. t \<le> x \<and> x < t + 1000) (map snd L)) \<le> 2 * m" for t
    using win_log_bound [OF L(2), of t] by (simp add: filter_map comp_def)
  with Hit L(1) show ?thesis by simp
qed (use rl_run_inv [OF assms] in \<open>simp_all add: rl_inv_def\<close>)

lemma rl_fresh_claim:
  assumes "cmq_subject_rl_create h m = Some rl"
  shows "\<exists>i. rl_probe rl s = Claim i"
proof -
  have "rl_slots rl = replicate 4096 \<lparr>ss_key = [], ss_window_start_ms = 0, ss_count = 0\<rparr>"
    using assms by (auto simp: cmq_subject_rl_create_def CMQ_SUBJECT_RL_SLOTS_def split: if_splits)
  moreover obtain i "is" where "rl_positions s = i # is"
    by (simp add: rl_positions_def Let_def CMQ_SUBJECT_RL_MAX_PROBE_def upt_rec)
  moreover have "i < 4096" using rl_positions_less [of i s] calculation(2) by simp
  ultimately show ?thesis by (simp add: rl_probe_def)
qed

theorem subject_rl_rate_witness:
  "\<exists>rl0 rl log. cmq_subject_rl_create [] 1 = Some rl0 \<and> rl_run [(5, ''a'')] rl0 = (rl, log) \<and>
     length (filter (\<lambda>x. 5 \<le> x \<and> x < 5 + 1000) (admits ''a'' log)) \<le> 2"
proof -
  obtain rl0 where c: "cmq_subject_rl_create [] 1 = Some rl0" by (simp add: cmq_subject_rl_create_def)
  obtain rl ok where k: "cmq_subject_rl_check 5 rl0 ''a'' = (ok, rl)" by (cases "cmq_subject_rl_check 5 rl0 ''a''")
  then have r: "rl_run [(5, ''a'')] rl0 = (rl, [(5, ''a'', ok)])" by (simp add: rl_run_def rl_step_def)
  obtain i where i: "rl_probe rl0 ''a'' = Claim i" using rl_fresh_claim [OF c] by blast
  have "rl_probe rl ''a'' = Hit i"
    using rl_claim [OF i _ _ _ _ k] c
    by (auto simp: same_key_def cmq_subject_rl_create_def CMQ_SUBJECT_RL_SLOTS_def)
  with subject_rl_rate [OF c _ _ _ _ r, of "''a''"]
  have "\<forall>t. length (filter (\<lambda>x. t \<le> x \<and> x < t + 1000) (admits ''a'' [(5, ''a'', ok)])) \<le> 2" by simp
  then have "length (filter (\<lambda>x. 5 \<le> x \<and> x < 5 + 1000) (admits ''a'' [(5, ''a'', ok)])) \<le> 2" by (rule spec)
  with c r show ?thesis by blast
qed

text \<open>
  With a message cap configured the byte cap has no effect: the answer to a publish and the state it leaves
  do not depend on the length of the message or on \<^verbatim>\<open>max_bytes\<close>, and no byte is ever counted.
\<close>

lemma quota_bytes_ignored:
  assumes "qt_max_msgs q > 0"
  shows "cmq_quota_check_publish now q acc n = cmq_quota_check_publish now q acc 0 \<and>
    fst (cmq_quota_check_publish now (q\<lparr>qt_max_bytes := b\<rparr>) acc n) = fst (cmq_quota_check_publish now q acc n)"
proof -
  have probe: "quota_probe (q\<lparr>qt_max_bytes := b\<rparr>) acc = quota_probe q acc" by (simp add: quota_probe_def)
  show ?thesis
    using assms
    by (cases "quota_probe q acc")
      (simp_all add: cmq_quota_check_publish_def find_or_claim_def quota_publish_slot_def probe Let_def split: prod.splits)
qed

text \<open>The account's slot \<open>i\<close> with all its connections used up.\<close>

definition connects_full :: "quota \<Rightarrow> string \<Rightarrow> nat \<Rightarrow> bool" where
  "connects_full q acc i \<longleftrightarrow>
     quota_probe q acc = Hit i \<and> i < length (qt_slots q) \<and> (qt_max_msgs q > 0 \<or> qt_max_bytes q > 0) \<and>
     qt_max_connects q > 0 \<and> qs_connects (qt_slots q ! i) \<ge> qt_max_connects q"

lemma elapsed_now [simp]: "elapsed t t = 0"
  by (simp add: elapsed_def)

lemma publish_slot_keeps:
  assumes "quota_publish_slot q now n s = (ok, s')"
  shows "qs_account s' = qs_account s" "qs_connects s' = qs_connects s" "elapsed now (qs_window_start_ms s') < 1000"
  using assms by (auto simp: quota_publish_slot_def Let_def split: if_splits)

lemma quota_probe_update:
  assumes "quota_probe q acc = Hit i" "qs_account s' = qs_account (qt_slots q ! i)"
  shows "quota_probe (q\<lparr>qt_slots := (qt_slots q)[i := s']\<rparr>) acc = Hit i"
  unfolding quota_probe_def
proof (rule probe_hit_stable(1) [OF _ _ assms(1) [unfolded quota_probe_def]])
  have "qs_account (qt_slots q ! i) \<noteq> []"
    using probe_hit_key [OF assms(1) [unfolded quota_probe_def]] by simp
  then show "qs_account (qt_slots q ! j) = [] \<Longrightarrow> qs_msgs (qt_slots q ! j) \<noteq> 0 \<Longrightarrow>
      qs_account (qt_slots (q\<lparr>qt_slots := (qt_slots q)[i := s']\<rparr>) ! j) = [] \<and>
      qs_msgs (qt_slots (q\<lparr>qt_slots := (qt_slots q)[i := s']\<rparr>) ! j) \<noteq> 0" for j
    using assms(2) by (cases "i = j"; cases "i < length (qt_slots q)") (auto simp: list_update_beyond)
  show "qs_account (qt_slots q ! j) \<noteq> [] \<Longrightarrow>
      qs_account (qt_slots (q\<lparr>qt_slots := (qt_slots q)[i := s']\<rparr>) ! j) = qs_account (qt_slots q ! j)" for j
    using assms(2) by (cases "i = j"; cases "i < length (qt_slots q)") (auto simp: list_update_beyond)
qed

lemma publish_then_connect:
  assumes "connects_full q acc i"
  shows "let q1 = snd (cmq_quota_check_publish t q acc n); r = cmq_quota_check_connect t q1 acc
    in \<not> fst r \<and> connects_full (snd r) acc i"
proof -
  obtain ok s' where s': "quota_publish_slot q t n (qt_slots q ! i) = (ok, s')"
    by (cases "quota_publish_slot q t n (qt_slots q ! i)")
  note k = publish_slot_keeps [OF s']
  let ?q1 = "q\<lparr>qt_slots := (qt_slots q)[i := s']\<rparr>"
  have hit: "quota_probe q acc = Hit i" "i < length (qt_slots q)" and cap: "qt_max_msgs q > 0 \<or> qt_max_bytes q > 0"
    and con: "qt_max_connects q > 0" "qs_connects (qt_slots q ! i) \<ge> qt_max_connects q"
    using assms by (auto simp: connects_full_def)
  have p: "cmq_quota_check_publish t q acc n = (ok, ?q1)"
    using cap s' hit by (auto simp: cmq_quota_check_publish_def find_or_claim_def)
  have probe: "quota_probe ?q1 acc = Hit i" using quota_probe_update [OF hit(1) k(1)] .
  have slot: "quota_connect_slot ?q1 t s' = (False, s')" using k con by (simp add: quota_connect_slot_def)
  have c: "cmq_quota_check_connect t ?q1 acc = (False, ?q1)"
    using con(1) probe hit(2) slot by (simp add: cmq_quota_check_connect_def find_or_claim_def)
  have "connects_full ?q1 acc i" using hit probe cap con k by (simp add: connects_full_def)
  with p c show ?thesis by simp
qed

text \<open>At each time in the list the account publishes and then connects.\<close>

fun publish_connect :: "(nat \<times> nat) list \<Rightarrow> quota \<Rightarrow> string \<Rightarrow> bool list" where
  "publish_connect [] q acc = []"
| "publish_connect ((t, n) # es) q acc =
     (case cmq_quota_check_connect t (snd (cmq_quota_check_publish t q acc n)) acc of
        (ok, q) \<Rightarrow> ok # publish_connect es q acc)"

text \<open>
  C26. Publishing locks an account out. The message, byte and connection counters share one window start, and a
  publish that finds the window expired moves the start without clearing the connection counter. An account that
  has used up its connections and publishes just before each attempt is refused at every attempt, however
  much time passes; without the publish the attempt is accepted once 1000 ms have passed.
\<close>

theorem quota_publish_starves_connect:
  assumes "connects_full q acc i"
  shows "publish_connect es q acc = replicate (length es) False \<and>
    (elapsed t (qs_window_start_ms (qt_slots q ! i)) \<ge> 1000 \<longrightarrow> fst (cmq_quota_check_connect t q acc))"
proof -
  have "publish_connect es q acc = replicate (length es) False"
    using assms
  proof (induction es arbitrary: q)
    case (Cons e es)
    obtain t n where e: "e = (t, n)" by (cases e)
    from publish_then_connect [OF Cons.prems, of t n] Cons.IH show ?case
      by (auto simp: e Let_def split: prod.splits)
  qed simp
  moreover have "fst (cmq_quota_check_connect t q acc)"
    if "elapsed t (qs_window_start_ms (qt_slots q ! i)) \<ge> 1000"
    using assms that by (simp add: connects_full_def cmq_quota_check_connect_def find_or_claim_def quota_connect_slot_def)
  ultimately show ?thesis by blast
qed

lemma quota_fresh_claim:
  assumes "cmq_quota_create h m b c = Some q"
  shows "\<exists>i < 1024. quota_probe q s = Claim i"
proof -
  have "qt_slots q = replicate 1024 \<lparr>qs_account = [], qs_window_start_ms = 0, qs_msgs = 0, qs_bytes = 0, qs_connects = 0\<rparr>"
    using assms by (auto simp: cmq_quota_create_def CMQ_QUOTA_SLOTS_def split: if_splits)
  moreover obtain i "is" where "quota_positions s = i # is" "i < 1024"
    by (simp add: quota_positions_def Let_def CMQ_QUOTA_MAX_PROBE_def CMQ_QUOTA_SLOTS_def upt_rec)
  ultimately show ?thesis by (simp add: quota_probe_def)
qed

lemma connects_full_reached:
  "\<exists>q i. connects_full q ''a'' i \<and> (\<exists>q0. cmq_quota_create [] 5 0 1 = Some q0 \<and> q = snd (cmq_quota_check_connect 0 q0 ''a''))"
proof -
  obtain q0 where c: "cmq_quota_create [] 5 0 1 = Some q0" by (simp add: cmq_quota_create_def)
  then have q0: "qt_max_msgs q0 = 5" "qt_max_connects q0 = 1" "length (qt_slots q0) = 1024"
    "\<forall>j < 1024. qt_slots q0 ! j = \<lparr>qs_account = [], qs_window_start_ms = 0, qs_msgs = 0, qs_bytes = 0, qs_connects = 0\<rparr>"
    by (auto simp: cmq_quota_create_def CMQ_QUOTA_SLOTS_def)
  obtain i where i: "i < 1024" "quota_probe q0 ''a'' = Claim i" using quota_fresh_claim [OF c] by blast
  let ?s = "\<lparr>qs_account = ''a'', qs_window_start_ms = 0, qs_msgs = 0, qs_bytes = 0, qs_connects = 1\<rparr>"
  let ?q = "q0\<lparr>qt_slots := (qt_slots q0)[i := ?s]\<rparr>"
  have k: "cmq_quota_check_connect 0 q0 ''a'' = (True, ?q)"
    using i q0
    by (simp add: cmq_quota_check_connect_def find_or_claim_def quota_connect_slot_def strnlen_def CMQ_QUOTA_KEY_MAX_def)
  have "probe_slots ((\<lambda>j. qs_account (qt_slots q0 ! j))(i := ''a'')) ((\<lambda>j. qs_msgs (qt_slots q0 ! j))(i := 0))
      (quota_positions ''a'') ''a'' = Hit i"
    by (rule probe_after_claim) (use i in \<open>simp_all add: quota_probe_def strncmp_eq_def\<close>)
  moreover have "quota_probe ?q ''a'' = probe_slots ((\<lambda>j. qs_account (qt_slots q0 ! j))(i := ''a''))
      ((\<lambda>j. qs_msgs (qt_slots q0 ! j))(i := 0)) (quota_positions ''a'') ''a''"
    unfolding quota_probe_def by (rule probe_cong) (use i q0 in \<open>auto simp: nth_list_update\<close>)
  ultimately have "connects_full ?q ''a'' i" using i q0 by (simp add: connects_full_def)
  with c k show ?thesis by fastforce
qed

theorem quota_publish_starves_connect_witness:
  "\<exists>q. publish_connect [(1000, 1), (5000, 1), (100000, 1)] q ''a'' = [False, False, False]"
proof -
  obtain q i where "connects_full q ''a'' i" using connects_full_reached by blast
  from quota_publish_starves_connect [OF this, of "[(1000, 1), (5000, 1), (100000, 1)]"] show ?thesis
    by (intro exI [of _ q]) (simp add: numeral_3_eq_3)
qed

end
