(* ===== verification/CMQ_Acl.thy ===== *)
theory CMQ_Acl
  imports CMQ_Prelude
begin

text \<open>
  Subject permissions of an account (\<^verbatim>\<open>src/enterprise/cmq_acl.c\<close>): a deny list that wins over an allow list, with
  patterns that end in \<^verbatim>\<open>.*\<close> or \<^verbatim>\<open>.>\<close>. A pattern whose copy could not be allocated stays in the list with a null
  string; what happens when it is read is not defined, and the model answers \<open>None\<close> there.
\<close>

section \<open>Model\<close>

definition CMQ_ACL_MAX_PATTERNS :: nat where "CMQ_ACL_MAX_PATTERNS = 1024"

record acl_pattern =
  ap_pat :: "string option"
  ap_is_pwc :: bool
  ap_is_fwc :: bool
  ap_tokens :: nat

text \<open>The lists hold the counted entries of the two arrays.\<close>

record acl =
  acl_allow :: "acl_pattern list"
  acl_deny :: "acl_pattern list"

text \<open>\<^verbatim>\<open>calloc\<close> has cleared the entry that is filled.\<close>

definition compile_pattern :: "heap \<Rightarrow> string \<Rightarrow> int \<times> acl_pattern" where
  "compile_pattern h src =
     (if \<not> fst (malloc_ok h) then (- 1, \<lparr>ap_pat = None, ap_is_pwc = False, ap_is_fwc = False, ap_tokens = 0\<rparr>)
      else (0, \<lparr>ap_pat = Some src,
                ap_is_pwc = (src \<noteq> [] \<and> last src = CHR ''*''),
                ap_is_fwc = (src \<noteq> [] \<and> last src = CHR ''>''),
                ap_tokens = 1 + length (filter (\<lambda>c. c = CHR ''.'') src)\<rparr>))"

definition cmq_acl_create :: "heap \<Rightarrow> acl option" where
  "cmq_acl_create h = (if fst (malloc_ok h) then Some \<lparr>acl_allow = [], acl_deny = []\<rparr> else None)"

definition cmq_acl_allow :: "heap \<Rightarrow> acl \<Rightarrow> string \<Rightarrow> int \<times> acl" where
  "cmq_acl_allow h acl pattern =
     (if length (acl_allow acl) \<ge> CMQ_ACL_MAX_PATTERNS then (- 1, acl)
      else case compile_pattern h pattern of (rc, p) \<Rightarrow> (rc, acl\<lparr>acl_allow := acl_allow acl @ [p]\<rparr>))"

definition cmq_acl_deny :: "heap \<Rightarrow> acl \<Rightarrow> string \<Rightarrow> int \<times> acl" where
  "cmq_acl_deny h acl pattern =
     (if length (acl_deny acl) \<ge> CMQ_ACL_MAX_PATTERNS then (- 1, acl)
      else case compile_pattern h pattern of (rc, p) \<Rightarrow> (rc, acl\<lparr>acl_deny := acl_deny acl @ [p]\<rparr>))"

definition token_count :: "string \<Rightarrow> nat" where
  "token_count s = 1 + length (filter (\<lambda>c. c = CHR ''.'') s)"

text \<open>The index of the last dot.\<close>

fun strrchr_dot :: "string \<Rightarrow> nat option" where
  "strrchr_dot [] = None"
| "strrchr_dot (c # cs) =
     (case strrchr_dot cs of
        Some i \<Rightarrow> Some (Suc i)
      | None \<Rightarrow> if c = CHR ''.'' then Some 0 else None)"

text \<open>
  The character at an index, the terminator at the length. The only index beyond is that of the pattern
  \<^verbatim>\<open>>\<close> compared with itself, where \<^verbatim>\<open>strlen - 2\<close> wraps round.
\<close>

definition char_at :: "string \<Rightarrow> nat \<Rightarrow> char option" where
  "char_at s i = (if i < length s then Some (s ! i) else if i = length s then Some (CHR 0x00) else None)"

text \<open>\<^verbatim>\<open>strlen(pat) - 2\<close>, unsigned.\<close>

definition strlen_minus_2 :: "string \<Rightarrow> nat" where
  "strlen_minus_2 pat = wrap64 (length pat + 2 ^ 64 - 2)"

definition match_pattern :: "acl_pattern \<Rightarrow> string \<Rightarrow> bool option" where
  "match_pattern p subject =
     (case ap_pat p of
        None \<Rightarrow> None
      | Some pat \<Rightarrow>
          if ap_is_fwc p then
            (let plen = strlen_minus_2 pat
             in if token_count subject < ap_tokens p then Some False
                else if \<not> strncmp_eq plen pat subject then Some False
                else map_option (\<lambda>c. c = CHR ''.'') (char_at pat plen))
          else if ap_is_pwc p then
            (if token_count subject \<noteq> ap_tokens p then Some False
             else case strrchr_dot pat of
               None \<Rightarrow> Some False
             | Some i \<Rightarrow>
                 if char_at pat (i + 1) \<noteq> Some (CHR ''*'') then Some False
                 else if \<not> strncmp_eq i pat subject then Some False
                 else map_option (\<lambda>c. c = CHR ''.'') (char_at subject i))
          else Some (pat = subject))"

text \<open>The first pattern that matches; \<open>None\<close> if a null pattern is read before one does.\<close>

fun match_any :: "acl_pattern list \<Rightarrow> string \<Rightarrow> bool option" where
  "match_any [] s = Some False"
| "match_any (p # ps) s =
     (case match_pattern p s of
        None \<Rightarrow> None
      | Some True \<Rightarrow> Some True
      | Some False \<Rightarrow> match_any ps s)"

definition cmq_acl_check :: "acl \<Rightarrow> string \<Rightarrow> bool option" where
  "cmq_acl_check acl subject =
     (case match_any (acl_deny acl) subject of
        None \<Rightarrow> None
      | Some True \<Rightarrow> Some False
      | Some False \<Rightarrow> if acl_allow acl \<noteq> [] then match_any (acl_allow acl) subject else Some True)"

section \<open>What patterns mean\<close>

abbreviation pattern :: "string \<Rightarrow> acl_pattern" where
  "pattern src \<equiv> snd (compile_pattern [] src)"

lemma token_count_append: "token_count (x @ y) + 1 = token_count x + token_count y"
  by (simp add: token_count_def)

lemma token_count_one: "token_count t = 1 \<longleftrightarrow> CHR ''.'' \<notin> set t"
  by (auto simp: token_count_def filter_empty_conv)

lemma strrchr_append: "CHR ''.'' \<notin> set t \<Longrightarrow> strrchr_dot (x @ CHR ''.'' # t) = Some (length x)"
proof (induction x)
  case Nil
  then have "strrchr_dot t = None" by (induction t) auto
  then show ?case by simp
qed simp

lemma strncmp_prefix: "strncmp_eq (length x) (x @ y) s \<longleftrightarrow> (\<exists>z. s = x @ z)"
proof
  assume "strncmp_eq (length x) (x @ y) s"
  then have "x = take (length x) s" by (simp add: strncmp_eq_def)
  then show "\<exists>z. s = x @ z" by (metis append_take_drop_id)
qed (auto simp: strncmp_eq_def)

lemma acl_literal:
  assumes "pat = [] \<or> last pat \<noteq> CHR ''*'' \<and> last pat \<noteq> CHR ''>''"
  shows "match_pattern (pattern pat) s = Some (s = pat)"
  using assms by (auto simp: match_pattern_def compile_pattern_def)

lemma acl_star: "match_pattern (pattern (x @ ''.*'')) s = Some (\<exists>t. s = x @ CHR ''.'' # t \<and> CHR ''.'' \<notin> set t)"
proof -
  have dot: "strrchr_dot (x @ ''.*'') = Some (length x)" using strrchr_append [of "''*''" x] by simp
  have star: "char_at (x @ ''.*'') (length x + 1) = Some (CHR ''*'')" by (simp add: char_at_def nth_append)
  have toks: "token_count (x @ ''.*'') = token_count x + 1" by (simp add: token_count_def)
  have "match_pattern (pattern (x @ ''.*'')) s =
      (if token_count s \<noteq> token_count x + 1 then Some False
       else if \<not> strncmp_eq (length x) (x @ ''.*'') s then Some False
       else map_option (\<lambda>c. c = CHR ''.'') (char_at s (length x)))"
    using dot star toks by (simp add: match_pattern_def compile_pattern_def token_count_def)
  also have "\<dots> = Some (\<exists>t. s = x @ CHR ''.'' # t \<and> CHR ''.'' \<notin> set t)"
  proof (cases "\<exists>z. s = x @ z")
    case True
    then obtain z where z: "s = x @ z" by blast
    then have c: "char_at s (length x) = Some (case z of [] \<Rightarrow> CHR 0x00 | c # _ \<Rightarrow> c)"
      by (auto simp: char_at_def nth_append split: list.splits)
    show ?thesis
    proof (cases "\<exists>t. z = CHR ''.'' # t")
      case True
      then obtain t where t: "z = CHR ''.'' # t" by blast
      then have "token_count s = token_count x + token_count t" by (simp add: z token_count_def)
      then show ?thesis using strncmp_prefix [of x "''.*''" s] c token_count_one [of t] by (auto simp: z t)
    next
      case False
      then have "z = [] \<or> hd z \<noteq> CHR ''.''" by (cases z) auto
      then show ?thesis using c False by (cases z) (auto simp: z)
    qed
  next
    case False
    then show ?thesis using strncmp_prefix [of x "''.*''" s] by auto
  qed
  finally show ?thesis .
qed

lemma acl_gt: "length x < 2 ^ 63 \<Longrightarrow> match_pattern (pattern (x @ ''.>'')) s =
    Some ((\<exists>z. s = x @ z) \<and> token_count s \<ge> token_count x + 1)"
proof -
  assume l: "length x < 2 ^ 63"
  have "length (x @ ''.>'') + 2 ^ 64 - 2 = length x + 2 ^ 64" by simp
  then have plen: "strlen_minus_2 (x @ ''.>'') = length x"
    unfolding strlen_minus_2_def wrap64_def using l by (simp only: mod_add_self2) (simp add: mod_less)
  have dot: "char_at (x @ ''.>'') (length x) = Some (CHR ''.'')" by (simp add: char_at_def nth_append)
  have toks: "ap_tokens (pattern (x @ ''.>'')) = token_count x + 1" by (simp add: compile_pattern_def token_count_def)
  have "ap_is_fwc (pattern (x @ ''.>''))" "ap_pat (pattern (x @ ''.>'')) = Some (x @ ''.>'')"
    by (simp_all add: compile_pattern_def)
  then show ?thesis
    using strncmp_prefix [of x "''.>''" s] dot by (auto simp: match_pattern_def Let_def plen toks)
qed

lemma match_any_Some:
  "\<forall>p \<in> set ps. match_pattern p s \<noteq> None \<Longrightarrow> match_any ps s = Some (\<exists>p \<in> set ps. match_pattern p s = Some True)"
  by (induction ps) (auto split: option.splits bool.splits)

section \<open>Properties\<close>

datatype acl_event = Allow string | Deny string

text \<open>A list built with memory for every pattern.\<close>

fun acl_exec :: "acl_event \<Rightarrow> acl \<Rightarrow> acl" where
  "acl_exec (Allow p) acl = snd (cmq_acl_allow [] acl p)"
| "acl_exec (Deny p) acl = snd (cmq_acl_deny [] acl p)"

text \<open>The patterns of the two lists that make it into the 1024 places.\<close>

definition allows :: "acl_event list \<Rightarrow> string list" where
  "allows es = take 1024 (concat (map (\<lambda>e. case e of Allow p \<Rightarrow> [p] | Deny _ \<Rightarrow> []) es))"

definition denies :: "acl_event list \<Rightarrow> string list" where
  "denies es = take 1024 (concat (map (\<lambda>e. case e of Deny p \<Rightarrow> [p] | Allow _ \<Rightarrow> []) es))"

lemma acl_fold:
  "fold acl_exec es \<lparr>acl_allow = [], acl_deny = []\<rparr> =
     \<lparr>acl_allow = map pattern (allows es), acl_deny = map pattern (denies es)\<rparr>"
proof (induction es rule: rev_induct)
  case Nil
  then show ?case by (simp add: allows_def denies_def)
next
  case (snoc e es)
  show ?case
  proof (cases e)
    case (Allow p)
    with snoc show ?thesis
      by (auto simp: allows_def denies_def cmq_acl_allow_def CMQ_ACL_MAX_PATTERNS_def compile_pattern_def)
  next
    case (Deny p)
    with snoc show ?thesis
      by (auto simp: allows_def denies_def cmq_acl_deny_def CMQ_ACL_MAX_PATTERNS_def compile_pattern_def)
  qed
qed

text \<open>The meaning of a pattern: exact, one more token, or, after \<^verbatim>\<open>.>\<close>, the characters before it and more tokens.\<close>

definition plain :: "string \<Rightarrow> bool" where
  "plain p \<longleftrightarrow> p = [] \<or> last p \<noteq> CHR ''*'' \<and> last p \<noteq> CHR ''>''"

text \<open>
  A pattern that ends in neither wildcard matches itself only; \<open>x.*\<close> matches exactly the subjects that are \<open>x\<close>, a dot
  and one more token; \<open>x.>\<close> matches exactly the subjects that begin with the characters of \<open>x\<close> and have
  more tokens than \<open>x\<close>.
\<close>

theorem acl_pattern_meaning:
  "(plain p \<longrightarrow> match_pattern (pattern p) s = Some (s = p)) \<and>
   match_pattern (pattern (x @ ''.*'')) s = Some (\<exists>t. s = x @ CHR ''.'' # t \<and> CHR ''.'' \<notin> set t) \<and>
   (length x < 2 ^ 63 \<longrightarrow>
     match_pattern (pattern (x @ ''.>'')) s = Some ((\<exists>z. s = x @ z) \<and> token_count s \<ge> token_count x + 1))"
  using acl_literal acl_star acl_gt by (simp add: plain_def)

theorem acl_pattern_meaning_witness:
  "match_pattern (pattern ''foo'') ''foo'' = Some True \<and> match_pattern (pattern ''foo.>'') ''foo.a.b'' = Some True"
proof -
  have "plain ''foo''" by (simp add: plain_def)
  with acl_pattern_meaning [of "''foo''" "''foo''" "''foo''"] acl_pattern_meaning [of "''foo''" "''foo.a.b''" "''foo''"]
  show ?thesis by (simp add: token_count_def)
qed

text \<open>
  C27. The decision: for lists built with memory for every pattern, none of which is the single character
  \<^verbatim>\<open>>\<close>, a subject is refused if a deny pattern matches it; otherwise it is admitted if there is no allow pattern
  or one matches.
\<close>

theorem acl_decision:
  assumes "cmq_acl_create h = Some acl0" "\<forall>p \<in> set (allows es) \<union> set (denies es). match_pattern (pattern p) s \<noteq> None"
  shows "cmq_acl_check (fold acl_exec es acl0) s =
    Some (\<not> (\<exists>p \<in> set (denies es). match_pattern (pattern p) s = Some True) \<and>
      (allows es = [] \<or> (\<exists>p \<in> set (allows es). match_pattern (pattern p) s = Some True)))"
proof -
  have "acl0 = \<lparr>acl_allow = [], acl_deny = []\<rparr>" using assms(1) by (simp add: cmq_acl_create_def split: if_splits)
  then have f: "fold acl_exec es acl0 = \<lparr>acl_allow = map pattern (allows es), acl_deny = map pattern (denies es)\<rparr>"
    by (simp add: acl_fold)
  have "match_any (map pattern (denies es)) s = Some (\<exists>p \<in> set (denies es). match_pattern (pattern p) s = Some True)"
    "match_any (map pattern (allows es)) s = Some (\<exists>p \<in> set (allows es). match_pattern (pattern p) s = Some True)"
    using assms(2) by (subst match_any_Some; auto)+
  then show ?thesis unfolding f by (auto simp: cmq_acl_check_def split: bool.splits)
qed

theorem acl_decision_witness:
  "\<exists>acl0. cmq_acl_create [] = Some acl0 \<and> cmq_acl_check (fold acl_exec [Allow ''a.*'', Deny ''a.b''] acl0) ''a.b'' = Some False"
proof -
  let ?es = "[Allow ''a.*'', Deny ''a.b'']"
  have l: "allows ?es = [''a.*'']" "denies ?es = [''a.b'']" by (simp_all add: allows_def denies_def)
  have m: "match_pattern (pattern ''a.b'') ''a.b'' = Some True" "match_pattern (pattern ''a.*'') ''a.b'' \<noteq> None"
    using acl_star [of "''a''" "''a.b''"] by (simp_all add: acl_literal)
  show ?thesis
    using acl_decision [of "[]" "\<lparr>acl_allow = [], acl_deny = []\<rparr>" ?es "''a.b''"] m
    by (auto simp: l cmq_acl_create_def simp del: fold_simps)
qed

text \<open>
  \<^verbatim>\<open>x.>\<close> is not bounded by tokens: every subject that begins with the characters of \<open>x\<close> and has a dot later
  is matched, also when its first tokens are not those of \<open>x\<close>. An account allowed only \<^verbatim>\<open>foo.>\<close> may use
  \<^verbatim>\<open>foobar.baz\<close>.
\<close>

lemma acl_gt_overmatch:
  assumes "length x < 2 ^ 63" "cmq_acl_create h = Some acl0"
  shows "cmq_acl_check (snd (cmq_acl_allow [] acl0 (x @ ''.>''))) (x @ y @ CHR ''.'' # z) = Some True"
proof -
  have "match_pattern (pattern (x @ ''.>'')) (x @ y @ CHR ''.'' # z) = Some True"
    unfolding acl_gt [OF assms(1)] by (simp add: token_count_def)
  moreover have "acl0 = \<lparr>acl_allow = [], acl_deny = []\<rparr>" using assms(2) by (simp add: cmq_acl_create_def split: if_splits)
  ultimately show ?thesis
    by (simp add: cmq_acl_check_def cmq_acl_allow_def CMQ_ACL_MAX_PATTERNS_def case_prod_unfold)
qed

text \<open>
  A pattern whose copy fails is refused with \<open>-1\<close> and yet counted: the next check that gets to it reads a null pointer.
\<close>

lemma acl_oom_null:
  "fst (cmq_acl_allow [False] \<lparr>acl_allow = [], acl_deny = []\<rparr> p) = - 1 \<and>
   cmq_acl_check (snd (cmq_acl_allow [False] \<lparr>acl_allow = [], acl_deny = []\<rparr> p)) s = None"
  by (simp add: cmq_acl_allow_def CMQ_ACL_MAX_PATTERNS_def compile_pattern_def cmq_acl_check_def match_pattern_def)

end
