(* ===== verification/CMQ_Crc.thy ===== *)
theory CMQ_Crc
  imports CMQ_Prelude
begin

text \<open>
  Checksums: CRC-32C of frames (\<^verbatim>\<open>src/core/cmq_crc32c.c\<close>) and CRC-32 of log records (\<^verbatim>\<open>crc32_update\<close> in
  \<^verbatim>\<open>src/store/cmq_filestore.c\<close>). Both are the same bit loop with different polynomials. The processor
  instructions of the accelerated path are arguments, with their documented meaning as hypotheses.
\<close>

section \<open>Model\<close>

text \<open>One round of the bit loop; \<^verbatim>\<open>(uint32_t)-(int)(crc & 1u)\<close> is all ones or all zeros.\<close>

definition crc_bit :: "u32 \<Rightarrow> u32 \<Rightarrow> u32" where
  "crc_bit poly crc = drop_bit 1 crc XOR (poly AND - (crc AND 1))"

definition crc_byte :: "u32 \<Rightarrow> u32 \<Rightarrow> u8 \<Rightarrow> u32" where
  "crc_byte poly crc b = (crc_bit poly ^^ 8) (crc XOR ucast b)"

definition crc_bytes :: "u32 \<Rightarrow> u32 \<Rightarrow> bytes \<Rightarrow> u32" where
  "crc_bytes poly crc data = foldl (crc_byte poly) crc data"

definition CMQ_CRC32C_POLY :: u32 where "CMQ_CRC32C_POLY = 0x82F63B78"

text \<open>The software path of \<^verbatim>\<open>crc32c_tail\<close>, and the path with a byte instruction.\<close>

definition crc32c_tail :: "u32 \<Rightarrow> bytes \<Rightarrow> u32" where
  "crc32c_tail crc data = crc_bytes CMQ_CRC32C_POLY crc data"

definition crc32c_tail_hw :: "(u32 \<Rightarrow> u8 \<Rightarrow> u32) \<Rightarrow> u32 \<Rightarrow> bytes \<Rightarrow> u32" where
  "crc32c_tail_hw crc32_u8 crc data = foldl crc32_u8 crc data"

text \<open>The loop over 64-bit words, each read from memory in little-endian order.\<close>

function crc32c_words :: "(u32 \<Rightarrow> u64 \<Rightarrow> u32) \<Rightarrow> u32 \<Rightarrow> bytes \<Rightarrow> u32 \<times> bytes" where
  "crc32c_words crc32_u64 crc data =
     (if length data \<ge> 8 then crc32c_words crc32_u64 (crc32_u64 crc (get_le64 (take 8 data))) (drop 8 data)
      else (crc, data))"
  by pat_completeness auto
termination
  by (relation "measure (\<lambda>(f, crc, data). length data)") auto

declare crc32c_words.simps [simp del]

definition cmq_crc32c_raw_hw ::
    "(u32 \<Rightarrow> u8 \<Rightarrow> u32) \<Rightarrow> (u32 \<Rightarrow> u64 \<Rightarrow> u32) \<Rightarrow> u32 \<Rightarrow> bytes option \<Rightarrow> u32" where
  "cmq_crc32c_raw_hw crc32_u8 crc32_u64 crc data =
     (case data of
        None \<Rightarrow> crc
      | Some d \<Rightarrow>
          if d = [] then crc
          else case crc32c_words crc32_u64 crc d of (c, rest) \<Rightarrow> crc32c_tail_hw crc32_u8 c rest)"

definition cmq_crc32c_raw :: "u32 \<Rightarrow> bytes option \<Rightarrow> u32" where
  "cmq_crc32c_raw crc data =
     (case data of None \<Rightarrow> crc | Some d \<Rightarrow> if d = [] then crc else crc32c_tail crc d)"

definition cmq_crc32c :: "u32 \<Rightarrow> bytes option \<Rightarrow> u32" where
  "cmq_crc32c crc data =
     (case data of
        None \<Rightarrow> crc
      | Some d \<Rightarrow>
          if d = [] then crc
          else cmq_crc32c_raw (crc XOR 0xFFFFFFFF) data XOR 0xFFFFFFFF)"

definition CMQ_FLAG_CHECKSUM :: u8 where "CMQ_FLAG_CHECKSUM = 0x02"

text \<open>
  \<^verbatim>\<open>cmq_checksum_consume\<close>: the answer and the length that is left of the bytes \<open>take len wire\<close>.
\<close>

definition cmq_checksum_consume :: "u8 \<Rightarrow> bytes option \<Rightarrow> nat option \<Rightarrow> int \<times> nat option" where
  "cmq_checksum_consume flags wire len =
     (case len of
        None \<Rightarrow> (- 1, None)
      | Some l \<Rightarrow>
          if flags AND CMQ_FLAG_CHECKSUM = 0 then (0, Some l)
          else case wire of
            None \<Rightarrow> (- 1, Some l)
          | Some w \<Rightarrow>
              if l < 4 then (- 1, Some l)
              else
                (let n = l - 4;
                     expect = get_le32 (w ! n) (w ! (n + 1)) (w ! (n + 2)) (w ! (n + 3));
                     got = cmq_crc32c 0 (Some (take n w))
                 in if expect \<noteq> got then (- 1, Some l) else (0, Some n)))"

section \<open>The bit loop\<close>

lemma xor_cancel_right: "(a :: u32) XOR c = b XOR c \<longleftrightarrow> a = b"
proof
  assume "a XOR c = b XOR c"
  then have "(a XOR c) XOR c = (b XOR c) XOR c" by (rule arg_cong)
  then show "a = b" by (simp add: xor.assoc)
qed simp

lemma xor_cancel_left: "(c :: u32) XOR a = c XOR b \<longleftrightarrow> a = b"
  using xor_cancel_right [of a c b] by (simp add: xor.commute)

lemma crc_bit_if: "crc_bit poly crc = (if bit crc 0 then drop_bit 1 crc XOR poly else drop_bit 1 crc)"
proof -
  have "crc AND 1 = (if bit crc 0 then 1 else 0)"
    by (cases "bit crc 0") (simp_all add: bit_0 and_one_eq mod_2_eq_odd)
  then show ?thesis by (simp add: crc_bit_def)
qed

text \<open>A polynomial with its top bit set makes the round invertible: that bit tells which case was taken.\<close>

lemma crc_bit_inj:
  assumes "bit poly 31" "crc_bit poly a = crc_bit poly b"
  shows "a = b"
proof -
  have top: "bit (crc_bit poly c) 31 \<longleftrightarrow> bit c 0" for c
    using assms(1) by (simp add: crc_bit_if bit_simps)
  then have low: "bit a 0 = bit b 0" using assms(2) by metis
  then have "drop_bit 1 a = drop_bit 1 b"
    using assms(2) by (cases "bit b 0") (auto simp: crc_bit_if xor_cancel_right)
  then have high: "bit a (Suc n) = bit b (Suc n)" for n
    using bit_drop_bit_eq [of 1 a] bit_drop_bit_eq [of 1 b] by (simp add: fun_eq_iff)
  show ?thesis
  proof (rule bit_word_eqI)
    fix n show "bit a n = bit b n" using low high by (cases n) auto
  qed
qed

lemma crc_bits_inj: "bit poly 31 \<Longrightarrow> (crc_bit poly ^^ k) a = (crc_bit poly ^^ k) b \<Longrightarrow> a = b"
  by (induction k) (auto dest: crc_bit_inj)

lemma crc_byte_inj_crc: "bit poly 31 \<Longrightarrow> crc_byte poly c b = crc_byte poly c' b \<Longrightarrow> c = c'"
  by (auto simp: crc_byte_def xor_cancel_right dest!: crc_bits_inj)

lemma ucast_u8_back: "ucast (ucast (b :: u8) :: u32) = b"
  by (rule bit_word_eqI) (simp add: bit_simps)

lemma ucast_u8_inj: "(ucast (b :: u8) :: u32) = ucast b' \<Longrightarrow> b = b'"
  by (metis ucast_u8_back)

lemma crc_byte_inj_byte: "bit poly 31 \<Longrightarrow> crc_byte poly c b = crc_byte poly c b' \<Longrightarrow> b = b'"
  unfolding crc_byte_def by (drule (1) crc_bits_inj) (auto simp: xor_cancel_left dest!: ucast_u8_inj)

lemma crc_bytes_append: "crc_bytes poly c (a @ b) = crc_bytes poly (crc_bytes poly c a) b"
  by (simp add: crc_bytes_def)

lemma crc_bytes_inj: "bit poly 31 \<Longrightarrow> crc_bytes poly c d = crc_bytes poly c' d \<Longrightarrow> c = c'"
  by (induction d arbitrary: c c') (auto simp: crc_bytes_def dest: crc_byte_inj_crc)

text \<open>Changing one byte changes the checksum.\<close>

lemma crc_bytes_one:
  assumes "bit poly 31" "b \<noteq> b'"
  shows "crc_bytes poly c (p @ b # s) \<noteq> crc_bytes poly c (p @ b' # s)"
proof
  assume "crc_bytes poly c (p @ b # s) = crc_bytes poly c (p @ b' # s)"
  then have "crc_bytes poly (crc_byte poly (crc_bytes poly c p) b) s = crc_bytes poly (crc_byte poly (crc_bytes poly c p) b') s"
    by (simp add: crc_bytes_def)
  from crc_byte_inj_byte [OF assms(1) crc_bytes_inj [OF assms(1) this]] assms(2) show False by simp
qed

lemma poly_top: "bit CMQ_CRC32C_POLY 31"
  by (simp add: CMQ_CRC32C_POLY_def)

section \<open>The accelerated path\<close>

lemma crc32c_words_spec:
  assumes "\<forall>c v. u64 c v = crc_bytes CMQ_CRC32C_POLY c (put_le64 v)"
  shows "case crc32c_words u64 c d of (c', rest) \<Rightarrow>
           crc_bytes CMQ_CRC32C_POLY c' rest = crc_bytes CMQ_CRC32C_POLY c d"
  using assms
proof (induction u64 c d rule: crc32c_words.induct)
  case (1 f c d)
  show ?case
  proof (cases "8 \<le> length d")
    case True
    have "f c (get_le64 (take 8 d)) = crc_bytes CMQ_CRC32C_POLY c (take 8 d)"
      using 1(2) True by (simp add: put_get_le64)
    then have "crc_bytes CMQ_CRC32C_POLY (f c (get_le64 (take 8 d))) (drop 8 d) = crc_bytes CMQ_CRC32C_POLY c d"
      by (simp flip: crc_bytes_append)
    then show ?thesis
      using 1(1) [OF True 1(2)] True by (subst crc32c_words.simps) simp
  qed (simp add: crc32c_words.simps [of f c d])
qed

text \<open>
  C32. The accelerated checksum, eight bytes at a time and then the tail, is the bit-by-bit checksum, for
  instructions that do what their manuals say: one accumulates a byte, the other the eight bytes of a
  64-bit word from the least significant one. So both builds of the broker agree on every frame.
\<close>

theorem crc32c_hw_is_sw:
  assumes "\<forall>c b. crc32_u8 c b = crc_byte CMQ_CRC32C_POLY c b"
    and "\<forall>c v. crc32_u64 c v = crc_bytes CMQ_CRC32C_POLY c (put_le64 v)"
  shows "cmq_crc32c_raw_hw crc32_u8 crc32_u64 crc data = cmq_crc32c_raw crc data"
proof -
  have "crc32_u8 = crc_byte CMQ_CRC32C_POLY" using assms(1) by (simp add: fun_eq_iff)
  then show ?thesis
    using crc32c_words_spec [OF assms(2), of crc "the data"]
    by (auto simp: cmq_crc32c_raw_hw_def cmq_crc32c_raw_def crc32c_tail_hw_def crc32c_tail_def
        crc_bytes_def split: option.splits prod.splits)
qed

theorem crc32c_hw_is_sw_witness:
  "cmq_crc32c_raw_hw (crc_byte CMQ_CRC32C_POLY) (\<lambda>c v. crc_bytes CMQ_CRC32C_POLY c (put_le64 v))
     0 (Some [1, 2, 3, 4, 5, 6, 7, 8, 9]) = cmq_crc32c_raw 0 (Some [1, 2, 3, 4, 5, 6, 7, 8, 9])"
  by (rule crc32c_hw_is_sw) simp_all

section \<open>The trailer\<close>

text \<open>
  Chaining: the checksum of a message is the checksum of its second part started from that of its
  first part.
\<close>

lemma crc32c_value: "cmq_crc32c c (Some d) = crc_bytes CMQ_CRC32C_POLY (c XOR 0xFFFFFFFF) d XOR 0xFFFFFFFF"
  by (simp add: cmq_crc32c_def cmq_crc32c_raw_def crc32c_tail_def crc_bytes_def xor.assoc)

lemma crc32c_chain: "cmq_crc32c (cmq_crc32c c (Some a)) (Some b) = cmq_crc32c c (Some (a @ b))"
  by (simp add: crc32c_value crc_bytes_append xor.assoc)

lemma crc32c_one:
  "b \<noteq> b' \<Longrightarrow> cmq_crc32c 0 (Some (p @ b # s)) \<noteq> cmq_crc32c 0 (Some (p @ b' # s))"
  using crc_bytes_one [OF poly_top] by (simp add: crc32c_value xor_cancel_right)

lemma consume_trailer:
  assumes "flags AND CMQ_FLAG_CHECKSUM \<noteq> 0" "length t = 4"
  shows "cmq_checksum_consume flags (Some (d @ t)) (Some (length d + 4)) =
    (if t = put_le32 (cmq_crc32c 0 (Some d)) then (0, Some (length d)) else (- 1, Some (length d + 4)))"
proof -
  obtain a b c e where t: "t = [a, b, c, e]"
    using assms(2) by (auto simp: length_Suc_conv numeral_eq_Suc)
  have "t = put_le32 v \<longleftrightarrow> get_le32 a b c e = v" for v
    using put_get_le32 [of a b c e] by (auto simp: t put_le32_def)
  then show ?thesis using assms(1) by (simp add: cmq_checksum_consume_def t nth_append)
qed

lemma consume_flipped:
  assumes "flags AND CMQ_FLAG_CHECKSUM \<noteq> 0"
    and "i < length d + 4" "b \<noteq> (d @ put_le32 (cmq_crc32c 0 (Some d))) ! i"
  shows "cmq_checksum_consume flags (Some ((d @ put_le32 (cmq_crc32c 0 (Some d)))[i := b])) (Some (length d + 4)) =
    (- 1, Some (length d + 4))"
proof (cases "i < length d")
  case True
  then have "cmq_crc32c 0 (Some (d[i := b])) \<noteq> cmq_crc32c 0 (Some d)"
    using assms(3) crc32c_one [of b "d ! i" "take i d" "drop (Suc i) d"]
    by (simp add: nth_append upd_conv_take_nth_drop flip: id_take_nth_drop)
  then show ?thesis
    using True consume_trailer [OF assms(1), of "put_le32 (cmq_crc32c 0 (Some d))" "d[i := b]"]
    by (simp add: list_update_append)
next
  case False
  let ?t = "put_le32 (cmq_crc32c 0 (Some d))"
  have "?t[i - length d := b] \<noteq> ?t"
    using False assms(2,3) by (auto simp: nth_append dest!: arg_cong [where f = "\<lambda>t. t ! (i - length d)"])
  then show ?thesis
    using False consume_trailer [OF assms(1), of "?t[i - length d := b]" d]
    by (simp add: list_update_append)
qed

text \<open>
  C33. A frame body that carries the checksum of its payload is accepted and stripped of it; when one
  byte of the payload or of the checksum itself is changed on the way, whatever its position and its new
  value, the frame is refused and its length left alone.
\<close>

theorem checksum_detects:
  assumes "flags AND CMQ_FLAG_CHECKSUM \<noteq> 0"
    and "w = d @ put_le32 (cmq_crc32c 0 (Some d))"
  shows "cmq_checksum_consume flags (Some w) (Some (length w)) = (0, Some (length d)) \<and>
    (\<forall>i b. i < length w \<longrightarrow> b \<noteq> w ! i \<longrightarrow>
       cmq_checksum_consume flags (Some (w[i := b])) (Some (length w)) = (- 1, Some (length w)))"
proof (intro conjI allI impI)
  show "cmq_checksum_consume flags (Some w) (Some (length w)) = (0, Some (length d))"
    using consume_trailer [OF assms(1)] by (simp add: assms(2))
next
  fix i b
  assume i: "i < length w" and b: "b \<noteq> w ! i"
  then show "cmq_checksum_consume flags (Some (w[i := b])) (Some (length w)) = (- 1, Some (length w))"
    using consume_flipped [OF assms(1)] by (simp add: assms(2))
qed

theorem checksum_detects_witness:
  "let w = [7] @ put_le32 (cmq_crc32c 0 (Some [7])) in
     cmq_checksum_consume 2 (Some w) (Some 5) = (0, Some 1) \<and>
     cmq_checksum_consume 2 (Some (w[0 := 8])) (Some 5) = (- 1, Some 5)"
proof -
  have "(2 :: u8) AND CMQ_FLAG_CHECKSUM \<noteq> 0" by (simp add: CMQ_FLAG_CHECKSUM_def)
  from checksum_detects [OF this refl, of "[7]"] show ?thesis
    by (auto simp: Let_def dest: spec [where x = 0])
qed

end
