(* ===== verification/CMQ_Logfile.thy ===== *)
theory CMQ_Logfile
  imports CMQ_Crc
begin

text \<open>
  The record format of the write-ahead log (\<^verbatim>\<open>src/store/cmq_filestore.c\<close>): a data file of records, each a
  header of 22 bytes and a payload, and an index file with the 64-bit offset of each record. A file is the
  list of its bytes. The theory has the encodings, the check of one record, and the two files that hold a
  given list of payloads (\<open>log_data\<close>, \<open>log_idx\<close>).
\<close>

section \<open>Encodings\<close>

definition put_le16 :: "u16 \<Rightarrow> bytes" where
  "put_le16 v = [ucast v, ucast (drop_bit 8 v)]"

definition get_le16 :: "u8 \<Rightarrow> u8 \<Rightarrow> u16" where
  "get_le16 a b = ucast a OR push_bit 8 (ucast b)"

definition crc32_update :: "u32 \<Rightarrow> bytes \<Rightarrow> u32" where
  "crc32_update crc data = crc_bytes 0xEDB88320 crc data"

definition crc32_compute :: "bytes \<Rightarrow> u32" where
  "crc32_compute data = NOT (crc32_update 0xFFFFFFFF data)"

definition CMQ_FS_MAGIC :: u32 where "CMQ_FS_MAGIC = 0xCF510"
definition CMQ_FS_VERSION :: u16 where "CMQ_FS_VERSION = 1"
definition CMQ_FS_HDR_SIZE :: nat where "CMQ_FS_HDR_SIZE = 22"

text \<open>The largest payload, \<^verbatim>\<open>16u * 1024 * 1024\<close>.\<close>

definition FS_PAYLOAD_MAX :: nat where "FS_PAYLOAD_MAX = 16 * 1024 * 1024"

definition fs_header :: "nat \<Rightarrow> nat \<Rightarrow> u32 \<Rightarrow> bytes" where
  "fs_header seq len crc =
     put_le32 CMQ_FS_MAGIC @ put_le16 CMQ_FS_VERSION @ put_le64 (of_nat seq) @ put_le32 (of_nat len) @ put_le32 crc"

text \<open>\<^verbatim>\<open>put_le64(hdr + 6, seq)\<close> on a header that was read.\<close>

definition hdr_put_seq :: "bytes \<Rightarrow> nat \<Rightarrow> bytes" where
  "hdr_put_seq hdr seq = take 6 hdr @ put_le64 (of_nat seq) @ drop 14 hdr"

definition fs_record :: "nat \<Rightarrow> bytes \<Rightarrow> bytes" where
  "fs_record seq data = fs_header seq (length data) (crc32_compute data) @ data"

definition hdr_magic :: "bytes \<Rightarrow> u32" where
  "hdr_magic h = get_le32 (h ! 0) (h ! 1) (h ! 2) (h ! 3)"

definition hdr_version :: "bytes \<Rightarrow> u16" where
  "hdr_version h = get_le16 (h ! 4) (h ! 5)"

definition hdr_seq :: "bytes \<Rightarrow> nat" where
  "hdr_seq h = unat (get_le64 (drop 6 h))"

definition hdr_len :: "bytes \<Rightarrow> nat" where
  "hdr_len h = unat (get_le32 (h ! 14) (h ! 15) (h ! 16) (h ! 17))"

definition hdr_crc :: "bytes \<Rightarrow> u32" where
  "hdr_crc h = get_le32 (h ! 18) (h ! 19) (h ! 20) (h ! 21)"

text \<open>
  \<^verbatim>\<open>fs_seek\<close> to an offset and \<^verbatim>\<open>fread\<close> of a whole item there: \<open>None\<close> when the offset does not fit \<^verbatim>\<open>off_t\<close> or the
  file ends before.
\<close>

definition fread_at :: "bytes \<Rightarrow> nat \<Rightarrow> nat \<Rightarrow> bytes option" where
  "fread_at file off n =
     (if off < 2 ^ 63 \<and> off + n \<le> length file then Some (take n (drop off file)) else None)"

text \<open>Entry \<open>i\<close>, from 0, of an index file.\<close>

definition idx_entry :: "bytes \<Rightarrow> nat \<Rightarrow> nat option" where
  "idx_entry idx i = map_option (\<lambda>b. unat (get_le64 b)) (fread_at idx (i * 8) 8)"

section \<open>Lemmas on the encodings\<close>

lemma get_put_le16 [codec, simp]: "get_le16 (ucast v) (ucast (drop_bit 8 v)) = v"
  unfolding get_le16_def
proof (rule bit_word_eqI)
  fix n :: nat
  assume "n < LENGTH(16)"
  then show "bit (ucast (ucast v :: u8) OR push_bit 8 (ucast (ucast (drop_bit 8 v) :: u8)) :: u16) n = bit v n"
    by (cases "n < 8") (auto simp: bit_simps)
qed

lemma length_put_le16 [simp]: "length (put_le16 v) = 2"
  by (simp add: put_le16_def)

lemma length_fs_header [simp]: "length (fs_header s l c) = 22"
  by (simp add: fs_header_def)

lemma length_fs_record: "length (fs_record s d) = 22 + length d"
  by (simp add: fs_record_def)

lemma put_le16E:
  obtains a b where "put_le16 v = [a, b]" "get_le16 a b = v"
  by (simp add: put_le16_def)

lemma put_le64E:
  obtains a b c d e f g h where "put_le64 v = [a, b, c, d, e, f, g, h]"
    "\<And>r. get_le64 (a # b # c # d # e # f # g # h # r) = v"
proof -
  have "length (put_le64 v) = 8" by simp
  then obtain a b c d e f g h where eq: "put_le64 v = [a, b, c, d, e, f, g, h]"
    by (auto simp: length_Suc_conv numeral_eq_Suc simp del: length_put_le64)
  show ?thesis using get_put_le64 [of v] by (intro that [OF eq]) (simp add: eq)
qed

lemma fs_header_fields [codec, simp]:
  "hdr_magic (fs_header s l c @ r) = CMQ_FS_MAGIC"
  "hdr_version (fs_header s l c @ r) = CMQ_FS_VERSION"
  "hdr_crc (fs_header s l c @ r) = c"
  "s < 2 ^ 64 \<Longrightarrow> hdr_seq (fs_header s l c @ r) = s"
  "l < 2 ^ 32 \<Longrightarrow> hdr_len (fs_header s l c @ r) = l"
proof -
  obtain m1 m2 m3 m4 where m: "put_le32 CMQ_FS_MAGIC = [m1, m2, m3, m4]" "get_le32 m1 m2 m3 m4 = CMQ_FS_MAGIC"
    by (rule put_le32E)
  obtain v1 v2 where v: "put_le16 CMQ_FS_VERSION = [v1, v2]" "get_le16 v1 v2 = CMQ_FS_VERSION"
    by (rule put_le16E)
  obtain s1 s2 s3 s4 s5 s6 s7 s8 where s: "put_le64 (of_nat s) = [s1, s2, s3, s4, s5, s6, s7, s8]"
    "\<And>r. get_le64 (s1 # s2 # s3 # s4 # s5 # s6 # s7 # s8 # r) = of_nat s"
    by (rule put_le64E) blast
  obtain l1 l2 l3 l4 where l: "put_le32 (of_nat l) = [l1, l2, l3, l4]" "get_le32 l1 l2 l3 l4 = of_nat l"
    by (rule put_le32E)
  obtain c1 c2 c3 c4 where c: "put_le32 c = [c1, c2, c3, c4]" "get_le32 c1 c2 c3 c4 = c"
    by (rule put_le32E)
  note eqs = fs_header_def m s l c v
  show "hdr_magic (fs_header s l c @ r) = CMQ_FS_MAGIC" by (simp add: hdr_magic_def eqs)
  show "hdr_version (fs_header s l c @ r) = CMQ_FS_VERSION" by (simp add: hdr_version_def eqs)
  show "hdr_crc (fs_header s l c @ r) = c" by (simp add: hdr_crc_def eqs)
  show "s < 2 ^ 64 \<Longrightarrow> hdr_seq (fs_header s l c @ r) = s" by (simp add: hdr_seq_def eqs unat_of_nat64)
  show "l < 2 ^ 32 \<Longrightarrow> hdr_len (fs_header s l c @ r) = l" by (simp add: hdr_len_def eqs unat_of_nat32)
qed

lemmas fs_header_fields0 [codec, simp] = fs_header_fields [where r = "[]", unfolded append_Nil2]

lemma hdr_put_seq_header [codec, simp]: "hdr_put_seq (fs_header s l c) s' = fs_header s' l c"
proof -
  have "take 6 (fs_header s l c) = put_le32 CMQ_FS_MAGIC @ put_le16 CMQ_FS_VERSION"
    "drop 14 (fs_header s l c) = put_le32 (of_nat l) @ put_le32 c"
    by (simp_all add: fs_header_def)
  then show ?thesis by (simp add: hdr_put_seq_def fs_header_def)
qed

lemma fread_at_append:
  "off = length a \<Longrightarrow> n = length b \<Longrightarrow> off < 2 ^ 63 \<Longrightarrow> fread_at (a @ b @ c) off n = Some b"
  by (simp add: fread_at_def)

lemma fread_at_short: "length file < off + n \<Longrightarrow> fread_at file off n = None"
  by (simp add: fread_at_def)


section \<open>The files of a list of payloads\<close>

definition log_off :: "bytes list \<Rightarrow> nat \<Rightarrow> nat" where
  "log_off rs i = sum_list (map (\<lambda>r. 22 + length r) (take i rs))"

definition log_data :: "bytes list \<Rightarrow> bytes" where
  "log_data rs = concat (map (\<lambda>i. fs_record (Suc i) (rs ! i)) [0..<length rs])"

definition log_idx :: "bytes list \<Rightarrow> bytes" where
  "log_idx rs = concat (map (\<lambda>i. put_le64 (of_nat (log_off rs i))) [0..<length rs])"

text \<open>Payloads the log accepts, in files whose size fits \<^verbatim>\<open>off_t\<close>.\<close>

definition log_ok :: "bytes list \<Rightarrow> bool" where
  "log_ok rs \<longleftrightarrow> list_all (\<lambda>r. 0 < length r \<and> length r \<le> FS_PAYLOAD_MAX) rs \<and> log_off rs (length rs) < 2 ^ 63"

lemma log_off_append: "i \<le> length rs \<Longrightarrow> log_off (rs @ ts) i = log_off rs i"
  by (simp add: log_off_def)

lemma log_off_Suc: "i < length rs \<Longrightarrow> log_off rs (Suc i) = log_off rs i + 22 + length (rs ! i)"
  by (simp add: log_off_def take_Suc_conv_app_nth)

lemma log_off_mono: "i \<le> j \<Longrightarrow> log_off rs i \<le> log_off rs j"
proof -
  assume "i \<le> j"
  then obtain k where "j = i + k" by (auto simp: le_iff_add)
  then show ?thesis by (simp add: log_off_def take_add)
qed

lemma log_off_0 [simp]: "log_off rs 0 = 0"
  by (simp add: log_off_def)

lemma log_off_take: "j \<le> i \<Longrightarrow> log_off (take i rs) j = log_off rs j"
  by (simp add: log_off_def min_absorb1)

lemma log_data_snoc: "log_data (rs @ [r]) = log_data rs @ fs_record (Suc (length rs)) r"
proof -
  have "map (\<lambda>i. fs_record (Suc i) ((rs @ [r]) ! i)) [0..<length rs] = map (\<lambda>i. fs_record (Suc i) (rs ! i)) [0..<length rs]"
    by (simp add: nth_append)
  from arg_cong [OF this, of concat] show ?thesis by (simp add: log_data_def del: map_eq_conv)
qed

lemma log_idx_snoc: "log_idx (rs @ [r]) = log_idx rs @ put_le64 (of_nat (log_off rs (length rs)))"
proof -
  have "map (\<lambda>i. put_le64 (of_nat (log_off (rs @ [r]) i))) [0..<length rs] =
      map (\<lambda>i. put_le64 (of_nat (log_off rs i))) [0..<length rs]"
    by (simp add: log_off_append)
  from arg_cong [OF this, of concat] show ?thesis by (simp add: log_idx_def log_off_append del: map_eq_conv)
qed

lemma log_nil [simp]: "log_data [] = []" "log_idx [] = []"
  by (simp_all add: log_data_def log_idx_def)

lemma length_log_idx [simp]: "length (log_idx rs) = 8 * length rs"
  by (induction rs rule: rev_induct) (simp_all add: log_idx_snoc)

lemma length_log_data: "length (log_data rs) = log_off rs (length rs)"
  by (induction rs rule: rev_induct)
    (simp_all add: log_data_snoc length_fs_record log_off_Suc log_off_append nth_append)

lemma log_ok_nil [simp]: "log_ok []"
  by (simp add: log_ok_def)

lemma log_ok_nth: "log_ok rs \<Longrightarrow> i < length rs \<Longrightarrow> 0 < length (rs ! i) \<and> length (rs ! i) \<le> FS_PAYLOAD_MAX"
  by (auto simp: log_ok_def list_all_length)

lemma log_ok_snoc:
  "log_ok (rs @ [r]) \<longleftrightarrow>
     log_ok rs \<and> 0 < length r \<and> length r \<le> FS_PAYLOAD_MAX \<and> log_off rs (length rs) + 22 + length r < 2 ^ 63"
  by (auto simp: log_ok_def log_off_Suc log_off_append nth_append)

lemma log_ok_take: "log_ok rs \<Longrightarrow> log_ok (take i rs)"
proof -
  assume ok: "log_ok rs"
  have "log_off (take i rs) (length (take i rs)) \<le> log_off rs (length rs)"
    using log_off_mono [of "length (take i rs)" "length rs" rs] by (simp add: log_off_take)
  with ok show ?thesis by (auto simp: log_ok_def list_all_iff dest: in_set_takeD)
qed

lemma log_count: "8 * length rs \<le> log_off rs (length rs)"
  by (induction rs rule: rev_induct) (simp_all add: log_off_Suc log_off_append nth_append)

lemma log_data_split:
  "i < length rs \<Longrightarrow> \<exists>tail. log_data rs = log_data (take i rs) @ fs_record (Suc i) (rs ! i) @ tail"
proof (induction rs rule: rev_induct)
  case (snoc r rs)
  show ?case
  proof (cases "i < length rs")
    case True
    with snoc.IH show ?thesis by (auto simp: log_data_snoc nth_append)
  next
    case False
    then show ?thesis using snoc.prems by (simp add: log_data_snoc nth_append less_Suc_eq)
  qed
qed simp

lemma log_idx_split:
  "i < length rs \<Longrightarrow> \<exists>tail. log_idx rs = log_idx (take i rs) @ put_le64 (of_nat (log_off rs i)) @ tail"
proof (induction rs rule: rev_induct)
  case (snoc r rs)
  show ?case
  proof (cases "i < length rs")
    case True
    with snoc.IH show ?thesis by (auto simp: log_idx_snoc log_off_append)
  next
    case False
    then show ?thesis using snoc.prems by (simp add: log_idx_snoc log_off_append less_Suc_eq)
  qed
qed simp

lemma log_off_bound: "log_ok rs \<Longrightarrow> i \<le> length rs \<Longrightarrow> log_off rs i < 2 ^ 63"
  using log_off_mono [of i "length rs" rs] by (auto simp: log_ok_def)

lemma log_idx_entry:
  assumes "log_ok rs" "i < length rs"
  shows "idx_entry (log_idx rs @ y) i = Some (log_off rs i)"
proof -
  obtain tail where split: "log_idx rs = log_idx (take i rs) @ put_le64 (of_nat (log_off rs i)) @ tail"
    using log_idx_split [OF assms(2)] by blast
  have "log_off rs i < 2 ^ 64"
    using log_off_bound [OF assms(1), of i] assms(2) by simp
  moreover have "i * 8 < 2 ^ 63"
    using log_count [of rs] assms by (simp add: log_ok_def)
  ultimately show ?thesis
    using assms(2) get_put_le64 [of _ "[]"] by (simp add: idx_entry_def split fread_at_append unat_of_nat64)
qed

lemma log_data_at:
  assumes "log_ok rs" "i < length rs"
  shows "fread_at (log_data rs @ x) (log_off rs i) 22 =
      Some (fs_header (Suc i) (length (rs ! i)) (crc32_compute (rs ! i)))"
    and "fread_at (log_data rs @ x) (log_off rs i + 22) (length (rs ! i)) = Some (rs ! i)"
proof -
  obtain tail where split: "log_data rs = log_data (take i rs) @ fs_record (Suc i) (rs ! i) @ tail"
    using log_data_split [OF assms(2)] by blast
  have len: "length (log_data (take i rs)) = log_off rs i"
    using assms(2) by (simp add: length_log_data log_off_take)
  have b: "log_off rs i + 22 < 2 ^ 63"
    using log_off_bound [OF assms(1), of "Suc i"] assms(2) by (simp add: log_off_Suc)
  show "fread_at (log_data rs @ x) (log_off rs i) 22 =
      Some (fs_header (Suc i) (length (rs ! i)) (crc32_compute (rs ! i)))"
    using b by (simp add: split fs_record_def fread_at_append len)
  have "log_data rs @ x = (log_data (take i rs) @ fs_header (Suc i) (length (rs ! i)) (crc32_compute (rs ! i))) @ (rs ! i) @ tail @ x"
    by (simp add: split fs_record_def)
  then show "fread_at (log_data rs @ x) (log_off rs i + 22) (length (rs ! i)) = Some (rs ! i)"
    using b by (simp only: fread_at_append len length_append length_fs_header)
qed

end
