(* ===== verification/CMQ_Path.thy ===== *)
theory CMQ_Path
  imports CMQ_Prelude
begin

text \<open>
  The check of directory and file names that the block list, the log files and the key-value bridge share:
  no back slash and no control character, and no component \<^verbatim>\<open>.\<close> or \<^verbatim>\<open>..\<close>. Each of them has its own copy of
  the loop; \<open>path_parts_ok\<close> is that loop, and \<open>path_ok\<close> the whole check for a buffer of a given size.
\<close>

section \<open>Model\<close>

fun split_on :: "char \<Rightarrow> string \<Rightarrow> string list" where
  "split_on d [] = [[]]"
| "split_on d (c # cs) =
     (if c = d then [] # split_on d cs
      else case split_on d cs of [] \<Rightarrow> [[c]] | p # ps \<Rightarrow> (c # p) # ps)"

definition path_char_ok :: "char \<Rightarrow> bool" where
  "path_char_ok c \<longleftrightarrow> \<not> (c = CHR 0x5C \<or> byte_of c < 0x20 \<or> byte_of c = 0x7f)"

function path_parts_ok :: "string \<Rightarrow> bool" where
  "path_parts_ok s =
     (let r = dropWhile (\<lambda>c. c = CHR ''/'') s
      in if r = [] then True
         else
           (let part = takeWhile (\<lambda>c. c \<noteq> CHR ''/'') r
            in if part = ''.'' then False
               else if part = ''..'' then False
               else path_parts_ok (dropWhile (\<lambda>c. c \<noteq> CHR ''/'') r)))"
  by pat_completeness auto
termination
proof (relation "measure length")
  fix s r part :: string
  assume r: "r = dropWhile (\<lambda>c. c = CHR ''/'') s" "r \<noteq> []"
  then have "hd r \<noteq> CHR ''/''" by (metis (mono_tags, lifting) hd_dropWhile)
  then have "length (dropWhile (\<lambda>c. c \<noteq> CHR ''/'') r) < length r"
    using r(2) length_dropWhile_le [of "\<lambda>c. c \<noteq> CHR ''/''" "tl r"] by (cases r) auto
  also have "\<dots> \<le> length s" unfolding r(1) by (rule length_dropWhile_le)
  finally show "(dropWhile (\<lambda>c. c \<noteq> CHR ''/'') r, s) \<in> measure length" by simp
qed simp

declare path_parts_ok.simps [simp del]

definition path_ok :: "nat \<Rightarrow> string \<Rightarrow> bool" where
  "path_ok sz path \<longleftrightarrow>
     path \<noteq> [] \<and>
     (let n = strnlen path sz
      in \<not> (n = 0 \<or> n \<ge> sz) \<and> list_all path_char_ok (take n path) \<and> path_parts_ok (take n path))"

section \<open>Components\<close>

lemma split_on_part:
  "split_on d s =
     takeWhile (\<lambda>c. c \<noteq> d) s # (case dropWhile (\<lambda>c. c \<noteq> d) s of [] \<Rightarrow> [] | _ # r \<Rightarrow> split_on d r)"
  by (induction s) auto

lemma split_tail:
  "x \<noteq> [] \<Longrightarrow> x \<in> set (case dropWhile (\<lambda>c. c \<noteq> d) s of [] \<Rightarrow> [] | _ # r \<Rightarrow> split_on d r) \<longleftrightarrow>
     x \<in> set (split_on d (dropWhile (\<lambda>c. c \<noteq> d) s))"
  by (induction s) auto

lemma split_on_skip:
  "x \<noteq> [] \<Longrightarrow> x \<in> set (split_on d (dropWhile (\<lambda>c. c = d) s)) \<longleftrightarrow> x \<in> set (split_on d s)"
  by (induction s) auto

lemma path_parts_iff: "path_parts_ok s \<longleftrightarrow> ''.'' \<notin> set (split_on CHR ''/'' s) \<and> ''..'' \<notin> set (split_on CHR ''/'' s)"
proof (induction s rule: path_parts_ok.induct)
  case (1 s)
  let ?r = "dropWhile (\<lambda>c. c = CHR ''/'') s"
  let ?part = "takeWhile (\<lambda>c. c \<noteq> CHR ''/'') ?r" and ?rest = "dropWhile (\<lambda>c. c \<noteq> CHR ''/'') ?r"
  have skip: "x \<noteq> [] \<Longrightarrow> x \<in> set (split_on CHR ''/'' s) \<longleftrightarrow> x \<in> set (split_on CHR ''/'' ?r)" for x
    using split_on_skip [of x "CHR ''/''" s] by simp
  show ?case
  proof (cases "?r = []")
    case True
    then have "x \<notin> set (split_on CHR ''/'' s)" if "x \<noteq> []" for x using skip [OF that] that by (simp only: True) simp
    then show ?thesis using True by (subst path_parts_ok.simps) (simp only: Let_def if_True, simp)
  next
    case False
    have mem: "x \<in> set (split_on CHR ''/'' s) \<longleftrightarrow> x = ?part \<or> x \<in> set (split_on CHR ''/'' ?rest)" if "x \<noteq> []" for x
      unfolding skip [OF that] by (subst split_on_part) (simp only: list.set insert_iff split_tail [OF that])
    have step: "path_parts_ok s \<longleftrightarrow> ?part \<noteq> ''.'' \<and> ?part \<noteq> ''..'' \<and> path_parts_ok ?rest"
      using False by (subst path_parts_ok.simps) (simp only: Let_def if_False, simp)
    show ?thesis
    proof (cases "?part = ''.'' \<or> ?part = ''..''")
      case True
      then show ?thesis unfolding step using mem [of "''.''"] mem [of "''..''"] by auto
    next
      case no: False
      then have "path_parts_ok ?rest \<longleftrightarrow>
          ''.'' \<notin> set (split_on CHR ''/'' ?rest) \<and> ''..'' \<notin> set (split_on CHR ''/'' ?rest)"
        using 1 [OF refl False refl] by blast
      with no show ?thesis unfolding step using mem [of "''.''"] mem [of "''..''"] by auto
    qed
  qed
qed

text \<open>What the check accepts: names that fit the buffer, of plain characters, that never leave their directory.\<close>

lemma path_ok_iff:
  "path_ok sz path \<longleftrightarrow>
     path \<noteq> [] \<and> length path < sz \<and> list_all path_char_ok path \<and>
     ''.'' \<notin> set (split_on CHR ''/'' path) \<and> ''..'' \<notin> set (split_on CHR ''/'' path)"
  by (auto simp: path_ok_def strnlen_def Let_def path_parts_iff min_def split: if_splits)

end
