(* ===== verification/CMQ_Filestore.thy ===== *)
theory CMQ_Filestore
  imports CMQ_Logfile CMQ_Path
begin

text \<open>
  The write-ahead log (\<^verbatim>\<open>src/store/cmq_filestore.c\<close>). The two files of a store, opened for appending, and
  its two archive files are fields of its state. The mutex and the file locks make every operation
  one step. What the operating system may refuse is an argument: allocations (\<open>heap\<close>), the writes and
  truncations of an append (\<open>fs_io\<close>), the renames, the synchronisation and the clocks (\<open>fs_env\<close>); opening, seeking
  and reading files succeed, a read past the end being short.
\<close>

section \<open>State\<close>

record filestore =
  fs_dir :: string
  fs_prefix :: string
  fs_data :: bytes
  fs_idx :: bytes
  fs_data1 :: "bytes option"
  fs_idx1 :: "bytes option"
  next_seq :: nat
  data_end_off :: nat
  idx_end_off :: nat
  fs_in_flight :: nat
  fs_dying :: bool
  async_blocked :: nat
  async_enqueued :: nat
  fsync_interval_ms :: nat
  last_sync_ms :: nat
  max_payload_bytes :: nat
  rotate_bytes :: nat
  tombstone_ttl_ms :: nat
  compact_dirty_num :: nat
  compact_dirty_den :: nat
  async_active :: bool
  async_capacity :: nat
  async_head :: nat
  async_tail :: nat
  async_count :: nat
  async_entries :: "bytes list"
  async_lens :: "nat list"
  async_seqs :: "nat list"

text \<open>
  What may go wrong in an append: the write of the record stops after some bytes, the position in the
  index cannot be had, the write of the entry stops after some bytes; each with whether the truncations
  that follow succeed.
\<close>

datatype fs_io =
    Io_ok
  | Io_data_fails nat bool
  | Io_tell_fails bool
  | Io_idx_fails nat bool bool

record fs_env =
  env_wall :: nat
  env_mtime :: nat
  env_mono :: nat
  env_sync :: bool
  env_ren_data :: bool
  env_ren_idx :: bool

definition ftruncate :: "bytes \<Rightarrow> nat \<Rightarrow> bytes" where
  "ftruncate file n = take n file @ replicate (n - length file) 0"

definition fs_begin_op :: "filestore \<Rightarrow> filestore option" where
  "fs_begin_op fs = (if fs_dying fs then None else Some (fs\<lparr>fs_in_flight := fs_in_flight fs + 1\<rparr>))"

definition fs_end_op :: "filestore \<Rightarrow> filestore" where
  "fs_end_op fs = fs\<lparr>fs_in_flight := fs_in_flight fs - 1\<rparr>"

definition fs_refresh_next_seq :: "filestore \<Rightarrow> bool \<Rightarrow> int \<times> filestore" where
  "fs_refresh_next_seq fs may_truncate =
     (let idx_sz = length (fs_idx fs);
          whole = idx_sz - idx_sz mod 8;
          fs = (if idx_sz mod 8 \<noteq> 0 \<and> may_truncate then fs\<lparr>fs_idx := ftruncate (fs_idx fs) whole\<rparr> else fs);
          n = whole div 8
      in if n = UINT64_MAX then (- 1, fs) else (0, fs\<lparr>next_seq := n + 1\<rparr>))"

section \<open>Names\<close>

definition prefix_safe :: "string option \<Rightarrow> bool" where
  "prefix_safe prefix =
     (case prefix of
        None \<Rightarrow> False
      | Some p \<Rightarrow>
          p \<noteq> [] \<and>
          (let n = strnlen p 64
           in \<not> (n = 0 \<or> n \<ge> 64) \<and> p \<noteq> ''.'' \<and> p \<noteq> ''..'' \<and>
              list_all (\<lambda>c. \<not> (c = CHR ''/'' \<or> c = CHR 0x5C \<or> byte_of c < 0x20 \<or> byte_of c = 0x7f)) (take n p)))"

definition dir_safe :: "string option \<Rightarrow> bool" where
  "dir_safe dir = (case dir of None \<Rightarrow> False | Some d \<Rightarrow> path_ok 512 d)"

section \<open>Opening\<close>

text \<open>The stream of checksum updates over chunks of 8192 bytes.\<close>

function crc_chunks :: "u32 \<Rightarrow> bytes \<Rightarrow> u32" where
  "crc_chunks crc data =
     (if data = [] then crc else crc_chunks (crc32_update crc (take 8192 data)) (drop 8192 data))"
  by pat_completeness auto
termination
  by (relation "measure (\<lambda>(crc, data). length data)") auto

declare crc_chunks.simps [simp del]

definition repair_check :: "bytes \<Rightarrow> bytes \<Rightarrow> nat \<Rightarrow> bool" where
  "repair_check data idx i =
     (case idx_entry idx i of
        None \<Rightarrow> False
      | Some off \<Rightarrow>
          if off > UINT64_MAX - CMQ_FS_HDR_SIZE \<or> off + CMQ_FS_HDR_SIZE > length data then False
          else case fread_at data off CMQ_FS_HDR_SIZE of
            None \<Rightarrow> False
          | Some hdr \<Rightarrow>
              if hdr_magic hdr \<noteq> CMQ_FS_MAGIC \<or> hdr_version hdr \<noteq> CMQ_FS_VERSION then False
              else if hdr_seq hdr \<noteq> i + 1 \<or> hdr_len hdr = 0 \<or> hdr_len hdr > FS_PAYLOAD_MAX then False
              else if off > UINT64_MAX - CMQ_FS_HDR_SIZE - hdr_len hdr \<or>
                      off + CMQ_FS_HDR_SIZE + hdr_len hdr > length data then False
              else case fread_at data (off + CMQ_FS_HDR_SIZE) (hdr_len hdr) of
                None \<Rightarrow> False
              | Some payload \<Rightarrow> NOT (crc_chunks 0xFFFFFFFF payload) = hdr_crc hdr)"

fun repair_loop :: "bytes \<Rightarrow> bytes \<Rightarrow> nat \<Rightarrow> nat \<Rightarrow> nat" where
  "repair_loop data idx i 0 = i"
| "repair_loop data idx i (Suc left) =
     (if repair_check data idx i then repair_loop data idx (Suc i) left else i)"

definition repair_idx :: "filestore \<Rightarrow> nat \<times> filestore" where
  "repair_idx fs =
     (let idx_sz = length (fs_idx fs);
          whole = idx_sz - idx_sz mod 8;
          fs = (if idx_sz mod 8 \<noteq> 0 then fs\<lparr>fs_idx := ftruncate (fs_idx fs) whole\<rparr> else fs);
          valid = repair_loop (fs_data fs) (fs_idx fs) 0 (whole div 8)
      in (valid, if valid * 8 \<noteq> whole then fs\<lparr>fs_idx := ftruncate (fs_idx fs) (valid * 8)\<rparr> else fs))"

definition truncate_orphan_data :: "filestore \<Rightarrow> nat \<Rightarrow> int \<times> filestore" where
  "truncate_orphan_data fs n_idx =
     (let finish = (\<lambda>expect. if length (fs_data fs) \<le> expect then (0, fs)
                             else (0, fs\<lparr>fs_data := ftruncate (fs_data fs) expect\<rparr>))
      in if n_idx > 0 then
           (case idx_entry (fs_idx fs) (n_idx - 1) of
              None \<Rightarrow> (- 1, fs)
            | Some off \<Rightarrow>
                (case fread_at (fs_data fs) off CMQ_FS_HDR_SIZE of
                   None \<Rightarrow> (- 1, fs)
                 | Some hdr \<Rightarrow>
                     if hdr_magic hdr \<noteq> CMQ_FS_MAGIC then (0, fs)
                     else if off + CMQ_FS_HDR_SIZE + hdr_len hdr \<ge> 2 ^ 63 then (0, fs)
                     else finish (off + CMQ_FS_HDR_SIZE + hdr_len hdr)))
         else finish 0)"

type_synonym fs_disk = "bytes \<times> bytes \<times> bytes option \<times> bytes option"

text \<open>\<^verbatim>\<open>calloc\<close> clears the store; only the fields that are set afterwards differ from zero.\<close>

definition fs_calloc :: "string \<Rightarrow> string \<Rightarrow> fs_disk \<Rightarrow> filestore" where
  "fs_calloc dir prefix disk =
     (case disk of (data, idx, data1, idx1) \<Rightarrow>
        \<lparr>fs_dir = dir, fs_prefix = prefix, fs_data = data, fs_idx = idx, fs_data1 = data1, fs_idx1 = idx1,
         next_seq = 0, data_end_off = 0, idx_end_off = 0, fs_in_flight = 0, fs_dying = False,
         async_blocked = 0, async_enqueued = 0, fsync_interval_ms = 0, last_sync_ms = 0,
         max_payload_bytes = 1 * 1024 * 1024, rotate_bytes = 0, tombstone_ttl_ms = 0,
         compact_dirty_num = 0, compact_dirty_den = 0, async_active = False, async_capacity = 0,
         async_head = 0, async_tail = 0, async_count = 0, async_entries = [], async_lens = [], async_seqs = []\<rparr>)"

definition cmq_filestore_create :: "heap \<Rightarrow> string option \<Rightarrow> string option \<Rightarrow> fs_disk \<Rightarrow> filestore option" where
  "cmq_filestore_create h dir prefix disk =
     (if \<not> dir_safe dir \<or> \<not> prefix_safe prefix then None
      else case malloc_ok h of
        (False, _) \<Rightarrow> None
      | (True, h) \<Rightarrow>
          (case malloc_ok h of (b, h) \<Rightarrow>
           case malloc_ok h of (e, h) \<Rightarrow>
             if \<not> b \<or> \<not> e then None
             else
               (let fs = fs_calloc (the dir) (the prefix) disk;
                    (n, fs) = repair_idx fs;
                    (orphan_rc, fs) = truncate_orphan_data fs n
                in if orphan_rc \<noteq> 0 then None else Some (fs\<lparr>next_seq := n + 1\<rparr>))))"

text \<open>What \<^verbatim>\<open>cmq_filestore_destroy\<close> leaves on disk: the ring's entries are freed, not written.\<close>

definition cmq_filestore_destroy :: "filestore \<Rightarrow> fs_disk" where
  "cmq_filestore_destroy fs = (fs_data fs, fs_idx fs, fs_data1 fs, fs_idx1 fs)"


section \<open>Rotation and compaction\<close>

text \<open>
  \<^verbatim>\<open>filestore_rotate_archive_locked\<close>: the old archive is unlinked first; a rename that fails reopens the files
  there are, so a failure of the second one leaves an empty data file beside the old index.
\<close>

definition filestore_rotate_archive_locked :: "fs_env \<Rightarrow> filestore \<Rightarrow> int \<times> filestore" where
  "filestore_rotate_archive_locked env fs =
     (let fs' = fs\<lparr>fs_data1 := None, fs_idx1 := None\<rparr>
      in if \<not> env_ren_data env then (- 1, fs')
         else
           (let fs' = fs'\<lparr>fs_data1 := Some (fs_data fs), fs_data := []\<rparr>
            in if \<not> env_ren_idx env then (- 1, fs')
               else (0, fs'\<lparr>fs_idx1 := Some (fs_idx fs), fs_idx := [],
                            next_seq := 1, data_end_off := 0, idx_end_off := 0\<rparr>)))"

text \<open>
  The reading half that \<^verbatim>\<open>compact_copy_one\<close>, \<^verbatim>\<open>keycompact_load\<close> and \<^verbatim>\<open>filestore_read_impl\<close> share: header, payload and
  checksum of the record at an offset.
\<close>

definition load_record :: "heap \<Rightarrow> bytes \<Rightarrow> nat \<Rightarrow> (bytes \<times> bytes) option \<times> heap" where
  "load_record h data off =
     (case fread_at data off CMQ_FS_HDR_SIZE of
        None \<Rightarrow> (None, h)
      | Some hdr \<Rightarrow>
          if hdr_magic hdr \<noteq> CMQ_FS_MAGIC \<or> hdr_version hdr \<noteq> CMQ_FS_VERSION then (None, h)
          else if hdr_len hdr = 0 \<or> hdr_len hdr > FS_PAYLOAD_MAX then (None, h)
          else case malloc_ok h of
            (False, h) \<Rightarrow> (None, h)
          | (True, h) \<Rightarrow>
              (case fread_at data (off + CMQ_FS_HDR_SIZE) (hdr_len hdr) of
                 None \<Rightarrow> (None, h)
               | Some buf \<Rightarrow>
                   if crc32_compute buf \<noteq> hdr_crc hdr then (None, h) else (Some (hdr, buf), h)))"

text \<open>The files written so far and \<^verbatim>\<open>*off\<close>.\<close>

type_synonym fs_out = "bytes \<times> bytes \<times> nat"

definition compact_copy_one ::
    "heap \<Rightarrow> bytes \<Rightarrow> bytes \<Rightarrow> nat \<Rightarrow> nat \<Rightarrow> fs_out \<Rightarrow> fs_out option \<times> heap" where
  "compact_copy_one h data idx old_seq new_seq out =
     (case out of (df, idf, off) \<Rightarrow>
      case idx_entry idx (old_seq - 1) of
        None \<Rightarrow> (None, h)
      | Some data_offset \<Rightarrow>
          (case load_record h data data_offset of
             (None, h) \<Rightarrow> (None, h)
           | (Some (hdr, buf), h) \<Rightarrow>
               (Some (df @ hdr_put_seq hdr new_seq @ buf, idf @ put_le64 (of_nat off),
                      off + (CMQ_FS_HDR_SIZE + hdr_len hdr)), h)))"

fun compact_copy :: "heap \<Rightarrow> bytes \<Rightarrow> bytes \<Rightarrow> nat \<Rightarrow> nat \<Rightarrow> nat \<Rightarrow> fs_out \<Rightarrow> fs_out option \<times> heap" where
  "compact_copy h data idx keep_from i 0 out = (Some out, h)"
| "compact_copy h data idx keep_from i (Suc left) out =
     (case compact_copy_one h data idx (keep_from + i) (i + 1) out of
        (None, h) \<Rightarrow> (None, h)
      | (Some out, h) \<Rightarrow> compact_copy h data idx keep_from (Suc i) left out)"

definition filestore_compact_impl :: "heap \<Rightarrow> fs_env \<Rightarrow> filestore \<Rightarrow> nat \<Rightarrow> int \<times> filestore" where
  "filestore_compact_impl h env fs retain =
     (case fs_refresh_next_seq fs True of (rc, fs) \<Rightarrow>
        if rc \<noteq> 0 then (- 1, fs)
        else
          (let last_seq = (if next_seq fs > 0 then next_seq fs - 1 else 0)
           in if retain \<ge> last_seq then (0, fs)
              else if retain = 0 then
                (0, fs\<lparr>fs_data := ftruncate (fs_data fs) 0, fs_idx := ftruncate (fs_idx fs) 0,
                       next_seq := 1, data_end_off := 0, idx_end_off := 0\<rparr>)
              else
                (case compact_copy h (fs_data fs) (fs_idx fs) (last_seq - retain + 1) 0 retain ([], [], 0) of
                   (None, h) \<Rightarrow> (- 1, fs)
                 | (Some (df, idf, off), h) \<Rightarrow>
                     if \<not> env_ren_data env then (- 1, fs)
                     else if \<not> env_ren_idx env then (- 1, fs\<lparr>fs_data := df\<rparr>)
                     else (0, fs\<lparr>fs_data := df, fs_idx := idf, next_seq := retain + 1,
                                 data_end_off := off, idx_end_off := retain * 8\<rparr>))))"

definition cmq_filestore_compact :: "heap \<Rightarrow> fs_env \<Rightarrow> filestore \<Rightarrow> nat \<Rightarrow> int \<times> filestore" where
  "cmq_filestore_compact h env fs retain =
     (case fs_begin_op fs of
        None \<Rightarrow> (- 1, fs)
      | Some fs \<Rightarrow> (case filestore_compact_impl h env fs retain of (rc, fs) \<Rightarrow> (rc, fs_end_op fs)))"

definition cmq_filestore_set_rotate_bytes :: "filestore \<Rightarrow> nat \<Rightarrow> filestore" where
  "cmq_filestore_set_rotate_bytes fs cap = fs\<lparr>rotate_bytes := cap\<rparr>"

section \<open>Keyed records\<close>

definition CMQ_FS_KEY_MAGIC :: bytes where
  "CMQ_FS_KEY_MAGIC = [0x43, 0x4D, 0x51, 0x4B]"

definition CMQ_FS_KEY_MAX :: nat where "CMQ_FS_KEY_MAX = 256"
definition CMQ_FS_KEYCOMPACT_MAX_RECS :: nat where "CMQ_FS_KEYCOMPACT_MAX_RECS = 262144"

text \<open>The bytes written to \<^verbatim>\<open>out\<close> of size \<open>out_sz\<close>; \<open>None\<close> for a refusal. A null value has length 0.\<close>

definition cmq_filestore_key_encode :: "nat \<Rightarrow> bytes option \<Rightarrow> bytes \<Rightarrow> bytes option" where
  "cmq_filestore_key_encode out_sz key val =
     (case key of
        None \<Rightarrow> None
      | Some k \<Rightarrow>
          if length k = 0 \<or> length k > CMQ_FS_KEY_MAX then None
          else if out_sz < 6 \<or> length k > out_sz - 6 then None
          else if length val > out_sz - 6 - length k then None
          else Some (CMQ_FS_KEY_MAGIC @ put_le16 (of_nat (length k)) @ k @ val))"

definition cmq_filestore_key_decode :: "bytes option \<Rightarrow> (bytes \<times> bytes) option" where
  "cmq_filestore_key_decode p =
     (case p of
        None \<Rightarrow> None
      | Some b \<Rightarrow>
          if length b < 6 then None
          else if take 4 b \<noteq> CMQ_FS_KEY_MAGIC then None
          else
            (let klen = unat (get_le16 (b ! 4) (b ! 5))
             in if klen = 0 \<or> klen > CMQ_FS_KEY_MAX \<or> klen > length b - 6 then None
                else Some (take klen (drop 6 b), drop (6 + klen) b)))"

record kc_rec =
  kc_off :: nat
  kc_len :: nat
  kc_crc :: u32
  kc_klen :: nat
  kc_keyed :: bool
  kc_tombstone :: bool
  kc_keep :: bool
  kc_key :: bytes

definition kc_of :: "nat \<Rightarrow> bytes \<Rightarrow> bytes \<Rightarrow> kc_rec" where
  "kc_of off hdr buf =
     (case cmq_filestore_key_decode (Some buf) of
        Some (k, v) \<Rightarrow>
          \<lparr>kc_off = off, kc_len = hdr_len hdr, kc_crc = hdr_crc hdr, kc_klen = length k, kc_keyed = True,
           kc_tombstone = (length v = 0), kc_keep = False, kc_key = k\<rparr>
      | None \<Rightarrow>
          \<lparr>kc_off = off, kc_len = hdr_len hdr, kc_crc = hdr_crc hdr, kc_klen = 0, kc_keyed = False,
           kc_tombstone = False, kc_keep = False, kc_key = []\<rparr>)"

fun keycompact_load_from :: "heap \<Rightarrow> bytes \<Rightarrow> bytes \<Rightarrow> nat \<Rightarrow> nat \<Rightarrow> kc_rec list option \<times> heap" where
  "keycompact_load_from h df idf i 0 = (Some [], h)"
| "keycompact_load_from h df idf i (Suc left) =
     (case idx_entry idf i of
        None \<Rightarrow> (None, h)
      | Some off \<Rightarrow>
          (case load_record h df off of
             (None, h) \<Rightarrow> (None, h)
           | (Some (hdr, buf), h) \<Rightarrow>
               (case keycompact_load_from h df idf (Suc i) left of
                  (None, h) \<Rightarrow> (None, h)
                | (Some recs, h) \<Rightarrow> (Some (kc_of off hdr buf # recs), h))))"

definition keycompact_load :: "heap \<Rightarrow> bytes \<Rightarrow> bytes \<Rightarrow> kc_rec list option \<times> heap" where
  "keycompact_load h df idf =
     (if length idf mod 8 \<noteq> 0 then (None, h)
      else
        (let n = length idf div 8
         in if n > CMQ_FS_KEYCOMPACT_MAX_RECS then (None, h)
            else if n > 0 then
              (case malloc_ok h of
                 (False, h) \<Rightarrow> (None, h)
               | (True, h) \<Rightarrow> keycompact_load_from h df idf 0 n)
            else (Some [], h)))"

definition keycompact_same :: "kc_rec list \<Rightarrow> nat \<Rightarrow> nat \<Rightarrow> bool" where
  "keycompact_same recs i j \<longleftrightarrow>
     kc_keyed (recs ! j) \<and> kc_klen (recs ! j) = kc_klen (recs ! i) \<and>
     take (kc_klen (recs ! i)) (kc_key (recs ! j)) = take (kc_klen (recs ! i)) (kc_key (recs ! i))"

definition keycompact_last :: "kc_rec list \<Rightarrow> nat \<Rightarrow> nat" where
  "keycompact_last recs i =
     foldl (\<lambda>l j. if keycompact_same recs i j then j else l) i [i + 1..<length recs]"

definition keep_young :: "nat \<Rightarrow> nat \<Rightarrow> nat \<Rightarrow> bool" where
  "keep_young ttl_ms archive_mtime_ms now \<longleftrightarrow>
     ttl_ms > 0 \<and> archive_mtime_ms \<noteq> 0 \<and> now \<ge> archive_mtime_ms \<and> now - archive_mtime_ms < ttl_ms"

definition keycompact_mark :: "kc_rec list \<Rightarrow> nat \<Rightarrow> nat \<Rightarrow> nat \<Rightarrow> kc_rec list" where
  "keycompact_mark recs ttl_ms archive_mtime_ms now =
     map (\<lambda>i. if \<not> kc_keyed (recs ! i) then (recs ! i)\<lparr>kc_keep := True\<rparr>
              else if keycompact_last recs i = i \<and>
                      (\<not> kc_tombstone (recs ! i) \<or> keep_young ttl_ms archive_mtime_ms now)
              then (recs ! i)\<lparr>kc_keep := True\<rparr>
              else recs ! i) [0..<length recs]"


fun keycompact_write_from :: "heap \<Rightarrow> bytes \<Rightarrow> kc_rec list \<Rightarrow> nat \<Rightarrow> fs_out \<Rightarrow> fs_out option" where
  "keycompact_write_from h src [] seq out = Some out"
| "keycompact_write_from h src (r # recs) seq out =
     (if \<not> kc_keep r then keycompact_write_from h src recs seq out
      else case fread_at src (kc_off r) CMQ_FS_HDR_SIZE of
        None \<Rightarrow> None
      | Some hdr \<Rightarrow>
          (case malloc_ok h of
             (False, h) \<Rightarrow> None
           | (True, h) \<Rightarrow>
               (case fread_at src (kc_off r + CMQ_FS_HDR_SIZE) (kc_len r) of
                  None \<Rightarrow> None
                | Some buf \<Rightarrow>
                    (case out of (df, idf, off) \<Rightarrow>
                       keycompact_write_from h src recs (seq + 1)
                         (df @ hdr_put_seq hdr seq @ buf, idf @ put_le64 (of_nat off),
                          off + (CMQ_FS_HDR_SIZE + kc_len r))))))"

definition keycompact_write :: "heap \<Rightarrow> bytes \<Rightarrow> kc_rec list \<Rightarrow> fs_out option" where
  "keycompact_write h src recs = keycompact_write_from h src recs 1 ([], [], 0)"

definition filestore_compact_keys_impl :: "heap \<Rightarrow> fs_env \<Rightarrow> filestore \<Rightarrow> int \<times> filestore" where
  "filestore_compact_keys_impl h env fs =
     (case (fs_data1 fs, fs_idx1 fs) of
        (Some src, Some sidx) \<Rightarrow>
          (case keycompact_load h src sidx of
             (None, h) \<Rightarrow> (- 1, fs)
           | (Some recs, h) \<Rightarrow>
               (case keycompact_write h src (keycompact_mark recs (tombstone_ttl_ms fs) (env_mtime env) (env_wall env)) of
                  None \<Rightarrow> (- 1, fs)
                | Some (df, idf, off) \<Rightarrow>
                    if \<not> env_ren_data env then (- 1, fs)
                    else if \<not> env_ren_idx env then (- 1, fs\<lparr>fs_data1 := Some df\<rparr>)
                    else (0, fs\<lparr>fs_data1 := Some df, fs_idx1 := Some idf\<rparr>)))
      | _ \<Rightarrow> (0, fs))"

definition cmq_filestore_compact_keys :: "heap \<Rightarrow> fs_env \<Rightarrow> filestore \<Rightarrow> int \<times> filestore" where
  "cmq_filestore_compact_keys h env fs =
     (case fs_begin_op fs of
        None \<Rightarrow> (- 1, fs)
      | Some fs \<Rightarrow> (case filestore_compact_keys_impl h env fs of (rc, fs) \<Rightarrow> (rc, fs_end_op fs)))"

definition cmq_filestore_set_tombstone_ttl_ms :: "filestore \<Rightarrow> nat \<Rightarrow> filestore" where
  "cmq_filestore_set_tombstone_ttl_ms fs ms = fs\<lparr>tombstone_ttl_ms := ms\<rparr>"

definition cmq_filestore_set_compact_dirty :: "filestore \<Rightarrow> nat \<Rightarrow> nat \<Rightarrow> int \<times> filestore" where
  "cmq_filestore_set_compact_dirty fs num den = (0, fs\<lparr>compact_dirty_num := num, compact_dirty_den := den\<rparr>)"

definition filestore_key_dirty_impl :: "heap \<Rightarrow> fs_env \<Rightarrow> filestore \<Rightarrow> int \<times> nat \<times> nat" where
  "filestore_key_dirty_impl h env fs =
     (case (fs_data1 fs, fs_idx1 fs) of
        (Some src, Some sidx) \<Rightarrow>
          (case keycompact_load h src sidx of
             (None, h) \<Rightarrow> (- 1, 0, 0)
           | (Some recs, h) \<Rightarrow>
               (let recs = keycompact_mark recs (tombstone_ttl_ms fs) (env_mtime env) (env_wall env)
                in (0, length (filter (\<lambda>r. \<not> kc_keep r) recs), length recs)))
      | _ \<Rightarrow> (0, 0, 0))"

definition filestore_compact_keys_maybe_impl :: "heap \<Rightarrow> fs_env \<Rightarrow> filestore \<Rightarrow> int \<times> filestore" where
  "filestore_compact_keys_maybe_impl h env fs =
     (if compact_dirty_den fs = 0 then (0, fs)
      else case filestore_key_dirty_impl h env fs of
        (rc, drp, tot) \<Rightarrow>
          if rc \<noteq> 0 then (- 1, fs)
          else if tot = 0 then (0, fs)
          else if wrap64 (drp * compact_dirty_den fs) < wrap64 (tot * compact_dirty_num fs) then (0, fs)
          else filestore_compact_keys_impl h env fs)"

definition cmq_filestore_key_dirty :: "heap \<Rightarrow> fs_env \<Rightarrow> filestore \<Rightarrow> (int \<times> nat \<times> nat) \<times> filestore" where
  "cmq_filestore_key_dirty h env fs =
     (case fs_begin_op fs of
        None \<Rightarrow> ((- 1, 0, 0), fs)
      | Some fs \<Rightarrow> (filestore_key_dirty_impl h env fs, fs_end_op fs))"

definition cmq_filestore_compact_keys_maybe :: "heap \<Rightarrow> fs_env \<Rightarrow> filestore \<Rightarrow> int \<times> filestore" where
  "cmq_filestore_compact_keys_maybe h env fs =
     (case fs_begin_op fs of
        None \<Rightarrow> (- 1, fs)
      | Some fs \<Rightarrow> (case filestore_compact_keys_maybe_impl h env fs of (rc, fs) \<Rightarrow> (rc, fs_end_op fs)))"

section \<open>Appending\<close>

text \<open>
  The cached end offsets, and what is put on disk: the data file is opened for appending, so the record
  goes to its end, while the index entry is the cached offset.
\<close>

definition fs_end_offsets :: "filestore \<Rightarrow> filestore" where
  "fs_end_offsets fs =
     (if data_end_off fs = UINT64_MAX \<or> idx_end_off fs = UINT64_MAX
      then fs\<lparr>data_end_off := length (fs_data fs), idx_end_off := length (fs_idx fs)\<rparr> else fs)"

definition fs_put_record :: "fs_io \<Rightarrow> filestore \<Rightarrow> bytes \<Rightarrow> int \<times> filestore" where
  "fs_put_record io fs data =
     (let off = data_end_off fs;
          rec = fs_record (next_seq fs) data;
          ent = put_le64 (of_nat off);
          idx_off = length (fs_idx fs)
      in case io of
           Io_data_fails k t \<Rightarrow>
             (- 1, fs\<lparr>fs_data := (if t then ftruncate (fs_data fs @ take k rec) off else fs_data fs @ take k rec)\<rparr>)
         | Io_tell_fails t \<Rightarrow>
             (- 1, fs\<lparr>fs_data := (if t then ftruncate (fs_data fs @ rec) off else fs_data fs @ rec)\<rparr>)
         | Io_idx_fails k ti td \<Rightarrow>
             (- 1, fs\<lparr>fs_idx := (if ti then ftruncate (fs_idx fs @ take k ent) idx_off else fs_idx fs @ take k ent),
                      fs_data := (if ti \<and> td then ftruncate (fs_data fs @ rec) off else fs_data fs @ rec)\<rparr>)
         | Io_ok \<Rightarrow>
             (0, fs\<lparr>fs_data := fs_data fs @ rec, fs_idx := fs_idx fs @ ent,
                    next_seq := next_seq fs + 1,
                    data_end_off := off + (CMQ_FS_HDR_SIZE + length data), idx_end_off := idx_end_off fs + 8\<rparr>))"

definition filestore_append_impl ::
    "heap \<Rightarrow> fs_io \<Rightarrow> fs_env \<Rightarrow> filestore \<Rightarrow> bytes option \<Rightarrow> (int \<times> nat option) \<times> filestore" where
  "filestore_append_impl h io env fs data =
     (case data of
        None \<Rightarrow> ((- 1, None), fs)
      | Some d \<Rightarrow>
          if length d = 0 \<or> length d > FS_PAYLOAD_MAX then ((- 1, None), fs)
          else case fs_refresh_next_seq fs True of (rc, fs) \<Rightarrow>
            if rc \<noteq> 0 then ((- 1, None), fs)
            else if next_seq fs = UINT64_MAX then ((- 1, None), fs)
            else
              (let fs = fs_end_offsets fs
               in if data_end_off fs > UINT64_MAX - CMQ_FS_HDR_SIZE - length d then ((- 1, None), fs)
                  else case fs_put_record io fs d of (rc, fs') \<Rightarrow>
                    if rc \<noteq> 0 then ((- 1, None), fs')
                    else if rotate_bytes fs' \<noteq> 0 \<and> data_end_off fs' \<ge> rotate_bytes fs' then
                      (case filestore_rotate_archive_locked env fs' of (rrc, fs') \<Rightarrow>
                         if rrc = 0 \<and> compact_dirty_den fs' \<noteq> 0
                         then ((0, Some (next_seq fs)), snd (filestore_compact_keys_maybe_impl h env fs'))
                         else ((0, Some (next_seq fs)), fs'))
                    else ((0, Some (next_seq fs)), fs')))"

definition filestore_maybe_fsync :: "fs_env \<Rightarrow> filestore \<Rightarrow> int \<times> filestore" where
  "filestore_maybe_fsync env fs =
     (if fsync_interval_ms fs = 0 then (0, fs)
      else if last_sync_ms fs = 0 \<or> wrap64 (env_mono env + 2 ^ 64 - last_sync_ms fs) \<ge> fsync_interval_ms fs then
        (if \<not> env_sync env then (- 1, fs) else (0, fs\<lparr>last_sync_ms := env_mono env\<rparr>))
      else (0, fs))"

definition cmq_filestore_append ::
    "heap \<Rightarrow> fs_io \<Rightarrow> fs_env \<Rightarrow> filestore \<Rightarrow> bytes option \<Rightarrow> (int \<times> nat option) \<times> filestore" where
  "cmq_filestore_append h io env fs data =
     (if data = None \<or> data = Some [] then ((- 1, None), fs)
      else case fs_begin_op fs of
        None \<Rightarrow> ((- 1, None), fs)
      | Some fs \<Rightarrow>
          (case filestore_append_impl h io env fs data of ((rc, seq), fs) \<Rightarrow>
             (let fs = (if rc = 0 \<and> fsync_interval_ms fs > 0 then snd (filestore_maybe_fsync env fs) else fs)
              in ((rc, seq), fs_end_op fs))))"

definition cmq_filestore_append_bridge ::
    "heap \<Rightarrow> fs_io \<Rightarrow> fs_env \<Rightarrow> filestore \<Rightarrow> bytes option \<Rightarrow> bytes \<Rightarrow> (int \<times> nat option) \<times> filestore" where
  "cmq_filestore_append_bridge h io env fs topic payload =
     (case topic of
        None \<Rightarrow> ((- 1, None), fs)
      | Some t \<Rightarrow>
          if length t = 0 \<or> length t > 0xFFFF then ((- 1, None), fs)
          else case malloc_ok h of
            (False, h) \<Rightarrow> ((- 1, None), fs)
          | (True, h) \<Rightarrow>
              cmq_filestore_append h io env fs
                (Some ([0x43, 0x4D, 0x51, 0x42, 0x01, of_nat (length t div 256), of_nat (length t mod 256)] @ t @ payload)))"


section \<open>Reading\<close>

definition filestore_read_impl :: "heap \<Rightarrow> filestore \<Rightarrow> nat \<Rightarrow> bytes option \<times> filestore" where
  "filestore_read_impl h fs seq =
     (if seq = 0 then (None, fs)
      else case fs_refresh_next_seq fs False of (rc, fs) \<Rightarrow>
        if rc \<noteq> 0 then (None, fs)
        else if seq \<ge> next_seq fs then (None, fs)
        else
          (let fs = fs\<lparr>data_end_off := UINT64_MAX, idx_end_off := UINT64_MAX\<rparr>;
               data_sz = length (fs_data fs)
           in if seq - 1 > UINT64_MAX div 8 then (None, fs)
              else case idx_entry (fs_idx fs) (seq - 1) of
                None \<Rightarrow> (None, fs)
              | Some data_offset \<Rightarrow>
                  if data_offset > UINT64_MAX - CMQ_FS_HDR_SIZE \<or> data_offset + CMQ_FS_HDR_SIZE > data_sz then (None, fs)
                  else case fread_at (fs_data fs) data_offset CMQ_FS_HDR_SIZE of
                    None \<Rightarrow> (None, fs)
                  | Some hdr \<Rightarrow>
                      if hdr_seq hdr \<noteq> seq then (None, fs)
                      else if data_offset > UINT64_MAX - CMQ_FS_HDR_SIZE - hdr_len hdr \<or>
                              data_offset + CMQ_FS_HDR_SIZE + hdr_len hdr > data_sz then (None, fs)
                      else case fst (load_record h (fs_data fs) data_offset) of
                        None \<Rightarrow> (None, fs)
                      | Some (_, buf) \<Rightarrow> (Some buf, fs)))"

definition cmq_filestore_read :: "heap \<Rightarrow> filestore \<Rightarrow> nat \<Rightarrow> bytes option \<times> filestore" where
  "cmq_filestore_read h fs seq =
     (case fs_begin_op fs of
        None \<Rightarrow> (None, fs)
      | Some fs \<Rightarrow> (case filestore_read_impl h fs seq of (r, fs) \<Rightarrow> (r, fs_end_op fs)))"

definition filestore_last_seq_impl :: "filestore \<Rightarrow> nat \<times> filestore" where
  "filestore_last_seq_impl fs =
     (case fs_refresh_next_seq fs False of (rc, fs) \<Rightarrow>
        (if rc = 0 then if next_seq fs > 0 then next_seq fs - 1 else 0 else 0, fs))"

definition cmq_filestore_last_seq :: "filestore \<Rightarrow> nat \<times> filestore" where
  "cmq_filestore_last_seq fs =
     (case fs_begin_op fs of
        None \<Rightarrow> (0, fs)
      | Some fs \<Rightarrow> (case filestore_last_seq_impl fs of (n, fs) \<Rightarrow> (n, fs_end_op fs)))"

definition filestore_sync_impl :: "fs_env \<Rightarrow> filestore \<Rightarrow> int" where
  "filestore_sync_impl env fs = (if env_sync env then 0 else - 1)"

definition cmq_filestore_sync :: "fs_env \<Rightarrow> filestore \<Rightarrow> int \<times> filestore" where
  "cmq_filestore_sync env fs =
     (case fs_begin_op fs of
        None \<Rightarrow> (- 1, fs)
      | Some fs \<Rightarrow> (filestore_sync_impl env fs, fs_end_op fs))"

text \<open>The loop of \<^verbatim>\<open>filestore_read_range_impl\<close>: records that cannot be read are skipped.\<close>

fun range_records :: "heap \<Rightarrow> bytes \<Rightarrow> bytes \<Rightarrow> nat \<Rightarrow> nat \<Rightarrow> bytes list" where
  "range_records h data idx_buf i 0 = []"
| "range_records h data idx_buf i (Suc left) =
     (case fread_at data (unat (get_le64 (drop (i * 8) idx_buf))) CMQ_FS_HDR_SIZE of
        None \<Rightarrow> range_records h data idx_buf (Suc i) left
      | Some hdr \<Rightarrow>
          if hdr_magic hdr \<noteq> CMQ_FS_MAGIC then range_records h data idx_buf (Suc i) left
          else if hdr_len hdr = 0 \<or> hdr_len hdr > FS_PAYLOAD_MAX then range_records h data idx_buf (Suc i) left
          else case malloc_ok h of
            (False, h) \<Rightarrow> range_records h data idx_buf (Suc i) left
          | (True, h) \<Rightarrow>
              (case fread_at data (unat (get_le64 (drop (i * 8) idx_buf)) + CMQ_FS_HDR_SIZE) (hdr_len hdr) of
                 None \<Rightarrow> range_records h data idx_buf (Suc i) left
               | Some payload \<Rightarrow> payload # range_records h data idx_buf (Suc i) left))"

definition filestore_read_range_impl :: "heap \<Rightarrow> filestore \<Rightarrow> nat \<Rightarrow> nat \<Rightarrow> bytes list option \<times> filestore" where
  "filestore_read_range_impl h fs seq_lo seq_hi =
     (if seq_lo = 0 \<or> seq_hi < seq_lo then (None, fs)
      else case fs_refresh_next_seq fs False of (rc, fs) \<Rightarrow>
        if rc \<noteq> 0 then (None, fs)
        else
          (let fs = fs\<lparr>data_end_off := UINT64_MAX, idx_end_off := UINT64_MAX\<rparr>;
               seq_hi = (if seq_hi \<ge> next_seq fs then next_seq fs - 1 else seq_hi);
               n = min 65536 (wrap64 (seq_hi + 2 ^ 64 + 1 - seq_lo))
           in case malloc_ok h of
                (False, h) \<Rightarrow> (None, fs)
              | (True, h) \<Rightarrow>
                  (let idx_off = wrap64 ((seq_lo - 1) * 8)
                   in if idx_off \<ge> 2 ^ 63 then (Some [], fs)
                      else case malloc_ok h of
                        (False, h) \<Rightarrow> (Some [], fs)
                      | (True, h) \<Rightarrow>
                          (case fread_at (fs_idx fs) idx_off (n * 8) of
                             None \<Rightarrow> (Some [], fs)
                           | Some idx_buf \<Rightarrow> (Some (range_records h (fs_data fs) idx_buf 0 n), fs)))))"

definition cmq_filestore_read_range :: "heap \<Rightarrow> filestore \<Rightarrow> nat \<Rightarrow> nat \<Rightarrow> bytes list option \<times> filestore" where
  "cmq_filestore_read_range h fs seq_lo seq_hi =
     (case fs_begin_op fs of
        None \<Rightarrow> (None, fs)
      | Some fs \<Rightarrow> (case filestore_read_range_impl h fs seq_lo seq_hi of (r, fs) \<Rightarrow> (r, fs_end_op fs)))"

section \<open>Settings and the ring of delayed writes\<close>

definition cmq_filestore_set_sync_interval :: "filestore \<Rightarrow> nat \<Rightarrow> filestore" where
  "cmq_filestore_set_sync_interval fs interval_ms = fs\<lparr>fsync_interval_ms := interval_ms\<rparr>"

definition cmq_filestore_reload_sync :: "filestore option \<Rightarrow> nat option \<Rightarrow> nat \<Rightarrow> int \<times> filestore option \<times> nat option" where
  "cmq_filestore_reload_sync fs live_ms fresh_ms =
     (if live_ms = None then (- 1, fs, live_ms)
      else if fresh_ms > 86400000 then (- 1, fs, live_ms)
      else if fresh_ms = 0 then (0, fs, live_ms)
      else (0, map_option (\<lambda>f. cmq_filestore_set_sync_interval f fresh_ms) fs, Some fresh_ms))"

text \<open>
  \<open>live\<close> is \<^verbatim>\<open>live_dir\<close>: \<open>None\<close> for a null argument, else the pointer it holds. \<open>disk\<close> is what the directory has
  under the prefix \<^verbatim>\<open>cmq\<close>.
\<close>

definition cmq_filestore_reload_attach ::
    "heap \<Rightarrow> heap \<Rightarrow> fs_disk \<Rightarrow> filestore option \<Rightarrow> string option option \<Rightarrow> string option \<Rightarrow>
     int \<times> filestore option \<times> string option option" where
  "cmq_filestore_reload_attach h h' disk fs live fresh_dir =
     (if fresh_dir = None \<or> fresh_dir = Some [] then (0, fs, live)
      else if fs \<noteq> None then (0, fs, live)
      else if \<not> dir_safe fresh_dir then (- 1, fs, live)
      else case cmq_filestore_create h fresh_dir (Some ''cmq'') disk of
        None \<Rightarrow> (- 1, fs, live)
      | Some n \<Rightarrow>
          (case live of
             None \<Rightarrow> (0, Some n, None)
           | Some _ \<Rightarrow> if fst (malloc_ok h') then (0, Some n, Some fresh_dir) else (- 1, fs, live)))"

definition cmq_filestore_set_max_payload_size :: "filestore \<Rightarrow> nat \<Rightarrow> filestore" where
  "cmq_filestore_set_max_payload_size fs b = fs\<lparr>max_payload_bytes := b\<rparr>"

text \<open>A full ring makes the caller wait; the answer here is the one after ten seconds without room.\<close>

definition cmq_filestore_async_enqueue :: "heap \<Rightarrow> filestore \<Rightarrow> bytes option \<Rightarrow> nat \<Rightarrow> int \<times> filestore" where
  "cmq_filestore_async_enqueue h fs data seq =
     (case data of
        None \<Rightarrow> (- 1, fs)
      | Some d \<Rightarrow>
          if \<not> async_active fs \<or> d = [] then (- 1, fs)
          else if max_payload_bytes fs > 0 \<and> length d > max_payload_bytes fs then
            (- 1, fs\<lparr>async_blocked := async_blocked fs + 1\<rparr>)
          else if async_count fs \<ge> async_capacity fs \<and> \<not> fs_dying fs then
            (- 1, fs\<lparr>async_blocked := async_blocked fs + 1\<rparr>)
          else if fs_dying fs then (- 1, fs)
          else if \<not> fst (malloc_ok h) then (- 1, fs)
          else
            (0, fs\<lparr>async_entries := (async_entries fs)[async_head fs := d],
                   async_lens := (async_lens fs)[async_head fs := length d],
                   async_seqs := (async_seqs fs)[async_head fs := seq],
                   async_head := (async_head fs + 1) mod async_capacity fs,
                   async_count := async_count fs + 1,
                   async_enqueued := async_enqueued fs + 1\<rparr>))"

text \<open>One round of \<^verbatim>\<open>async_worker\<close>; \<open>None\<close> when it waits or ends.\<close>

definition async_worker :: "filestore \<Rightarrow> filestore option" where
  "async_worker fs =
     (if fs_dying fs then None
      else if async_count fs = 0 then None
      else
        (let entry = async_entries fs ! async_tail fs;
             len = async_lens fs ! async_tail fs
         in Some (fs\<lparr>async_tail := (async_tail fs + 1) mod async_capacity fs,
                     async_count := async_count fs - 1,
                     fs_data := fs_data fs @ take len entry\<rparr>)))"

definition cmq_filestore_set_async :: "heap \<Rightarrow> filestore \<Rightarrow> nat \<Rightarrow> int \<times> filestore" where
  "cmq_filestore_set_async h fs queue_capacity =
     (if async_active fs then (0, fs)
      else if queue_capacity = 0 then (- 1, fs)
      else
        (let fs = fs\<lparr>async_capacity := queue_capacity, async_head := 0, async_tail := 0, async_count := 0\<rparr>;
             (a, h) = malloc_ok h; (b, h) = malloc_ok h; (c, h) = malloc_ok h
         in if \<not> a \<or> \<not> b \<or> \<not> c then (- 1, fs)
            else
              (0, fs\<lparr>async_entries := replicate queue_capacity [], async_lens := replicate queue_capacity 0,
                     async_seqs := replicate queue_capacity 0, async_active := True\<rparr>)))"


section \<open>Contents\<close>

text \<open>
  \<open>fs_holds rs fs\<close>: the files are exactly those of the payloads \<open>rs\<close>. \<open>fs_coherent fs\<close>: the cached end offset is
  unknown or right.
\<close>

definition fs_holds :: "bytes list \<Rightarrow> filestore \<Rightarrow> bool" where
  "fs_holds rs fs \<longleftrightarrow> log_ok rs \<and> fs_data fs = log_data rs \<and> fs_idx fs = log_idx rs"

definition fs_coherent :: "filestore \<Rightarrow> bool" where
  "fs_coherent fs \<longleftrightarrow>
     data_end_off fs = UINT64_MAX \<or> idx_end_off fs = UINT64_MAX \<or> data_end_off fs = length (fs_data fs)"

lemmas fs_sizes = UINT64_MAX_def CMQ_FS_HDR_SIZE_def FS_PAYLOAD_MAX_def

lemma fs_begin_op_eq [simp]:
  "\<not> fs_dying fs \<Longrightarrow> fs_begin_op fs = Some (fs\<lparr>fs_in_flight := fs_in_flight fs + 1\<rparr>)"
  "fs_dying fs \<Longrightarrow> fs_begin_op fs = None"
  by (simp_all add: fs_begin_op_def)

lemma fs_end_op_frame [simp, frame_rules]:
  "fs_data (fs_end_op fs) = fs_data fs" "fs_idx (fs_end_op fs) = fs_idx fs"
  "fs_data1 (fs_end_op fs) = fs_data1 fs" "fs_idx1 (fs_end_op fs) = fs_idx1 fs"
  "data_end_off (fs_end_op fs) = data_end_off fs" "idx_end_off (fs_end_op fs) = idx_end_off fs"
  "next_seq (fs_end_op fs) = next_seq fs" "fs_dying (fs_end_op fs) = fs_dying fs"
  "rotate_bytes (fs_end_op fs) = rotate_bytes fs"
  by (simp_all add: fs_end_op_def)

lemma fs_holds_in_flight [simp]:
  "fs_holds rs (fs\<lparr>fs_in_flight := n\<rparr>) = fs_holds rs fs" "fs_holds rs (fs_end_op fs) = fs_holds rs fs"
  "fs_coherent (fs\<lparr>fs_in_flight := n\<rparr>) = fs_coherent fs" "fs_coherent (fs_end_op fs) = fs_coherent fs"
  by (simp_all add: fs_holds_def fs_coherent_def)

lemma log_ok_count: "log_ok rs \<Longrightarrow> length rs < 2 ^ 60"
  using log_count [of rs] by (simp add: log_ok_def)

lemma refresh_holds:
  assumes "fs_holds rs fs"
  shows "fs_refresh_next_seq fs t = (0, fs\<lparr>next_seq := length rs + 1\<rparr>)"
  using assms log_ok_count [of rs] by (auto simp: fs_refresh_next_seq_def fs_holds_def UINT64_MAX_def Let_def)

lemma holds_load:
  assumes "fs_holds rs fs" "i < length rs"
  shows "load_record [] (fs_data fs @ x) (log_off rs i) =
    (Some (fs_header (Suc i) (length (rs ! i)) (crc32_compute (rs ! i)), rs ! i), [])"
proof -
  have ok: "log_ok rs" using assms(1) by (simp add: fs_holds_def)
  have "length (rs ! i) < 2 ^ 32"
    using log_ok_nth [OF ok assms(2)] by (simp add: FS_PAYLOAD_MAX_def)
  then show ?thesis
    using log_data_at [OF ok assms(2)] log_ok_nth [OF ok assms(2)] assms(1)
    by (simp add: load_record_def fs_holds_def CMQ_FS_HDR_SIZE_def)
qed

lemma log_end: "log_ok rs \<Longrightarrow> i < length rs \<Longrightarrow> log_off rs i + 22 + length (rs ! i) \<le> log_off rs (length rs)"
  using log_off_mono [of "Suc i" "length rs" rs] by (simp add: log_off_Suc)

lemma read_holds:
  assumes "fs_holds rs fs" "\<not> fs_dying fs"
  shows "\<exists>fs'. cmq_filestore_read [] fs seq =
      (if 1 \<le> seq \<and> seq \<le> length rs then Some (rs ! (seq - 1)) else None, fs') \<and>
    fs_holds rs fs' \<and> (fs_coherent fs \<longrightarrow> fs_coherent fs') \<and>
    (1 \<le> seq \<and> seq \<le> length rs \<longrightarrow> fs_coherent fs') \<and> \<not> fs_dying fs' \<and> rotate_bytes fs' = rotate_bytes fs"
proof (cases "1 \<le> seq \<and> seq \<le> length rs")
  case True
  then obtain i where seq: "seq = Suc i" and i: "i < length rs" by (cases seq) auto
  have ok: "log_ok rs" using assms(1) by (simp add: fs_holds_def)
  have len: "length (rs ! i) < 2 ^ 32"
    using log_ok_nth [OF ok i] by (simp add: FS_PAYLOAD_MAX_def)
  have b: "log_off rs i + 22 + length (rs ! i) \<le> log_off rs (length rs)" "log_off rs (length rs) < 2 ^ 63"
    using log_end [OF ok i] ok by (simp_all add: log_ok_def)
  have n: "i < 2 ^ 60" using log_ok_count [OF ok] i by simp
  note h = assms(1) [unfolded fs_holds_def]
  show ?thesis
    using True assms holds_load [OF assms(1) i, of "[]"] log_data_at(1) [OF ok i, of "[]"]
      log_idx_entry [OF ok i, of "[]"] b n len
    by (auto simp: cmq_filestore_read_def filestore_read_impl_def refresh_holds [of rs] seq h
        fs_sizes length_log_data fs_holds_def fs_coherent_def Let_def)
next
  case False
  then show ?thesis using assms
    by (auto simp: cmq_filestore_read_def filestore_read_impl_def refresh_holds [of rs] fs_holds_def fs_coherent_def)
qed


section \<open>Appending to a coherent store\<close>

lemma ftruncate_append [simp]: "n = length a \<Longrightarrow> ftruncate (a @ b) n = a"
  by (simp add: ftruncate_def)

lemma ftruncate_0 [simp]: "ftruncate f 0 = []"
  by (simp add: ftruncate_def)

lemma end_offsets_coherent:
  assumes "fs_holds rs fs" "fs_coherent fs"
  shows "data_end_off (fs_end_offsets fs) = log_off rs (length rs)"
    and "fs_holds rs (fs_end_offsets fs)"
  using assms by (auto simp: fs_end_offsets_def fs_coherent_def fs_holds_def length_log_data)

lemma end_offsets_frame [simp, frame_rules]:
  "fs_data (fs_end_offsets fs) = fs_data fs" "fs_idx (fs_end_offsets fs) = fs_idx fs"
  "next_seq (fs_end_offsets fs) = next_seq fs" "fs_dying (fs_end_offsets fs) = fs_dying fs"
  "rotate_bytes (fs_end_offsets fs) = rotate_bytes fs" "fsync_interval_ms (fs_end_offsets fs) = fsync_interval_ms fs"
  by (simp_all add: fs_end_offsets_def)

lemma maybe_fsync_frame [simp, frame_rules]:
  "fs_holds rs (snd (filestore_maybe_fsync env fs)) = fs_holds rs fs"
  "fs_coherent (snd (filestore_maybe_fsync env fs)) = fs_coherent fs"
  "fs_dying (snd (filestore_maybe_fsync env fs)) = fs_dying fs"
  "rotate_bytes (snd (filestore_maybe_fsync env fs)) = rotate_bytes fs"
  "fs_data (snd (filestore_maybe_fsync env fs)) = fs_data fs"
  "fs_idx (snd (filestore_maybe_fsync env fs)) = fs_idx fs"
  by (simp_all add: filestore_maybe_fsync_def fs_holds_def fs_coherent_def)

lemma put_record_ok:
  assumes "fs_holds rs fs" "data_end_off fs = log_off rs (length rs)" "next_seq fs = length rs + 1" "log_ok (rs @ [d])"
  shows "\<exists>fs'. fs_put_record Io_ok fs d = (0, fs') \<and> fs_holds (rs @ [d]) fs' \<and> fs_coherent fs' \<and>
    fs_dying fs' = fs_dying fs \<and> rotate_bytes fs' = rotate_bytes fs \<and> data_end_off fs' = log_off (rs @ [d]) (length rs + 1)"
  using assms
  by (auto simp: fs_put_record_def fs_holds_def fs_coherent_def log_data_snoc log_idx_snoc length_log_data
      length_fs_record CMQ_FS_HDR_SIZE_def log_off_Suc log_off_append Let_def)

lemma append_ok_bounds:
  assumes "log_ok (rs @ [d])"
  shows "0 < length d" "length d \<le> FS_PAYLOAD_MAX" "log_off rs (length rs) + 22 + length d < 2 ^ 63" "log_ok rs"
    "length rs < 2 ^ 60"
  using assms log_ok_count [of rs] by (auto simp: log_ok_snoc)

lemma append_impl_ok:
  assumes "fs_holds rs fs" "fs_coherent fs" "rotate_bytes fs = 0" "log_ok (rs @ [d])"
  shows "\<exists>fs'. filestore_append_impl h Io_ok env fs (Some d) = ((0, Some (length rs + 1)), fs') \<and>
    fs_holds (rs @ [d]) fs' \<and> fs_coherent fs' \<and> fs_dying fs' = fs_dying fs \<and> rotate_bytes fs' = 0"
proof -
  let ?fs = "fs_end_offsets (fs\<lparr>next_seq := length rs + 1\<rparr>)"
  note b = append_ok_bounds [OF assms(4)]
  have h: "fs_holds rs (fs\<lparr>next_seq := length rs + 1\<rparr>)" "fs_coherent (fs\<lparr>next_seq := length rs + 1\<rparr>)"
    using assms by (auto simp: fs_holds_def fs_coherent_def)
  obtain fs' where "fs_put_record Io_ok ?fs d = (0, fs')" "fs_holds (rs @ [d]) fs'" "fs_coherent fs'"
    "fs_dying fs' = fs_dying fs" "rotate_bytes fs' = rotate_bytes fs"
    using put_record_ok [OF end_offsets_coherent(2) [OF h] end_offsets_coherent(1) [OF h] _ assms(4)] by auto
  then show ?thesis
    using b assms(3) end_offsets_coherent(1) [OF h]
    by (simp add: filestore_append_impl_def refresh_holds [OF assms(1)] fs_sizes Let_def)
qed

lemma append_holds:
  assumes "fs_holds rs fs" "fs_coherent fs" "rotate_bytes fs = 0" "\<not> fs_dying fs" "log_ok (rs @ [d])"
  shows "\<exists>fs'. cmq_filestore_append h Io_ok env fs (Some d) = ((0, Some (length rs + 1)), fs') \<and>
    fs_holds (rs @ [d]) fs' \<and> fs_coherent fs' \<and> \<not> fs_dying fs' \<and> rotate_bytes fs' = 0"
proof -
  have "d \<noteq> []" using append_ok_bounds(1) [OF assms(5)] by auto
  moreover obtain fs' where "filestore_append_impl h Io_ok env (fs\<lparr>fs_in_flight := fs_in_flight fs + 1\<rparr>) (Some d) =
      ((0, Some (length rs + 1)), fs')" "fs_holds (rs @ [d]) fs'" "fs_coherent fs'" "fs_dying fs' = fs_dying fs" "rotate_bytes fs' = 0"
    using append_impl_ok [of rs "fs\<lparr>fs_in_flight := fs_in_flight fs + 1\<rparr>" d h env] assms by auto
  ultimately show ?thesis using assms(4) by (auto simp: cmq_filestore_append_def Let_def)
qed

text \<open>The failures of an append whose truncations succeed.\<close>

definition rolled_back :: "fs_io \<Rightarrow> bool" where
  "rolled_back io =
     (case io of Io_ok \<Rightarrow> False | Io_data_fails k t \<Rightarrow> t | Io_tell_fails t \<Rightarrow> t | Io_idx_fails k ti td \<Rightarrow> ti \<and> td)"

lemma put_record_rolled:
  assumes "fs_holds rs fs" "data_end_off fs = log_off rs (length rs)" "rolled_back io"
  shows "\<exists>fs'. fs_put_record io fs d = (- 1, fs') \<and> fs_holds rs fs' \<and> fs_coherent fs' \<and>
    fs_dying fs' = fs_dying fs \<and> rotate_bytes fs' = rotate_bytes fs"
  using assms
  by (cases io) (auto simp: rolled_back_def fs_put_record_def fs_holds_def fs_coherent_def length_log_data)

lemma append_rolled_back:
  assumes "fs_holds rs fs" "fs_coherent fs" "\<not> fs_dying fs" "rolled_back io"
  shows "\<exists>fs'. cmq_filestore_append h io env fs data = ((- 1, None), fs') \<and>
    fs_holds rs fs' \<and> fs_coherent fs' \<and> \<not> fs_dying fs' \<and> rotate_bytes fs' = rotate_bytes fs"
proof -
  define fs1 where "fs1 = fs\<lparr>fs_in_flight := fs_in_flight fs + 1\<rparr>"
  define fs2 where "fs2 = fs1\<lparr>next_seq := length rs + 1\<rparr>"
  have h1: "fs_holds rs fs1" and h: "fs_holds rs fs2" "fs_coherent fs2" and fr: "fs_dying fs2 = fs_dying fs" "rotate_bytes fs2 = rotate_bytes fs"
    "fs_coherent fs1" "fs_dying fs1 = fs_dying fs" "rotate_bytes fs1 = rotate_bytes fs"
    using assms by (auto simp: fs1_def fs2_def fs_holds_def fs_coherent_def)
  have n: "next_seq fs2 \<noteq> UINT64_MAX"
    using log_ok_count [of rs] h(1) by (simp add: fs2_def UINT64_MAX_def fs_holds_def)
  have c: "fs_coherent (fs_end_offsets fs2)"
    using end_offsets_coherent [OF h] h(1) by (simp add: fs_coherent_def fs_holds_def length_log_data)
  obtain fs' where p: "fs_put_record io (fs_end_offsets fs2) (the data) = (- 1, fs')" "fs_holds rs fs'" "fs_coherent fs'"
    "fs_dying fs' = fs_dying fs" "rotate_bytes fs' = rotate_bytes fs"
    using put_record_rolled [OF end_offsets_coherent(2) [OF h] end_offsets_coherent(1) [OF h] assms(4)] fr by auto
  have "\<exists>fs'. filestore_append_impl h io env fs1 data = ((- 1, None), fs') \<and>
    fs_holds rs fs' \<and> fs_coherent fs' \<and> \<not> fs_dying fs' \<and> rotate_bytes fs' = rotate_bytes fs"
    using p c h fr h1 assms end_offsets_coherent(2) [OF h] n
    by (cases data) (auto simp: filestore_append_impl_def refresh_holds [OF h1, folded fs2_def] Let_def)
  then show ?thesis using assms by (auto simp: cmq_filestore_append_def Let_def fs1_def)
qed


section \<open>Recovery\<close>

lemma crc_chunks_eq: "crc_chunks c d = crc32_update c d"
proof (induction c d rule: crc_chunks.induct)
  case (1 c d)
  show ?case
  proof (cases "d = []")
    case False
    with 1 have "crc_chunks c d = crc32_update (crc32_update c (take 8192 d)) (drop 8192 d)"
      by (subst crc_chunks.simps) simp
    then show ?thesis by (simp add: crc32_update_def flip: crc_bytes_append)
  qed (simp add: crc_chunks.simps crc32_update_def crc_bytes_def)
qed

lemma repair_check_log:
  assumes "log_ok rs" "i < length rs"
  shows "repair_check (log_data rs @ x) (log_idx rs @ y) i"
proof -
  have len: "length (rs ! i) < 2 ^ 32"
    using log_ok_nth [OF assms] by (simp add: FS_PAYLOAD_MAX_def)
  have b: "log_off rs i + 22 + length (rs ! i) \<le> log_off rs (length rs)" "log_off rs (length rs) < 2 ^ 63"
    using log_end [OF assms] assms by (simp_all add: log_ok_def)
  have n: "Suc i < 2 ^ 64" using log_ok_count [OF assms(1)] assms(2) by simp
  show ?thesis
    using log_idx_entry [OF assms, of y] log_data_at [OF assms, of x] log_ok_nth [OF assms] len b n
    by (auto simp: repair_check_def fs_sizes length_log_data crc_chunks_eq crc32_compute_def)
qed

lemma repair_loop_stops:
  assumes "\<forall>j < k. repair_check data idx (i + j)" "k \<le> left" "k < left \<Longrightarrow> \<not> repair_check data idx (i + k)"
  shows "repair_loop data idx i left = i + k"
  using assms
proof (induction data idx i left arbitrary: k rule: repair_loop.induct)
  case (2 data idx i left)
  show ?case
  proof (cases k)
    case 0
    with 2(4) show ?thesis by simp
  next
    case (Suc l)
    have "repair_check data idx i" using 2(2) Suc by force
    moreover have "repair_loop data idx (Suc i) left = Suc i + l"
    proof (rule 2(1) [OF calculation])
      show "\<forall>j < l. repair_check data idx (Suc i + j)"
        using 2(2) Suc by (auto dest: spec [where x = "Suc _"])
      show "l \<le> left" using 2(3) Suc by simp
      show "l < left \<Longrightarrow> \<not> repair_check data idx (Suc i + l)" using 2(4) Suc by simp
    qed
    ultimately show ?thesis using Suc by simp
  qed
qed simp

lemma trim_idx: "ftruncate (log_idx rs @ y) (8 * length rs + 8 * k) = log_idx rs @ take (8 * k) y"
  if "8 * k \<le> length y"
  using that by (simp add: ftruncate_def)

lemma repair_log:
  assumes "log_ok rs" "fs_data fs = log_data rs @ x" "fs_idx fs = log_idx rs @ y"
    and "8 \<le> length y \<Longrightarrow> \<not> repair_check (log_data rs @ x) (log_idx rs @ take (8 * (length y div 8)) y) (length rs)"
  shows "repair_idx fs = (length rs, fs\<lparr>fs_idx := log_idx rs\<rparr>)"
proof -
  let ?k = "length y div 8"
  let ?idx = "log_idx rs @ take (8 * ?k) y"
  have sz: "length (fs_idx fs) = 8 * length rs + length y" by (simp add: assms(3))
  have whole: "length (fs_idx fs) - length (fs_idx fs) mod 8 = 8 * length rs + 8 * ?k"
    unfolding sz mod_mult_self4 using mult_div_mod_eq [of 8 "length y"] by linarith
  have idx: "(if length (fs_idx fs) mod 8 \<noteq> 0 then fs\<lparr>fs_idx := ftruncate (fs_idx fs) (8 * length rs + 8 * ?k)\<rparr> else fs) =
      fs\<lparr>fs_idx := ?idx\<rparr>"
    by (auto simp: sz assms(3) trim_idx mod_eq_0_iff_dvd dvd_mult_div_cancel)
  have loop: "repair_loop (fs_data fs) ?idx 0 (length rs + ?k) = length rs"
  proof -
    have "\<forall>j < length rs. repair_check (fs_data fs) ?idx (0 + j)"
      using repair_check_log [OF assms(1)] by (simp add: assms(2))
    moreover have "\<not> repair_check (fs_data fs) ?idx (0 + length rs)" if "length rs < length rs + ?k"
      using that assms(4) by (cases "8 \<le> length y") (auto simp: assms(2))
    ultimately show ?thesis
      using repair_loop_stops [of "length rs" "fs_data fs" ?idx 0 "length rs + ?k"] by simp
  qed
  have cut: "ftruncate ?idx (8 * length rs) = log_idx rs" by (simp add: ftruncate_def)
  have "?k = 0 \<Longrightarrow> ?idx = log_idx rs" by simp
  then show ?thesis
    unfolding repair_idx_def Let_def whole idx
    using loop cut by (cases "?k = 0") (auto simp: distrib_left [symmetric] mult.commute)
qed

lemma orphan_log:
  assumes "log_ok rs" "fs_data fs = log_data rs @ x" "fs_idx fs = log_idx rs"
  shows "truncate_orphan_data fs (length rs) = (0, fs\<lparr>fs_data := log_data rs\<rparr>)"
proof (cases "rs = []")
  case True
  then show ?thesis using assms by (cases x) (simp_all add: truncate_orphan_data_def)
next
  case False
  define i where "i = length rs - 1"
  have i: "i < length rs" "length rs = Suc i" using False by (simp_all add: i_def)
  have len: "length (rs ! i) < 2 ^ 32"
    using log_ok_nth [OF assms(1) i(1)] by (simp add: FS_PAYLOAD_MAX_def)
  have e: "log_off rs i + 22 + length (rs ! i) = log_off rs (length rs)" "log_off rs (length rs) < 2 ^ 63"
    using i assms(1) by (simp_all add: log_off_Suc log_ok_def)
  have "length (log_data rs) = log_off rs (length rs)" by (rule length_log_data)
  then show ?thesis
    using log_idx_entry [OF assms(1) i(1), of "[]"] log_data_at(1) [OF assms(1) i(1), of x] len e assms i(2)
    by (auto simp: truncate_orphan_data_def CMQ_FS_HDR_SIZE_def Let_def simp flip: i_def)
qed

lemma create_log:
  assumes "dir_safe (Some dir)" "prefix_safe (Some prefix)" "log_ok rs"
    and "8 \<le> length y \<Longrightarrow> \<not> repair_check (log_data rs @ x) (log_idx rs @ take (8 * (length y div 8)) y) (length rs)"
  shows "\<exists>fs. cmq_filestore_create [] (Some dir) (Some prefix) (log_data rs @ x, log_idx rs @ y, a) = Some fs \<and>
    fs_holds rs fs \<and> next_seq fs = length rs + 1 \<and> data_end_off fs = 0 \<and> idx_end_off fs = 0 \<and>
    \<not> fs_dying fs \<and> rotate_bytes fs = 0"
proof -
  obtain d1 i1 where a: "a = (d1, i1)" by (cases a)
  let ?fs = "fs_calloc dir prefix (log_data rs @ x, log_idx rs @ y, a)"
  have f: "fs_data ?fs = log_data rs @ x" "fs_idx ?fs = log_idx rs @ y" "data_end_off ?fs = 0" "idx_end_off ?fs = 0"
    "\<not> fs_dying ?fs" "rotate_bytes ?fs = 0"
    by (simp_all add: fs_calloc_def a)
  have r: "repair_idx ?fs = (length rs, ?fs\<lparr>fs_idx := log_idx rs\<rparr>)"
    by (rule repair_log [OF assms(3) f(1,2) assms(4)])
  have o: "truncate_orphan_data (?fs\<lparr>fs_idx := log_idx rs\<rparr>) (length rs) =
      (0, ?fs\<lparr>fs_idx := log_idx rs, fs_data := log_data rs\<rparr>)"
    using orphan_log [OF assms(3), of "?fs\<lparr>fs_idx := log_idx rs\<rparr>" x] f by simp
  show ?thesis
    using assms f by (simp add: cmq_filestore_create_def r o fs_holds_def)
qed


lemma idx_entry_next:
  assumes "log_ok rs" "v < 2 ^ 64"
  shows "idx_entry (log_idx rs @ put_le64 (of_nat v) @ z) (length rs) = Some v"
  using assms log_ok_count [OF assms(1)] get_put_le64 [of "of_nat v" "[]"]
  by (simp add: idx_entry_def fread_at_append unat_of_nat64)

lemma torn_check:
  assumes "log_ok (rs @ [d])" "j < 22 + length d"
  shows "\<not> repair_check (log_data rs @ take j (fs_record (Suc (length rs)) d))
    (log_idx rs @ put_le64 (of_nat (log_off rs (length rs)))) (length rs)"
proof -
  note b = append_ok_bounds [OF assms(1)]
  have e: "idx_entry (log_idx rs @ put_le64 (of_nat (log_off rs (length rs)))) (length rs) = Some (log_off rs (length rs))"
    using idx_entry_next [OF b(4), of "log_off rs (length rs)" "[]"] b(3) by simp
  have sz: "length (log_data rs @ take j (fs_record (Suc (length rs)) d)) = log_off rs (length rs) + j"
    using assms(2) by (simp add: length_log_data length_fs_record)
  show ?thesis
  proof (cases "j < 22")
    case True
    then show ?thesis unfolding repair_check_def e sz by (simp add: CMQ_FS_HDR_SIZE_def)
  next
    case False
    let ?h = "fs_header (Suc (length rs)) (length d) (crc32_compute d)"
    have "log_data rs @ take j (fs_record (Suc (length rs)) d) = log_data rs @ ?h @ take (j - 22) d"
      using False by (simp add: fs_record_def)
    then have "fread_at (log_data rs @ take j (fs_record (Suc (length rs)) d)) (log_off rs (length rs)) 22 = Some ?h"
      using b(3) by (simp only: fread_at_append length_log_data length_fs_header)
    moreover have "hdr_len ?h = length d" using b(2) by (simp add: FS_PAYLOAD_MAX_def)
    ultimately show ?thesis
      using assms(2) unfolding repair_check_def e sz by (simp add: CMQ_FS_HDR_SIZE_def)
  qed
qed

text \<open>
  C2. Recovery after a crash in the middle of an append: whatever prefix of the record and whatever prefix of
  the index entry reached the disk, in any order, opening the store again gives the log without
  the new record, or with it exactly when both writes were complete. No earlier record is lost, no
  partial one is served, and the next sequence number is the one after the last record.
\<close>

theorem filestore_crash_recovery:
  assumes "dir_safe (Some dir)" "prefix_safe (Some prefix)" "log_ok (rs @ [d])"
  shows "\<exists>fs. cmq_filestore_create [] (Some dir) (Some prefix)
      (log_data rs @ take j (fs_record (length rs + 1) d),
       log_idx rs @ take k (put_le64 (of_nat (log_off rs (length rs)))), archives) = Some fs \<and>
    fs_holds (if j \<ge> 22 + length d \<and> k \<ge> 8 then rs @ [d] else rs) fs \<and>
    next_seq fs = (if j \<ge> 22 + length d \<and> k \<ge> 8 then length rs + 2 else length rs + 1)"
proof (cases "j \<ge> 22 + length d \<and> k \<ge> 8")
  case True
  then show ?thesis
    using create_log [OF assms, of "[]" "[]" archives]
    by (auto simp: log_data_snoc log_idx_snoc length_fs_record)
next
  case False
  have ok: "log_ok rs" using assms(3) by (simp add: log_ok_snoc)
  show ?thesis
  proof (cases "k \<ge> 8")
    case True
    with False torn_check [OF assms(3), of j] create_log [OF assms(1,2) ok,
        of "take k (put_le64 (of_nat (log_off rs (length rs))))" "take j (fs_record (length rs + 1) d)" archives]
    show ?thesis by (auto simp del: take_append)
  next
    case short: False
    then show ?thesis
      using False create_log [OF assms(1,2) ok,
        of "take k (put_le64 (of_nat (log_off rs (length rs))))" "take j (fs_record (length rs + 1) d)" archives]
      by auto
  qed
qed

lemma dir_prefix_example: "dir_safe (Some ''/var/cmq'')" "prefix_safe (Some ''cmq'')"
  by (simp_all add: dir_safe_def prefix_safe_def path_ok_iff path_char_ok_def byte_of_def strnlen_def)

lemma log_ok_example: "log_ok [[1], [2, 3]]" "log_ok [[1]]"
  by (simp_all add: log_ok_def log_off_def FS_PAYLOAD_MAX_def)

theorem filestore_crash_recovery_witness:
  "\<exists>fs. cmq_filestore_create [] (Some ''/var/cmq'') (Some ''cmq'')
     (log_data [[1]] @ take 23 (fs_record 2 [2, 3]), log_idx [[1]] @ take 8 (put_le64 (of_nat (log_off [[1]] 1))), None, None) = Some fs \<and>
   fs_holds [[1]] fs"
  using filestore_crash_recovery [OF dir_prefix_example, of "[[1]]" "[2, 3]" 23 8 "(None, None)"] log_ok_example
  by (auto simp: numeral_2_eq_2)

section \<open>Reopening\<close>

lemma create_holds:
  assumes "dir_safe (Some dir)" "prefix_safe (Some prefix)" "log_ok rs"
  shows "\<exists>fs. cmq_filestore_create [] (Some dir) (Some prefix) (log_data rs, log_idx rs, a) = Some fs \<and>
    fs_holds rs fs \<and> next_seq fs = length rs + 1 \<and> data_end_off fs = 0 \<and> idx_end_off fs = 0 \<and>
    \<not> fs_dying fs \<and> rotate_bytes fs = 0"
  using create_log [OF assms, of "[]" "[]" a] by simp


lemma append_stale:
  assumes "fs_holds rs fs" "data_end_off fs = 0" "idx_end_off fs = 0" "\<not> fs_dying fs" "rotate_bytes fs = 0" "log_ok (rs @ [d])"
  shows "\<exists>fs'. cmq_filestore_append [] Io_ok env fs (Some d) = ((0, Some (length rs + 1)), fs') \<and>
    fs_data fs' = log_data rs @ fs_record (Suc (length rs)) d \<and> fs_idx fs' = log_idx rs @ put_le64 0 \<and> \<not> fs_dying fs'"
proof -
  note b = append_ok_bounds [OF assms(6)]
  have h: "fs_holds rs (fs\<lparr>fs_in_flight := fs_in_flight fs + 1\<rparr>)" using assms(1) by simp
  have "d \<noteq> []" using b(1) by auto
  then show ?thesis
    using assms b
    by (auto simp: cmq_filestore_append_def filestore_append_impl_def refresh_holds [OF h, simplified] fs_end_offsets_def
        fs_put_record_def fs_sizes Let_def fs_holds_def)
qed

lemma stale_entry:
  assumes "log_ok rs" "rs \<noteq> []"
  shows "\<not> repair_check (log_data rs @ x) (log_idx rs @ put_le64 0) (length rs)"
    and "fs_data fs = log_data rs @ x \<Longrightarrow> fs_idx fs = log_idx rs @ put_le64 0 \<Longrightarrow> \<not> fs_dying fs \<Longrightarrow>
      fst (cmq_filestore_read [] fs (length rs + 1)) = None"
proof -
  have e: "idx_entry (log_idx rs @ put_le64 0) (length rs) = Some 0"
    using idx_entry_next [OF assms(1), of 0 "[]"] by simp
  have h: "fread_at (log_data rs @ x) 0 22 = Some (fs_header 1 (length (rs ! 0)) (crc32_compute (rs ! 0)))"
    using log_data_at(1) [OF assms(1), of 0 x] assms(2) by simp
  show "\<not> repair_check (log_data rs @ x) (log_idx rs @ put_le64 0) (length rs)"
    unfolding repair_check_def e using h assms(2) by (simp add: CMQ_FS_HDR_SIZE_def)
  show "fst (cmq_filestore_read [] fs (length rs + 1)) = None"
    if "fs_data fs = log_data rs @ x" "fs_idx fs = log_idx rs @ put_le64 0" "\<not> fs_dying fs"
    using that e h assms(2) log_ok_count [OF assms(1)]
    by (auto simp: cmq_filestore_read_def filestore_read_impl_def fs_refresh_next_seq_def Let_def
        CMQ_FS_HDR_SIZE_def)
qed

text \<open>
  C31. A store that is opened on a non-empty log starts with a cached end offset of 0, not with an unknown one:
  the first append writes its record at the end of the data file and an index entry that points to the
  first record. It reports success, but the record cannot be read back, and the next opening
  takes the entry for damage and drops the record.
\<close>

theorem filestore_reopen_append_lost:
  assumes "dir_safe (Some dir)" "prefix_safe (Some prefix)" "log_ok (rs @ [d])" "rs \<noteq> []"
  shows "\<exists>fs fs' fs''.
    cmq_filestore_create [] (Some dir) (Some prefix) (log_data rs, log_idx rs, archives) = Some fs \<and>
    cmq_filestore_append [] Io_ok env fs (Some d) = ((0, Some (length rs + 1)), fs') \<and>
    fst (cmq_filestore_read [] fs' (length rs + 1)) = None \<and>
    cmq_filestore_create [] (Some dir) (Some prefix) (cmq_filestore_destroy fs') = Some fs'' \<and>
    fs_holds rs fs''"
proof -
  note b = append_ok_bounds [OF assms(3)]
  obtain fs where fs: "cmq_filestore_create [] (Some dir) (Some prefix) (log_data rs, log_idx rs, archives) = Some fs"
    "fs_holds rs fs" "data_end_off fs = 0" "idx_end_off fs = 0" "\<not> fs_dying fs" "rotate_bytes fs = 0"
    using create_holds [OF assms(1,2) b(4)] by blast
  obtain fs' where ap: "cmq_filestore_append [] Io_ok env fs (Some d) = ((0, Some (length rs + 1)), fs')"
    and files: "fs_data fs' = log_data rs @ fs_record (Suc (length rs)) d" "fs_idx fs' = log_idx rs @ put_le64 0"
    and alive: "\<not> fs_dying fs'"
    using append_stale [OF fs(2-6) assms(3)] by blast
  have bad: "\<not> repair_check (fs_data fs') (fs_idx fs') (length rs)"
    using stale_entry(1) [OF b(4) assms(4)] by (simp add: files)
  have "fst (cmq_filestore_read [] fs' (length rs + 1)) = None"
    using stale_entry(2) [OF b(4) assms(4) files alive] by simp
  moreover obtain fs'' where "cmq_filestore_create [] (Some dir) (Some prefix) (cmq_filestore_destroy fs') = Some fs''" "fs_holds rs fs''"
    using create_log [OF assms(1,2) b(4), of "put_le64 0" "fs_record (Suc (length rs)) d" "(fs_data1 fs', fs_idx1 fs')"] bad
    by (auto simp: files cmq_filestore_destroy_def)
  ultimately show ?thesis using fs(1) ap by blast
qed

definition calm_env :: fs_env where
  "calm_env = \<lparr>env_wall = 0, env_mtime = 0, env_mono = 0, env_sync = True, env_ren_data = True, env_ren_idx = True\<rparr>"

theorem filestore_reopen_append_lost_witness:
  "\<exists>fs fs' fs''.
    cmq_filestore_create [] (Some ''/var/cmq'') (Some ''cmq'') (log_data [[1]], log_idx [[1]], None, None) = Some fs \<and>
    cmq_filestore_append [] Io_ok calm_env fs (Some [2, 3]) = ((0, Some 2), fs') \<and>
    fst (cmq_filestore_read [] fs' 2) = None \<and>
    cmq_filestore_create [] (Some ''/var/cmq'') (Some ''cmq'') (cmq_filestore_destroy fs') = Some fs'' \<and>
    fs_holds [[1]] fs''"
  using filestore_reopen_append_lost [OF dir_prefix_example, of "[[1]]" "[2, 3]" "(None, None)" calm_env] log_ok_example
  by (simp add: numeral_2_eq_2)


section \<open>The log as a list\<close>

text \<open>
  The operations of a client of a store, with what the operating system does in each append, and their
  answers; and what they do to a plain list of payloads.
\<close>

datatype fs_op = Fs_append fs_io fs_env "bytes option" | Fs_read nat | Fs_last | Fs_sync fs_env

datatype fs_answer = A_append "int \<times> nat option" | A_read "bytes option" | A_last nat | A_sync int

fun fs_exec :: "filestore \<Rightarrow> fs_op \<Rightarrow> fs_answer \<times> filestore" where
  "fs_exec fs (Fs_append io env data) = (case cmq_filestore_append [] io env fs data of (r, fs) \<Rightarrow> (A_append r, fs))"
| "fs_exec fs (Fs_read seq) = (case cmq_filestore_read [] fs seq of (r, fs) \<Rightarrow> (A_read r, fs))"
| "fs_exec fs Fs_last = (case cmq_filestore_last_seq fs of (n, fs) \<Rightarrow> (A_last n, fs))"
| "fs_exec fs (Fs_sync env) = (case cmq_filestore_sync env fs of (r, fs) \<Rightarrow> (A_sync r, fs))"

definition payload_ok :: "bytes option \<Rightarrow> bool" where
  "payload_ok data = (case data of None \<Rightarrow> False | Some d \<Rightarrow> 0 < length d \<and> length d \<le> FS_PAYLOAD_MAX)"

fun log_exec :: "bytes list \<Rightarrow> fs_op \<Rightarrow> fs_answer \<times> bytes list" where
  "log_exec rs (Fs_append io env data) =
     (if io = Io_ok \<and> payload_ok data then (A_append (0, Some (length rs + 1)), rs @ [the data])
      else (A_append (- 1, None), rs))"
| "log_exec rs (Fs_read seq) =
     (A_read (if 1 \<le> seq \<and> seq \<le> length rs then Some (rs ! (seq - 1)) else None), rs)"
| "log_exec rs Fs_last = (A_last (length rs), rs)"
| "log_exec rs (Fs_sync env) = (A_sync (if env_sync env then 0 else - 1), rs)"

text \<open>Failed writes are rolled back, and the data file stays below the size of \<^verbatim>\<open>off_t\<close>.\<close>

fun op_clean :: "fs_op \<Rightarrow> bool" where
  "op_clean (Fs_append io env data) = (io = Io_ok \<or> rolled_back io)"
| "op_clean _ = True"

fun op_bytes :: "fs_op \<Rightarrow> nat" where
  "op_bytes (Fs_append io env (Some d)) = 22 + length d"
| "op_bytes _ = 0"

definition fs_inv :: "bytes list \<Rightarrow> filestore \<Rightarrow> bool" where
  "fs_inv rs fs \<longleftrightarrow> fs_holds rs fs \<and> fs_coherent fs \<and> \<not> fs_dying fs \<and> rotate_bytes fs = 0"

lemma last_seq_holds:
  assumes "fs_inv rs fs"
  shows "\<exists>fs'. cmq_filestore_last_seq fs = (length rs, fs') \<and> fs_inv rs fs'"
  using assms
  by (auto simp: fs_inv_def cmq_filestore_last_seq_def filestore_last_seq_impl_def refresh_holds [of rs] fs_holds_def
      fs_coherent_def)

lemma append_refused:
  assumes "fs_inv rs fs" "\<not> payload_ok data"
  shows "\<exists>fs'. cmq_filestore_append h io env fs data = ((- 1, None), fs') \<and> fs_inv rs fs'"
  using assms
  by (cases data) (auto simp: payload_ok_def fs_inv_def cmq_filestore_append_def filestore_append_impl_def)

lemma exec_refines:
  assumes "fs_inv rs fs" "op_clean p" "log_off rs (length rs) + op_bytes p < 2 ^ 63"
  shows "\<exists>fs'. fs_exec fs p = (fst (log_exec rs p), fs') \<and> fs_inv (snd (log_exec rs p)) fs'"
proof (cases p)
  case (Fs_append io env data)
  show ?thesis
  proof (cases "payload_ok data")
    case True
    then obtain d where d: "data = Some d" "0 < length d" "length d \<le> FS_PAYLOAD_MAX"
      by (auto simp: payload_ok_def split: option.splits)
    then have "log_ok (rs @ [d])"
      using assms Fs_append by (auto simp: log_ok_snoc fs_inv_def fs_holds_def)
    then show ?thesis
      using assms append_holds [of rs fs d "[]" env] append_rolled_back [of rs fs io "[]" env data] d True
      by (auto simp: Fs_append fs_inv_def rolled_back_def)
  next
    case False
    then show ?thesis using append_refused [OF assms(1) False, of "[]" io env] by (auto simp: Fs_append)
  qed
next
  case (Fs_read seq)
  then show ?thesis using assms(1) read_holds [of rs fs seq] by (auto simp: fs_inv_def)
next
  case Fs_last
  then show ?thesis using last_seq_holds [OF assms(1)] by auto
next
  case (Fs_sync env)
  then show ?thesis using assms(1) by (auto simp: fs_inv_def cmq_filestore_sync_def filestore_sync_impl_def)
qed

lemma log_exec_size:
  "log_off (snd (log_exec rs p)) (length (snd (log_exec rs p))) \<le> log_off rs (length rs) + op_bytes p"
  by (cases p) (auto simp: log_off_Suc log_off_append payload_ok_def split: option.splits)

lemma run_refines:
  assumes "fs_inv rs fs" "list_all op_clean ps" "log_off rs (length rs) + sum_list (map op_bytes ps) < 2 ^ 63"
  shows "\<exists>fs'. run_ops fs_exec fs ps = (fst (run_ops log_exec rs ps), fs') \<and> fs_inv (snd (run_ops log_exec rs ps)) fs'"
  using assms
proof (induction ps arbitrary: rs fs)
  case (Cons p ps)
  obtain fs1 where 1: "fs_exec fs p = (fst (log_exec rs p), fs1)" "fs_inv (snd (log_exec rs p)) fs1"
    using exec_refines [OF Cons.prems(1), of p] Cons.prems(2,3) by auto
  have "log_off (snd (log_exec rs p)) (length (snd (log_exec rs p))) + sum_list (map op_bytes ps) < 2 ^ 63"
    using log_exec_size [of rs p] Cons.prems(3) by simp
  then obtain fs2 where "run_ops fs_exec fs1 ps = (fst (run_ops log_exec (snd (log_exec rs p)) ps), fs2)"
    "fs_inv (snd (run_ops log_exec (snd (log_exec rs p)) ps)) fs2"
    using Cons.IH [OF 1(2)] Cons.prems(2) by auto
  with 1 show ?case by (simp add: case_prod_unfold)
qed simp


text \<open>
  C1. A store opened on an empty directory behaves as a list of payloads: in every sequence of appends, reads,
  size queries and synchronisations, where the operating system may fail any write as long as the
  truncations that undo it succeed, every answer is the one the list gives, refused payloads and
  failed appends included; and a store opened later on its files holds that list.
\<close>

theorem filestore_refines_log:
  assumes "dir_safe (Some dir)" "prefix_safe (Some prefix)" "list_all op_clean ps" "sum_list (map op_bytes ps) < 2 ^ 63"
  shows "\<exists>fs fs' fs''.
    cmq_filestore_create [] (Some dir) (Some prefix) ([], [], archives) = Some fs \<and>
    run_ops fs_exec fs ps = (fst (run_ops log_exec [] ps), fs') \<and>
    cmq_filestore_create [] (Some dir) (Some prefix) (cmq_filestore_destroy fs') = Some fs'' \<and>
    fs_holds (snd (run_ops log_exec [] ps)) fs''"
proof -
  obtain fs where fs: "cmq_filestore_create [] (Some dir) (Some prefix) ([], [], archives) = Some fs" "fs_inv [] fs"
    using create_holds [OF assms(1,2) log_ok_nil, of archives] by (auto simp: fs_inv_def fs_coherent_def fs_holds_def)
  obtain fs' where run: "run_ops fs_exec fs ps = (fst (run_ops log_exec [] ps), fs')" "fs_inv (snd (run_ops log_exec [] ps)) fs'"
    using run_refines [OF fs(2) assms(3)] assms(4) by auto
  then have "log_ok (snd (run_ops log_exec [] ps))"
    "cmq_filestore_destroy fs' =
      (log_data (snd (run_ops log_exec [] ps)), log_idx (snd (run_ops log_exec [] ps)), fs_data1 fs', fs_idx1 fs')"
    by (auto simp: fs_inv_def fs_holds_def cmq_filestore_destroy_def)
  with create_holds [OF assms(1,2)] fs(1) run(1) show ?thesis by metis
qed

definition log_example :: "fs_op list" where
  "log_example =
     [Fs_append Io_ok calm_env (Some [7]), Fs_append (Io_data_fails 9 True) calm_env (Some [8]),
      Fs_append (Io_idx_fails 3 True True) calm_env (Some [9]), Fs_append Io_ok calm_env (Some [4, 5]), Fs_read 2]"

theorem filestore_refines_log_witness:
  "\<exists>fs fs' fs''.
    cmq_filestore_create [] (Some ''/var/cmq'') (Some ''cmq'') ([], [], None, None) = Some fs \<and>
    run_ops fs_exec fs log_example =
      ([A_append (0, Some 1), A_append (- 1, None), A_append (- 1, None), A_append (0, Some 2), A_read (Some [4, 5])], fs') \<and>
    cmq_filestore_create [] (Some ''/var/cmq'') (Some ''cmq'') (cmq_filestore_destroy fs') = Some fs'' \<and>
    fs_holds [[7], [4, 5]] fs''"
proof -
  have run: "run_ops log_exec [] log_example =
      ([A_append (0, Some 1), A_append (- 1, None), A_append (- 1, None), A_append (0, Some 2), A_read (Some [4, 5])], [[7], [4, 5]])"
    by (simp add: log_example_def payload_ok_def FS_PAYLOAD_MAX_def)
  have "list_all op_clean log_example" "sum_list (map op_bytes log_example) < 2 ^ 63"
    by (simp_all add: log_example_def rolled_back_def)
  from filestore_refines_log [OF dir_prefix_example this, of "(None, None)", unfolded run fst_conv snd_conv]
  show ?thesis .
qed

section \<open>Compaction\<close>

text \<open>The copy of the records from \<open>k\<close> on, renumbered from 1.\<close>

definition out_of :: "bytes list \<Rightarrow> fs_out" where
  "out_of rs = (log_data rs, log_idx rs, log_off rs (length rs))"

lemma out_of_snoc:
  "out_of (rs @ [r]) =
    (log_data rs @ fs_record (Suc (length rs)) r, log_idx rs @ put_le64 (of_nat (log_off rs (length rs))),
     log_off rs (length rs) + (CMQ_FS_HDR_SIZE + length r))"
  by (simp add: out_of_def log_data_snoc log_idx_snoc log_off_Suc log_off_append CMQ_FS_HDR_SIZE_def)

lemma log_len32: "log_ok rs \<Longrightarrow> i < length rs \<Longrightarrow> length (rs ! i) < 2 ^ 32"
  using log_ok_nth [of rs i] by (simp add: FS_PAYLOAD_MAX_def)

lemma copy_one_log:
  assumes "log_ok rs" "i < length rs"
  shows "compact_copy_one [] (log_data rs) (log_idx rs) (Suc i) (Suc (length ts)) (out_of ts) =
    (Some (out_of (ts @ [rs ! i])), [])"
proof -
  have "fs_holds rs (fs_calloc [] [] (log_data rs, log_idx rs, None, None))"
    using assms(1) by (simp add: fs_holds_def fs_calloc_def)
  from holds_load [OF this assms(2), of "[]"]
  have "load_record [] (log_data rs) (log_off rs i) =
    (Some (fs_header (Suc i) (length (rs ! i)) (crc32_compute (rs ! i)), rs ! i), [])"
    by (simp add: fs_calloc_def)
  then show ?thesis
    using log_idx_entry [OF assms, of "[]"] log_len32 [OF assms]
    by (simp add: compact_copy_one_def out_of_snoc) (simp add: out_of_def fs_record_def)
qed

lemma copy_log:
  assumes "log_ok rs" "k + i + left = length rs"
  shows "compact_copy [] (log_data rs) (log_idx rs) (Suc k) i left (out_of (take i (drop k rs))) =
    (Some (out_of (drop k rs)), [])"
  using assms(2)
proof (induction left arbitrary: i)
  case (Suc left)
  have i: "k + i < length rs" using Suc.prems by simp
  have t: "take i (drop k rs) @ [rs ! (k + i)] = take (Suc i) (drop k rs)" "length (take i (drop k rs)) = i"
    using i by (simp_all add: take_Suc_conv_app_nth)
  show ?case
    using copy_one_log [OF assms(1) i, of "take i (drop k rs)"] Suc.IH [of "Suc i"] Suc.prems
    unfolding t by simp
qed simp

lemma log_ok_drop: "log_ok rs \<Longrightarrow> log_ok (drop k rs)"
proof -
  assume ok: "log_ok rs"
  have "log_off (drop k rs) (length (drop k rs)) \<le> log_off rs (length rs)"
    using sum_list_take_drop [of "\<lambda>r. 22 + length r" rs k] by (simp add: log_off_def)
  with ok show ?thesis by (auto simp: log_ok_def list_all_iff dest: in_set_dropD)
qed

lemma compact_impl_holds:
  assumes "fs_inv rs fs"
  shows "\<exists>fs'. filestore_compact_impl [] calm_env fs retain = (0, fs') \<and>
    fs_inv (drop (length rs - retain) rs) fs' \<and> next_seq fs' = min retain (length rs) + 1"
proof -
  have h: "fs_holds rs fs" and ok: "log_ok rs" using assms by (simp_all add: fs_inv_def fs_holds_def)
  have files: "fs_data fs = log_data rs" "fs_idx fs = log_idx rs" using h by (simp_all add: fs_holds_def)
  consider "length rs \<le> retain" | "retain = 0" "0 < length rs" | "0 < retain" "retain < length rs" by linarith
  then show ?thesis
  proof cases
    case 3
    have copy: "compact_copy [] (log_data rs) (log_idx rs) (Suc (length rs - retain)) 0 retain ([], [], 0) =
        (Some (out_of (drop (length rs - retain) rs)), [])"
      using copy_log [OF ok, of "length rs - retain" 0 retain] 3 by (simp add: out_of_def)
    show ?thesis
      using 3 copy assms log_ok_drop [OF ok, of "length rs - retain"] files
      by (simp add: filestore_compact_impl_def refresh_holds [OF h] fs_inv_def fs_holds_def fs_coherent_def
          out_of_def calm_env_def length_log_data Let_def)
  qed (use assms files in \<open>auto simp: filestore_compact_impl_def refresh_holds [OF h] fs_inv_def fs_holds_def
      fs_coherent_def Let_def\<close>)
qed

text \<open>
  C30. Compaction keeps exactly the newest records, renumbered from 1: of a log of \<open>n\<close> records the last
  \<open>retain\<close> remain, all of them when there are no more than that. The store stays usable: its cached end
  is right, so the next append follows the kept records.
\<close>

theorem filestore_compact_keeps_newest:
  assumes "fs_inv rs fs"
  shows "\<exists>fs'. cmq_filestore_compact [] calm_env fs retain = (0, fs') \<and>
    fs_inv (drop (length rs - retain) rs) fs' \<and> next_seq fs' = min retain (length rs) + 1"
  using compact_impl_holds [of rs "fs\<lparr>fs_in_flight := fs_in_flight fs + 1\<rparr>" retain] assms
  by (auto simp: cmq_filestore_compact_def fs_inv_def)

lemma inv_example: "\<exists>fs. fs_inv [[1], [2, 3]] fs"
  using log_ok_example
  by (intro exI [of _ "(fs_calloc ''/var/cmq'' ''cmq'' (log_data [[1], [2, 3]], log_idx [[1], [2, 3]], None, None))
      \<lparr>data_end_off := UINT64_MAX\<rparr>"]) (simp add: fs_inv_def fs_holds_def fs_coherent_def fs_calloc_def)

theorem filestore_compact_keeps_newest_witness:
  "\<exists>fs fs'. fs_inv [[1], [2, 3]] fs \<and> cmq_filestore_compact [] calm_env fs 1 = (0, fs') \<and> fs_inv [[2, 3]] fs'"
proof -
  obtain fs where "fs_inv [[1], [2, 3]] fs" using inv_example by blast
  with filestore_compact_keeps_newest [OF this, of 1] show ?thesis by auto
qed


section \<open>Replaying\<close>

text \<open>
  The loop of a client that replays a log: sequence numbers from \<open>seq\<close> on, records that cannot be read skipped.
\<close>

fun log_replay ::
    "('s \<Rightarrow> nat \<Rightarrow> bytes option \<times> 's) \<Rightarrow> ('a \<Rightarrow> bytes \<Rightarrow> 'a) \<Rightarrow> 'a \<Rightarrow> 's \<Rightarrow> nat \<Rightarrow> nat \<Rightarrow> 'a \<times> 's" where
  "log_replay rd f acc s seq 0 = (acc, s)"
| "log_replay rd f acc s seq (Suc left) =
     (case rd s seq of
        (None, s) \<Rightarrow> log_replay rd f acc s (seq + 1) left
      | (Some d, s) \<Rightarrow> log_replay rd f (f acc d) s (seq + 1) left)"

text \<open>
  What a client of a log relies on: reads answer from the list of payloads and keep it, and after a read of
  an existing record the log is ready for appends, each of which extends the list by one.
\<close>

locale record_log =
  fixes opened :: "bytes list \<Rightarrow> 's \<Rightarrow> bool"
    and ready :: "bytes list \<Rightarrow> 's \<Rightarrow> bool"
    and rd :: "'s \<Rightarrow> nat \<Rightarrow> bytes option \<times> 's"
  assumes ready_opened: "ready rs s \<Longrightarrow> opened rs s"
    and read: "opened rs s \<Longrightarrow> 1 \<le> seq \<Longrightarrow> seq \<le> length rs \<Longrightarrow>
      \<exists>s'. rd s seq = (Some (rs ! (seq - 1)), s') \<and> ready rs s'"
begin

lemma replay_from:
  assumes "opened rs s" "1 \<le> seq" "seq + left = length rs + 1"
  shows "\<exists>s'. log_replay rd f acc s seq left = (foldl f acc (drop (seq - 1) rs), s') \<and>
    (if left = 0 then s' = s else ready rs s')"
  using assms
proof (induction left arbitrary: acc s seq)
  case (Suc left)
  obtain s1 where 1: "rd s seq = (Some (rs ! (seq - 1)), s1)" "ready rs s1"
    using read [OF Suc.prems(1,2)] Suc.prems(3) by auto
  obtain s2 where "log_replay rd f (f acc (rs ! (seq - 1))) s1 (seq + 1) left =
      (foldl f (f acc (rs ! (seq - 1))) (drop seq rs), s2)" "if left = 0 then s2 = s1 else ready rs s2"
    using Suc.IH [OF ready_opened [OF 1(2)], of "seq + 1" "f acc (rs ! (seq - 1))"] Suc.prems(3) by auto
  moreover have "drop (seq - 1) rs = rs ! (seq - 1) # drop seq rs"
    using Cons_nth_drop_Suc [of "seq - 1" rs] Suc.prems by simp
  ultimately show ?case using 1 by (cases "left = 0") auto
qed simp

lemma replay_all:
  assumes "opened rs s"
  shows "\<exists>s'. log_replay rd f acc s 1 (length rs) = (foldl f acc rs, s') \<and> (if rs = [] then s' = s else ready rs s')"
  using replay_from [OF assms, of 1 "length rs" f acc] by simp

end

definition fs_opened :: "bytes list \<Rightarrow> filestore \<Rightarrow> bool" where
  "fs_opened rs fs \<longleftrightarrow> fs_holds rs fs \<and> \<not> fs_dying fs \<and> rotate_bytes fs = 0"

interpretation fsl: record_log fs_opened fs_inv "cmq_filestore_read []"
proof
  fix rs fs seq
  show "fs_inv rs fs \<Longrightarrow> fs_opened rs fs" by (simp add: fs_inv_def fs_opened_def)
  show "\<exists>fs'. cmq_filestore_read [] fs seq = (Some (rs ! (seq - 1)), fs') \<and> fs_inv rs fs'"
    if "fs_opened rs fs" "1 \<le> seq" "seq \<le> length rs"
    using that read_holds [of rs fs seq] by (auto simp: fs_opened_def fs_inv_def)
qed

lemma last_seq_opened:
  assumes "fs_opened rs fs"
  shows "\<exists>fs'. cmq_filestore_last_seq fs = (length rs, fs') \<and> fs_opened rs fs' \<and>
    data_end_off fs' = data_end_off fs"
  using assms
  by (auto simp: fs_opened_def cmq_filestore_last_seq_def filestore_last_seq_impl_def refresh_holds [of rs] fs_holds_def)


section \<open>Delayed writes\<close>

text \<open>
  The worker writes the bytes of an entry as they are, without a header and without an index entry: what it
  wrote is an orphan that the next opening cuts off.
\<close>

lemma async_entry_dropped:
  assumes "fs_inv rs fs" "async_worker fs = Some fs'" "dir_safe (Some dir)" "prefix_safe (Some prefix)"
  shows "\<exists>fs''. cmq_filestore_create [] (Some dir) (Some prefix) (cmq_filestore_destroy fs') = Some fs'' \<and> fs_holds rs fs''"
proof -
  have "fs_data fs' = log_data rs @ take (async_lens fs ! async_tail fs) (async_entries fs ! async_tail fs)"
    "fs_idx fs' = log_idx rs @ []" "log_ok rs"
    using assms(1,2) by (auto simp: async_worker_def fs_inv_def fs_holds_def Let_def split: if_splits)
  then show ?thesis
    using create_log [OF assms(3,4), of rs "[]" "take (async_lens fs ! async_tail fs) (async_entries fs ! async_tail fs)"
        "(fs_data1 fs', fs_idx1 fs')"]
    by (auto simp: cmq_filestore_destroy_def)
qed

end
