(* ===== verification/CMQ_Keycompact.thy ===== *)
theory CMQ_Keycompact
  imports CMQ_Filestore
begin

text \<open>
  Keyed records of the write-ahead log: their encoding, and the compaction of the archive, which keeps the last
  record of each key. The reference for it is \<open>key_latest\<close> on the list of payloads, and what it must preserve is
  \<open>kv_view\<close>, the map a replay of the records gives.
\<close>

section \<open>The encoding\<close>

lemma unat_of_nat16: "n < 2 ^ 16 \<Longrightarrow> unat (of_nat n :: u16) = n"
  by (simp add: unsigned_of_nat take_bit_nat_eq_self)

lemma key_encode_some:
  "cmq_filestore_key_encode sz (Some k) v = Some b \<longleftrightarrow>
     0 < length k \<and> length k \<le> 256 \<and> 6 + length k + length v \<le> sz \<and>
     b = CMQ_FS_KEY_MAGIC @ put_le16 (of_nat (length k)) @ k @ v"
  by (auto simp: cmq_filestore_key_encode_def CMQ_FS_KEY_MAX_def)

lemma key_decode_encoded:
  assumes "0 < length k" "length k \<le> 256"
  shows "cmq_filestore_key_decode (Some (CMQ_FS_KEY_MAGIC @ put_le16 (of_nat (length k)) @ k @ v)) = Some (k, v)"
proof -
  obtain a b where p: "put_le16 (of_nat (length k)) = [a, b]" "get_le16 a b = of_nat (length k)" by (rule put_le16E)
  have n: "unat (get_le16 a b) = length k" using assms p by (simp add: unat_of_nat16)
  have "drop (6 + length k) ((CMQ_FS_KEY_MAGIC @ [a, b] @ k) @ v) = v"
    by (simp only: drop_append) (simp add: CMQ_FS_KEY_MAGIC_def)
  then show ?thesis
    using assms n unfolding p(1) by (simp add: cmq_filestore_key_decode_def CMQ_FS_KEY_MAGIC_def CMQ_FS_KEY_MAX_def Let_def)
qed

lemma key_roundtrip:
  "cmq_filestore_key_encode sz (Some k) v = Some b \<Longrightarrow> cmq_filestore_key_decode (Some b) = Some (k, v)"
  by (auto simp: key_encode_some key_decode_encoded)

section \<open>The reference\<close>

definition key_of :: "bytes \<Rightarrow> bytes option" where
  "key_of r = map_option fst (cmq_filestore_key_decode (Some r))"

definition val_of :: "bytes \<Rightarrow> bytes" where
  "val_of r = (case cmq_filestore_key_decode (Some r) of None \<Rightarrow> [] | Some (k, v) \<Rightarrow> v)"

text \<open>Whether a record with a key is the last one of its key, and its value or its age keep it.\<close>

fun key_latest :: "bool \<Rightarrow> bytes list \<Rightarrow> bytes list" where
  "key_latest young [] = []"
| "key_latest young (r # rs) =
     (if key_of r = None then r # key_latest young rs
      else if key_of r \<in> key_of ` set rs then key_latest young rs
      else if val_of r = [] \<and> \<not> young then key_latest young rs
      else r # key_latest young rs)"

text \<open>The map that replaying the records gives: an empty value deletes the key.\<close>

definition kv_apply :: "(bytes \<rightharpoonup> bytes) \<Rightarrow> bytes \<Rightarrow> (bytes \<rightharpoonup> bytes)" where
  "kv_apply m r = (case key_of r of None \<Rightarrow> m | Some k \<Rightarrow> m(k := if val_of r = [] then None else Some (val_of r)))"

definition kv_view :: "bytes list \<Rightarrow> (bytes \<rightharpoonup> bytes)" where
  "kv_view rs = foldl kv_apply Map.empty rs"

lemma kv_apply_at:
  "kv_apply m r k = (if key_of r = Some k then if val_of r = [] then None else Some (val_of r) else m k)"
  by (auto simp: kv_apply_def split: option.splits)

lemma foldl_kv_apply:
  "foldl kv_apply m rs k = (if Some k \<in> key_of ` set rs then kv_view rs k else m k)"
proof (induction rs arbitrary: m)
  case (Cons r rs)
  have "foldl kv_apply m (r # rs) k = (if Some k \<in> key_of ` set rs then kv_view rs k else kv_apply m r k)"
    using Cons.IH [of "kv_apply m r"] by simp
  moreover have "kv_view (r # rs) k = (if Some k \<in> key_of ` set rs then kv_view rs k else kv_apply Map.empty r k)"
    using Cons.IH [of "kv_apply Map.empty r"] by (simp add: kv_view_def)
  ultimately show ?case by (auto simp: kv_apply_at [of m r k] kv_apply_at [of Map.empty r k])
qed (simp add: kv_view_def)

lemma kv_view_Cons:
  "kv_view (r # rs) k = (if Some k \<in> key_of ` set rs then kv_view rs k else kv_apply Map.empty r k)"
  using foldl_kv_apply [of "kv_apply Map.empty r" rs k] by (simp add: kv_view_def)

lemma kv_view_absent: "Some k \<notin> key_of ` set rs \<Longrightarrow> kv_view rs k = None"
  using foldl_kv_apply [of Map.empty rs k] by (simp add: kv_view_def)

lemma key_latest_subset: "set (key_latest young rs) \<subseteq> set rs"
  by (induction rs) auto

lemma key_latest_view: "kv_view (key_latest young rs) k = kv_view rs k"
proof (induction rs)
  case (Cons r rs)
  have sub: "Some k \<in> key_of ` set (key_latest young rs) \<Longrightarrow> Some k \<in> key_of ` set rs"
    using key_latest_subset by fastforce
  have gone: "Some k \<in> key_of ` set rs \<Longrightarrow> Some k \<notin> key_of ` set (key_latest young rs) \<Longrightarrow> kv_view rs k = None"
    using Cons.IH kv_view_absent by metis
  show ?case
    using Cons.IH sub gone kv_view_absent [of k rs]
    by (cases "Some k \<in> key_of ` set rs") (auto simp: kv_view_Cons [of _ _ k] kv_apply_at [of Map.empty r k])
qed simp

lemma key_latest_unkeyed: "filter (\<lambda>r. key_of r = None) (key_latest young rs) = filter (\<lambda>r. key_of r = None) rs"
  by (induction rs) auto

lemma key_latest_distinct: "distinct (map key_of (filter (\<lambda>r. key_of r \<noteq> None) (key_latest young rs)))"
proof (induction rs)
  case (Cons r rs)
  have "key_of r \<notin> key_of ` set rs \<Longrightarrow> key_of r \<notin> key_of ` set (key_latest young rs)"
    using key_latest_subset by fastforce
  with Cons.IH show ?case by auto
qed simp

section \<open>The code keeps what the reference keeps\<close>

definition keeps :: "bool \<Rightarrow> bytes list \<Rightarrow> nat \<Rightarrow> bool" where
  "keeps young rs i \<longleftrightarrow>
     key_of (rs ! i) = None \<or>
     (\<forall>j. i < j \<and> j < length rs \<longrightarrow> key_of (rs ! j) \<noteq> key_of (rs ! i)) \<and> (val_of (rs ! i) \<noteq> [] \<or> young)"

lemma later_Suc: "(\<forall>j. Suc i < j \<and> j < Suc n \<longrightarrow> P j) \<longleftrightarrow> (\<forall>j. i < j \<and> j < n \<longrightarrow> P (Suc j))"
  by (metis Suc_less_eq Suc_less_eq2)

lemma later_0: "(\<forall>j. 0 < j \<and> j < Suc n \<longrightarrow> P j) \<longleftrightarrow> (\<forall>j < n. P (Suc j))"
  by (metis Suc_less_eq gr0_conv_Suc zero_less_Suc)

lemma keeps_Suc: "keeps young (r # rs) (Suc i) = keeps young rs i"
  by (simp add: keeps_def later_Suc)

lemma keeps_0:
  "keeps young (r # rs) 0 \<longleftrightarrow> key_of r = None \<or> key_of r \<notin> key_of ` set rs \<and> (val_of r \<noteq> [] \<or> young)"
proof -
  have "key_of r \<notin> key_of ` set rs \<longleftrightarrow> (\<forall>j < length rs. key_of (rs ! j) \<noteq> key_of r)"
    unfolding image_iff by (metis in_set_conv_nth)
  then show ?thesis by (simp add: keeps_def later_0)
qed

lemma keeps_latest: "map ((!) rs) (filter (keeps young rs) [0..<length rs]) = key_latest young rs"
proof (induction rs)
  case (Cons r rs)
  have "[0..<length (r # rs)] = 0 # map Suc [0..<length rs]"
    by (simp add: upt_conv_Cons map_Suc_upt del: upt_Suc)
  then have "map ((!) (r # rs)) (filter (keeps young (r # rs)) [0..<length (r # rs)]) =
      (if keeps young (r # rs) 0 then [r] else []) @ key_latest young rs"
    using Cons.IH by (simp add: filter_map o_def keeps_Suc)
  then show ?case by (auto simp: keeps_0)
qed simp

lemma last_scan:
  assumes "\<forall>j \<in> set js. i < (j :: nat)"
  shows "foldl (\<lambda>l j. if P j then j else l) i js = i \<longleftrightarrow> (\<forall>j \<in> set js. \<not> P j)"
  using assms
proof (induction js rule: rev_induct)
  case (snoc j js)
  then show ?case by auto
qed simp

text \<open>What \<^verbatim>\<open>keycompact_load\<close> makes of record \<open>i\<close> of a log.\<close>

definition kc_at :: "bytes list \<Rightarrow> nat \<Rightarrow> kc_rec" where
  "kc_at rs i = kc_of (log_off rs i) (fs_header (Suc i) (length (rs ! i)) (crc32_compute (rs ! i))) (rs ! i)"

lemma kc_at_fields:
  "kc_keyed (kc_at rs i) \<longleftrightarrow> key_of (rs ! i) \<noteq> None"
  "kc_off (kc_at rs i) = log_off rs i"
  "key_of (rs ! i) = Some k \<Longrightarrow> kc_key (kc_at rs i) = k \<and> kc_klen (kc_at rs i) = length k \<and>
     kc_tombstone (kc_at rs i) = (val_of (rs ! i) = [])"
  "length (rs ! i) < 2 ^ 32 \<Longrightarrow> kc_len (kc_at rs i) = length (rs ! i)"
  "\<not> kc_keep (kc_at rs i)"
  by (auto simp: kc_at_def kc_of_def key_of_def val_of_def split: option.splits)

lemma holds_load_log:
  assumes "log_ok rs" "i < length rs"
  shows "load_record [] (log_data rs) (log_off rs i) =
    (Some (fs_header (Suc i) (length (rs ! i)) (crc32_compute (rs ! i)), rs ! i), [])"
  using holds_load [of rs "fs_calloc [] [] (log_data rs, log_idx rs, None, None)" i "[]"] assms
  by (simp add: fs_holds_def fs_calloc_def)

lemma load_from_log:
  assumes "log_ok rs" "i + left = length rs"
  shows "keycompact_load_from [] (log_data rs) (log_idx rs) i left = (Some (map (kc_at rs) [i..<length rs]), [])"
  using assms(2)
proof (induction left arbitrary: i)
  case (Suc left)
  then have i: "i < length rs" by simp
  have "[i..<length rs] = i # [Suc i..<length rs]" using i by (simp add: upt_conv_Cons)
  then show ?case
    using Suc.IH [of "Suc i"] Suc.prems holds_load_log [OF assms(1) i] log_idx_entry [OF assms(1) i, of "[]"]
    by (simp add: kc_at_def)
qed simp

lemma load_log:
  assumes "log_ok rs" "length rs \<le> CMQ_FS_KEYCOMPACT_MAX_RECS"
  shows "keycompact_load [] (log_data rs) (log_idx rs) = (Some (map (kc_at rs) [0..<length rs]), [])"
  using load_from_log [OF assms(1), of 0 "length rs"] assms(2)
  by (auto simp: keycompact_load_def Let_def)

lemma same_log:
  assumes "key_of (rs ! i) = Some k" "i < length rs" "j < length rs"
  shows "keycompact_same (map (kc_at rs) [0..<length rs]) i j \<longleftrightarrow> key_of (rs ! j) = key_of (rs ! i)"
proof (cases "key_of (rs ! j)")
  case None
  then show ?thesis using assms by (simp add: keycompact_same_def kc_at_fields)
next
  case (Some k')
  have "kc_key (kc_at rs i) = k" "kc_klen (kc_at rs i) = length k" "kc_key (kc_at rs j) = k'" "kc_klen (kc_at rs j) = length k'"
    "kc_keyed (kc_at rs j)"
    using kc_at_fields [of rs i] kc_at_fields [of rs j] assms(1) Some by auto
  then show ?thesis using assms Some by (auto simp: keycompact_same_def)
qed

lemma mark_log:
  "keycompact_mark (map (kc_at rs) [0..<length rs]) ttl mtime now =
    map (\<lambda>i. (kc_at rs i)\<lparr>kc_keep := keeps (keep_young ttl mtime now) rs i\<rparr>) [0..<length rs]"
proof -
  have step: "(if \<not> kc_keyed (kc_at rs i) then (kc_at rs i)\<lparr>kc_keep := True\<rparr>
      else if keycompact_last (map (kc_at rs) [0..<length rs]) i = i \<and>
        (\<not> kc_tombstone (kc_at rs i) \<or> keep_young ttl mtime now) then (kc_at rs i)\<lparr>kc_keep := True\<rparr> else kc_at rs i) =
      (kc_at rs i)\<lparr>kc_keep := keeps (keep_young ttl mtime now) rs i\<rparr>" if i: "i < length rs" for i
  proof (cases "key_of (rs ! i)")
    case None
    then show ?thesis by (simp add: kc_at_fields keeps_def)
  next
    case (Some k)
    have "keycompact_last (map (kc_at rs) [0..<length rs]) i = i \<longleftrightarrow>
        (\<forall>j \<in> set [i + 1..<length rs]. \<not> keycompact_same (map (kc_at rs) [0..<length rs]) i j)"
      unfolding keycompact_last_def by (subst last_scan) auto
    also have "\<dots> \<longleftrightarrow> (\<forall>j. i < j \<and> j < length rs \<longrightarrow> key_of (rs ! j) \<noteq> key_of (rs ! i))"
      using same_log [OF Some i] by (auto simp: Suc_le_eq)
    finally show ?thesis
      using Some kc_at_fields [of rs i] by (simp add: keeps_def)
  qed
  show ?thesis unfolding keycompact_mark_def
  proof (rule map_cong)
    fix i assume "i \<in> set [0..<length rs]"
    then have i: "i < length rs" and n: "map (kc_at rs) [0..<length rs] ! i = kc_at rs i" by simp_all
    show "(if \<not> kc_keyed (map (kc_at rs) [0..<length rs] ! i) then (map (kc_at rs) [0..<length rs] ! i)\<lparr>kc_keep := True\<rparr>
      else if keycompact_last (map (kc_at rs) [0..<length rs]) i = i \<and>
        (\<not> kc_tombstone (map (kc_at rs) [0..<length rs] ! i) \<or> keep_young ttl mtime now)
      then (map (kc_at rs) [0..<length rs] ! i)\<lparr>kc_keep := True\<rparr> else map (kc_at rs) [0..<length rs] ! i) =
      (kc_at rs i)\<lparr>kc_keep := keeps (keep_young ttl mtime now) rs i\<rparr>"
      unfolding n by (rule step [OF i])
  qed simp
qed

lemma write_log:
  assumes "log_ok rs" "\<forall>i \<in> set is. i < length rs"
  shows "keycompact_write_from [] (log_data rs) (map (\<lambda>i. (kc_at rs i)\<lparr>kc_keep := P i\<rparr>) is) (Suc (length ts)) (out_of ts) =
    Some (out_of (ts @ map ((!) rs) (filter P is)))"
  using assms(2)
proof (induction "is" arbitrary: ts)
  case (Cons i "is")
  then have i: "i < length rs" by simp
  note at = log_data_at [OF assms(1) i, of "[]", simplified]
  show ?case
  proof (cases "P i")
    case True
    have "(case out_of ts of (df, idf, off) \<Rightarrow>
        (df @ fs_header (Suc (length ts)) (length (rs ! i)) (crc32_compute (rs ! i)) @ rs ! i, idf @ put_le64 (of_nat off),
         off + (CMQ_FS_HDR_SIZE + length (rs ! i)))) = out_of (ts @ [rs ! i])"
      by (simp add: out_of_snoc) (simp add: out_of_def fs_record_def)
    then show ?thesis
      using True Cons.IH [of "ts @ [rs ! i]"] Cons.prems at log_len32 [OF assms(1) i]
      by (auto simp: kc_at_fields CMQ_FS_HDR_SIZE_def out_of_def)
  next
    case False
    then show ?thesis using Cons by simp
  qed
qed simp


lemma log_ok_sub:
  assumes "log_ok rs"
  shows "log_ok (map ((!) rs) (filter P [0..<length rs]))"
proof -
  let ?s = "\<lambda>r :: bytes. 22 + length r" and ?is = "filter P [0..<length rs]"
  have "sum_list (map (\<lambda>i. ?s (rs ! i)) ?is) \<le> sum_list (map (\<lambda>i. ?s (rs ! i)) [0..<length rs])"
    by (rule sum_list_filter_le_nat)
  also have "\<dots> = sum_list (map ?s (map ((!) rs) [0..<length rs]))" by (simp only: map_map o_def)
  also have "\<dots> = log_off rs (length rs)" by (simp only: map_nth log_off_def take_all order_refl)
  finally have "log_off (map ((!) rs) ?is) (length (map ((!) rs) ?is)) \<le> log_off rs (length rs)"
    by (simp only: log_off_def take_all order_refl map_map o_def)
  then show ?thesis using assms by (auto simp: log_ok_def list_all_iff)
qed

lemma compact_keys_impl_log:
  assumes "fs_data1 fs = Some (log_data rs)" "fs_idx1 fs = Some (log_idx rs)" "log_ok rs"
    and "length rs \<le> CMQ_FS_KEYCOMPACT_MAX_RECS" "env_ren_data env" "env_ren_idx env"
  defines "rs' \<equiv> key_latest (keep_young (tombstone_ttl_ms fs) (env_mtime env) (env_wall env)) rs"
  shows "filestore_compact_keys_impl [] env fs = (0, fs\<lparr>fs_data1 := Some (log_data rs'), fs_idx1 := Some (log_idx rs')\<rparr>)"
    and "log_ok rs'"
proof -
  let ?P = "keeps (keep_young (tombstone_ttl_ms fs) (env_mtime env) (env_wall env)) rs"
  have w: "keycompact_write [] (log_data rs) (map (\<lambda>i. (kc_at rs i)\<lparr>kc_keep := ?P i\<rparr>) [0..<length rs]) = Some (out_of rs')"
    using write_log [OF assms(3), of "[0..<length rs]" ?P "[]"]
    by (simp add: keycompact_write_def rs'_def keeps_latest out_of_def)
  show "filestore_compact_keys_impl [] env fs = (0, fs\<lparr>fs_data1 := Some (log_data rs'), fs_idx1 := Some (log_idx rs')\<rparr>)"
    using assms(1,2,5,6) w
    by (simp add: filestore_compact_keys_impl_def load_log [OF assms(3,4)] mark_log out_of_def)
  show "log_ok rs'" unfolding rs'_def keeps_latest [symmetric] by (rule log_ok_sub [OF assms(3)])
qed

text \<open>
  C29. Key compaction of the archive is a change of representation only: what it writes is the log of the
  reference \<open>key_latest\<close>, whose replay gives the same map as the replay of the old archive, whose records without a
  key are the same in the same order, and in which no key occurs twice. The live log is not touched.
\<close>

theorem filestore_compact_keys_view:
  assumes "fs_data1 fs = Some (log_data rs)" "fs_idx1 fs = Some (log_idx rs)" "log_ok rs"
    and "length rs \<le> CMQ_FS_KEYCOMPACT_MAX_RECS" "env_ren_data env" "env_ren_idx env" "\<not> fs_dying fs"
  shows "\<exists>fs'. let rs' = key_latest (keep_young (tombstone_ttl_ms fs) (env_mtime env) (env_wall env)) rs in
    cmq_filestore_compact_keys [] env fs = (0, fs') \<and>
    fs_data1 fs' = Some (log_data rs') \<and> fs_idx1 fs' = Some (log_idx rs') \<and> log_ok rs' \<and>
    fs_data fs' = fs_data fs \<and> fs_idx fs' = fs_idx fs \<and>
    kv_view rs' = kv_view rs \<and>
    filter (\<lambda>r. key_of r = None) rs' = filter (\<lambda>r. key_of r = None) rs \<and>
    distinct (map key_of (filter (\<lambda>r. key_of r \<noteq> None) rs'))"
proof -
  let ?fs = "fs\<lparr>fs_in_flight := fs_in_flight fs + 1\<rparr>"
  have "fs_data1 ?fs = Some (log_data rs)" "fs_idx1 ?fs = Some (log_idx rs)" using assms(1,2) by simp_all
  note impl = compact_keys_impl_log [OF this assms(3-6)]
  show ?thesis
    using assms(7) impl
    by (simp add: cmq_filestore_compact_keys_def Let_def key_latest_view fun_eq_iff key_latest_unkeyed
        key_latest_distinct del: not_None_eq)
qed

definition keyed_example :: "bytes list" where
  "keyed_example = map (\<lambda>(k, v). CMQ_FS_KEY_MAGIC @ put_le16 1 @ [k] @ v) [(1, [5]), (2, [6]), (1, [])]"

lemma keyed_example_ok: "log_ok keyed_example" "length keyed_example \<le> CMQ_FS_KEYCOMPACT_MAX_RECS"
  by (simp_all add: keyed_example_def log_ok_def log_off_def FS_PAYLOAD_MAX_def CMQ_FS_KEY_MAGIC_def
      CMQ_FS_KEYCOMPACT_MAX_RECS_def)

theorem filestore_compact_keys_view_witness:
  "\<exists>fs'. cmq_filestore_compact_keys [] calm_env
      (fs_calloc ''/var/cmq'' ''cmq'' ([], [], Some (log_data keyed_example), Some (log_idx keyed_example))) = (0, fs') \<and>
    fs_data1 fs' = Some (log_data (key_latest False keyed_example))"
proof -
  have "keep_young 0 0 0 = False" by (simp add: keep_young_def)
  with filestore_compact_keys_view [of "fs_calloc ''/var/cmq'' ''cmq'' ([], [], Some (log_data keyed_example), Some (log_idx keyed_example))"
      keyed_example calm_env] keyed_example_ok
  show ?thesis by (auto simp: fs_calloc_def calm_env_def Let_def)
qed

end
