(* ===== verification/CMQ_Kv.thy ===== *)
theory CMQ_Kv
  imports CMQ_Keycompact
begin

text \<open>
  The key-value table (\<^verbatim>\<open>src/store/cmq_kv.c\<close>), a bounded array of slots in memory that may be backed by a
  write-ahead log, and the buckets over it (\<^verbatim>\<open>src/store/cmq_kvb.c\<close>). Keys are C strings; a value is a list of
  bytes. \<open>kv_overrun\<close> is not a field of the source: it records that the terminator of a key was written past the end
  of its buffer.
\<close>

section \<open>Slots\<close>

definition CMQ_KV_KEY_MAX :: nat where "CMQ_KV_KEY_MAX = 256"
definition CMQ_KV_VAL_MAX :: nat where "CMQ_KV_VAL_MAX = 1024"
definition CMQ_KV_SLOTS_MAX :: nat where "CMQ_KV_SLOTS_MAX = 256"

record kv_slot =
  ks_used :: bool
  ks_key_len :: nat
  ks_val_len :: nat
  ks_key :: string
  ks_val :: bytes

record kv =
  kv_slots :: "kv_slot list"
  kv_cap :: nat
  kv_count :: nat
  kv_fs :: "filestore option"
  kv_overrun :: bool

definition kv_slot_zero :: kv_slot where
  "kv_slot_zero = \<lparr>ks_used = False, ks_key_len = 0, ks_val_len = 0, ks_key = [], ks_val = []\<rparr>"

text \<open>The loop counts characters before it looks at each; 256 of them pass.\<close>

fun kv_key_loop :: "string \<Rightarrow> nat \<Rightarrow> bool" where
  "kv_key_loop [] n = True"
| "kv_key_loop (c # cs) n = (if n \<ge> CMQ_KV_KEY_MAX then False else if token_char c then kv_key_loop cs (n + 1) else False)"

definition kv_key_safe :: "string option \<Rightarrow> bool" where
  "kv_key_safe s = (case s of None \<Rightarrow> False | Some k \<Rightarrow> k \<noteq> [] \<and> kv_key_loop k 0)"

definition kv_find :: "kv \<Rightarrow> string \<Rightarrow> nat option" where
  "kv_find kv key = find (\<lambda>i. ks_used (kv_slots kv ! i) \<and> ks_key (kv_slots kv ! i) = key) [0..<kv_cap kv]"

definition kv_free_slot :: "kv \<Rightarrow> nat option" where
  "kv_free_slot kv = find (\<lambda>i. \<not> ks_used (kv_slots kv ! i)) [0..<kv_cap kv]"

definition kv_store :: "kv \<Rightarrow> nat \<Rightarrow> string \<Rightarrow> bytes \<Rightarrow> kv" where
  "kv_store kv idx key val =
     (let klen = strnlen key CMQ_KV_KEY_MAX
      in kv\<lparr>kv_slots := (kv_slots kv)[idx :=
             \<lparr>ks_used = True, ks_key_len = klen, ks_val_len = length val, ks_key = take klen key, ks_val = val\<rparr>],
            kv_overrun := kv_overrun kv \<or> klen \<ge> CMQ_KV_KEY_MAX\<rparr>)"

definition kv_update :: "kv \<Rightarrow> string \<Rightarrow> bytes \<Rightarrow> kv" where
  "kv_update kv key val =
     (case kv_find kv key of
        Some idx \<Rightarrow>
          if length val = 0 then
            kv\<lparr>kv_slots := (kv_slots kv)[idx := kv_slot_zero],
               kv_count := (if kv_count kv > 0 then kv_count kv - 1 else kv_count kv)\<rparr>
          else kv_store kv idx key val
      | None \<Rightarrow>
          if length val = 0 then kv
          else case kv_free_slot kv of
            None \<Rightarrow> kv
          | Some idx \<Rightarrow> kv_store (kv\<lparr>kv_count := kv_count kv + 1\<rparr>) idx key val)"

definition kv_persist :: "heap \<Rightarrow> fs_io \<Rightarrow> fs_env \<Rightarrow> kv \<Rightarrow> string \<Rightarrow> bytes \<Rightarrow> int \<times> kv" where
  "kv_persist h io env kv key val =
     (case kv_fs kv of
        None \<Rightarrow> (0, kv)
      | Some fs \<Rightarrow>
          (case cmq_filestore_key_encode (6 + CMQ_KV_KEY_MAX + CMQ_KV_VAL_MAX)
              (Some (map byte_of (take (strnlen key CMQ_KV_KEY_MAX) key))) val of
             None \<Rightarrow> (- 1, kv)
           | Some buf \<Rightarrow>
               (case cmq_filestore_append h io env fs (Some buf) of
                  ((rc, seq), fs) \<Rightarrow> (rc, kv\<lparr>kv_fs := Some fs\<rparr>))))"

definition kv_replay_record :: "kv \<Rightarrow> bytes \<Rightarrow> kv" where
  "kv_replay_record kv data =
     (case cmq_filestore_key_decode (Some data) of
        None \<Rightarrow> kv
      | Some (k, v) \<Rightarrow>
          if length k > 0 \<and> length k < CMQ_KV_KEY_MAX then
            if kv_key_safe (Some (cstr_of k)) \<and> length v \<le> CMQ_KV_VAL_MAX then kv_update kv (cstr_of k) v else kv
          else kv)"

definition kv_replay :: "kv \<Rightarrow> kv" where
  "kv_replay kv =
     (case kv_fs kv of
        None \<Rightarrow> kv
      | Some fs \<Rightarrow>
          (case cmq_filestore_last_seq fs of (n, fs) \<Rightarrow>
             (case log_replay (cmq_filestore_read []) kv_replay_record kv fs 1 n of
                (kv, fs) \<Rightarrow> kv\<lparr>kv_fs := Some fs\<rparr>)))"

section \<open>Interface\<close>

definition cmq_kv_create :: "heap \<Rightarrow> nat \<Rightarrow> kv option" where
  "cmq_kv_create h slots =
     (let slots = (if slots = 0 then CMQ_KV_SLOTS_MAX else slots)
      in if slots > CMQ_KV_SLOTS_MAX then None
         else case malloc_ok h of
           (False, h) \<Rightarrow> None
         | (True, h) \<Rightarrow>
             if \<not> fst (malloc_ok h) then None
             else Some \<lparr>kv_slots = replicate slots kv_slot_zero, kv_cap = slots, kv_count = 0, kv_fs = None,
                        kv_overrun = False\<rparr>)"

definition cmq_kv_destroy :: "kv \<Rightarrow> fs_disk option" where
  "cmq_kv_destroy kv = map_option cmq_filestore_destroy (kv_fs kv)"

text \<open>\<open>disk\<close> is what the directory has under the prefix.\<close>

definition cmq_kv_set_persist :: "heap \<Rightarrow> fs_disk \<Rightarrow> kv \<Rightarrow> string option \<Rightarrow> string option \<Rightarrow> int \<times> kv" where
  "cmq_kv_set_persist h disk kv dir prefix =
     (if dir = None \<or> prefix = None \<or> prefix = Some [] then (- 1, kv)
      else if kv_fs kv \<noteq> None then (- 1, kv)
      else case cmq_filestore_create h dir prefix disk of
        None \<Rightarrow> (- 1, kv)
      | Some fs \<Rightarrow> (0, kv_replay (kv\<lparr>kv_fs := Some fs\<rparr>)))"

definition cmq_kv_put :: "heap \<Rightarrow> fs_io \<Rightarrow> fs_env \<Rightarrow> kv \<Rightarrow> string option \<Rightarrow> bytes \<Rightarrow> int \<times> kv" where
  "cmq_kv_put h io env kv key val =
     (if \<not> kv_key_safe key then (- 1, kv)
      else if length val > CMQ_KV_VAL_MAX then (- 3, kv)
      else if kv_find kv (the key) = None \<and> kv_free_slot kv = None then (- 2, kv)
      else case kv_persist h io env kv (the key) val of
        (rc, kv) \<Rightarrow> if rc \<noteq> 0 then (- 1, kv) else (0, kv_update kv (the key) val))"

text \<open>The answer and what is copied to \<^verbatim>\<open>out\<close>.\<close>

definition cmq_kv_get :: "kv \<Rightarrow> string option \<Rightarrow> nat \<Rightarrow> int \<times> bytes option" where
  "cmq_kv_get kv key out_sz =
     (if \<not> kv_key_safe key then (- 1, None)
      else case kv_find kv (the key) of
        None \<Rightarrow> (- 1, None)
      | Some idx \<Rightarrow>
          if out_sz < ks_val_len (kv_slots kv ! idx) then (- 2, None)
          else (0, Some (take (ks_val_len (kv_slots kv ! idx)) (ks_val (kv_slots kv ! idx)))))"

definition cmq_kv_del :: "heap \<Rightarrow> fs_io \<Rightarrow> fs_env \<Rightarrow> kv \<Rightarrow> string option \<Rightarrow> int \<times> kv" where
  "cmq_kv_del h io env kv key =
     (if \<not> kv_key_safe key then (- 1, kv)
      else case kv_find kv (the key) of
        None \<Rightarrow> (- 1, kv)
      | Some idx \<Rightarrow>
          (case kv_persist h io env kv (the key) [] of
             (rc, kv) \<Rightarrow> if rc \<noteq> 0 then (- 1, kv) else (0, kv_update kv (the key) [])))"

definition cmq_kv_count :: "kv \<Rightarrow> nat" where
  "cmq_kv_count kv = kv_count kv"


section \<open>The table as a map\<close>

definition kv_wf :: "kv \<Rightarrow> bool" where
  "kv_wf kv \<longleftrightarrow>
     length (kv_slots kv) = kv_cap kv \<and>
     (\<forall>i < kv_cap kv. \<forall>j < kv_cap kv. ks_used (kv_slots kv ! i) \<longrightarrow> ks_used (kv_slots kv ! j) \<longrightarrow>
        ks_key (kv_slots kv ! i) = ks_key (kv_slots kv ! j) \<longrightarrow> i = j) \<and>
     (\<forall>i < kv_cap kv. ks_val_len (kv_slots kv ! i) = length (ks_val (kv_slots kv ! i))) \<and>
     kv_count kv = length (filter ks_used (kv_slots kv))"

definition kv_map :: "kv \<Rightarrow> string \<rightharpoonup> bytes" where
  "kv_map kv k = map_option (\<lambda>i. ks_val (kv_slots kv ! i)) (kv_find kv k)"

lemma find_upt_Some: "find P [0..<n] = Some i \<Longrightarrow> i < n \<and> P i"
  by (auto simp: find_Some_iff)

lemma find_upt_None: "find P [0..<n] = None \<longleftrightarrow> (\<forall>i < n. \<not> P i)"
  by (auto simp: find_None_iff)

lemma kv_find_Some: "kv_find kv k = Some i \<Longrightarrow> i < kv_cap kv \<and> ks_used (kv_slots kv ! i) \<and> ks_key (kv_slots kv ! i) = k"
  unfolding kv_find_def by (rule find_upt_Some)

lemma kv_find_None: "kv_find kv k = None \<longleftrightarrow> (\<forall>i < kv_cap kv. \<not> (ks_used (kv_slots kv ! i) \<and> ks_key (kv_slots kv ! i) = k))"
  unfolding kv_find_def by (rule find_upt_None)

lemma kv_free_Some: "kv_free_slot kv = Some i \<Longrightarrow> i < kv_cap kv \<and> \<not> ks_used (kv_slots kv ! i)"
  unfolding kv_free_slot_def by (rule find_upt_Some)

lemma kv_free_None: "kv_free_slot kv = None \<longleftrightarrow> (\<forall>i < kv_cap kv. ks_used (kv_slots kv ! i))"
  unfolding kv_free_slot_def by (simp add: find_upt_None)

lemma kv_find_eq:
  assumes "kv_wf kv" "i < kv_cap kv" "ks_used (kv_slots kv ! i)" "ks_key (kv_slots kv ! i) = k"
  shows "kv_find kv k = Some i"
proof (cases "kv_find kv k")
  case None
  then show ?thesis using assms by (simp add: kv_find_None)
next
  case (Some j)
  with kv_find_Some [OF Some] assms show ?thesis by (auto simp: kv_wf_def)
qed

lemma length_filter_update:
  assumes "i < length xs"
  shows "length (filter P (xs[i := y])) + (if P (xs ! i) then 1 else 0) = length (filter P xs) + (if P y then 1 else 0)"
proof -
  have "length (filter P xs) = length (filter P (take i xs @ xs ! i # drop (Suc i) xs))"
    using assms by (simp flip: id_take_nth_drop)
  then show ?thesis using assms by (simp add: upd_conv_take_nth_drop)
qed

lemma kv_map_dom: "kv_wf kv \<Longrightarrow> dom (kv_map kv) = (\<lambda>i. ks_key (kv_slots kv ! i)) ` {i. i < kv_cap kv \<and> ks_used (kv_slots kv ! i)}"
  by (auto simp: kv_map_def dom_def dest!: kv_find_Some intro: kv_find_eq)

lemma kv_count_card:
  assumes "kv_wf kv"
  shows "kv_count kv = card (dom (kv_map kv))"
proof -
  have "inj_on (\<lambda>i. ks_key (kv_slots kv ! i)) {i. i < kv_cap kv \<and> ks_used (kv_slots kv ! i)}"
    using assms by (auto simp: inj_on_def kv_wf_def)
  then have "card (dom (kv_map kv)) = card {i. i < kv_cap kv \<and> ks_used (kv_slots kv ! i)}"
    unfolding kv_map_dom [OF assms] by (rule card_image)
  also have "\<dots> = kv_count kv" using assms by (simp add: kv_wf_def length_filter_conv_card)
  finally show ?thesis by simp
qed

lemma list_all_filter_length: "list_all P xs \<longleftrightarrow> length xs \<le> length (filter P xs)"
proof (induction xs)
  case (Cons x xs)
  have "length (filter P xs) \<le> length xs" by (rule length_filter_le)
  with Cons show ?case by (auto simp del: length_filter_le)
qed simp

lemma kv_full:
  assumes "kv_wf kv"
  shows "kv_free_slot kv = None \<longleftrightarrow> kv_cap kv \<le> card (dom (kv_map kv))"
proof -
  have "kv_free_slot kv = None \<longleftrightarrow> list_all ks_used (kv_slots kv)"
    using assms by (simp add: kv_free_None list_all_length kv_wf_def)
  also have "\<dots> \<longleftrightarrow> length (kv_slots kv) \<le> length (filter ks_used (kv_slots kv))"
    by (rule list_all_filter_length)
  finally show ?thesis using assms kv_count_card [OF assms] by (simp add: kv_wf_def)
qed

lemma kv_map_eqI:
  assumes "kv_wf kv" "\<And>k v. m k = Some v \<longleftrightarrow>
    (\<exists>i < kv_cap kv. ks_used (kv_slots kv ! i) \<and> ks_key (kv_slots kv ! i) = k \<and> ks_val (kv_slots kv ! i) = v)"
  shows "kv_map kv = m"
proof
  fix k
  show "kv_map kv k = m k"
  proof (cases "kv_find kv k")
    case None
    then have "m k = None" using assms(2) by (metis kv_find_None option.exhaust)
    then show ?thesis using None by (simp add: kv_map_def)
  next
    case (Some i)
    then show ?thesis using kv_find_Some [OF Some] assms(2) by (metis kv_map_def option.map(2))
  qed
qed

lemma kv_map_Some:
  assumes "kv_wf kv"
  shows "kv_map kv k = Some v \<longleftrightarrow>
    (\<exists>i < kv_cap kv. ks_used (kv_slots kv ! i) \<and> ks_key (kv_slots kv ! i) = k \<and> ks_val (kv_slots kv ! i) = v)"
  using assms by (auto simp: kv_map_def dest: kv_find_Some intro: kv_find_eq)


lemma kv_set_slot_wf:
  assumes "kv_wf kv" "idx < kv_cap kv" "ks_val_len s = length (ks_val s)"
    and "ks_used s \<Longrightarrow> \<forall>i < kv_cap kv. i \<noteq> idx \<longrightarrow> ks_used (kv_slots kv ! i) \<longrightarrow> ks_key (kv_slots kv ! i) \<noteq> ks_key s"
    and "n + (if ks_used (kv_slots kv ! idx) then 1 else 0) = kv_count kv + (if ks_used s then 1 else 0)"
    and "kv' = kv\<lparr>kv_slots := (kv_slots kv)[idx := s], kv_count := n, kv_overrun := ov\<rparr>"
  shows "kv_wf kv'"
proof -
  have l: "length (kv_slots kv) = kv_cap kv" using assms(1) by (simp add: kv_wf_def)
  have c: "length (filter ks_used ((kv_slots kv)[idx := s])) = n"
    using length_filter_update [of idx "kv_slots kv" ks_used s] assms(1,2,5) l by (simp add: kv_wf_def)
  have inj: "i = j" if "i < kv_cap kv" "j < kv_cap kv" "ks_used (kv_slots kv' ! i)" "ks_used (kv_slots kv' ! j)"
      "ks_key (kv_slots kv' ! i) = ks_key (kv_slots kv' ! j)" for i j
    using that assms(1,2,4) l unfolding assms(6) kv_wf_def by (cases "i = idx"; cases "j = idx") auto
  show ?thesis
    unfolding kv_wf_def
  proof (intro conjI allI impI)
    fix i assume "i < kv_cap kv'"
    then show "ks_val_len (kv_slots kv' ! i) = length (ks_val (kv_slots kv' ! i))"
      using assms(1-3) l unfolding assms(6) kv_wf_def by (cases "i = idx") auto
  qed (use l c inj assms(6) in auto)
qed

lemma kv_delete:
  assumes "kv_wf kv" "kv_find kv k = Some idx"
  shows "kv_wf (kv_update kv k [])" "kv_map (kv_update kv k []) = (kv_map kv)(k := None)"
proof -
  note f = kv_find_Some [OF assms(2)]
  have l: "length (kv_slots kv) = kv_cap kv" using assms(1) by (simp add: kv_wf_def)
  have pos: "0 < kv_count kv"
  proof -
    have "kv_slots kv ! idx \<in> set (filter ks_used (kv_slots kv))" using f l by simp
    from length_pos_if_in_set [OF this] show ?thesis using assms(1) by (simp add: kv_wf_def)
  qed
  have eq: "kv_update kv k [] = kv\<lparr>kv_slots := (kv_slots kv)[idx := kv_slot_zero], kv_count := kv_count kv - 1, kv_overrun := kv_overrun kv\<rparr>"
    using pos by (simp add: kv_update_def assms(2))
  show wf: "kv_wf (kv_update kv k [])"
    by (rule kv_set_slot_wf [OF assms(1) conjunct1 [OF f] _ _ _ eq]) (use f pos in \<open>auto simp: kv_slot_zero_def\<close>)
  have one: "i = idx" if "i < kv_cap kv" "ks_used (kv_slots kv ! i)" "ks_key (kv_slots kv ! i) = k" for i
    using kv_find_eq [OF assms(1) that] assms(2) by simp
  show "kv_map (kv_update kv k []) = (kv_map kv)(k := None)"
  proof (rule kv_map_eqI [OF wf])
    fix k' v
    show "((kv_map kv)(k := None)) k' = Some v \<longleftrightarrow>
      (\<exists>i < kv_cap (kv_update kv k []). ks_used (kv_slots (kv_update kv k []) ! i) \<and>
        ks_key (kv_slots (kv_update kv k []) ! i) = k' \<and> ks_val (kv_slots (kv_update kv k []) ! i) = v)"
      unfolding eq using l f one
      by (auto simp: kv_map_Some [OF assms(1)] nth_list_update kv_slot_zero_def) metis
  qed
qed

lemma kv_insert:
  assumes "kv_wf kv" "v \<noteq> []" "length k \<le> CMQ_KV_KEY_MAX" "kv_find kv k \<noteq> None \<or> kv_free_slot kv \<noteq> None"
  shows "kv_wf (kv_update kv k v)" "kv_map (kv_update kv k v) = (kv_map kv)(k \<mapsto> v)"
proof -
  define s where "s = \<lparr>ks_used = True, ks_key_len = length k, ks_val_len = length v, ks_key = k, ks_val = v\<rparr>"
  have l: "length (kv_slots kv) = kv_cap kv" using assms(1) by (simp add: kv_wf_def)
  obtain idx n ov where idx: "idx < kv_cap kv"
    and eq: "kv_update kv k v = kv\<lparr>kv_slots := (kv_slots kv)[idx := s], kv_count := n, kv_overrun := ov\<rparr>"
    and n: "n + (if ks_used (kv_slots kv ! idx) then 1 else 0) = kv_count kv + 1"
    and free: "\<forall>i < kv_cap kv. i \<noteq> idx \<longrightarrow> ks_used (kv_slots kv ! i) \<longrightarrow> ks_key (kv_slots kv ! i) \<noteq> k"
    and at: "ks_used (kv_slots kv ! idx) \<Longrightarrow> ks_key (kv_slots kv ! idx) = k"
  proof (cases "kv_find kv k")
    case (Some idx)
    note f = kv_find_Some [OF Some]
    show ?thesis
    proof (rule that [of idx "kv_overrun kv \<or> length k \<ge> CMQ_KV_KEY_MAX" "kv_count kv"])
      show "\<forall>i < kv_cap kv. i \<noteq> idx \<longrightarrow> ks_used (kv_slots kv ! i) \<longrightarrow> ks_key (kv_slots kv ! i) \<noteq> k"
        using kv_find_eq [OF assms(1)] Some by fastforce
    qed (use f assms(2,3) Some in \<open>auto simp: kv_update_def kv_store_def strnlen_def s_def Let_def\<close>)
  next
    case None
    then obtain idx where idx: "kv_free_slot kv = Some idx" using assms(4) by auto
    show ?thesis
    proof (rule that [of idx "kv_overrun kv \<or> length k \<ge> CMQ_KV_KEY_MAX" "kv_count kv + 1"])
      show "\<forall>i < kv_cap kv. i \<noteq> idx \<longrightarrow> ks_used (kv_slots kv ! i) \<longrightarrow> ks_key (kv_slots kv ! i) \<noteq> k"
        using None by (auto simp: kv_find_None)
    qed (use kv_free_Some [OF idx] assms(2,3) None idx in \<open>auto simp: kv_update_def kv_store_def strnlen_def s_def Let_def\<close>)
  qed
  show wf: "kv_wf (kv_update kv k v)"
    by (rule kv_set_slot_wf [OF assms(1) idx _ _ _ eq]) (use free n in \<open>auto simp: s_def\<close>)
  show "kv_map (kv_update kv k v) = (kv_map kv)(k \<mapsto> v)"
  proof (rule kv_map_eqI [OF wf])
    fix k' w
    show "((kv_map kv)(k \<mapsto> v)) k' = Some w \<longleftrightarrow>
      (\<exists>i < kv_cap (kv_update kv k v). ks_used (kv_slots (kv_update kv k v) ! i) \<and>
        ks_key (kv_slots (kv_update kv k v) ! i) = k' \<and> ks_val (kv_slots (kv_update kv k v) ! i) = w)"
      unfolding eq using l idx free at
      by (auto simp: kv_map_Some [OF assms(1)] nth_list_update s_def) metis
  qed
qed


section \<open>The bounded map\<close>

lemma kv_key_loop_iff: "kv_key_loop k n \<longleftrightarrow> list_all token_char k \<and> (k = [] \<or> n + length k \<le> CMQ_KV_KEY_MAX)"
  by (induction k n rule: kv_key_loop.induct) auto

lemma kv_key_safe_iff: "kv_key_safe (Some k) \<longleftrightarrow> k \<noteq> [] \<and> length k \<le> CMQ_KV_KEY_MAX \<and> list_all token_char k"
  by (auto simp: kv_key_safe_def kv_key_loop_iff)

text \<open>What a table of \<open>cap\<close> entries promises.\<close>

definition map_put :: "nat \<Rightarrow> (string \<rightharpoonup> bytes) \<Rightarrow> string \<Rightarrow> bytes \<Rightarrow> int \<times> (string \<rightharpoonup> bytes)" where
  "map_put cap m k v =
     (if \<not> kv_key_safe (Some k) then (- 1, m)
      else if length v > CMQ_KV_VAL_MAX then (- 3, m)
      else if m k = None \<and> card (dom m) \<ge> cap then (- 2, m)
      else (0, if v = [] then m(k := None) else m(k \<mapsto> v)))"

definition map_get :: "(string \<rightharpoonup> bytes) \<Rightarrow> string \<Rightarrow> nat \<Rightarrow> int \<times> bytes option" where
  "map_get m k out_sz =
     (if \<not> kv_key_safe (Some k) then (- 1, None)
      else case m k of None \<Rightarrow> (- 1, None) | Some v \<Rightarrow> if out_sz < length v then (- 2, None) else (0, Some v))"

definition map_del :: "(string \<rightharpoonup> bytes) \<Rightarrow> string \<Rightarrow> int \<times> (string \<rightharpoonup> bytes)" where
  "map_del m k = (if \<not> kv_key_safe (Some k) \<or> m k = None then (- 1, m) else (0, m(k := None)))"

lemma kv_find_map: "kv_find kv k = None \<longleftrightarrow> kv_map kv k = None"
  by (simp add: kv_map_def)

lemma kv_update_frame [simp, frame_rules]:
  "kv_cap (kv_update kv k v) = kv_cap kv" "kv_fs (kv_update kv k v) = kv_fs kv"
  by (simp_all add: kv_update_def kv_store_def Let_def split: option.splits)

lemma kv_update_map:
  assumes "kv_wf kv" "length k \<le> CMQ_KV_KEY_MAX" "kv_find kv k \<noteq> None \<or> kv_free_slot kv \<noteq> None"
  shows "kv_wf (kv_update kv k v) \<and> kv_map (kv_update kv k v) = (if v = [] then (kv_map kv)(k := None) else (kv_map kv)(k \<mapsto> v))"
proof (cases "v = []")
  case True
  show ?thesis
  proof (cases "kv_find kv k")
    case None
    then have "kv_update kv k v = kv" "(kv_map kv)(k := None) = kv_map kv"
      using True by (auto simp: kv_update_def kv_map_def)
    then show ?thesis using assms(1) True by simp
  qed (use True kv_delete [OF assms(1)] in auto)
qed (use kv_insert [OF assms(1)] assms in auto)

lemma kv_wf_fs [simp]: "kv_wf (kv\<lparr>kv_fs := x\<rparr>) = kv_wf kv" "kv_map (kv\<lparr>kv_fs := x\<rparr>) = kv_map kv"
  "kv_find (kv\<lparr>kv_fs := x\<rparr>) = kv_find kv" "kv_free_slot (kv\<lparr>kv_fs := x\<rparr>) = kv_free_slot kv"
  by (simp_all add: kv_wf_def kv_map_def kv_find_def kv_free_slot_def fun_eq_iff)

lemma kv_put_refines:
  assumes "kv_wf kv" "kv_fs kv = None"
  shows "\<exists>kv'. cmq_kv_put h io env kv (Some k) v = (fst (map_put (kv_cap kv) (kv_map kv) k v), kv') \<and>
    kv_wf kv' \<and> kv_fs kv' = None \<and> kv_cap kv' = kv_cap kv \<and> kv_map kv' = snd (map_put (kv_cap kv) (kv_map kv) k v)"
  using assms kv_update_map [OF assms(1), of k v] kv_full [OF assms(1)]
  by (auto simp: cmq_kv_put_def map_put_def kv_persist_def kv_find_map kv_key_safe_iff)

lemma kv_del_refines:
  assumes "kv_wf kv" "kv_fs kv = None"
  shows "\<exists>kv'. cmq_kv_del h io env kv (Some k) = (fst (map_del (kv_map kv) k), kv') \<and>
    kv_wf kv' \<and> kv_fs kv' = None \<and> kv_cap kv' = kv_cap kv \<and> kv_map kv' = snd (map_del (kv_map kv) k)"
proof (cases "kv_find kv k")
  case None
  then show ?thesis using assms kv_find_map [of kv k] by (auto simp: cmq_kv_del_def map_del_def)
next
  case (Some i)
  then show ?thesis
    using assms kv_find_map [of kv k] kv_update_map [OF assms(1), of k "[]"]
    by (auto simp: cmq_kv_del_def map_del_def kv_persist_def kv_key_safe_iff)
qed

lemma kv_get_refines:
  assumes "kv_wf kv"
  shows "cmq_kv_get kv (Some k) n = map_get (kv_map kv) k n"
  using assms kv_find_Some [of kv k]
  by (auto simp: cmq_kv_get_def map_get_def kv_map_def kv_wf_def split: option.splits)

lemma kv_create_empty:
  assumes "cmq_kv_create h n = Some kv"
  shows "kv_wf kv" "kv_map kv = Map.empty" "kv_fs kv = None" "kv_cap kv = (if n = 0 then 256 else n)" "\<not> kv_overrun kv"
proof -
  have kv: "kv_slots kv = replicate (kv_cap kv) kv_slot_zero" "kv_count kv = 0" "kv_fs kv = None" "\<not> kv_overrun kv"
    "kv_cap kv = (if n = 0 then 256 else n)"
    using assms by (auto simp: cmq_kv_create_def Let_def CMQ_KV_SLOTS_MAX_def split: if_splits prod.splits bool.splits)
  then show "kv_wf kv" by (simp add: kv_wf_def kv_slot_zero_def)
  show "kv_map kv = Map.empty"
    using kv(1) kv_find_None [of kv] by (auto simp: fun_eq_iff kv_map_def kv_slot_zero_def)
  show "kv_fs kv = None" "kv_cap kv = (if n = 0 then 256 else n)" "\<not> kv_overrun kv" using kv by simp_all
qed


text \<open>The operations of a client and their answers.\<close>

datatype kv_op = Kv_put fs_io fs_env string bytes | Kv_del fs_io fs_env string | Kv_get string nat | Kv_count

datatype kv_answer = KA_rc int | KA_get "int \<times> bytes option" | KA_count nat

fun kv_exec :: "kv \<Rightarrow> kv_op \<Rightarrow> kv_answer \<times> kv" where
  "kv_exec kv (Kv_put io env k v) = (case cmq_kv_put [] io env kv (Some k) v of (rc, kv) \<Rightarrow> (KA_rc rc, kv))"
| "kv_exec kv (Kv_del io env k) = (case cmq_kv_del [] io env kv (Some k) of (rc, kv) \<Rightarrow> (KA_rc rc, kv))"
| "kv_exec kv (Kv_get k n) = (KA_get (cmq_kv_get kv (Some k) n), kv)"
| "kv_exec kv Kv_count = (KA_count (cmq_kv_count kv), kv)"

text \<open>The same on a map; a log behind the table, \<open>logged\<close>, makes a change fail when its write fails.\<close>

definition refused :: "bool \<Rightarrow> fs_io \<Rightarrow> int \<times> (string \<rightharpoonup> bytes) \<Rightarrow> (string \<rightharpoonup> bytes) \<Rightarrow> kv_answer \<times> (string \<rightharpoonup> bytes)" where
  "refused logged io r m =
     (if fst r = 0 \<and> logged \<and> io \<noteq> Io_ok then (KA_rc (- 1), m) else (KA_rc (fst r), snd r))"

fun map_exec :: "bool \<Rightarrow> nat \<Rightarrow> (string \<rightharpoonup> bytes) \<Rightarrow> kv_op \<Rightarrow> kv_answer \<times> (string \<rightharpoonup> bytes)" where
  "map_exec logged cap m (Kv_put io env k v) = refused logged io (map_put cap m k v) m"
| "map_exec logged cap m (Kv_del io env k) = refused logged io (map_del m k) m"
| "map_exec logged cap m (Kv_get k n) = (KA_get (map_get m k n), m)"
| "map_exec logged cap m Kv_count = (KA_count (card (dom m)), m)"

lemma kv_exec_refines:
  assumes "kv_wf kv" "kv_fs kv = None"
  shows "\<exists>kv'. kv_exec kv p = (fst (map_exec False (kv_cap kv) (kv_map kv) p), kv') \<and>
    kv_wf kv' \<and> kv_fs kv' = None \<and> kv_cap kv' = kv_cap kv \<and> kv_map kv' = snd (map_exec False (kv_cap kv) (kv_map kv) p)"
proof (cases p)
  case (Kv_put io env k v)
  then show ?thesis using kv_put_refines [OF assms, of "[]" io env k v] by (auto simp: refused_def)
next
  case (Kv_del io env k)
  then show ?thesis using kv_del_refines [OF assms, of "[]" io env k] by (auto simp: refused_def)
next
  case (Kv_get k n)
  then show ?thesis using assms kv_get_refines [OF assms(1)] by simp
next
  case Kv_count
  then show ?thesis using assms kv_count_card [OF assms(1)] by (simp add: cmq_kv_count_def)
qed

lemma kv_run_refines:
  assumes "kv_wf kv" "kv_fs kv = None"
  shows "\<exists>kv'. run_ops kv_exec kv ps = (fst (run_ops (map_exec False (kv_cap kv)) (kv_map kv) ps), kv') \<and>
    kv_wf kv' \<and> kv_map kv' = snd (run_ops (map_exec False (kv_cap kv)) (kv_map kv) ps)"
  using assms
proof (induction ps arbitrary: kv)
  case (Cons p ps)
  obtain kv1 where 1: "kv_exec kv p = (fst (map_exec False (kv_cap kv) (kv_map kv) p), kv1)" "kv_wf kv1" "kv_fs kv1 = None"
    "kv_cap kv1 = kv_cap kv" "kv_map kv1 = snd (map_exec False (kv_cap kv) (kv_map kv) p)"
    using kv_exec_refines [OF Cons.prems] by blast
  with Cons.IH [OF 1(2,3)] show ?case by (auto simp: case_prod_unfold)
qed simp




section \<open>Durability\<close>

text \<open>The record the log gets for a change.\<close>

definition kv_record :: "string \<Rightarrow> bytes \<Rightarrow> bytes" where
  "kv_record k v = CMQ_FS_KEY_MAGIC @ put_le16 (of_nat (length k)) @ map byte_of k @ v"

lemma kv_replay_kv_record:
  assumes "kv_key_safe (Some k)" "length k < 256" "length v \<le> CMQ_KV_VAL_MAX"
  shows "kv_replay_record kv (kv_record k v) = kv_update kv k v"
proof -
  have k: "0 < length k" "list_all token_char k" using assms(1) by (auto simp: kv_key_safe_iff)
  then have "cmq_filestore_key_decode (Some (kv_record k v)) = Some (map byte_of k, v)"
    using key_decode_encoded [of "map byte_of k" v] assms(2) by (simp add: kv_record_def)
  then show ?thesis
    using assms k by (simp add: kv_replay_record_def cstr_of_key CMQ_KV_KEY_MAX_def)
qed

lemma kv_update_fs: "kv_update (kv\<lparr>kv_fs := x\<rparr>) k v = (kv_update kv k v)\<lparr>kv_fs := x\<rparr>"
  by (simp add: kv_update_def kv_store_def Let_def split: option.splits)

lemma kv_replay_fs: "kv_replay_record (kv\<lparr>kv_fs := x\<rparr>) d = (kv_replay_record kv d)\<lparr>kv_fs := x\<rparr>"
  by (simp add: kv_replay_record_def kv_update_fs split: option.splits)

lemma kv_replays_fs: "foldl kv_replay_record (kv\<lparr>kv_fs := x\<rparr>) ds = (foldl kv_replay_record kv ds)\<lparr>kv_fs := x\<rparr>"
  by (induction ds arbitrary: kv) (simp_all add: kv_replay_fs)

text \<open>The table is what replaying its log on the empty table gives.\<close>

definition kv_synced :: "kv \<Rightarrow> bytes list \<Rightarrow> kv \<Rightarrow> bool" where
  "kv_synced kv0 rs kv \<longleftrightarrow> (\<exists>fs. fs_inv rs fs \<and> kv = (foldl kv_replay_record kv0 rs)\<lparr>kv_fs := Some fs\<rparr>)"

lemma kv_record_size: "length (kv_record k v) = 6 + length k + length v"
  by (simp add: kv_record_def CMQ_FS_KEY_MAGIC_def)

lemma kv_persist_synced:
  assumes "kv_synced kv0 rs kv" "kv_key_safe (Some k)" "length k < 256" "length v \<le> CMQ_KV_VAL_MAX"
    and "io = Io_ok \<or> rolled_back io" "log_off rs (length rs) + 1308 < 2 ^ 63"
  shows "\<exists>fs. kv_persist [] io env kv k v = (if io = Io_ok then 0 else - 1, kv\<lparr>kv_fs := Some fs\<rparr>) \<and>
    fs_inv (if io = Io_ok then rs @ [kv_record k v] else rs) fs"
proof -
  obtain fs where fs: "fs_inv rs fs" "kv_fs kv = Some fs" using assms(1) by (auto simp: kv_synced_def)
  have k: "0 < length k" using assms(2) by (auto simp: kv_key_safe_iff)
  have enc: "cmq_filestore_key_encode (6 + CMQ_KV_KEY_MAX + CMQ_KV_VAL_MAX)
      (Some (map byte_of (take (strnlen k CMQ_KV_KEY_MAX) k))) v = Some (kv_record k v)"
    using assms(3,4) k
    by (simp add: key_encode_some kv_record_def strnlen_def CMQ_KV_KEY_MAX_def CMQ_KV_VAL_MAX_def)
  have b: "6 + length k + length v < 1308 - 22" using assms(3,4) by (simp add: CMQ_KV_VAL_MAX_def)
  have "log_ok rs" using fs(1) by (simp add: fs_inv_def fs_holds_def)
  then have ok: "log_ok (rs @ [kv_record k v])"
    using b assms(6) by (simp add: log_ok_snoc kv_record_size FS_PAYLOAD_MAX_def)
  have "\<exists>fs' seq. cmq_filestore_append [] io env fs (Some (kv_record k v)) = ((if io = Io_ok then 0 else - 1, seq), fs') \<and>
      fs_inv (if io = Io_ok then rs @ [kv_record k v] else rs) fs'"
    using append_holds [of rs fs "kv_record k v" "[]" env] append_rolled_back [of rs fs io "[]" env "Some (kv_record k v)"]
      fs(1) ok assms(5) by (cases "io = Io_ok") (auto simp: fs_inv_def)
  then show ?thesis using fs(2) by (auto simp: kv_persist_def enc)
qed

lemma kv_synced_step:
  assumes "kv_synced kv0 rs kv" "kv_key_safe (Some k)" "length k < 256" "length v \<le> CMQ_KV_VAL_MAX"
    and "fs_inv (rs @ [kv_record k v]) fs"
  shows "kv_synced kv0 (rs @ [kv_record k v]) (kv_update (kv\<lparr>kv_fs := Some fs\<rparr>) k v)"
proof -
  obtain fs0 where "kv = (foldl kv_replay_record kv0 rs)\<lparr>kv_fs := Some fs0\<rparr>" using assms(1) by (auto simp: kv_synced_def)
  then have "kv_update (kv\<lparr>kv_fs := Some fs\<rparr>) k v = (foldl kv_replay_record kv0 (rs @ [kv_record k v]))\<lparr>kv_fs := Some fs\<rparr>"
    using kv_replay_kv_record [OF assms(2-4)] by (simp add: kv_update_fs)
  then show ?thesis using assms(5) by (auto simp: kv_synced_def)
qed

lemma kv_synced_same: "kv_synced kv0 rs kv \<Longrightarrow> fs_inv rs fs \<Longrightarrow> kv_synced kv0 rs (kv\<lparr>kv_fs := Some fs\<rparr>)"
  by (auto simp: kv_synced_def)

fun kv_op_clean :: "kv_op \<Rightarrow> bool" where
  "kv_op_clean (Kv_put io env k v) \<longleftrightarrow> length k < 256 \<and> (io = Io_ok \<or> rolled_back io)"
| "kv_op_clean (Kv_del io env k) \<longleftrightarrow> length k < 256 \<and> (io = Io_ok \<or> rolled_back io)"
| "kv_op_clean _ \<longleftrightarrow> True"


lemma kv_change_synced:
  assumes "kv_synced kv0 rs kv" "kv_wf kv" "kv_key_safe (Some k)" "length k < 256" "length v \<le> CMQ_KV_VAL_MAX"
    and "io = Io_ok \<or> rolled_back io" "log_off rs (length rs) + 1308 < 2 ^ 63" "kv_find kv k \<noteq> None \<or> kv_free_slot kv \<noteq> None"
  shows "\<exists>kv' rs'. (case kv_persist [] io env kv k v of (rc, kv) \<Rightarrow> if rc \<noteq> 0 then (- 1, kv) else (0, kv_update kv k v)) =
      (if io = Io_ok then 0 else - 1 :: int, kv') \<and>
    kv_map kv' = (if io = Io_ok then if v = [] then (kv_map kv)(k := None) else (kv_map kv)(k \<mapsto> v) else kv_map kv) \<and>
    kv_wf kv' \<and> kv_cap kv' = kv_cap kv \<and> kv_synced kv0 rs' kv' \<and> log_off rs' (length rs') \<le> log_off rs (length rs) + 1308"
proof -
  obtain fs where p: "kv_persist [] io env kv k v = (if io = Io_ok then 0 else - 1, kv\<lparr>kv_fs := Some fs\<rparr>)"
    "fs_inv (if io = Io_ok then rs @ [kv_record k v] else rs) fs"
    using kv_persist_synced [OF assms(1,3-7)] by blast
  show ?thesis
  proof (cases "io = Io_ok")
    case True
    have s: "kv_synced kv0 (rs @ [kv_record k v]) (kv_update (kv\<lparr>kv_fs := Some fs\<rparr>) k v)"
      using kv_synced_step [OF assms(1,3-5)] p(2) True by simp
    have sz: "log_off (rs @ [kv_record k v]) (length (rs @ [kv_record k v])) \<le> log_off rs (length rs) + 1308"
      using assms(4,5) by (simp add: log_off_Suc log_off_append kv_record_size CMQ_KV_VAL_MAX_def)
    have "kv_wf (kv_update (kv\<lparr>kv_fs := Some fs\<rparr>) k v) \<and>
        kv_map (kv_update (kv\<lparr>kv_fs := Some fs\<rparr>) k v) = (if v = [] then (kv_map kv)(k := None) else (kv_map kv)(k \<mapsto> v))"
      using kv_update_map [of "kv\<lparr>kv_fs := Some fs\<rparr>" k v] assms(2,4,8) by (simp add: CMQ_KV_KEY_MAX_def)
    with s sz True p(1) show ?thesis
      by (auto simp del: kv_wf_fs intro!: exI [of _ "rs @ [kv_record k v]"])
  next
    case False
    then show ?thesis using p assms kv_synced_same [OF assms(1)] by (auto intro!: exI [of _ rs])
  qed
qed

lemma kv_exec_synced:
  assumes "kv_synced kv0 rs kv" "kv_wf kv" "kv_op_clean p" "log_off rs (length rs) + 1308 < 2 ^ 63"
  shows "\<exists>kv' rs'. kv_exec kv p = (fst (map_exec True (kv_cap kv) (kv_map kv) p), kv') \<and>
    kv_map kv' = snd (map_exec True (kv_cap kv) (kv_map kv) p) \<and>
    kv_wf kv' \<and> kv_cap kv' = kv_cap kv \<and> kv_synced kv0 rs' kv' \<and> log_off rs' (length rs') \<le> log_off rs (length rs) + 1308"
proof (cases p)
  case (Kv_put io env k v)
  have clean: "length k < 256" "io = Io_ok \<or> rolled_back io" using assms(3) Kv_put by auto
  show ?thesis
  proof (cases "kv_key_safe (Some k) \<and> length v \<le> CMQ_KV_VAL_MAX \<and> (kv_find kv k \<noteq> None \<or> kv_free_slot kv \<noteq> None)")
    case True
    then have spec: "map_put (kv_cap kv) (kv_map kv) k v = (0, if v = [] then (kv_map kv)(k := None) else (kv_map kv)(k \<mapsto> v))"
      using kv_full [OF assms(2)] kv_find_map [of kv k] by (auto simp: map_put_def)
    have put: "cmq_kv_put [] io env kv (Some k) v =
        (case kv_persist [] io env kv k v of (rc, kv) \<Rightarrow> if rc \<noteq> 0 then (- 1, kv) else (0, kv_update kv k v))"
      unfolding cmq_kv_put_def option.sel using True by auto
    show ?thesis
      using kv_change_synced [OF assms(1,2) _ clean(1) _ clean(2) assms(4), of v env] True
      unfolding Kv_put kv_exec.simps map_exec.simps put spec refused_def
      by (cases "io = Io_ok") (auto simp del: fun_upd_apply)
  next
    case False
    then have "cmq_kv_put [] io env kv (Some k) v = (fst (map_put (kv_cap kv) (kv_map kv) k v), kv)"
      "snd (map_put (kv_cap kv) (kv_map kv) k v) = kv_map kv" "fst (map_put (kv_cap kv) (kv_map kv) k v) \<noteq> 0"
      using kv_full [OF assms(2)] kv_find_map [of kv k] by (auto simp: cmq_kv_put_def map_put_def)
    then show ?thesis using assms by (auto simp: Kv_put refused_def intro!: exI [of _ rs])
  qed
next
  case (Kv_del io env k)
  have clean: "length k < 256" "io = Io_ok \<or> rolled_back io" using assms(3) Kv_del by auto
  show ?thesis
  proof (cases "kv_key_safe (Some k) \<and> kv_find kv k \<noteq> None")
    case True
    then have spec: "map_del (kv_map kv) k = (0, (kv_map kv)(k := None))"
      using kv_find_map [of kv k] by (auto simp: map_del_def)
    have del: "cmq_kv_del [] io env kv (Some k) =
        (case kv_persist [] io env kv k [] of (rc, kv) \<Rightarrow> if rc \<noteq> 0 then (- 1, kv) else (0, kv_update kv k []))"
      unfolding cmq_kv_del_def option.sel using True by auto
    show ?thesis
      using kv_change_synced [OF assms(1,2) _ clean(1) _ clean(2) assms(4), of "[]" env] True
      unfolding Kv_del kv_exec.simps map_exec.simps del spec refused_def
      by (cases "io = Io_ok") (auto simp del: fun_upd_apply)
  next
    case False
    then have "cmq_kv_del [] io env kv (Some k) = (- 1, kv)" "map_del (kv_map kv) k = (- 1, kv_map kv)"
      using kv_find_map [of kv k] by (auto simp: cmq_kv_del_def map_del_def)
    then show ?thesis using assms by (auto simp: Kv_del refused_def intro!: exI [of _ rs])
  qed
next
  case (Kv_get k n)
  then show ?thesis using assms kv_get_refines [OF assms(2)] by (auto intro!: exI [of _ rs])
next
  case Kv_count
  then show ?thesis using assms kv_count_card [OF assms(2)] by (auto simp: cmq_kv_count_def intro!: exI [of _ rs])
qed

lemma kv_run_synced:
  assumes "kv_synced kv0 rs kv" "kv_wf kv" "list_all kv_op_clean ps" "log_off rs (length rs) + 1308 * length ps < 2 ^ 63"
  shows "\<exists>kv' rs'. run_ops kv_exec kv ps = (fst (run_ops (map_exec True (kv_cap kv)) (kv_map kv) ps), kv') \<and>
    kv_map kv' = snd (run_ops (map_exec True (kv_cap kv)) (kv_map kv) ps) \<and> kv_synced kv0 rs' kv'"
  using assms
proof (induction ps arbitrary: rs kv)
  case (Cons p ps)
  have fit: "log_off rs (length rs) + 1308 < 2 ^ 63" and clean: "kv_op_clean p" "list_all kv_op_clean ps"
    using Cons.prems(3,4) by auto
  obtain kv1 rs1 where 1: "kv_exec kv p = (fst (map_exec True (kv_cap kv) (kv_map kv) p), kv1)"
    "kv_map kv1 = snd (map_exec True (kv_cap kv) (kv_map kv) p)" "kv_wf kv1" "kv_cap kv1 = kv_cap kv"
    "kv_synced kv0 rs1 kv1" "log_off rs1 (length rs1) \<le> log_off rs (length rs) + 1308"
    using kv_exec_synced [OF Cons.prems(1,2) clean(1) fit] by blast
  have "log_off rs1 (length rs1) + 1308 * length ps < 2 ^ 63" using 1(6) Cons.prems(4) by simp
  from Cons.IH [OF 1(5,3) clean(2) this] 1(1,2,4) show ?case by (auto simp: case_prod_unfold)
qed auto

lemma kv_persist_opens:
  assumes "dir_safe (Some dir)" "prefix_safe (Some prefix)" "log_ok rs" "kv_fs kv0 = None"
  shows "\<exists>kv. cmq_kv_set_persist [] (log_data rs, log_idx rs, a) kv0 (Some dir) (Some prefix) = (0, kv) \<and> kv_synced kv0 rs kv"
proof -
  obtain fs where fs: "cmq_filestore_create [] (Some dir) (Some prefix) (log_data rs, log_idx rs, a) = Some fs"
    "fs_opened rs fs" "data_end_off fs = 0"
    using create_holds [OF assms(1-3), of a] by (auto simp: fs_opened_def)
  obtain fs1 where 1: "cmq_filestore_last_seq fs = (length rs, fs1)" "fs_opened rs fs1" "data_end_off fs1 = 0"
    using last_seq_opened [OF fs(2)] fs(3) by auto
  have "\<exists>fs2. log_replay (cmq_filestore_read []) kv_replay_record (kv0\<lparr>kv_fs := Some fs\<rparr>) fs1 1 (length rs) =
      (foldl kv_replay_record (kv0\<lparr>kv_fs := Some fs\<rparr>) rs, fs2) \<and> (if rs = [] then fs2 = fs1 else fs_inv rs fs2)"
    by (rule fsl.replay_all [OF 1(2)])
  then obtain fs2 where 2: "log_replay (cmq_filestore_read []) kv_replay_record (kv0\<lparr>kv_fs := Some fs\<rparr>) fs1 1 (length rs) =
      (foldl kv_replay_record (kv0\<lparr>kv_fs := Some fs\<rparr>) rs, fs2)" "if rs = [] then fs2 = fs1 else fs_inv rs fs2" by blast
  have "fs_inv rs fs2"
    using 2(2) 1(2,3) by (cases "rs = []") (auto simp: fs_inv_def fs_opened_def fs_coherent_def fs_holds_def)
  moreover have "prefix \<noteq> []" using assms(2) by (auto simp: prefix_safe_def)
  ultimately show ?thesis
    using assms(4) fs(1) 1(1) 2(1)
    by (auto simp: cmq_kv_set_persist_def kv_replay_def kv_synced_def kv_replays_fs)
qed

text \<open>
  C8. Durability of a table behind a log: a new table is attached to an empty log and used for any sequence of
  puts, deletions and lookups with keys below 256 characters, in which any write to the log may fail as long as it
  can be undone. Every answer is that of the bounded map in which a change whose write fails answers -1 and
  changes nothing; and a new table attached later to the files that were left holds the very
  same map, so every acknowledged change survives and no refused one appears.
\<close>

theorem kv_durable:
  assumes "dir_safe (Some dir)" "prefix_safe (Some prefix)" "cmq_kv_create [] n = Some kv0"
    and "list_all kv_op_clean ps" "1308 * length ps < 2 ^ 63"
  shows "\<exists>kv kv' kv''.
    cmq_kv_set_persist [] ([], [], archives) kv0 (Some dir) (Some prefix) = (0, kv) \<and>
    run_ops kv_exec kv ps = (fst (run_ops (map_exec True (kv_cap kv0)) Map.empty ps), kv') \<and>
    kv_map kv' = snd (run_ops (map_exec True (kv_cap kv0)) Map.empty ps) \<and>
    cmq_kv_set_persist [] (the (cmq_kv_destroy kv')) kv0 (Some dir) (Some prefix) = (0, kv'') \<and>
    kv_map kv'' = kv_map kv'"
proof -
  note new = kv_create_empty [OF assms(3)]
  obtain kv where kv: "cmq_kv_set_persist [] ([], [], archives) kv0 (Some dir) (Some prefix) = (0, kv)" "kv_synced kv0 [] kv"
    using kv_persist_opens [OF assms(1,2) log_ok_nil new(3), of archives] by auto
  then have start: "kv_wf kv" "kv_map kv = Map.empty" "kv_cap kv = kv_cap kv0"
    using new by (auto simp: kv_synced_def)
  obtain kv' rs where run: "run_ops kv_exec kv ps = (fst (run_ops (map_exec True (kv_cap kv0)) Map.empty ps), kv')"
    "kv_map kv' = snd (run_ops (map_exec True (kv_cap kv0)) Map.empty ps)" "kv_synced kv0 rs kv'"
    using kv_run_synced [OF kv(2) start(1) assms(4)] assms(5) start(2,3) by auto
  then obtain fs where fs: "fs_inv rs fs" "kv' = (foldl kv_replay_record kv0 rs)\<lparr>kv_fs := Some fs\<rparr>" by (auto simp: kv_synced_def)
  then have "the (cmq_kv_destroy kv') = (log_data rs, log_idx rs, fs_data1 fs, fs_idx1 fs)" "log_ok rs"
    by (auto simp: cmq_kv_destroy_def cmq_filestore_destroy_def fs_inv_def fs_holds_def)
  then obtain kv'' where "cmq_kv_set_persist [] (the (cmq_kv_destroy kv')) kv0 (Some dir) (Some prefix) = (0, kv'')" "kv_synced kv0 rs kv''"
    using kv_persist_opens [OF assms(1,2) _ new(3)] by metis
  moreover from this(2) fs(2) have "kv_map kv'' = kv_map kv'" by (auto simp: kv_synced_def)
  ultimately show ?thesis using kv(1) run(1,2) by blast
qed


theorem kv_durable_witness:
  "\<exists>kv0 kv kv' kv''. cmq_kv_create [] 4 = Some kv0 \<and>
    cmq_kv_set_persist [] ([], [], None, None) kv0 (Some ''/var/cmq'') (Some ''cmq'') = (0, kv) \<and>
    run_ops kv_exec kv [Kv_put Io_ok calm_env ''a'' [1], Kv_put (Io_data_fails 3 True) calm_env ''b'' [2]] =
      ([KA_rc 0, KA_rc (- 1)], kv') \<and>
    cmq_kv_set_persist [] (the (cmq_kv_destroy kv')) kv0 (Some ''/var/cmq'') (Some ''cmq'') = (0, kv'') \<and>
    kv_map kv'' = [''a'' \<mapsto> [1]]"
proof -
  define ps where "ps = [Kv_put Io_ok calm_env ''a'' [1], Kv_put (Io_data_fails 3 True) calm_env ''b'' [2]]"
  obtain kv0 where kv0: "cmq_kv_create [] 4 = Some kv0" by (simp add: cmq_kv_create_def CMQ_KV_SLOTS_MAX_def)
  have safe: "kv_key_safe (Some ''a'')" "kv_key_safe (Some ''b'')"
    by (simp_all add: kv_key_safe_iff CMQ_KV_KEY_MAX_def token_char_def name_char_def byte_of_def)
  have run: "run_ops (map_exec True (kv_cap kv0)) Map.empty ps = ([KA_rc 0, KA_rc (- 1)], [''a'' \<mapsto> [1]])"
    using kv_create_empty(4) [OF kv0] safe by (simp add: ps_def map_put_def refused_def CMQ_KV_VAL_MAX_def)
  have "list_all kv_op_clean ps" "1308 * length ps < 2 ^ 63" by (simp_all add: ps_def rolled_back_def)
  from kv_durable [OF dir_prefix_example kv0 this, of "(None, None)"] run kv0 show ?thesis
    unfolding ps_def by auto
qed

text \<open>
  The check of keys accepts 256 characters, one more than the buffer of a slot has room for besides the terminator:
  storing such a key writes past the buffer. A replay skips keys of that length, so such a key, when its
  table has a log, is also lost by a restart.
\<close>

lemma kv_key_overrun:
  assumes "list_all token_char k" "length k = 256" "kv_wf kv" "kv_fs kv = None" "0 < kv_cap kv" "kv_map kv = Map.empty"
  shows "\<exists>kv'. cmq_kv_put h io env kv (Some k) [1] = (0, kv') \<and> kv_overrun kv'"
    and "kv_replay_record kv'' (kv_record k [1]) = kv''"
proof -
  have safe: "kv_key_safe (Some k)" using assms(1,2) by (auto simp: kv_key_safe_iff CMQ_KV_KEY_MAX_def)
  have none: "kv_find kv k = None" using assms(6) kv_find_map [of kv k] by simp
  obtain i where i: "kv_free_slot kv = Some i" using kv_full [OF assms(3)] assms(5,6) by (cases "kv_free_slot kv") auto
  show "\<exists>kv'. cmq_kv_put h io env kv (Some k) [1] = (0, kv') \<and> kv_overrun kv'"
    using assms(2,4) by (simp add: cmq_kv_put_def safe none i kv_persist_def kv_update_def kv_store_def strnlen_def
        CMQ_KV_VAL_MAX_def CMQ_KV_KEY_MAX_def Let_def)
  show "kv_replay_record kv'' (kv_record k [1]) = kv''"
    using key_decode_encoded [of "map byte_of k" "[1]"] assms(2)
    by (simp add: kv_replay_record_def kv_record_def CMQ_KV_KEY_MAX_def)
qed

lemma kv_no_overrun: "length k < 256 \<Longrightarrow> kv_overrun (kv_update kv k v) = kv_overrun kv"
  by (simp add: kv_update_def kv_store_def strnlen_def CMQ_KV_KEY_MAX_def Let_def split: option.splits)

end
