(* ===== verification/CMQ_Kvb.thy ===== *)
theory CMQ_Kvb
  imports CMQ_Kv
begin

text \<open>
  Buckets of key-value tables behind subjects \<^verbatim>\<open>$KV.<bucket>.<key>\<close> (\<^verbatim>\<open>src/store/cmq_kvb.c\<close>). \<open>disk\<close> gives the files the
  persistence directory has under a prefix.
\<close>

section \<open>Model\<close>

definition CMQ_KVB_PREFIX :: string where "CMQ_KVB_PREFIX = ''$KV.''"
definition CMQ_KVB_BUCKET_MAX :: nat where "CMQ_KVB_BUCKET_MAX = 32"
definition CMQ_KVB_MAX :: nat where "CMQ_KVB_MAX = 8"

record kvb_slot =
  kvb_name :: string
  kvb_kv :: kv

text \<open>The slots in use, in order; \<^verbatim>\<open>n\<close> is their number.\<close>

record kvb =
  kvb_slots :: "kvb_slot list"
  kvb_persist_dir :: string

definition bucket_ok :: "string \<Rightarrow> bool" where
  "bucket_ok s \<longleftrightarrow> \<not> (length s = 0 \<or> length s \<ge> CMQ_KVB_BUCKET_MAX) \<and> list_all name_char s"

text \<open>
  The answer and the bucket and key copied out; a capacity of 0 stands for a null buffer.
\<close>

definition cmq_kvb_parse :: "string option \<Rightarrow> nat \<Rightarrow> nat \<Rightarrow> int \<times> string option \<times> string option" where
  "cmq_kvb_parse subject bcap kcap =
     (case subject of
        None \<Rightarrow> (- 1, None, None)
      | Some s \<Rightarrow>
          if s = [] \<or> hd s \<noteq> CHR ''$'' then (- 1, None, None)
          else if \<not> strncmp_eq 4 s CMQ_KVB_PREFIX then (- 1, None, None)
          else
            (let rest = drop 4 s;
                 blen = length (takeWhile (\<lambda>c. c \<noteq> CHR ''.'') rest)
             in if rest = [] then (- 2, None, None)
                else if blen = length rest \<or> drop (blen + 1) rest = [] then (- 2, None, None)
                else if \<not> bucket_ok (take blen rest) then (- 2, None, None)
                else
                  (let key = drop (blen + 1) rest;
                       klen = length key
                   in if klen = 0 \<or> klen \<ge> CMQ_KV_KEY_MAX then (- 2, None, None)
                      else if bcap \<noteq> 0 \<and> blen \<ge> bcap then (- 2, None, None)
                      else if kcap \<noteq> 0 \<and> klen \<ge> kcap then (- 2, if bcap \<noteq> 0 then Some (take blen rest) else None, None)
                      else (0, if bcap \<noteq> 0 then Some (take blen rest) else None, if kcap \<noteq> 0 then Some key else None))))"

definition cmq_kvb_create :: "heap \<Rightarrow> kvb option" where
  "cmq_kvb_create h = (if fst (malloc_ok h) then Some \<lparr>kvb_slots = [], kvb_persist_dir = []\<rparr> else None)"

definition cmq_kvb_reload_attach :: "heap \<Rightarrow> kvb option \<Rightarrow> int \<times> kvb option" where
  "cmq_kvb_reload_attach h b =
     (if b \<noteq> None then (0, b)
      else case cmq_kvb_create h of None \<Rightarrow> (- 1, b) | Some n \<Rightarrow> (0, Some n))"

definition cmq_kvb_destroy :: "kvb \<Rightarrow> fs_disk option list" where
  "cmq_kvb_destroy b = map (\<lambda>s. cmq_kv_destroy (kvb_kv s)) (kvb_slots b)"

definition kvb_dir_safe :: "string option \<Rightarrow> bool" where
  "kvb_dir_safe dir = (case dir of None \<Rightarrow> False | Some d \<Rightarrow> path_ok 256 d)"

text \<open>\<^verbatim>\<open>snprintf(prefix, 48, "kv_%s", name)\<close>; a bucket name has fewer than 32 characters.\<close>

definition kvb_prefix :: "string \<Rightarrow> string" where
  "kvb_prefix name = take 47 (''kv_'' @ name)"

definition cmq_kvb_set_persist :: "heap \<Rightarrow> (string \<Rightarrow> fs_disk) \<Rightarrow> kvb \<Rightarrow> string option \<Rightarrow> int \<times> kvb" where
  "cmq_kvb_set_persist h disk b dir =
     (case dir of
        None \<Rightarrow> (- 1, b)
      | Some d \<Rightarrow>
          if d = [] then (- 1, b)
          else if strnlen d 256 = 0 \<or> strnlen d 256 \<ge> 256 then (- 1, b)
          else
            (let rs = map (\<lambda>s. cmq_kv_set_persist h (disk (kvb_prefix (kvb_name s))) (kvb_kv s) (Some d)
                          (Some (kvb_prefix (kvb_name s)))) (kvb_slots b)
             in (if list_all (\<lambda>r. fst r = 0) rs then 0 else - 1,
                 b\<lparr>kvb_persist_dir := d, kvb_slots := map2 (\<lambda>s r. s\<lparr>kvb_kv := snd r\<rparr>) (kvb_slots b) rs\<rparr>)))"

definition cmq_kvb_reload_attach_persist ::
    "heap \<Rightarrow> (string \<Rightarrow> fs_disk) \<Rightarrow> kvb option \<Rightarrow> string option \<Rightarrow> int \<times> kvb option" where
  "cmq_kvb_reload_attach_persist h disk b dir =
     (case b of
        None \<Rightarrow> (if dir = None \<or> dir = Some [] then 0 else - 1, None)
      | Some b' \<Rightarrow>
          if dir = None \<or> dir = Some [] then (0, b)
          else if kvb_persist_dir b' \<noteq> [] then (0, b)
          else if \<not> kvb_dir_safe dir then (- 1, b)
          else (case cmq_kvb_set_persist h disk b' dir of (rc, b') \<Rightarrow> (rc, Some b')))"

fun kvb_index :: "kvb_slot list \<Rightarrow> string \<Rightarrow> nat option" where
  "kvb_index [] name = None"
| "kvb_index (s # ss) name = (if kvb_name s = name then Some 0 else map_option Suc (kvb_index ss name))"

definition kvb_get_or_create :: "heap \<Rightarrow> (string \<Rightarrow> fs_disk) \<Rightarrow> kvb \<Rightarrow> string \<Rightarrow> nat option \<times> kvb" where
  "kvb_get_or_create h disk b bucket =
     (case kvb_index (kvb_slots b) bucket of
        Some i \<Rightarrow> (Some i, b)
      | None \<Rightarrow>
          if length (kvb_slots b) \<ge> CMQ_KVB_MAX then (None, b)
          else case cmq_kv_create h 0 of
            None \<Rightarrow> (None, b)
          | Some kv \<Rightarrow>
              (let (rc, kv) =
                 (if kvb_persist_dir b \<noteq> [] then
                    cmq_kv_set_persist h (disk (kvb_prefix bucket)) kv (Some (kvb_persist_dir b)) (Some (kvb_prefix bucket))
                  else (0, kv))
               in if rc \<noteq> 0 then (None, b)
                  else (Some (length (kvb_slots b)),
                        b\<lparr>kvb_slots := kvb_slots b @ [\<lparr>kvb_name = take (CMQ_KVB_BUCKET_MAX - 1) bucket, kvb_kv = kv\<rparr>]\<rparr>)))"

definition kvb_set :: "kvb \<Rightarrow> nat \<Rightarrow> kv \<Rightarrow> kvb" where
  "kvb_set b i kv = b\<lparr>kvb_slots := (kvb_slots b)[i := (kvb_slots b ! i)\<lparr>kvb_kv := kv\<rparr>]\<rparr>"

definition cmq_kvb_publish ::
    "heap \<Rightarrow> (string \<Rightarrow> fs_disk) \<Rightarrow> fs_io \<Rightarrow> fs_env \<Rightarrow> kvb \<Rightarrow> string option \<Rightarrow> bytes \<Rightarrow> int \<times> kvb" where
  "cmq_kvb_publish h disk io env b subject val =
     (case cmq_kvb_parse subject CMQ_KVB_BUCKET_MAX CMQ_KV_KEY_MAX of
        (pr, bucket, key) \<Rightarrow>
          if pr = - 1 then (0, b)
          else if pr \<noteq> 0 then (- 1, b)
          else case kvb_get_or_create h disk b (the bucket) of
            (None, b) \<Rightarrow> (- 2, b)
          | (Some i, b) \<Rightarrow>
              if length val = 0 then
                (case cmq_kv_del h io env (kvb_kv (kvb_slots b ! i)) key of (_, kv) \<Rightarrow> (1, kvb_set b i kv))
              else
                (case cmq_kv_put h io env (kvb_kv (kvb_slots b ! i)) key val of
                   (p, kv) \<Rightarrow>
                     (if p = 0 then 1 else if p = - 2 then - 2 else if p = - 3 then - 3 else - 1, kvb_set b i kv)))"

definition cmq_kvb_get :: "kvb \<Rightarrow> string option \<Rightarrow> nat \<Rightarrow> int \<times> bytes option" where
  "cmq_kvb_get b subject out_sz =
     (case cmq_kvb_parse subject CMQ_KVB_BUCKET_MAX CMQ_KV_KEY_MAX of
        (pr, bucket, key) \<Rightarrow>
          if pr \<noteq> 0 then (- 1, None)
          else case kvb_index (kvb_slots b) (the bucket) of
            None \<Rightarrow> (- 1, None)
          | Some i \<Rightarrow> cmq_kv_get (kvb_kv (kvb_slots b ! i)) key out_sz)"

definition cmq_kvb_request :: "kvb option \<Rightarrow> string option \<Rightarrow> nat \<Rightarrow> int \<times> bytes option" where
  "cmq_kvb_request b subject out_sz =
     (if b = None \<or> subject = None then (- 1, None)
      else if fst (cmq_kvb_parse subject 0 0) = - 1 then (- 1, None)
      else if fst (cmq_kvb_parse subject 0 0) \<noteq> 0 then (- 1, None)
      else case cmq_kvb_get (the b) subject out_sz of
        (rc, v) \<Rightarrow> if rc = 0 then (1, v) else (0, None))"

section \<open>Subjects\<close>

definition kvb_subject :: "string \<Rightarrow> string \<Rightarrow> string" where
  "kvb_subject bucket key = CMQ_KVB_PREFIX @ bucket @ CHR ''.'' # key"

lemma bucket_no_dot: "bucket_ok b \<Longrightarrow> CHR ''.'' \<notin> set b"
  by (auto simp: bucket_ok_def list_all_iff name_char_def byte_of_def)

lemma kvb_parse_subject:
  assumes "bucket_ok b" "0 < length k" "length k < 256"
  shows "cmq_kvb_parse (Some (kvb_subject b k)) 32 256 = (0, Some b, Some k)"
proof -
  have "\<forall>c \<in> set b. c \<noteq> CHR ''.''" using bucket_no_dot [OF assms(1)] by auto
  then have "takeWhile (\<lambda>c. c \<noteq> CHR ''.'') (b @ CHR ''.'' # k) = b" by simp
  moreover have "length b < 32" using assms(1) by (auto simp: bucket_ok_def CMQ_KVB_BUCKET_MAX_def)
  ultimately show ?thesis
    using assms by (auto simp: cmq_kvb_parse_def kvb_subject_def CMQ_KVB_PREFIX_def strncmp_eq_def CMQ_KV_KEY_MAX_def Let_def)
qed

lemma kvb_parse_complete:
  assumes "cmq_kvb_parse (Some s) 32 256 = (0, bo, ko)"
  shows "\<exists>b k. bo = Some b \<and> ko = Some k \<and> s = kvb_subject b k \<and> bucket_ok b \<and> 0 < length k \<and> length k < 256"
proof -
  define rest where "rest = drop 4 s"
  define b where "b = takeWhile (\<lambda>c. c \<noteq> CHR ''.'') rest"
  have split: "rest = b @ dropWhile (\<lambda>c. c \<noteq> CHR ''.'') rest" by (simp add: b_def)
  from assms have p: "take 4 s = CMQ_KVB_PREFIX" and nd: "length b \<noteq> length rest" and ok: "bucket_ok (take (length b) rest)"
    and k: "0 < length (drop (length b + 1) rest)" "length (drop (length b + 1) rest) < 256"
    and out: "bo = Some (take (length b) rest)" "ko = Some (drop (length b + 1) rest)"
    by (auto simp: cmq_kvb_parse_def strncmp_eq_def CMQ_KVB_PREFIX_def CMQ_KV_KEY_MAX_def Let_def rest_def b_def split: if_splits)
  have tk: "take (length b) rest = b" by (metis append_eq_conv_conj split)
  have "dropWhile (\<lambda>c. c \<noteq> CHR ''.'') rest \<noteq> []" using nd split by (metis append_Nil2)
  then obtain x r where r: "dropWhile (\<lambda>c. c \<noteq> CHR ''.'') rest = x # r"
    by (cases "dropWhile (\<lambda>c. c \<noteq> CHR ''.'') rest") auto
  then have "x = CHR ''.''" using hd_dropWhile [of "\<lambda>c. c \<noteq> CHR ''.''" rest] by simp
  with r have r: "dropWhile (\<lambda>c. c \<noteq> CHR ''.'') rest = CHR ''.'' # r" by simp
  then have rest: "rest = b @ CHR ''.'' # r" using split by (simp only: r)
  then have dr: "drop (length b + 1) rest = r" by (simp only: drop_append) simp
  have "s = CMQ_KVB_PREFIX @ rest" using p append_take_drop_id [of 4 s] unfolding rest_def by metis
  then have "s = kvb_subject b r" unfolding kvb_subject_def by (simp only: rest)
  then show ?thesis using ok k out unfolding tk dr by auto
qed


section \<open>The buckets as maps\<close>

definition kvb_wf :: "kvb \<Rightarrow> bool" where
  "kvb_wf b \<longleftrightarrow>
     kvb_persist_dir b = [] \<and> distinct (map kvb_name (kvb_slots b)) \<and> length (kvb_slots b) \<le> CMQ_KVB_MAX \<and>
     (\<forall>s \<in> set (kvb_slots b). kv_wf (kvb_kv s) \<and> kv_fs (kvb_kv s) = None \<and> kv_cap (kvb_kv s) = 256 \<and>
        (\<forall>k \<in> dom (kv_map (kvb_kv s)). kv_key_safe (Some k)))"

definition kvb_fun :: "kvb \<Rightarrow> string \<Rightarrow> (string \<rightharpoonup> bytes)" where
  "kvb_fun b bucket =
     (case kvb_index (kvb_slots b) bucket of None \<Rightarrow> Map.empty | Some i \<Rightarrow> kv_map (kvb_kv (kvb_slots b ! i)))"

lemma kvb_index_Some: "kvb_index ss name = Some i \<Longrightarrow> i < length ss \<and> kvb_name (ss ! i) = name"
  by (induction ss name arbitrary: i rule: kvb_index.induct) (auto split: if_splits)

lemma kvb_index_None: "kvb_index ss name = None \<longleftrightarrow> name \<notin> kvb_name ` set ss"
  by (induction ss name rule: kvb_index.induct) auto

lemma kvb_index_eq: "distinct (map kvb_name ss) \<Longrightarrow> i < length ss \<Longrightarrow> kvb_name (ss ! i) = name \<Longrightarrow> kvb_index ss name = Some i"
proof (cases "kvb_index ss name")
  case (Some j)
  assume "distinct (map kvb_name ss)" "i < length ss" "kvb_name (ss ! i) = name"
  moreover from kvb_index_Some [OF Some] have "j < length ss" "kvb_name (ss ! j) = name" by auto
  ultimately show ?thesis using Some by (auto simp: distinct_conv_nth)
qed (auto simp: kvb_index_None)

lemma kvb_get_fun:
  assumes "kvb_wf b" "cmq_kvb_parse (Some s) 32 256 = (pr, bo, ko)"
  shows "cmq_kvb_get b (Some s) n = (if pr \<noteq> 0 then (- 1, None) else map_get (kvb_fun b (the bo)) (the ko) n)"
proof (cases "pr = 0")
  case True
  then obtain k where k: "ko = Some k" using kvb_parse_complete assms(2) by blast
  show ?thesis
  proof (cases "kvb_index (kvb_slots b) (the bo)")
    case None
    then show ?thesis using True assms(2) k
      by (auto simp: cmq_kvb_get_def CMQ_KVB_BUCKET_MAX_def CMQ_KV_KEY_MAX_def kvb_fun_def map_get_def)
  next
    case (Some i)
    then have "kv_wf (kvb_kv (kvb_slots b ! i))"
      using assms(1) kvb_index_Some [OF Some] by (auto simp: kvb_wf_def)
    from kv_get_refines [OF this] show ?thesis using True Some assms(2) k
      by (auto simp: cmq_kvb_get_def CMQ_KVB_BUCKET_MAX_def CMQ_KV_KEY_MAX_def kvb_fun_def)
  qed
qed (use assms(2) in \<open>simp add: cmq_kvb_get_def CMQ_KVB_BUCKET_MAX_def CMQ_KV_KEY_MAX_def\<close>)

lemma kvb_index_append: "kvb_index (ss @ [s]) name =
    (case kvb_index ss name of Some i \<Rightarrow> Some i | None \<Rightarrow> if kvb_name s = name then Some (length ss) else None)"
  by (induction ss name rule: kvb_index.induct) (auto split: option.splits)

lemma kvb_get_or_create_fun:
  assumes "kvb_wf b" "bucket_ok bucket" "kvb_get_or_create h disk b bucket = (r, b1)"
  shows "kvb_wf b1 \<and> kvb_fun b1 = kvb_fun b \<and> (\<forall>i. r = Some i \<longrightarrow> kvb_index (kvb_slots b1) bucket = Some i) \<and> (r = None \<longrightarrow> b1 = b)"
proof (cases "kvb_index (kvb_slots b) bucket")
  case None
  show ?thesis
  proof (cases "length (kvb_slots b) \<ge> CMQ_KVB_MAX \<or> cmq_kv_create h 0 = None")
    case False
    then obtain kv where kv: "cmq_kv_create h 0 = Some kv" by auto
    note new = kv_create_empty [OF kv]
    have name: "take 31 bucket = bucket" using assms(2) by (auto simp: bucket_ok_def CMQ_KVB_BUCKET_MAX_def)
    have b1: "b1 = b\<lparr>kvb_slots := kvb_slots b @ [\<lparr>kvb_name = bucket, kvb_kv = kv\<rparr>]\<rparr>" "r = Some (length (kvb_slots b))"
      using assms(1,3) None False kv name by (auto simp: kvb_get_or_create_def kvb_wf_def CMQ_KVB_BUCKET_MAX_def Let_def)
    have "bucket \<notin> kvb_name ` set (kvb_slots b)" using None by (simp add: kvb_index_None)
    then have "kvb_wf b1" using assms(1) new False by (auto simp: b1 kvb_wf_def)
    moreover have "kvb_fun b1 = kvb_fun b"
    proof
      fix x
      show "kvb_fun b1 x = kvb_fun b x"
        using None new(2) kvb_index_Some [of "kvb_slots b" x]
        by (cases "kvb_index (kvb_slots b) x") (auto simp: kvb_fun_def b1 kvb_index_append nth_append)
    qed
    ultimately show ?thesis using None by (simp add: b1 kvb_index_append)
  qed (use None assms in \<open>auto simp: kvb_get_or_create_def split: if_splits option.splits\<close>)
qed (use assms in \<open>auto simp: kvb_get_or_create_def\<close>)

lemma kvb_index_update: "kvb_name s = kvb_name (ss ! i) \<Longrightarrow> i < length ss \<Longrightarrow> kvb_index (ss[i := s]) x = kvb_index ss x"
proof (induction ss x arbitrary: i rule: kvb_index.induct)
  case (2 t ss x)
  then show ?case by (cases i) auto
qed simp

lemma kvb_set_fun:
  assumes "kvb_wf b" "kvb_index (kvb_slots b) bucket = Some i" "kv_wf kv" "kv_fs kv = None" "kv_cap kv = 256"
    and "\<forall>k \<in> dom (kv_map kv). kv_key_safe (Some k)"
  shows "kvb_wf (kvb_set b i kv) \<and> kvb_fun (kvb_set b i kv) = (kvb_fun b)(bucket := kv_map kv)"
proof -
  note i = kvb_index_Some [OF assms(2)]
  let ?s = "(kvb_slots b ! i)\<lparr>kvb_kv := kv\<rparr>"
  have "map kvb_name ((kvb_slots b)[i := ?s]) = map kvb_name (kvb_slots b)"
    using i by (simp add: map_update list_update_same_conv)
  then have "kvb_wf (kvb_set b i kv)"
    using assms(1,3-6) i by (auto simp: kvb_wf_def kvb_set_def dest!: subsetD [OF set_update_subset_insert]) blast
  moreover have "kvb_fun (kvb_set b i kv) x = ((kvb_fun b)(bucket := kv_map kv)) x" for x
    using i assms(2) kvb_index_update [of ?s "kvb_slots b" i x] kvb_index_Some [of "kvb_slots b" x]
    by (cases "kvb_index (kvb_slots b) x") (auto simp: kvb_fun_def kvb_set_def nth_list_update)
  ultimately show ?thesis by auto
qed


lemma map_put_safe:
  "\<forall>x \<in> dom m. kv_key_safe (Some x) \<Longrightarrow> \<forall>x \<in> dom (snd (map_put cap m k v)). kv_key_safe (Some x)"
  by (auto simp: map_put_def split: if_splits)

lemma kvb_publish_fun:
  assumes "kvb_wf b" "cmq_kvb_parse (Some s) 32 256 = (0, Some bk, Some k)"
    and "cmq_kvb_publish h disk io env b (Some s) v = (rc, b')"
  shows "kvb_wf b' \<and> kvb_fun b' = (if rc = 1 then (kvb_fun b)(bk := (kvb_fun b bk)(k := if v = [] then None else Some v)) else kvb_fun b)
    \<and> (rc = 1 \<longrightarrow> v \<noteq> [] \<longrightarrow> kv_key_safe (Some k))"
proof -
  have bk: "bucket_ok bk" using kvb_parse_complete [OF assms(2)] by auto
  obtain r b1 where goc: "kvb_get_or_create h disk b bk = (r, b1)" by (cases "kvb_get_or_create h disk b bk")
  note g = kvb_get_or_create_fun [OF assms(1) bk goc]
  show ?thesis
  proof (cases r)
    case None
    then show ?thesis
      using assms g goc by (auto simp: cmq_kvb_publish_def CMQ_KVB_BUCKET_MAX_def CMQ_KV_KEY_MAX_def)
  next
    case (Some i)
    let ?kv = "kvb_kv (kvb_slots b1 ! i)"
    have i: "kvb_index (kvb_slots b1) bk = Some i" and wf1: "kvb_wf b1" and same: "kvb_fun b1 = kvb_fun b" using g Some by auto
    have kv: "kv_wf ?kv" "kv_fs ?kv = None" "kv_cap ?kv = 256" and safe: "\<forall>x \<in> dom (kv_map ?kv). kv_key_safe (Some x)"
    proof -
      have "kvb_slots b1 ! i \<in> set (kvb_slots b1)" using kvb_index_Some [OF i] by simp
      with wf1 show "kv_wf ?kv" "kv_fs ?kv = None" "kv_cap ?kv = 256" "\<forall>x \<in> dom (kv_map ?kv). kv_key_safe (Some x)"
        unfolding kvb_wf_def by blast+
    qed
    have fn: "kvb_fun b bk = kv_map ?kv" using i by (simp add: kvb_fun_def flip: same)
    show ?thesis
    proof (cases "v = []")
      case True
      obtain kv' where d: "cmq_kv_del h io env ?kv (Some k) = (fst (map_del (kv_map ?kv) k), kv')" "kv_wf kv'" "kv_fs kv' = None"
        "kv_cap kv' = kv_cap ?kv" "kv_map kv' = snd (map_del (kv_map ?kv) k)"
        using kv_del_refines [OF kv(1,2), of h io env k] by blast
      have m: "kv_map kv' = (kv_map ?kv)(k := None)" using d(5) safe by (auto simp: map_del_def fun_eq_iff domIff)
      then have "\<forall>x \<in> dom (kv_map kv'). kv_key_safe (Some x)" using safe by auto
      from kvb_set_fun [OF wf1 i d(2,3) _ this] d(4) kv(3)
      have "kvb_wf (kvb_set b1 i kv') \<and> kvb_fun (kvb_set b1 i kv') = (kvb_fun b)(bk := (kvb_fun b bk)(k := None))"
        by (simp add: same fn m)
      then show ?thesis
        using assms(2,3) goc Some True d(1) by (auto simp: cmq_kvb_publish_def CMQ_KVB_BUCKET_MAX_def CMQ_KV_KEY_MAX_def)
    next
      case False
      let ?r = "map_put 256 (kv_map ?kv) k v"
      obtain kv' where p: "cmq_kv_put h io env ?kv (Some k) v = (fst ?r, kv')" "kv_wf kv'" "kv_fs kv' = None"
        "kv_cap kv' = kv_cap ?kv" "kv_map kv' = snd ?r"
        using kv_put_refines [OF kv(1,2), of h io env k v] kv(3) by auto
      have m: "snd ?r = (if fst ?r = 0 then (kv_map ?kv)(k \<mapsto> v) else kv_map ?kv)" "fst ?r = 0 \<longrightarrow> kv_key_safe (Some k)"
        using False by (auto simp: map_put_def)
      have "kvb_wf (kvb_set b1 i kv') \<and> kvb_fun (kvb_set b1 i kv') = (kvb_fun b)(bk := snd ?r)"
        using kvb_set_fun [OF wf1 i p(2,3)] p(4,5) kv(3) map_put_safe [OF safe, of 256 k v] by (simp add: same)
      moreover have "b' = kvb_set b1 i kv'" "rc = 1 \<longleftrightarrow> fst ?r = 0"
        using assms(2,3) goc Some False p(1) by (auto simp: cmq_kvb_publish_def CMQ_KVB_BUCKET_MAX_def CMQ_KV_KEY_MAX_def split: if_splits)
      ultimately show ?thesis using m False fn by (auto simp: fun_upd_idem)
    qed
  qed
qed

lemma kvb_publish_other:
  assumes "cmq_kvb_parse (Some s) 32 256 = (pr, bo, ko)" "pr \<noteq> 0"
  shows "cmq_kvb_publish h disk io env b (Some s) v = (if pr = - 1 then 0 else - 1, b)"
  using assms by (simp add: cmq_kvb_publish_def CMQ_KVB_BUCKET_MAX_def CMQ_KV_KEY_MAX_def)

text \<open>
  Buckets behave as one map from subjects to values: after a publication on a subject that is accepted (answer
  1), a lookup of that subject finds the value, or nothing when the value was empty, unless the caller's
  buffer is too small (-2); a publication that is not accepted changes no lookup; and no publication changes the lookup of
  any other subject, in the same bucket or in another.
\<close>

theorem kvb_publish_get:
  assumes "kvb_wf b" "cmq_kvb_publish h disk io env b (Some s) v = (rc, b')"
  shows "kvb_wf b' \<and>
    cmq_kvb_get b' (Some s') n =
      (if s' = s \<and> rc = 1
       then if v = [] then (- 1, None) else if n < length v then (- 2, None) else (0, Some v)
       else cmq_kvb_get b (Some s') n)"
proof -
  obtain pr bo ko where p: "cmq_kvb_parse (Some s) 32 256 = (pr, bo, ko)" by (cases "cmq_kvb_parse (Some s) 32 256")
  obtain pr' bo' ko' where p': "cmq_kvb_parse (Some s') 32 256 = (pr', bo', ko')" by (cases "cmq_kvb_parse (Some s') 32 256")
  show ?thesis
  proof (cases "pr = 0")
    case True
    then obtain bk k where s: "bo = Some bk" "ko = Some k" "s = kvb_subject bk k" using kvb_parse_complete p by blast
    note pub = kvb_publish_fun [OF assms(1) _ assms(2), of bk k]
    have pub: "kvb_wf b'" "kvb_fun b' = (if rc = 1 then (kvb_fun b)(bk := (kvb_fun b bk)(k := if v = [] then None else Some v)) else kvb_fun b)"
      "rc = 1 \<longrightarrow> v \<noteq> [] \<longrightarrow> kv_key_safe (Some k)"
      using pub p s True by simp_all
    show ?thesis
    proof (cases "pr' = 0")
      case True
      then obtain bk' k' where s': "bo' = Some bk'" "ko' = Some k'" "s' = kvb_subject bk' k'" using kvb_parse_complete p' by blast
      have eq: "s' = s \<longleftrightarrow> bk' = bk \<and> k' = k" 
      proof
        assume "s' = s"
        then have "bo' = bo" "ko' = ko" using p p' by simp_all
        then show "bk' = bk \<and> k' = k" using s(1,2) s'(1,2) by simp
      qed (use s(3) s'(3) in simp)
      show ?thesis
        using pub kvb_get_fun [OF pub(1) p', of n] kvb_get_fun [OF assms(1) p', of n] True s' eq
        by (auto simp: map_get_def)
    next
      case False
      then have "s' \<noteq> s" using p p' \<open>pr = 0\<close> by auto
      then show ?thesis using pub(1) kvb_get_fun [OF pub(1) p', of n] kvb_get_fun [OF assms(1) p', of n] False by simp
    qed
  next
    case False
    then show ?thesis using kvb_publish_other [OF p False, of h disk io env b v] assms by (auto split: if_splits)
  qed
qed

lemma kvb_first_publish:
  assumes "bucket_ok bk" "kv_key_safe (Some k)" "length k < 256" "0 < length v" "length v \<le> 1024"
  shows "fst (cmq_kvb_publish [] disk io env \<lparr>kvb_slots = [], kvb_persist_dir = []\<rparr> (Some (kvb_subject bk k)) v) = 1"
proof -
  obtain kv where kv: "cmq_kv_create [] 0 = Some kv" by (simp add: cmq_kv_create_def CMQ_KV_SLOTS_MAX_def)
  note new = kv_create_empty [OF kv]
  have "fst (cmq_kv_put [] io env kv (Some k) v) = 0"
    using kv_put_refines [OF new(1,3), of "[]" io env k v] new(2,4) assms by (auto simp: map_put_def CMQ_KV_VAL_MAX_def)
  moreover have "0 < length k" using assms(2) by (auto simp: kv_key_safe_iff)
  ultimately show ?thesis
    using kv assms kvb_parse_subject [of bk k]
    by (auto simp: cmq_kvb_publish_def kvb_get_or_create_def CMQ_KVB_BUCKET_MAX_def CMQ_KV_KEY_MAX_def CMQ_KVB_MAX_def
        split: prod.splits)
qed

theorem kvb_publish_get_witness:
  "\<exists>b b'. cmq_kvb_create [] = Some b \<and>
    cmq_kvb_publish [] (\<lambda>_. ([], [], None, None)) Io_ok calm_env b (Some ''$KV.cfg.rate'') [9] = (1, b') \<and>
    cmq_kvb_get b' (Some ''$KV.cfg.rate'') 16 = (0, Some [9]) \<and>
    cmq_kvb_get b' (Some ''$KV.cfg.burst'') 16 = (- 1, None)"
proof -
  let ?b = "\<lparr>kvb_slots = [], kvb_persist_dir = []\<rparr>"
  have wf: "kvb_wf ?b" by (simp add: kvb_wf_def)
  have tok: "list_all token_char ''rate''" "list_all name_char ''cfg''"
    by (simp_all add: token_char_def name_char_def byte_of_def)
  have subj: "''$KV.cfg.rate'' = kvb_subject ''cfg'' ''rate''" by (simp add: kvb_subject_def CMQ_KVB_PREFIX_def)
  obtain rc b' where pub: "cmq_kvb_publish [] (\<lambda>_. ([], [], None, None)) Io_ok calm_env ?b (Some ''$KV.cfg.rate'') [9] = (rc, b')"
    by (cases "cmq_kvb_publish [] (\<lambda>_. ([], [], None, None)) Io_ok calm_env ?b (Some ''$KV.cfg.rate'') [9]")
  have "rc = 1"
    using pub kvb_first_publish [of "''cfg''" "''rate''" "[9]" "\<lambda>_. ([], [], None, None)" Io_ok calm_env] tok
    unfolding subj by (simp add: bucket_ok_def CMQ_KVB_BUCKET_MAX_def kv_key_safe_iff CMQ_KV_KEY_MAX_def)
  moreover note kvb_publish_get [OF wf pub, of "''$KV.cfg.rate''" 16] kvb_publish_get [OF wf pub, of "''$KV.cfg.burst''" 16]
  moreover have "cmq_kvb_get ?b (Some ''$KV.cfg.burst'') 16 = (- 1, None)"
    by (simp add: cmq_kvb_get_def split: prod.splits)
  ultimately show ?thesis using pub by (auto simp: cmq_kvb_create_def)
qed

end
