(* ===== verification/CMQ_Blocklist.thy ===== *)
theory CMQ_Blocklist
  imports CMQ_Path
begin

text \<open>
  The list of blocked addresses (\<^verbatim>\<open>src/cluster/cmq_blocklist.c\<close>). The file is an argument: \<open>None\<close> when it
  cannot be opened, else its text. Addresses are words as a little-endian host holds four network-order bytes.
\<close>

section \<open>Library calls\<close>

text \<open>\<^verbatim>\<open>inet_pton(AF_INET, ...)\<close>: four decimal numbers below 256 without leading zeros, separated by dots.\<close>

definition digit :: "char \<Rightarrow> bool" where
  "digit c \<longleftrightarrow> byte_of CHR ''0'' \<le> byte_of c \<and> byte_of c \<le> byte_of CHR ''9''"

definition digits_value :: "string \<Rightarrow> nat" where
  "digits_value s = foldl (\<lambda>v c. v * 10 + unat (byte_of c - byte_of CHR ''0'')) 0 s"

definition octet :: "string \<Rightarrow> u8 option" where
  "octet s =
     (if s \<noteq> [] \<and> list_all digit s \<and> (hd s = CHR ''0'' \<longrightarrow> length s = 1) \<and> digits_value s \<le> 255
      then Some (of_nat (digits_value s)) else None)"

definition inet_pton :: "string \<Rightarrow> u32 option" where
  "inet_pton s =
     (case map octet (split_on CHR ''.'' s) of
        [Some a, Some b, Some c, Some d] \<Rightarrow> Some (get_le32 a b c d)
      | _ \<Rightarrow> None)"

text \<open>\<^verbatim>\<open>atoi\<close>: white space, a sign, digits.\<close>

definition is_space :: "char \<Rightarrow> bool" where
  "is_space c \<longleftrightarrow> c = CHR '' '' \<or> (9 \<le> byte_of c \<and> byte_of c \<le> 13)"

definition atoi :: "string \<Rightarrow> int" where
  "atoi s =
     (case dropWhile is_space s of
        [] \<Rightarrow> 0
      | c # cs \<Rightarrow>
          if c = CHR ''-'' then - int (digits_value (takeWhile digit cs))
          else if c = CHR ''+'' then int (digits_value (takeWhile digit cs))
          else int (digits_value (takeWhile digit (c # cs))))"

definition htonl :: "u32 \<Rightarrow> u32" where
  "htonl v = get_le32 (ucast (drop_bit 24 v)) (ucast (drop_bit 16 v)) (ucast (drop_bit 8 v)) (ucast v)"

text \<open>The lines \<^verbatim>\<open>fgets\<close> returns with a buffer of \<^verbatim>\<open>n + 1\<close> characters.\<close>

fun fgets_line :: "nat \<Rightarrow> string \<Rightarrow> string \<times> string" where
  "fgets_line 0 s = ([], s)"
| "fgets_line (Suc n) [] = ([], [])"
| "fgets_line (Suc n) (c # cs) =
     (if c = CHR 0x0A then ([c], cs) else case fgets_line n cs of (l, r) \<Rightarrow> (c # l, r))"

lemma fgets_line_append: "fgets_line n s = (l, r) \<Longrightarrow> s = l @ r"
  by (induction n s arbitrary: l r rule: fgets_line.induct) (auto split: if_splits prod.splits)

lemma fgets_line_shorter: "n > 0 \<Longrightarrow> s \<noteq> [] \<Longrightarrow> length (snd (fgets_line n s)) < length s"
proof -
  assume "n > 0" "s \<noteq> []"
  then have "fst (fgets_line n s) \<noteq> []" by (cases n; cases s) (auto split: prod.splits)
  then show ?thesis using fgets_line_append [of n s] by (metis length_append less_add_same_cancel2 length_greater_0_conv prod.collapse)
qed

function fgets_lines :: "nat \<Rightarrow> string \<Rightarrow> string list" where
  "fgets_lines n s =
     (if s = [] \<or> n = 0 then [] else case fgets_line n s of (l, r) \<Rightarrow> l # fgets_lines n r)"
  by pat_completeness auto
termination
  by (relation "measure (\<lambda>(n, s). length s)") (auto, metis fgets_line_shorter neq0_conv snd_conv)

declare fgets_lines.simps [simp del]

section \<open>Model\<close>

definition CMQ_BLOCKLIST_MAX_ENTRIES :: nat where "CMQ_BLOCKLIST_MAX_ENTRIES = 4096"

record bl_entry =
  be_ip :: u32
  be_mask :: u32

record blocklist =
  bl_path :: "string option"
  bl_entries :: "bl_entry list"

definition strchr_split :: "char \<Rightarrow> string \<Rightarrow> string \<times> string option" where
  "strchr_split c s =
     (takeWhile (\<lambda>x. x \<noteq> c) s,
      case dropWhile (\<lambda>x. x \<noteq> c) s of [] \<Rightarrow> None | _ # r \<Rightarrow> Some r)"

definition prefix_mask :: "nat \<Rightarrow> u32" where
  "prefix_mask p = (if p = 0 then 0 else htonl (push_bit (32 - p) 0xFFFFFFFF))"

definition parse_entry :: "string \<Rightarrow> bl_entry option" where
  "parse_entry line =
     (let buf = take 63 (takeWhile (\<lambda>c. c \<noteq> CHR 0x0A \<and> c \<noteq> CHR 0x0D) line)
      in if buf = [] then None
         else case strchr_split CHR ''/'' buf of
           (addr, slash) \<Rightarrow>
             let prefix = (case slash of None \<Rightarrow> 32 | Some r \<Rightarrow> atoi r)
             in if prefix < 0 \<or> prefix > 32 then None
                else case inet_pton addr of
                  None \<Rightarrow> None
                | Some ip \<Rightarrow> Some \<lparr>be_ip = ip, be_mask = prefix_mask (nat prefix)\<rparr>)"

text \<open>The loop that reads lines until the array is full.\<close>

fun load_entries :: "string list \<Rightarrow> bl_entry list \<Rightarrow> bl_entry list" where
  "load_entries [] es = es"
| "load_entries (l # ls) es =
     (if length es < CMQ_BLOCKLIST_MAX_ENTRIES
      then load_entries ls (case parse_entry l of None \<Rightarrow> es | Some e \<Rightarrow> es @ [e])
      else es)"

definition cmq_blocklist_load :: "heap \<Rightarrow> string option \<Rightarrow> string \<Rightarrow> blocklist option \<times> heap" where
  "cmq_blocklist_load h file path =
     (case malloc_ok h of
        (False, h) \<Rightarrow> (None, h)
      | (True, h) \<Rightarrow>
          (case malloc_ok h of
             (dup, h) \<Rightarrow>
               (Some \<lparr>bl_path = (if dup then Some path else None),
                      bl_entries = (case file of None \<Rightarrow> [] | Some text \<Rightarrow> load_entries (fgets_lines 127 text) [])\<rparr>, h)))"

definition blocklist_path_ok :: "string \<Rightarrow> bool" where
  "blocklist_path_ok path \<longleftrightarrow> path_ok 512 path"

text \<open>
  \<open>readable\<close> is the answer of \<^verbatim>\<open>access\<close>; \<open>live\<close> is \<^verbatim>\<open>live_path\<close>, the outer option for a null argument, the inner
  one for the pointer it holds.
\<close>

definition set_live :: "heap \<Rightarrow> string option option \<Rightarrow> string \<Rightarrow> string option option option" where
  "set_live h live fresh =
     (case live of
        None \<Rightarrow> Some None
      | Some _ \<Rightarrow> if fst (malloc_ok h) then Some (Some (Some fresh)) else None)"

definition cmq_blocklist_reload_attach ::
    "heap \<Rightarrow> string option \<Rightarrow> bool \<Rightarrow> blocklist option \<Rightarrow> string option option \<Rightarrow> string
      \<Rightarrow> int \<times> blocklist option \<times> string option option" where
  "cmq_blocklist_reload_attach h file readable bl live fresh =
     (if fresh = [] then (0, bl, live)
      else if \<not> blocklist_path_ok fresh then (- 1, bl, live)
      else if bl \<noteq> None then (0, bl, live)
      else if \<not> readable then (- 1, bl, live)
      else case cmq_blocklist_load h file fresh of
        (None, h) \<Rightarrow> (- 1, bl, live)
      | (Some n, h) \<Rightarrow>
          (case set_live h live fresh of
             None \<Rightarrow> (- 1, bl, live)
           | Some live \<Rightarrow> (0, Some n, live)))"

definition cmq_blocklist_reload_swap ::
    "heap \<Rightarrow> string option \<Rightarrow> bool \<Rightarrow> blocklist option \<Rightarrow> string option option \<Rightarrow> string
      \<Rightarrow> int \<times> blocklist option \<times> string option option" where
  "cmq_blocklist_reload_swap h file readable out live fresh =
     (if fresh = [] then (0, out, live)
      else if \<not> blocklist_path_ok fresh then (- 1, out, live)
      else if \<not> readable then (- 1, out, live)
      else case cmq_blocklist_load h file fresh of
        (None, h) \<Rightarrow> (- 1, out, live)
      | (Some n, h) \<Rightarrow>
          if live = Some (Some fresh) then (0, Some n, live)
          else
            (case set_live h live fresh of
               None \<Rightarrow> (- 1, out, live)
             | Some live \<Rightarrow> (0, Some n, live)))"

definition cmq_blocklist_reload :: "heap \<Rightarrow> string option \<Rightarrow> blocklist \<Rightarrow> string \<Rightarrow> int \<times> blocklist" where
  "cmq_blocklist_reload h file bl path =
     (case cmq_blocklist_load h file path of
        (None, _) \<Rightarrow> (- 1, bl)
      | (Some fresh, _) \<Rightarrow> (0, bl\<lparr>bl_entries := bl_entries fresh\<rparr>))"

definition cmq_blocklist_check :: "blocklist option \<Rightarrow> u32 \<Rightarrow> bool" where
  "cmq_blocklist_check bl ip =
     (case bl of
        None \<Rightarrow> False
      | Some b \<Rightarrow> list_ex (\<lambda>e. ip AND be_mask e = be_ip e) (bl_entries b))"

section \<open>Byte order and masks\<close>

lemma le32_parts:
  "ucast (get_le32 a b c d) = a" "ucast (drop_bit 8 (get_le32 a b c d)) = b"
  "ucast (drop_bit 16 (get_le32 a b c d)) = c" "ucast (drop_bit 24 (get_le32 a b c d)) = d"
  using put_get_le32 [of a b c d] by (simp_all add: put_le32_def)

lemma htonl_htonl [simp]: "htonl (htonl v) = v"
proof -
  have "htonl (htonl v) = get_le32 (ucast v) (ucast (drop_bit 8 v)) (ucast (drop_bit 16 v)) (ucast (drop_bit 24 v))"
    by (simp only: htonl_def le32_parts)
  then show ?thesis by simp
qed

lemma htonl_and: "htonl (v AND w) = htonl v AND htonl w"
  unfolding htonl_def get_le32_def
proof (rule bit_word_eqI)
  fix n :: nat
  assume "n < LENGTH(32)"
  then show "bit (ucast (ucast (drop_bit 24 (v AND w)) :: u8) OR push_bit 8 (ucast (ucast (drop_bit 16 (v AND w)) :: u8)) OR
      push_bit 16 (ucast (ucast (drop_bit 8 (v AND w)) :: u8)) OR push_bit 24 (ucast (ucast (v AND w) :: u8)) :: u32) n =
    bit ((ucast (ucast (drop_bit 24 v) :: u8) OR push_bit 8 (ucast (ucast (drop_bit 16 v) :: u8)) OR
      push_bit 16 (ucast (ucast (drop_bit 8 v) :: u8)) OR push_bit 24 (ucast (ucast v :: u8))) AND
     (ucast (ucast (drop_bit 24 w) :: u8) OR push_bit 8 (ucast (ucast (drop_bit 16 w) :: u8)) OR
      push_bit 16 (ucast (ucast (drop_bit 8 w) :: u8)) OR push_bit 24 (ucast (ucast w :: u8))) :: u32) n"
    by (cases n rule: nat_quarters) (auto simp: bit_simps)
qed

lemma htonl_eq: "htonl v = w \<longleftrightarrow> v = htonl w"
  by auto

lemma mask_match:
  fixes X A :: u32
  assumes "0 < p" "p \<le> 32"
  shows "X AND push_bit (32 - p) 0xFFFFFFFF = A \<longleftrightarrow> take_bit (32 - p) A = 0 \<and> drop_bit (32 - p) X = drop_bit (32 - p) A"
proof -
  let ?k = "32 - p"
  have ones: "(0xFFFFFFFF :: u32) = - 1" by simp
  show ?thesis
    unfolding ones
  proof
    assume eq: "X AND push_bit ?k (- 1) = A"
    have "take_bit ?k (X AND push_bit ?k (- 1)) = 0"
      by (rule bit_word_eqI) (simp add: bit_simps)
    moreover have "drop_bit ?k (X AND push_bit ?k (- 1)) = drop_bit ?k X"
      by (rule bit_word_eqI) (auto simp: bit_simps dest: bit_imp_le_length)
    ultimately show "take_bit ?k A = 0 \<and> drop_bit ?k X = drop_bit ?k A" by (simp only: eq)
  next
    assume r: "take_bit ?k A = 0 \<and> drop_bit ?k X = drop_bit ?k A"
    have low: "\<not> bit A n" if "n < ?k" for n
    proof -
      have "bit (take_bit ?k A) n = bit (0 :: u32) n" using r by simp
      with that show ?thesis by (simp add: bit_take_bit_iff)
    qed
    have high: "bit X n = bit A n" if "?k \<le> n" for n
    proof -
      have "bit (drop_bit ?k X) (n - ?k) = bit (drop_bit ?k A) (n - ?k)" using r by simp
      with that show ?thesis by (simp add: bit_drop_bit_eq)
    qed
    show "X AND push_bit ?k (- 1) = A"
    proof (rule bit_word_eqI)
      fix n :: nat
      assume "n < LENGTH(32)"
      then show "bit (X AND push_bit ?k (- 1)) n = bit A n"
        using low [of n] high [of n] by (cases "n < ?k") (auto simp: bit_simps)
    qed
  qed
qed

lemma entry_match:
  assumes "p \<le> 32"
  shows "ip AND prefix_mask p = htonl A \<longleftrightarrow>
    take_bit (32 - p) A = 0 \<and> drop_bit (32 - p) (htonl ip) = drop_bit (32 - p) A"
proof (cases "p = 0")
  case True
  have "htonl A = 0 \<longleftrightarrow> A = 0" using htonl_eq [of A 0] by (simp add: htonl_def get_le32_def)
  with True show ?thesis by (auto simp: prefix_mask_def take_bit_length_eq [where 'a = 32, simplified])
next
  case False
  let ?M = "push_bit (32 - p) 0xFFFFFFFF :: u32"
  have "ip AND htonl ?M = htonl A \<longleftrightarrow> htonl (htonl ip AND ?M) = htonl A" by (simp add: htonl_and)
  also have "\<dots> \<longleftrightarrow> htonl ip AND ?M = A" by (metis htonl_htonl)
  finally show ?thesis using False assms mask_match [of p "htonl ip" A] by (simp add: prefix_mask_def)
qed

section \<open>Properties\<close>

text \<open>The text of a line before its end, its address and the length of its prefix.\<close>

definition line_buf :: "string \<Rightarrow> string" where
  "line_buf line = take 63 (takeWhile (\<lambda>c. c \<noteq> CHR 0x0A \<and> c \<noteq> CHR 0x0D) line)"

definition line_prefix :: "string \<Rightarrow> int" where
  "line_prefix line = (case snd (strchr_split CHR ''/'' (line_buf line)) of None \<Rightarrow> 32 | Some r \<Rightarrow> atoi r)"

definition line_addr :: "string \<Rightarrow> u32 option" where
  "line_addr line = map_option htonl (inet_pton (fst (strchr_split CHR ''/'' (line_buf line))))"

lemma parse_entry_iff:
  "parse_entry line = Some e \<longleftrightarrow>
     line_buf line \<noteq> [] \<and> 0 \<le> line_prefix line \<and> line_prefix line \<le> 32 \<and>
     (\<exists>A. line_addr line = Some A \<and> e = \<lparr>be_ip = htonl A, be_mask = prefix_mask (nat (line_prefix line))\<rparr>)"
proof -
  have "(\<exists>A. map_option htonl o' = Some A \<and> P (htonl A)) \<longleftrightarrow> (\<exists>ip. o' = Some ip \<and> P ip)" for o' P
    by (cases o') auto
  then show ?thesis
    by (auto simp: parse_entry_def line_buf_def line_prefix_def line_addr_def Let_def case_prod_unfold
        split: option.splits)
qed

text \<open>A line is in force for a host-order address \<open>X\<close> when it parses, its own host bits are 0 and the prefixes agree.\<close>

definition line_blocks :: "string \<Rightarrow> u32 \<Rightarrow> bool" where
  "line_blocks line X \<longleftrightarrow>
     line_buf line \<noteq> [] \<and> 0 \<le> line_prefix line \<and> line_prefix line \<le> 32 \<and>
     (\<exists>A. line_addr line = Some A \<and>
       (let k = 32 - nat (line_prefix line)
        in take_bit k A = 0 \<and> drop_bit k X = drop_bit k A))"

lemma line_blocks_iff: "line_blocks line (htonl ip) \<longleftrightarrow> (\<exists>e. parse_entry line = Some e \<and> ip AND be_mask e = be_ip e)"
  unfolding parse_entry_iff line_blocks_def Let_def
  by (auto simp: entry_match)

lemma load_entries_all:
  "length es + length ls \<le> 4096 \<Longrightarrow> load_entries ls es = es @ List.map_filter parse_entry ls"
  by (induction ls arbitrary: es)
    (auto simp: CMQ_BLOCKLIST_MAX_ENTRIES_def map_filter_simps split: option.splits)


lemma fgets_example: "fgets_lines 127 ''10.0.0.0/8'' = [''10.0.0.0/8'']"
  by (simp add: fgets_lines.simps numeral_eq_Suc)


text \<open>
  An address with bits set after its prefix is accepted by the parser and blocks nobody.
\<close>

lemma blocklist_host_bits_never:
  assumes "parse_entry line = Some e" "line_addr line = Some A" "take_bit (32 - nat (line_prefix line)) A \<noteq> 0"
  shows "ip AND be_mask e \<noteq> be_ip e"
  using assms line_blocks_iff [of line ip] by (auto simp: line_blocks_def Let_def)

text \<open>
  A path is accepted exactly when it has 1 to 511 characters, none of them a backslash or a control character, and
  none of the components between its slashes is \<^verbatim>\<open>.\<close> or \<^verbatim>\<open>..\<close>: no accepted path can climb out of its directory.
\<close>

theorem blocklist_path_safe:
  "blocklist_path_ok path \<longleftrightarrow>
     path \<noteq> [] \<and> length path < 512 \<and> list_all path_char_ok path \<and>
     ''.'' \<notin> set (split_on CHR ''/'' path) \<and> ''..'' \<notin> set (split_on CHR ''/'' path)"
  by (simp add: blocklist_path_ok_def path_ok_iff)

end
