(* ===== verification/CMQ_Mqtt.thy ===== *)
theory CMQ_Mqtt
  imports CMQ_Blocklist
begin

text \<open>
  The MQTT bridge (\<^verbatim>\<open>src/enterprise/cmq_mqtt.c\<close>): its packets, the translation of topics, the table of mappings and the
  state of its connection. A packet is built in a buffer of a given size; the model returns the bytes written.
  The connection to the peer is an argument: whether a descriptor is alive, whether dialling succeeds and
  what the peer answers.
\<close>

section \<open>Packets\<close>

definition CMQ_MQTT_CONNECT :: u8 where "CMQ_MQTT_CONNECT = 0x10"
definition CMQ_MQTT_CONNACK :: u8 where "CMQ_MQTT_CONNACK = 0x20"
definition CMQ_MQTT_PUBLISH :: u8 where "CMQ_MQTT_PUBLISH = 0x30"
definition CMQ_MQTT_SUBSCRIBE :: u8 where "CMQ_MQTT_SUBSCRIBE = 0x80"
definition CMQ_MQTT_PINGREQ :: u8 where "CMQ_MQTT_PINGREQ = 0xC0"
definition CMQ_MQTT_DISCONNECT :: u8 where "CMQ_MQTT_DISCONNECT = 0xE0"

text \<open>The second loop of \<^verbatim>\<open>encode_remaining_length\<close>: seven bits at a time, the top bit set while more follow.\<close>

fun rl_bytes :: "nat \<Rightarrow> bytes" where
  "rl_bytes v = (if v div 128 > 0 then (of_nat (v mod 128) OR 0x80) # rl_bytes (v div 128) else [of_nat (v mod 128)])"

declare rl_bytes.simps [simp del]

text \<open>The first loop: the number of bytes needed.\<close>

fun rl_needed :: "nat \<Rightarrow> nat" where
  "rl_needed v = (if v div 128 > 0 then 1 + rl_needed (v div 128) else 1)"

declare rl_needed.simps [simp del]

definition bridge_remaining_length :: "nat \<Rightarrow> nat \<Rightarrow> nat \<Rightarrow> bytes option" where
  "bridge_remaining_length offset len_size v =
     (if rl_needed v > 4 \<or> offset + rl_needed v > len_size then None else Some (rl_bytes v))"

text \<open>A 16-bit field, most significant byte first.\<close>

definition put_be16 :: "nat \<Rightarrow> bytes" where
  "put_be16 n = [of_nat (n div 256 mod 256), of_nat (n mod 256)]"

definition cmq_mqtt_encode_connect :: "nat \<Rightarrow> bytes option \<Rightarrow> int \<Rightarrow> bool \<Rightarrow> bytes option" where
  "cmq_mqtt_encode_connect len client_id keepalive clean_session =
     (case client_id of
        None \<Rightarrow> None
      | Some cid \<Rightarrow>
          if len < 20 then None
          else if keepalive < 0 \<or> keepalive > 65535 then None
          else if length cid > 0xFFFF \<or> length cid > SIZE_MAX - 10 then None
          else
            (let var_len = 10 + length cid
             in if var_len > 0x0FFFFFFF \<or> len < 5 \<or> var_len > len - 5 then None
                else case bridge_remaining_length 1 len var_len of
                  None \<Rightarrow> None
                | Some rl \<Rightarrow>
                    (let pos = 1 + length rl
                     in if pos > len \<or> len - pos < 10 + length cid then None
                        else Some ([CMQ_MQTT_CONNECT] @ rl @ [0x00, 0x04, 0x4D, 0x51, 0x54, 0x54, 0x04] @
                               [if clean_session then 0x02 else 0x00] @ put_be16 (nat keepalive) @
                               put_be16 (length cid) @ cid))))"

definition cmq_mqtt_encode_publish ::
  "nat \<Rightarrow> bytes option \<Rightarrow> bytes option \<Rightarrow> nat \<Rightarrow> int \<Rightarrow> nat \<Rightarrow> bytes option" where
  "cmq_mqtt_encode_publish len topic payload payload_len qos packet_id =
     (case topic of
        None \<Rightarrow> None
      | Some t \<Rightarrow>
          if qos < 0 \<or> qos > 2 then None
          else if qos > 0 \<and> packet_id = 0 then None
          else if payload_len > 0 \<and> payload = None then None
          else if length t > 0xFFFF \<or> length t > SIZE_MAX - 2 then None
          else if payload_len > SIZE_MAX - (2 + length t) then None
          else
            (let var_len = 2 + length t + payload_len
             in if qos > 0 \<and> var_len > SIZE_MAX - 2 then None
                else
                  (let var_len = (if qos > 0 then var_len + 2 else var_len)
                   in if var_len > 0x0FFFFFFF \<or> len < 5 \<or> var_len > len - 5 then None
                      else case bridge_remaining_length 1 len var_len of
                        None \<Rightarrow> None
                      | Some rl \<Rightarrow>
                          (let pos = 1 + length rl
                           in if pos > len \<or> len - pos < var_len then None
                              else Some ([CMQ_MQTT_PUBLISH OR push_bit 1 (of_int qos AND 3)] @ rl @ put_be16 (length t) @ t @
                                     (if qos > 0 then put_be16 packet_id else []) @
                                     (if payload_len > 0 then take payload_len (the payload) else []))))))"

definition cmq_mqtt_encode_subscribe :: "nat \<Rightarrow> bytes option \<Rightarrow> int \<Rightarrow> nat \<Rightarrow> bytes option" where
  "cmq_mqtt_encode_subscribe len topic qos packet_id =
     (case topic of
        None \<Rightarrow> None
      | Some t \<Rightarrow>
          if qos < 0 \<or> qos > 2 then None
          else if packet_id = 0 then None
          else if length t > 0xFFFF \<or> length t > SIZE_MAX - 5 then None
          else
            (let var_len = 2 + 2 + length t + 1
             in if var_len > 0x0FFFFFFF \<or> len < 5 \<or> var_len > len - 5 then None
                else case bridge_remaining_length 1 len var_len of
                  None \<Rightarrow> None
                | Some rl \<Rightarrow>
                    (let pos = 1 + length rl
                     in if pos > len \<or> len - pos < var_len then None
                        else Some ([CMQ_MQTT_SUBSCRIBE OR 0x02] @ rl @ put_be16 packet_id @ put_be16 (length t) @ t @
                               [of_int qos AND 3]))))"

definition cmq_mqtt_encode_pingreq :: "nat \<Rightarrow> bytes option" where
  "cmq_mqtt_encode_pingreq len = (if len < 2 then None else Some [CMQ_MQTT_PINGREQ, 0x00])"

definition cmq_mqtt_decode_connack :: "bytes option \<Rightarrow> int" where
  "cmq_mqtt_decode_connack buf =
     (case buf of
        None \<Rightarrow> - 1
      | Some b \<Rightarrow>
          if length b \<noteq> 4 then - 1
          else if b ! 0 AND 0xF0 \<noteq> CMQ_MQTT_CONNACK then - 1
          else if b ! 1 \<noteq> 0x02 then - 1
          else uint (b ! 3))"

definition cmq_mqtt_decode_packet_type :: "bytes option \<Rightarrow> int" where
  "cmq_mqtt_decode_packet_type buf =
     (case buf of None \<Rightarrow> - 1 | Some b \<Rightarrow> if length b < 1 then - 1 else uint (drop_bit 4 (b ! 0) AND 0x0F))"

section \<open>Topics and subjects\<close>

definition topic_char :: "char \<Rightarrow> char" where
  "topic_char c = (if c = CHR ''/'' then CHR ''.'' else if c = CHR ''+'' then CHR ''*''
     else if c = CHR ''#'' then CHR ''>'' else c)"

definition subject_char :: "char \<Rightarrow> char" where
  "subject_char c = (if c = CHR ''.'' then CHR ''/'' else if c = CHR ''*'' then CHR ''+''
     else if c = CHR ''>'' then CHR ''#'' else c)"

text \<open>\<open>len\<close> is the size of the buffer.\<close>

definition cmq_mqtt_topic_to_subject :: "string option \<Rightarrow> nat \<Rightarrow> string option" where
  "cmq_mqtt_topic_to_subject topic len =
     (case topic of
        None \<Rightarrow> None
      | Some t \<Rightarrow> if len = 0 then None
                  else if length t > len - 1 then None else Some (map topic_char (take (len - 1) t)))"

definition cmq_mqtt_subject_to_topic :: "string option \<Rightarrow> nat \<Rightarrow> string option" where
  "cmq_mqtt_subject_to_topic subject len =
     (case subject of
        None \<Rightarrow> None
      | Some s \<Rightarrow> if len = 0 then None
                  else if length s > len - 1 then None else Some (map subject_char (take (len - 1) s)))"

section \<open>The bridge\<close>

definition CMQ_MQTT_TOPIC_MAX :: nat where "CMQ_MQTT_TOPIC_MAX = 256"
definition CMQ_MQTT_CLIENT_ID :: nat where "CMQ_MQTT_CLIENT_ID = 64"
definition CMQ_MQTT_MAX_MAPPINGS :: nat where "CMQ_MQTT_MAX_MAPPINGS = 64"

record mqtt_mapping =
  mm_subject :: string
  mm_topic :: string
  mm_qos :: int
  mm_active :: bool

record mqtt_bridge =
  mb_client_id :: string
  mb_addr :: string
  mb_port :: int
  mb_fd :: int
  mb_connected :: bool
  mb_keepalive_ms :: int
  mb_clean_session :: bool
  mb_messages_in :: nat
  mb_messages_out :: nat
  mb_mappings :: "mqtt_mapping list"
  mb_next_pid :: nat
  mb_cancel_gen :: nat
  mb_dialing :: bool
  mb_in_flight :: nat
  mb_dying :: bool

text \<open>What goes out on descriptors.\<close>

type_synonym wire = "(int \<times> bytes) list"

definition mqtt_begin_op :: "mqtt_bridge \<Rightarrow> mqtt_bridge option" where
  "mqtt_begin_op br = (if mb_dying br then None else Some (br\<lparr>mb_in_flight := mb_in_flight br + 1\<rparr>))"

definition mqtt_end_op :: "mqtt_bridge \<Rightarrow> mqtt_bridge" where
  "mqtt_end_op br = br\<lparr>mb_in_flight := mb_in_flight br - 1\<rparr>"

definition mqtt_disconnect_unlocked :: "mqtt_bridge \<Rightarrow> wire \<times> mqtt_bridge" where
  "mqtt_disconnect_unlocked br =
     (if mb_fd br \<ge> 0 \<and> mb_connected br then [(mb_fd br, [CMQ_MQTT_DISCONNECT, 0x00])] else [],
      br\<lparr>mb_fd := - 1, mb_connected := False\<rparr>)"

definition cmq_mqtt_bridge_create :: "heap \<Rightarrow> string option \<Rightarrow> mqtt_bridge option" where
  "cmq_mqtt_bridge_create h client_id =
     (case client_id of
        None \<Rightarrow> None
      | Some cid \<Rightarrow>
          if strnlen cid CMQ_MQTT_CLIENT_ID \<ge> CMQ_MQTT_CLIENT_ID then None
          else if \<not> fst (malloc_ok h) then None
          else Some \<lparr>mb_client_id = cid, mb_addr = [], mb_port = 0, mb_fd = - 1, mb_connected = False,
                     mb_keepalive_ms = 60000, mb_clean_session = True, mb_messages_in = 0, mb_messages_out = 0,
                     mb_mappings = [], mb_next_pid = 0, mb_cancel_gen = 0, mb_dialing = False,
                     mb_in_flight = 0, mb_dying = False\<rparr>)"

text \<open>
  The destructor: no operation is let in, and once those in flight have left, the connection is closed. The model takes
  the loop at the moment it ends; before that, only the flag is set.
\<close>

definition mqtt_destroy_begin :: "mqtt_bridge \<Rightarrow> mqtt_bridge" where
  "mqtt_destroy_begin br = br\<lparr>mb_dying := True\<rparr>"

definition cmq_mqtt_bridge_destroy :: "mqtt_bridge \<Rightarrow> wire option" where
  "cmq_mqtt_bridge_destroy br =
     (let br = mqtt_destroy_begin br
      in if mb_in_flight br > 0 then None else Some (fst (mqtt_disconnect_unlocked br)))"

text \<open>
  Connecting has two locked parts with the dial between them. The first either answers or hands a ticket to the dial:
  the settings read under the lock and the generation.
\<close>

datatype dial_start = Conn_ret int | Conn_dial int bool string nat

definition same_endpoint :: "mqtt_bridge \<Rightarrow> string \<Rightarrow> int \<Rightarrow> bool" where
  "same_endpoint br addr port \<longleftrightarrow> mb_port br = port \<and> strncmp_eq 64 (mb_addr br) addr"

definition mqtt_connect_begin ::
  "(int \<Rightarrow> bool) \<Rightarrow> string option \<Rightarrow> int \<Rightarrow> mqtt_bridge \<Rightarrow> dial_start \<times> wire \<times> mqtt_bridge" where
  "mqtt_connect_begin alive addr port br =
     (case addr of
        None \<Rightarrow> (Conn_ret (- 1), [], br)
      | Some a \<Rightarrow>
          if strnlen a 64 \<ge> 64 then (Conn_ret (- 1), [], br)
          else if port \<le> 0 \<or> port > 65535 then (Conn_ret (- 1), [], br)
          else case mqtt_begin_op br of
            None \<Rightarrow> (Conn_ret (- 1), [], br)
          | Some br \<Rightarrow>
              if mb_connected br \<and> mb_fd br \<ge> 0 \<and> same_endpoint br a port \<and> alive (mb_fd br)
              then (Conn_ret 0, [], mqtt_end_op br)
              else
                (let (w, br) = (if mb_connected br \<and> (\<not> same_endpoint br a port \<or> \<not> alive (mb_fd br))
                                then mqtt_disconnect_unlocked br else ([], br))
                 in if mb_dialing br then (Conn_ret (- 1), w, mqtt_end_op br)
                    else (Conn_dial (mb_keepalive_ms br) (mb_clean_session br) (mb_client_id br) (mb_cancel_gen br), w,
                          br\<lparr>mb_dialing := True\<rparr>)))"

text \<open>
  The dial, without the lock: the socket (None when it cannot be opened or connected), CONNECT, and the four bytes the peer
  answers with (None when the write or the read fails).
\<close>

definition mqtt_dial :: "int option \<Rightarrow> (bytes \<Rightarrow> bytes option) \<Rightarrow> string \<Rightarrow> dial_start \<Rightarrow> int option" where
  "mqtt_dial sock peer addr start =
     (case start of
        Conn_ret _ \<Rightarrow> None
      | Conn_dial keepalive_ms clean client_id gen \<Rightarrow>
          (case sock of
             None \<Rightarrow> None
           | Some fd \<Rightarrow>
               if inet_pton addr = None then None
               else
                 (let keepalive_s = (if keepalive_ms > 0 then keepalive_ms div 1000 else 60);
                      keepalive_s = (if keepalive_s < 1 then 1 else keepalive_s)
                  in case cmq_mqtt_encode_connect 256 (Some (map byte_of client_id)) keepalive_s clean of
                       None \<Rightarrow> None
                     | Some pkt \<Rightarrow> if cmq_mqtt_decode_connack (peer pkt) = 0 then Some fd else None)))"

definition mqtt_connect_finish ::
  "(int \<Rightarrow> bool) \<Rightarrow> string \<Rightarrow> int \<Rightarrow> nat \<Rightarrow> int option \<Rightarrow> mqtt_bridge \<Rightarrow> int \<times> wire \<times> mqtt_bridge" where
  "mqtt_connect_finish alive addr port gen dialled br =
     (case dialled of
        None \<Rightarrow> (- 1, [], mqtt_end_op (br\<lparr>mb_dialing := False\<rparr>))
      | Some fd \<Rightarrow>
          (let br = br\<lparr>mb_dialing := False\<rparr>
           in if mb_cancel_gen br \<noteq> gen then (- 1, [], mqtt_end_op br)
              else if mb_connected br \<and> mb_fd br \<ge> 0 \<and> alive (mb_fd br)
              then (if same_endpoint br addr port then 0 else - 1, [], mqtt_end_op br)
              else
                (let (w, br) = mqtt_disconnect_unlocked br
                 in (0, w, mqtt_end_op (br\<lparr>mb_fd := fd, mb_connected := True, mb_addr := take 63 addr, mb_port := port\<rparr>)))))"

text \<open>The call with nothing between its parts.\<close>

definition cmq_mqtt_bridge_connect ::
  "(int \<Rightarrow> bool) \<Rightarrow> int option \<Rightarrow> (bytes \<Rightarrow> bytes option) \<Rightarrow> string option \<Rightarrow> int \<Rightarrow> mqtt_bridge \<Rightarrow> int \<times> wire \<times> mqtt_bridge"
where
  "cmq_mqtt_bridge_connect alive sock peer addr port br =
     (case mqtt_connect_begin alive addr port br of
        (Conn_ret rc, w, br) \<Rightarrow> (rc, w, br)
      | (Conn_dial ka cl cid gen, w, br) \<Rightarrow>
          (case mqtt_connect_finish alive (the addr) port gen (mqtt_dial sock peer (the addr) (Conn_dial ka cl cid gen)) br of
             (rc, w', br) \<Rightarrow> (rc, w @ w', br)))"

definition mqtt_bridge_disconnect_impl :: "mqtt_bridge \<Rightarrow> int \<times> wire \<times> mqtt_bridge" where
  "mqtt_bridge_disconnect_impl br =
     (let (w, br) = mqtt_disconnect_unlocked (br\<lparr>mb_cancel_gen := (mb_cancel_gen br + 1) mod 2 ^ 32, mb_dialing := False\<rparr>)
      in (0, w, br))"

definition cmq_mqtt_bridge_disconnect :: "mqtt_bridge \<Rightarrow> int \<times> wire \<times> mqtt_bridge" where
  "cmq_mqtt_bridge_disconnect br =
     (case mqtt_begin_op br of
        None \<Rightarrow> (- 1, [], br)
      | Some br \<Rightarrow> (case mqtt_bridge_disconnect_impl br of (rc, w, br) \<Rightarrow> (rc, w, mqtt_end_op br)))"

definition mqtt_connected_locked :: "(int \<Rightarrow> bool) \<Rightarrow> mqtt_bridge \<Rightarrow> bool \<times> wire \<times> mqtt_bridge" where
  "mqtt_connected_locked alive br =
     (if \<not> mb_connected br \<or> mb_fd br < 0 then (False, [], br)
      else if alive (mb_fd br) then (True, [], br)
      else (False, mqtt_disconnect_unlocked br))"

definition cmq_mqtt_bridge_is_connected :: "(int \<Rightarrow> bool) \<Rightarrow> mqtt_bridge \<Rightarrow> bool \<times> wire \<times> mqtt_bridge" where
  "cmq_mqtt_bridge_is_connected alive br =
     (case mqtt_begin_op br of
        None \<Rightarrow> (False, [], br)
      | Some br \<Rightarrow> (case mqtt_connected_locked alive br of (live, w, br) \<Rightarrow> (live, w, mqtt_end_op br)))"

definition cmq_mqtt_client_id :: "nat \<Rightarrow> mqtt_bridge \<Rightarrow> string option" where
  "cmq_mqtt_client_id out_len br =
     (if out_len = 0 then None
      else case mqtt_begin_op br of
        None \<Rightarrow> None
      | Some br \<Rightarrow>
          (let n = strnlen (mb_client_id br) CMQ_MQTT_CLIENT_ID
           in if n + 1 > out_len then None else Some (take n (mb_client_id br))))"

record mqtt_bridge_info =
  mi_client_id :: string
  mi_addr :: string
  mi_port :: int
  mi_keepalive_ms :: int
  mi_clean_session :: bool
  mi_connected :: bool
  mi_messages_in :: nat
  mi_messages_out :: nat

definition mqtt_bridge_info_impl :: "(int \<Rightarrow> bool) \<Rightarrow> mqtt_bridge \<Rightarrow> mqtt_bridge_info \<times> wire \<times> mqtt_bridge" where
  "mqtt_bridge_info_impl alive br =
     (case mqtt_connected_locked alive br of
        (live, w, br') \<Rightarrow>
          (\<lparr>mi_client_id = take (CMQ_MQTT_CLIENT_ID - 1) (mb_client_id br), mi_addr = take 63 (mb_addr br),
            mi_port = mb_port br, mi_keepalive_ms = mb_keepalive_ms br, mi_clean_session = mb_clean_session br,
            mi_connected = live, mi_messages_in = mb_messages_in br', mi_messages_out = mb_messages_out br'\<rparr>, w, br'))"

section \<open>Mappings\<close>

definition find_topic :: "string \<Rightarrow> mqtt_mapping list \<Rightarrow> nat option" where
  "find_topic topic ms = first_index (\<lambda>m. mm_topic m = topic) ms"

definition mqtt_add_mapping_impl :: "string option \<Rightarrow> string option \<Rightarrow> int \<Rightarrow> mqtt_bridge \<Rightarrow> int \<times> mqtt_bridge" where
  "mqtt_add_mapping_impl cmq_subject mqtt_topic qos br =
     (case (cmq_subject, mqtt_topic) of
        (Some s, Some t) \<Rightarrow>
          if qos < 0 \<or> qos > 2 then (- 1, br)
          else if strnlen s CMQ_MQTT_TOPIC_MAX \<ge> CMQ_MQTT_TOPIC_MAX then (- 1, br)
          else if strnlen t CMQ_MQTT_TOPIC_MAX \<ge> CMQ_MQTT_TOPIC_MAX then (- 1, br)
          else case find_topic t (mb_mappings br) of
            Some i \<Rightarrow>
              (0, br\<lparr>mb_mappings := (mb_mappings br)[i := (mb_mappings br ! i)
                     \<lparr>mm_subject := take (CMQ_MQTT_TOPIC_MAX - 1) s, mm_qos := qos\<rparr>]\<rparr>)
          | None \<Rightarrow>
              if length (mb_mappings br) \<ge> CMQ_MQTT_MAX_MAPPINGS then (- 1, br)
              else (0, br\<lparr>mb_mappings := mb_mappings br @
                     [\<lparr>mm_subject = take (CMQ_MQTT_TOPIC_MAX - 1) s, mm_topic = take (CMQ_MQTT_TOPIC_MAX - 1) t,
                       mm_qos = qos, mm_active = True\<rparr>]\<rparr>)
      | _ \<Rightarrow> (- 1, br))"

definition cmq_mqtt_add_mapping :: "string option \<Rightarrow> string option \<Rightarrow> int \<Rightarrow> mqtt_bridge \<Rightarrow> int \<times> mqtt_bridge" where
  "cmq_mqtt_add_mapping cmq_subject mqtt_topic qos br =
     (if cmq_subject = None \<or> mqtt_topic = None then (- 1, br)
      else case mqtt_begin_op br of
        None \<Rightarrow> (- 1, br)
      | Some br \<Rightarrow> (case mqtt_add_mapping_impl cmq_subject mqtt_topic qos br of (rc, br) \<Rightarrow> (rc, mqtt_end_op br)))"

definition mqtt_remove_mapping_impl :: "string option \<Rightarrow> mqtt_bridge \<Rightarrow> int \<times> mqtt_bridge" where
  "mqtt_remove_mapping_impl mqtt_topic br =
     (case mqtt_topic of
        None \<Rightarrow> (- 1, br)
      | Some t \<Rightarrow>
          (case find_topic t (mb_mappings br) of
             Some i \<Rightarrow> (0, br\<lparr>mb_mappings := take i (mb_mappings br) @ drop (i + 1) (mb_mappings br)\<rparr>)
           | None \<Rightarrow> (- 1, br)))"

definition cmq_mqtt_remove_mapping :: "string option \<Rightarrow> mqtt_bridge \<Rightarrow> int \<times> mqtt_bridge" where
  "cmq_mqtt_remove_mapping mqtt_topic br =
     (if mqtt_topic = None then (- 1, br)
      else case mqtt_begin_op br of
        None \<Rightarrow> (- 1, br)
      | Some br \<Rightarrow> (case mqtt_remove_mapping_impl mqtt_topic br of (rc, br) \<Rightarrow> (rc, mqtt_end_op br)))"

definition cmq_mqtt_mapping_count :: "mqtt_bridge \<Rightarrow> nat" where
  "cmq_mqtt_mapping_count br = (case mqtt_begin_op br of None \<Rightarrow> 0 | Some br \<Rightarrow> length (mb_mappings br))"

definition mqtt_find_mapping_impl :: "string option \<Rightarrow> mqtt_bridge \<Rightarrow> mqtt_mapping option" where
  "mqtt_find_mapping_impl mqtt_topic br =
     (case mqtt_topic of
        None \<Rightarrow> None
      | Some t \<Rightarrow> map_option (\<lambda>i. mb_mappings br ! i) (find_topic t (mb_mappings br)))"

definition cmq_mqtt_find_mapping :: "string option \<Rightarrow> mqtt_bridge \<Rightarrow> mqtt_mapping option" where
  "cmq_mqtt_find_mapping mqtt_topic br =
     (case mqtt_begin_op br of None \<Rightarrow> None | Some br \<Rightarrow> mqtt_find_mapping_impl mqtt_topic br)"

definition cmq_mqtt_reload_maps :: "mqtt_mapping list option \<Rightarrow> int \<Rightarrow> mqtt_bridge option \<Rightarrow> int \<times> mqtt_bridge option" where
  "cmq_mqtt_reload_maps maps n br =
     (if n = 0 then (0, br)
      else case (br, maps) of
        (Some b, Some ms) \<Rightarrow>
          if n < 0 \<or> n > 8 then (- 1, br)
          else if list_ex (\<lambda>m. mm_subject m = [] \<or> mm_topic m = [] \<or> mm_qos m < 0 \<or> mm_qos m > 2) (take (nat n) ms)
          then (- 1, br)
          else (case mqtt_begin_op b of
             None \<Rightarrow> (- 1, br)
           | Some b \<Rightarrow> (0, Some (mqtt_end_op (b\<lparr>mb_mappings := map (\<lambda>m. m\<lparr>mm_active := True\<rparr>) (take (nat n) ms)\<rparr>))))
      | _ \<Rightarrow> (- 1, br))"

section \<open>Reloading the endpoint\<close>

definition mqtt_reload_addr_ok :: "string option \<Rightarrow> bool" where
  "mqtt_reload_addr_ok addr =
     (case addr of
        None \<Rightarrow> False
      | Some a \<Rightarrow>
          a \<noteq> [] \<and>
          (let n = strnlen a 64
           in \<not> (n = 0 \<or> n \<ge> 64) \<and>
              list_all (\<lambda>c. \<not> (byte_of c < 0x21 \<or> byte_of c > 0x7e \<or> c = CHR ''/'' \<or> c = CHR 0x5C)) (take n a) \<and>
              inet_pton a \<noteq> None))"

text \<open>The address and port to use: the fresh ones when given, else the live ones.\<close>

definition use_addr :: "string option option \<Rightarrow> string option \<Rightarrow> string option" where
  "use_addr live_addr fresh_addr =
     (if fresh_addr \<noteq> None \<and> fresh_addr \<noteq> Some [] then fresh_addr
      else case live_addr of None \<Rightarrow> None | Some a \<Rightarrow> a)"

definition cmq_mqtt_reload_endpoint ::
  "heap \<Rightarrow> (int \<Rightarrow> bool) \<Rightarrow> int option \<Rightarrow> (bytes \<Rightarrow> bytes option) \<Rightarrow> string option \<Rightarrow> int \<Rightarrow>
   mqtt_bridge option \<Rightarrow> string option option \<Rightarrow> int \<Rightarrow> int \<times> mqtt_bridge option \<times> string option option \<times> int" where
  "cmq_mqtt_reload_endpoint h alive sock peer fresh_addr fresh_port br live_addr live_port =
     (let fresh = (fresh_addr \<noteq> None \<and> fresh_addr \<noteq> Some []);
          keep = (br, live_addr, live_port)
      in if fresh_port < 0 \<or> fresh_port > 65535 then (- 1, keep)
         else if fresh \<and> \<not> mqtt_reload_addr_ok fresh_addr then (- 1, keep)
         else if \<not> fresh \<and> fresh_port = 0 then (0, keep)
         else
           (let addr = use_addr live_addr fresh_addr;
                port = (if fresh_port > 0 then fresh_port else live_port)
            in if addr = None \<or> addr = Some [] \<or> port \<le> 0 then (0, keep)
               else if \<not> mqtt_reload_addr_ok addr then (- 1, keep)
               else
                 (let (rc, br') = (case br of None \<Rightarrow> (0, None)
                                   | Some b \<Rightarrow> (case cmq_mqtt_bridge_connect alive sock peer addr port b of (rc, w, b) \<Rightarrow> (rc, Some b)))
                  in if rc \<noteq> 0 then (- 1, br', live_addr, live_port)
                     else if fresh \<and> live_addr \<noteq> None \<and> \<not> fst (malloc_ok h) then (- 1, br', live_addr, live_port)
                     else (0, br', if fresh \<and> live_addr \<noteq> None then Some fresh_addr else live_addr,
                           if fresh_port > 0 then fresh_port else live_port))))"

definition cmq_mqtt_reload_attach ::
  "heap \<Rightarrow> (int \<Rightarrow> bool) \<Rightarrow> int option \<Rightarrow> (bytes \<Rightarrow> bytes option) \<Rightarrow> string option \<Rightarrow> int \<Rightarrow>
   mqtt_bridge option \<Rightarrow> string option option \<Rightarrow> int \<Rightarrow> int \<times> mqtt_bridge option \<times> string option option \<times> int" where
  "cmq_mqtt_reload_attach h alive sock peer fresh_addr fresh_port br live_addr live_port =
     (let fresh = (fresh_addr \<noteq> None \<and> fresh_addr \<noteq> Some []);
          keep = (br, live_addr, live_port)
      in if fresh_port < 0 \<or> fresh_port > 65535 then (- 1, keep)
         else if fresh \<and> \<not> mqtt_reload_addr_ok fresh_addr then (- 1, keep)
         else if \<not> fresh \<and> fresh_port = 0 then (0, keep)
         else if br \<noteq> None then (0, keep)
         else
           (let addr = use_addr live_addr fresh_addr;
                port = (if fresh_port > 0 then fresh_port else live_port)
            in if addr = None \<or> addr = Some [] \<or> port \<le> 0 then (0, keep)
               else if \<not> mqtt_reload_addr_ok addr then (- 1, keep)
               else case cmq_mqtt_bridge_create h (Some ''cmsgbridge'') of
                 None \<Rightarrow> (- 1, keep)
               | Some n \<Rightarrow>
                   (case cmq_mqtt_bridge_connect alive sock peer addr port n of (rc, w, n) \<Rightarrow>
                      if rc \<noteq> 0 then (- 1, keep)
                      else if fresh \<and> live_addr \<noteq> None \<and> \<not> fst (malloc_ok (snd (malloc_ok h))) then (- 1, keep)
                      else (0, Some n, if fresh \<and> live_addr \<noteq> None then Some fresh_addr else live_addr,
                            if fresh_port > 0 then fresh_port else live_port))))"

section \<open>Publishing\<close>

text \<open>
  Publishing has two locked parts too: the first picks the mapping and the packet id, the second counts the message or drops the
  connection. \<open>sent\<close> is whether the write succeeds.
\<close>

datatype pub_start = Pub_ret int | Pub_send int string int nat

definition mqtt_publish_begin :: "string option \<Rightarrow> bytes option \<Rightarrow> nat \<Rightarrow> mqtt_bridge \<Rightarrow> pub_start \<times> mqtt_bridge" where
  "mqtt_publish_begin subject payload len br =
     (if subject = None \<or> subject = Some [] then (Pub_ret (- 1), br)
      else if len > 0 \<and> payload = None then (Pub_ret (- 1), br)
      else case mqtt_begin_op br of
        None \<Rightarrow> (Pub_ret (- 1), br)
      | Some br \<Rightarrow>
          if \<not> mb_connected br \<or> mb_fd br < 0 then (Pub_ret (- 1), mqtt_end_op br)
          else case find (\<lambda>m. mm_active m \<and> mm_subject m = the subject) (mb_mappings br) of
            None \<Rightarrow> (Pub_ret 0, mqtt_end_op br)
          | Some m \<Rightarrow>
              (let pid = (mb_next_pid br + 1) mod 65536;
                   pid = (if pid = 0 then 1 else pid)
               in if mm_qos m > 0
                  then (Pub_send (mb_fd br) (take (CMQ_MQTT_TOPIC_MAX - 1) (mm_topic m)) (mm_qos m) pid, br\<lparr>mb_next_pid := pid\<rparr>)
                  else (Pub_send (mb_fd br) (take (CMQ_MQTT_TOPIC_MAX - 1) (mm_topic m)) (mm_qos m) 0, br)))"

definition mqtt_publish_packet :: "string \<Rightarrow> bytes option \<Rightarrow> nat \<Rightarrow> int \<Rightarrow> nat \<Rightarrow> bytes option" where
  "mqtt_publish_packet topic payload len qos pid =
     cmq_mqtt_encode_publish (wrap64 (16 + length topic + len)) (Some (map byte_of topic)) payload len qos pid"

definition mqtt_publish_finish :: "int \<Rightarrow> bool \<Rightarrow> mqtt_bridge \<Rightarrow> int \<times> wire \<times> mqtt_bridge" where
  "mqtt_publish_finish fd wrote br =
     (if \<not> wrote
      then (case (if mb_fd br = fd then mqtt_disconnect_unlocked br else ([], br)) of (w, br) \<Rightarrow> (- 1, w, mqtt_end_op br))
      else (1, [], mqtt_end_op (if mb_connected br \<and> mb_fd br = fd then br\<lparr>mb_messages_out := mb_messages_out br + 1\<rparr> else br)))"

definition cmq_mqtt_bridge_publish ::
  "heap \<Rightarrow> bool \<Rightarrow> string option \<Rightarrow> bytes option \<Rightarrow> nat \<Rightarrow> mqtt_bridge \<Rightarrow> int \<times> wire \<times> mqtt_bridge" where
  "cmq_mqtt_bridge_publish h sent subject payload len br =
     (case mqtt_publish_begin subject payload len br of
        (Pub_ret rc, br) \<Rightarrow> (rc, [], br)
      | (Pub_send fd topic qos pid, br) \<Rightarrow>
          if \<not> fst (malloc_ok h) then (- 1, [], mqtt_end_op br)
          else case mqtt_publish_packet topic payload len qos pid of
            None \<Rightarrow> mqtt_publish_finish fd False br
          | Some pkt \<Rightarrow>
              (case mqtt_publish_finish fd sent br of (rc, w, br) \<Rightarrow> (rc, (fd, pkt) # w, br)))"

section \<open>Properties of the packets\<close>

lemma length_rl_bytes: "length (rl_bytes v) = rl_needed v"
  by (induction v rule: rl_bytes.induct) (subst rl_bytes.simps, subst rl_needed.simps, simp)

lemma rl_needed_le: "rl_needed v \<le> Suc n \<longleftrightarrow> v < 128 ^ Suc n"
proof (induction n arbitrary: v)
  case 0
  have "rl_needed w > 0" for w by (subst rl_needed.simps) simp
  from this [of "v div 128"] show ?case by (subst rl_needed.simps) (auto simp: div_eq_0_iff)
next
  case (Suc n)
  have "v div 128 < 128 ^ Suc n \<longleftrightarrow> v < 128 ^ Suc (Suc n)"
    by (simp add: less_mult_imp_div_less div_less_iff_less_mult mult.commute)
  moreover have "v div 128 = 0 \<Longrightarrow> v < 128 ^ Suc (Suc n)"
    using power_increasing [of 1 "Suc (Suc n)" "128 :: nat"] by (simp add: div_eq_0_iff del: power_Suc)
  ultimately show ?case
    using Suc.IH [of "v div 128"] by (subst rl_needed.simps) auto
qed

lemma rl_needed_4: "rl_needed v \<le> 4 \<longleftrightarrow> v < 268435456"
  using rl_needed_le [of v 3] by simp

lemma rl_needed_pos: "0 < rl_needed v"
  by (subst rl_needed.simps) simp

lemma frame_fits:
  assumes "v \<le> 0x0FFFFFFF" "v + 5 \<le> len"
  shows "bridge_remaining_length 1 len v = Some (rl_bytes v)"
    "(v > 0x0FFFFFFF \<or> len < 5 \<or> v > len - 5) = False"
    "(1 + length (rl_bytes v) > len \<or> len - (1 + length (rl_bytes v)) < v) = False"
proof -
  have "rl_needed v \<le> 4" using assms by (simp add: rl_needed_4)
  then show "bridge_remaining_length 1 len v = Some (rl_bytes v)"
    "(v > 0x0FFFFFFF \<or> len < 5 \<or> v > len - 5) = False"
    "(1 + length (rl_bytes v) > len \<or> len - (1 + length (rl_bytes v)) < v) = False"
    using assms unfolding bridge_remaining_length_def length_rl_bytes by auto
qed

lemma length_put_be16 [simp]: "length (put_be16 n) = 2"
  by (simp add: put_be16_def)

definition get_be16 :: "u8 \<Rightarrow> u8 \<Rightarrow> nat" where
  "get_be16 a b = unat a * 256 + unat b"

lemma put_be16E:
  assumes "n < 65536"
  obtains a b where "put_be16 n = [a, b]" "get_be16 a b = n"
proof
  show "put_be16 n = [of_nat (n div 256 mod 256), of_nat (n mod 256)]" by (simp add: put_be16_def)
  have "n div 256 < 256" using assms by simp
  then show "get_be16 (of_nat (n div 256 mod 256)) (of_nat (n mod 256)) = n"
    by (simp add: get_be16_def unat_of_nat)
qed

text \<open>
  What PUBLISH looks like. A packet is written exactly when the arguments are legal and it fits the buffer with five bytes to
  spare for the header.
\<close>

lemma cmq_mqtt_encode_publish_eq:
  assumes "length t \<le> 0xFFFF" "0 \<le> qos" "qos \<le> 2" "qos > 0 \<Longrightarrow> pid \<noteq> 0" "plen = length payload"
    and v: "v = 2 + length t + plen + (if qos > 0 then 2 else 0)"
    and "v \<le> 0x0FFFFFFF" "v + 5 \<le> len"
  shows "cmq_mqtt_encode_publish len (Some t) (Some payload) plen qos pid =
     Some ((0x30 OR push_bit 1 (of_int qos AND 3)) #
       rl_bytes v @ put_be16 (length t) @ t @ (if qos > 0 then put_be16 pid else []) @ payload)"
proof -
  have g: "(qos < 0 \<or> qos > 2) = False" "(qos > 0 \<and> pid = 0) = False" "(plen > 0 \<and> Some payload = None) = False"
    "(length t > 0xFFFF \<or> length t > SIZE_MAX - 2) = False" "(plen > SIZE_MAX - (2 + length t)) = False"
    "(qos > 0 \<and> 2 + length t + plen > SIZE_MAX - 2) = False"
    using assms by (auto simp: SIZE_MAX_def split: if_splits)
  have v': "(if qos > 0 then 2 + length t + plen + 2 else 2 + length t + plen) = v" using v by simp
  have p: "(if plen > 0 then take plen (the (Some payload)) else []) = payload" using assms(5) by simp
  show ?thesis
    unfolding cmq_mqtt_encode_publish_def option.case Let_def v' p g frame_fits [OF assms(7,8)] if_False
    by (simp add: CMQ_MQTT_PUBLISH_def)
qed

text \<open>
  CONNECT counts ten bytes of variable header and the client id, but not the two bytes of the id's length. The packet is two bytes
  longer than it says, and may be two bytes longer than the buffer.
\<close>

lemma cmq_mqtt_encode_connect_eq:
  assumes "0 \<le> ka" "ka \<le> 65535" "length cid \<le> 0xFFFF" "20 \<le> len" "length cid + 15 \<le> len"
  shows "cmq_mqtt_encode_connect len (Some cid) ka clean =
     Some (0x10 # rl_bytes (10 + length cid) @ [0x00, 0x04, 0x4D, 0x51, 0x54, 0x54, 0x04, if clean then 0x02 else 0x00] @
       put_be16 (nat ka) @ put_be16 (length cid) @ cid)"
proof -
  have g: "(len < 20) = False" "(ka < 0 \<or> ka > 65535) = False" "(length cid > 0xFFFF \<or> length cid > SIZE_MAX - 10) = False"
    using assms by (auto simp: SIZE_MAX_def)
  have "10 + length cid \<le> 0x0FFFFFFF" "10 + length cid + 5 \<le> len" using assms by auto
  note fits = frame_fits [OF this]
  show ?thesis
    unfolding cmq_mqtt_encode_connect_def option.case Let_def g fits if_False by (simp add: CMQ_MQTT_CONNECT_def)
qed

lemma connect_overruns_buffer:
  assumes "length cid \<ge> 16380" "length cid \<le> 0xFFFF"
  obtains pkt where "cmq_mqtt_encode_connect (length cid + 15) (Some cid) 60 True = Some pkt" "length pkt > length cid + 15"
proof
  have "rl_needed (10 + length cid) > 2" using rl_needed_le [of "10 + length cid" 1] assms by simp
  then show "length (0x10 # rl_bytes (10 + length cid) @ [0x00, 0x04, 0x4D, 0x51, 0x54, 0x54, 0x04, if True then 0x02 else 0x00] @
       put_be16 (nat 60) @ put_be16 (length cid) @ cid) > length cid + 15"
    by (simp add: length_rl_bytes)
  show "cmq_mqtt_encode_connect (length cid + 15) (Some cid) 60 True = Some (0x10 # rl_bytes (10 + length cid) @
       [0x00, 0x04, 0x4D, 0x51, 0x54, 0x54, 0x04, if True then 0x02 else 0x00] @ put_be16 (nat 60) @ put_be16 (length cid) @ cid)"
    using assms by (intro cmq_mqtt_encode_connect_eq) auto
qed

section \<open>Properties of topics and mappings\<close>

lemma topic_roundtrip:
  assumes "length t < len" "\<forall>c \<in> set t. c \<noteq> CHR ''.'' \<and> c \<noteq> CHR ''*'' \<and> c \<noteq> CHR ''>''"
  shows "cmq_mqtt_subject_to_topic (cmq_mqtt_topic_to_subject (Some t) len) len = Some t"
proof -
  have "map (subject_char \<circ> topic_char) t = t"
    using assms(2) by (intro map_idI) (auto simp: subject_char_def topic_char_def)
  then show ?thesis
    using assms(1) by (auto simp: cmq_mqtt_subject_to_topic_def cmq_mqtt_topic_to_subject_def)
qed

lemma topic_never_truncated:
  "cmq_mqtt_topic_to_subject (Some t) len = Some s \<Longrightarrow> length s = length t \<and> length t < len"
  by (auto simp: cmq_mqtt_topic_to_subject_def split: if_splits)

text \<open>The table as a map from topics, and its invariant.\<close>

definition maps_view :: "mqtt_bridge \<Rightarrow> string \<Rightarrow> mqtt_mapping option" where
  "maps_view br t = find (\<lambda>m. mm_topic m = t) (mb_mappings br)"

definition maps_ok :: "mqtt_bridge \<Rightarrow> bool" where
  "maps_ok br \<longleftrightarrow> distinct (map mm_topic (mb_mappings br)) \<and> length (mb_mappings br) \<le> CMQ_MQTT_MAX_MAPPINGS \<and>
     list_all (\<lambda>m. 0 \<le> mm_qos m \<and> mm_qos m \<le> 2 \<and> length (mm_subject m) < CMQ_MQTT_TOPIC_MAX \<and>
       length (mm_topic m) < CMQ_MQTT_TOPIC_MAX \<and> mm_active m) (mb_mappings br)"

lemma find_topic_None: "find_topic t ms = None \<longleftrightarrow> t \<notin> mm_topic ` set ms"
  by (auto simp: find_topic_def first_index_None)

lemma find_topic_Some:
  assumes "find_topic t ms = Some i"
  obtains xs m ys where "ms = xs @ m # ys" "length xs = i" "mm_topic m = t" "t \<notin> mm_topic ` set xs"
proof -
  from assms obtain xs m ys where "ms = xs @ m # ys" "length xs = i" "mm_topic m = t" "\<forall>m' \<in> set xs. mm_topic m' \<noteq> t"
    unfolding find_topic_def by (rule first_index_split)
  then show thesis by (intro that) auto
qed

lemma find_none_topic: "t \<notin> mm_topic ` set xs \<Longrightarrow> find (\<lambda>m. mm_topic m = t) xs = None"
  by (auto simp: find_None_iff)

lemma mqtt_find_mapping_view: "mqtt_find_mapping_impl (Some t) br = maps_view br t"
proof (cases "find_topic t (mb_mappings br)")
  case None
  then show ?thesis by (simp add: mqtt_find_mapping_impl_def maps_view_def find_topic_None find_none_topic)
next
  case (Some i)
  have "mqtt_find_mapping_impl (Some t) br = Some (mb_mappings br ! i)" by (simp add: mqtt_find_mapping_impl_def Some)
  with Some show ?thesis
    by (elim find_topic_Some) (auto simp: maps_view_def find_append find_none_topic)
qed

lemma mqtt_add_mapping_view:
  assumes "mqtt_add_mapping_impl (Some s) (Some t) qos br = (0, br')" "maps_ok br"
  shows "maps_ok br'"
    "maps_view br' = (maps_view br)(t \<mapsto> \<lparr>mm_subject = s, mm_topic = t, mm_qos = qos, mm_active = True\<rparr>)"
proof -
  have g: "0 \<le> qos" "qos \<le> 2" "length s < CMQ_MQTT_TOPIC_MAX" "length t < CMQ_MQTT_TOPIC_MAX"
    using assms(1) by (auto simp: mqtt_add_mapping_impl_def strnlen_def split: if_splits)
  then have tk: "take (CMQ_MQTT_TOPIC_MAX - 1) s = s" "take (CMQ_MQTT_TOPIC_MAX - 1) t = t" by auto
  have "maps_ok br' \<and> maps_view br' =
     (maps_view br)(t \<mapsto> \<lparr>mm_subject = s, mm_topic = t, mm_qos = qos, mm_active = True\<rparr>)"
  proof (cases "find_topic t (mb_mappings br)")
    case None
    then have br': "br' = br\<lparr>mb_mappings := mb_mappings br @ [\<lparr>mm_subject = s, mm_topic = t, mm_qos = qos, mm_active = True\<rparr>]\<rparr>"
      and "length (mb_mappings br) < CMQ_MQTT_MAX_MAPPINGS"
      using assms(1) g by (auto simp: mqtt_add_mapping_impl_def strnlen_def tk split: if_splits)
    moreover have "t \<notin> mm_topic ` set (mb_mappings br)" using None by (simp add: find_topic_None)
    ultimately show ?thesis using assms(2) g
      by (auto simp: maps_ok_def maps_view_def fun_eq_iff find_append find_none_topic split: option.splits)
  next
    case (Some i)
    from Some show ?thesis
    proof (rule find_topic_Some)
      fix xs m ys
      assume ms: "mb_mappings br = xs @ m # ys" "length xs = i" "mm_topic m = t" "t \<notin> mm_topic ` set xs"
      have br': "br' = br\<lparr>mb_mappings := xs @ m\<lparr>mm_subject := s, mm_qos := qos\<rparr> # ys\<rparr>"
        using assms(1) g Some ms(2) tk unfolding mqtt_add_mapping_impl_def by (auto simp add: strnlen_def ms(1))
      have act: "mm_active m" using assms(2) by (simp add: maps_ok_def ms(1))
      have m: "m\<lparr>mm_subject := s, mm_qos := qos\<rparr> = \<lparr>mm_subject = s, mm_topic = t, mm_qos = qos, mm_active = True\<rparr>"
        using ms(3) act by (cases m) simp
      show ?thesis unfolding br' m using assms(2) g ms
        by (auto simp: maps_ok_def maps_view_def fun_eq_iff find_append find_none_topic split: option.splits)
    qed
  qed
  then show "maps_ok br'"
    "maps_view br' = (maps_view br)(t \<mapsto> \<lparr>mm_subject = s, mm_topic = t, mm_qos = qos, mm_active = True\<rparr>)" by auto
qed

lemma mqtt_remove_mapping_view:
  assumes "mqtt_remove_mapping_impl (Some t) br = (rc, br')" "maps_ok br"
  shows "maps_ok br'" "maps_view br' = (maps_view br)(t := None)" "rc = 0 \<longleftrightarrow> maps_view br t \<noteq> None"
proof -
  have "maps_ok br' \<and> maps_view br' = (maps_view br)(t := None) \<and> (rc = 0 \<longleftrightarrow> maps_view br t \<noteq> None)"
  proof (cases "find_topic t (mb_mappings br)")
    case None
    then have "br' = br" "rc = - 1" "maps_view br t = None"
      using assms(1) None find_none_topic [of t "mb_mappings br"]
      by (simp_all add: mqtt_remove_mapping_impl_def maps_view_def find_topic_None [symmetric])
    then show ?thesis using assms(2) by auto
  next
    case (Some i)
    from Some show ?thesis
    proof (rule find_topic_Some)
      fix xs m ys
      assume ms: "mb_mappings br = xs @ m # ys" "length xs = i" "mm_topic m = t" "t \<notin> mm_topic ` set xs"
      have br': "br' = br\<lparr>mb_mappings := xs @ ys\<rparr>" "rc = 0"
        using assms(1) Some ms(2) unfolding mqtt_remove_mapping_impl_def by (simp_all add: ms(1))
      show ?thesis unfolding br' using assms(2) ms
        by (auto simp: maps_ok_def maps_view_def fun_eq_iff find_append find_none_topic split: option.splits)
    qed
  qed
  then show "maps_ok br'" "maps_view br' = (maps_view br)(t := None)" "rc = 0 \<longleftrightarrow> maps_view br t \<noteq> None" by auto
qed

section \<open>Properties of the connection\<close>

text \<open>
  A dial that was cancelled is never installed: after a disconnect the connection stays closed however the dial ends. The
  generation is a 32-bit counter, so this holds as long as it does not come round.
\<close>

lemma cancelled_dial_not_installed:
  assumes "mb_cancel_gen br \<noteq> gen"
  shows "mqtt_connect_finish alive addr port gen dialled br = (- 1, [], mqtt_end_op (br\<lparr>mb_dialing := False\<rparr>))"
  using assms by (simp add: mqtt_connect_finish_def Let_def split: option.splits)

lemma disconnect_cancels:
  assumes "\<not> mb_dying br" "mb_cancel_gen br < 2 ^ 32" "cmq_mqtt_bridge_disconnect br = (rc, w, br')"
  shows "rc = 0" "mb_fd br' = - 1" "\<not> mb_connected br'" "mb_cancel_gen br' \<noteq> mb_cancel_gen br" "mb_in_flight br' = mb_in_flight br"
proof -
  have "(mb_cancel_gen br + 1) mod 2 ^ 32 \<noteq> mb_cancel_gen br"
    using assms(2) by (cases "mb_cancel_gen br + 1 = 2 ^ 32") auto
  then show "rc = 0" "mb_fd br' = - 1" "\<not> mb_connected br'" "mb_cancel_gen br' \<noteq> mb_cancel_gen br"
    "mb_in_flight br' = mb_in_flight br"
    using assms(1,3) by (auto simp: cmq_mqtt_bridge_disconnect_def mqtt_begin_op_def mqtt_bridge_disconnect_impl_def
        mqtt_disconnect_unlocked_def mqtt_end_op_def Let_def)
qed

text \<open>
  Dials are meant to be serialized by the flag. A dial that fails after a disconnect clears the flag of the dial started since, so
  a third can run beside the second.
\<close>

definition fresh_bridge :: mqtt_bridge where
  "fresh_bridge = the (cmq_mqtt_bridge_create [] (Some ''c''))"

lemma dials_overlap:
  "\<exists>b1 b2 b3 b4 b5 k1 k2 k3.
     mqtt_connect_begin (\<lambda>_. False) (Some ''10.0.0.1'') 1883 fresh_bridge = (Conn_dial k1 True ''c'' 0, [], b1) \<and>
     cmq_mqtt_bridge_disconnect b1 = (0, [], b2) \<and>
     mqtt_connect_begin (\<lambda>_. False) (Some ''10.0.0.1'') 1883 b2 = (Conn_dial k2 True ''c'' 1, [], b3) \<and>
     mqtt_connect_finish (\<lambda>_. False) ''10.0.0.1'' 1883 0 None b3 = (- 1, [], b4) \<and>
     mqtt_connect_begin (\<lambda>_. False) (Some ''10.0.0.1'') 1883 b4 = (Conn_dial k3 True ''c'' 1, [], b5) \<and>
     mb_in_flight b5 = 2"
  by (simp add: fresh_bridge_def cmq_mqtt_bridge_create_def strnlen_def CMQ_MQTT_CLIENT_ID_def mqtt_connect_begin_def
      mqtt_begin_op_def cmq_mqtt_bridge_disconnect_def mqtt_bridge_disconnect_impl_def mqtt_disconnect_unlocked_def
      mqtt_end_op_def mqtt_connect_finish_def Let_def)

text \<open>Every call that enters leaves: the count of operations in flight is what it was.\<close>

lemma connect_in_flight:
  "cmq_mqtt_bridge_connect alive sock peer addr port br = (rc, w, br') \<Longrightarrow> mb_in_flight br' = mb_in_flight br"
  by (auto simp: cmq_mqtt_bridge_connect_def mqtt_connect_begin_def mqtt_connect_finish_def mqtt_begin_op_def mqtt_end_op_def
      mqtt_disconnect_unlocked_def Let_def split: option.splits if_splits)

lemma publish_in_flight:
  "cmq_mqtt_bridge_publish h sent subject payload len br = (rc, w, br') \<Longrightarrow> mb_in_flight br' = mb_in_flight br"
  by (auto simp: cmq_mqtt_bridge_publish_def mqtt_publish_begin_def mqtt_publish_finish_def mqtt_begin_op_def mqtt_end_op_def
      mqtt_disconnect_unlocked_def Let_def split: option.splits if_splits)

text \<open>A mapped subject on a live connection goes out as one PUBLISH that carries the mapping's topic, its QoS and the payload.\<close>

lemma publish_forwards:
  assumes "\<not> mb_dying br" "mb_connected br" "mb_fd br \<ge> 0" "subject \<noteq> []"
    and m: "find (\<lambda>m. mm_active m \<and> mm_subject m = subject) (mb_mappings br) = Some m"
    and "length (mm_topic m) < CMQ_MQTT_TOPIC_MAX" "0 \<le> mm_qos m" "mm_qos m \<le> 2"
    and len: "length payload < 0x0FFFF000"
  obtains pid where "pid < 65536" "mm_qos m > 0 \<longrightarrow> pid > 0"
    "cmq_mqtt_bridge_publish [] True (Some subject) (Some payload) (length payload) br =
       (1, [(mb_fd br, (0x30 OR push_bit 1 (of_int (mm_qos m) AND 3)) #
          rl_bytes (2 + length (mm_topic m) + length payload + (if mm_qos m > 0 then 2 else 0)) @
          put_be16 (length (mm_topic m)) @ map byte_of (mm_topic m) @ (if mm_qos m > 0 then put_be16 pid else []) @ payload)],
        br\<lparr>mb_next_pid := (if mm_qos m > 0 then pid else mb_next_pid br), mb_messages_out := mb_messages_out br + 1\<rparr>)"
proof -
  define nxt where "nxt = (let p = (mb_next_pid br + 1) mod 65536 in if p = 0 then 1 else p)"
  define pid where "pid = (if mm_qos m > 0 then nxt else 0)"
  have nxt: "0 < nxt" "nxt < 65536" by (auto simp: nxt_def Let_def)
  have tk: "take (CMQ_MQTT_TOPIC_MAX - 1) (mm_topic m) = mm_topic m" using assms(6) by auto
  have pkt: "mqtt_publish_packet (mm_topic m) (Some payload) (length payload) (mm_qos m) pid =
     Some ((0x30 OR push_bit 1 (of_int (mm_qos m) AND 3)) #
          rl_bytes (2 + length (mm_topic m) + length payload + (if mm_qos m > 0 then 2 else 0)) @
          put_be16 (length (mm_topic m)) @ map byte_of (mm_topic m) @ (if mm_qos m > 0 then put_be16 pid else []) @ payload)"
  proof -
    have "wrap64 (16 + length (mm_topic m) + length payload) = 16 + length (mm_topic m) + length payload"
      using assms(6) len by (simp add: wrap64_def CMQ_MQTT_TOPIC_MAX_def)
    then show ?thesis
      using assms(6-8) len nxt unfolding mqtt_publish_packet_def
      by (subst cmq_mqtt_encode_publish_eq [OF _ _ _ _ refl refl]) (auto simp: CMQ_MQTT_TOPIC_MAX_def pid_def)
  qed
  have "mqtt_publish_begin (Some subject) (Some payload) (length payload) br =
     (Pub_send (mb_fd br) (mm_topic m) (mm_qos m) pid, br\<lparr>mb_in_flight := mb_in_flight br + 1,
       mb_next_pid := (if mm_qos m > 0 then pid else mb_next_pid br)\<rparr>)"
    using assms(1-4) m tk by (simp add: mqtt_publish_begin_def mqtt_begin_op_def nxt_def pid_def Let_def)
  then have "cmq_mqtt_bridge_publish [] True (Some subject) (Some payload) (length payload) br =
     (1, [(mb_fd br, the (mqtt_publish_packet (mm_topic m) (Some payload) (length payload) (mm_qos m) pid))],
      br\<lparr>mb_next_pid := (if mm_qos m > 0 then pid else mb_next_pid br), mb_messages_out := mb_messages_out br + 1\<rparr>)"
    using assms(2) pkt unfolding cmq_mqtt_bridge_publish_def
    by (simp add: mqtt_publish_finish_def mqtt_end_op_def)
  moreover have "pid < 65536" "mm_qos m > 0 \<longrightarrow> pid > 0" using nxt by (auto simp: pid_def)
  ultimately show thesis using that [of pid] unfolding pkt option.sel by blast
qed

end
