(* ===== verification/CMQ_Mqtt_Codec.thy ===== *)
theory CMQ_Mqtt_Codec
  imports CMQ_Mqtt "HOL-Library.Monad_Syntax"
begin

text \<open>
  The decoders of the MQTT listener (\<^verbatim>\<open>src/enterprise/cmq_mqtt_server.c\<close>): remaining length, property lists, the header of
  PUBLISH, CONNECT, and the matching of topics against filters. A buffer is the list of its bytes; a position in it is the list of
  the bytes from there on. A return of -1 is \<open>None\<close>.
\<close>

section \<open>Remaining length\<close>

text \<open>The loop of \<^verbatim>\<open>decode_remaining_length\<close>, \<open>n\<close> bytes in; the value is computed in 32 bits.\<close>

function decode_rl_from :: "bytes \<Rightarrow> nat \<Rightarrow> nat \<Rightarrow> nat \<Rightarrow> (nat \<times> nat) option" where
  "decode_rl_from buf n multiplier v =
     (if n \<ge> 4 \<or> n \<ge> length buf then None
      else
        (let b = buf ! n; v = (v + unat (b AND 0x7F) * multiplier) mod 2 ^ 32
         in if b AND 0x80 = 0 then Some (n + 1, v)
            else decode_rl_from buf (n + 1) (multiplier * 128 mod 2 ^ 32) v))"
  by auto
termination
  by (relation "measure (\<lambda>(buf, n, m, v). 4 - n)") auto

declare decode_rl_from.simps [simp del]

definition decode_remaining_length :: "bytes \<Rightarrow> (nat \<times> nat) option" where
  "decode_remaining_length buf = decode_rl_from buf 0 1 0"

text \<open>The listener's encoder has no bound of its own.\<close>

definition encode_remaining_length :: "nat \<Rightarrow> bytes" where
  "encode_remaining_length len = rl_bytes len"

definition be16_at :: "bytes \<Rightarrow> nat \<Rightarrow> nat" where
  "be16_at p i = get_be16 (p ! i) (p ! (i + 1))"

definition mqtt_read_str :: "bytes \<Rightarrow> (bytes \<times> nat) option" where
  "mqtt_read_str p =
     (if length p < 2 then None
      else (let n = be16_at p 0 in if 2 + n > length p then None else Some (take n (drop 2 p), 2 + n)))"

section \<open>Properties of version 5\<close>

definition CMQ_MQTT_USER_PROPS_MAX :: nat where "CMQ_MQTT_USER_PROPS_MAX = 4"

record mqtt_props =
  mp_payload_format :: u8
  mp_expiry_interval :: u32
  mp_topic_alias :: nat
  mp_sub_id :: nat
  mp_content_type :: bytes
  mp_response_topic :: bytes
  mp_corr_data :: bytes
  mp_user :: "(bytes \<times> bytes) list"
  mp_consumed :: nat

definition props_init :: "nat \<Rightarrow> mqtt_props" where
  "props_init consumed = \<lparr>mp_payload_format = 0xFF, mp_expiry_interval = 0, mp_topic_alias = 0, mp_sub_id = 0,
     mp_content_type = [], mp_response_topic = [], mp_corr_data = [], mp_user = [], mp_consumed = consumed\<rparr>"

text \<open>The switch: one property with identifier \<open>i\<close>, from the bytes after it. The answer carries the bytes left.\<close>

definition props_item :: "u8 \<Rightarrow> bytes \<Rightarrow> mqtt_props \<Rightarrow> (mqtt_props \<times> bytes) option" where
  "props_item i p props =
     (if i \<in> {0x01, 0x17, 0x19, 0x24, 0x25, 0x28, 0x29, 0x2A} then
        (if length p < 1 then None
         else Some (if i = 0x01 then props\<lparr>mp_payload_format := p ! 0\<rparr> else props, drop 1 p))
      else if i \<in> {0x21, 0x22, 0x23} then
        (if length p < 2 then None
         else Some (if i = 0x23 then props\<lparr>mp_topic_alias := be16_at p 0\<rparr> else props, drop 2 p))
      else if i \<in> {0x02, 0x11, 0x18, 0x27} then
        (if length p < 4 then None
         else Some (if i = 0x02 then props\<lparr>mp_expiry_interval := get_be32 (p ! 0) (p ! 1) (p ! 2) (p ! 3)\<rparr> else props, drop 4 p))
      else if i = 0x0B then
        (case decode_remaining_length p of
           None \<Rightarrow> None
         | Some (n, v) \<Rightarrow> Some (props\<lparr>mp_sub_id := v\<rparr>, drop n p))
      else if i \<in> {0x03, 0x08, 0x1A, 0x1C, 0x1F, 0x12, 0x15} then
        (case mqtt_read_str p of
           None \<Rightarrow> None
         | Some (s, used) \<Rightarrow>
             Some (if i = 0x03 then props\<lparr>mp_content_type := s\<rparr>
                   else if i = 0x08 then props\<lparr>mp_response_topic := s\<rparr> else props, drop used p))
      else if i \<in> {0x09, 0x16} then
        (case mqtt_read_str p of
           None \<Rightarrow> None
         | Some (s, used) \<Rightarrow> Some (if i = 0x09 then props\<lparr>mp_corr_data := s\<rparr> else props, drop used p))
      else if i = 0x26 then
        (case mqtt_read_str p of
           None \<Rightarrow> None
         | Some (k, used) \<Rightarrow>
             (case mqtt_read_str (drop used p) of
                None \<Rightarrow> None
              | Some (v, u2) \<Rightarrow>
                  Some (if length (mp_user props) < CMQ_MQTT_USER_PROPS_MAX
                        then props\<lparr>mp_user := mp_user props @ [(k, v)]\<rparr> else props, drop (used + u2) p)))
      else None)"

text \<open>
  The loop over a region. Whether it ends depends on what every case of the switch leaves, so it is defined as a partial function:
  \<open>None\<close> is a loop that does not return, \<open>Some None\<close> is the return of -1.
\<close>

partial_function (option) props_loop :: "bytes \<Rightarrow> mqtt_props \<Rightarrow> mqtt_props option option" where
  "props_loop p props =
     (case p of
        [] \<Rightarrow> Some (Some props)
      | i # q \<Rightarrow>
          (case props_item i q props of
             None \<Rightarrow> Some None
           | Some (props, rest) \<Rightarrow> props_loop rest props))"

definition cmq_mqtt_props_decode :: "bytes \<Rightarrow> mqtt_props option option" where
  "cmq_mqtt_props_decode buf =
     (if length buf = 0 then Some None
      else case decode_remaining_length buf of
        None \<Rightarrow> Some None
      | Some (rl, props_len) \<Rightarrow>
          if rl + props_len > length buf then Some None
          else props_loop (take props_len (drop rl buf)) (props_init (rl + props_len)))"

text \<open>What a caller sees: the properties, or the failure.\<close>

definition props_decoded :: "bytes \<Rightarrow> mqtt_props option" where
  "props_decoded buf = (case cmq_mqtt_props_decode buf of None \<Rightarrow> None | Some r \<Rightarrow> r)"

section \<open>PUBLISH and CONNECT\<close>

definition cmq_mqtt_publish_payload_off :: "bytes \<Rightarrow> nat \<Rightarrow> bool \<Rightarrow> (nat \<times> mqtt_props) option" where
  "cmq_mqtt_publish_payload_off vh qos v5 =
     (if length vh < 2 \<or> qos > 2 then None
      else
        (let off = 2 + be16_at vh 0
         in if off > length vh then None
            else if qos > 0 \<and> off + 2 > length vh then None
            else
              (let off = (if qos > 0 then off + 2 else off)
               in if v5
                  then (case props_decoded (drop off vh) of
                          None \<Rightarrow> None
                        | Some out \<Rightarrow> Some (off + mp_consumed out, out))
                  else Some (off, props_init 0))))"

definition CMQ_MQTT_WILL_PAYLOAD_MAX :: nat where "CMQ_MQTT_WILL_PAYLOAD_MAX = 4096"

record connect_info =
  ci_is_v5 :: bool
  ci_clean_session :: bool
  ci_will_flag :: bool
  ci_will_qos :: u8
  ci_will_retain :: bool
  ci_client_id :: bytes
  ci_username :: bytes
  ci_password :: bytes
  ci_will_topic :: bytes
  ci_will_payload :: bytes

text \<open>A byte array with a terminator, read as a C string.\<close>

definition c_string :: "bytes \<Rightarrow> bytes" where
  "c_string b = takeWhile (\<lambda>c. c \<noteq> 0) b"

definition guard :: "bool \<Rightarrow> unit option" where
  "guard b = (if b then Some () else None)"

definition connect_props :: "bool \<Rightarrow> bytes \<Rightarrow> nat \<Rightarrow> nat option" where
  "connect_props v5 buf off =
     (if v5 then map_option (\<lambda>cp. off + mp_consumed cp) (props_decoded (drop off buf)) else Some off)"

definition connect_will :: "bool \<Rightarrow> bool \<Rightarrow> bytes \<Rightarrow> nat \<Rightarrow> (bytes \<times> bytes \<times> nat) option" where
  "connect_will will v5 buf off =
     (if \<not> will then Some ([], [], off)
      else do {
        off \<leftarrow> connect_props v5 buf off;
        (s, used) \<leftarrow> mqtt_read_str (drop off buf);
        guard (\<not> (length s = 0 \<or> length s \<ge> 128));
        let off = off + used;
        guard (\<not> (off + 2 > length buf));
        let wplen = be16_at buf off;
        let off = off + 2;
        guard (\<not> (off + wplen > length buf \<or> wplen > CMQ_MQTT_WILL_PAYLOAD_MAX));
        Some (c_string s, take wplen (drop off buf), off + wplen)
      })"

definition connect_cred :: "bool \<Rightarrow> bytes \<Rightarrow> nat \<Rightarrow> (bytes \<times> nat) option" where
  "connect_cred present buf off =
     (if \<not> present then Some ([], off)
      else do {
        (s, used) \<leftarrow> mqtt_read_str (drop off buf);
        guard (\<not> length s \<ge> 64);
        Some (c_string s, off + used)
      })"

definition cmq_mqtt_parse_connect :: "bytes \<Rightarrow> connect_info option" where
  "cmq_mqtt_parse_connect buf = do {
     guard (\<not> length buf < 10);
     guard (\<not> (buf ! 0 \<noteq> 0 \<or> buf ! 1 \<noteq> 4));
     guard (take 4 (drop 2 buf) = [0x4D, 0x51, 0x54, 0x54]);
     let proto_level = buf ! 6;
     guard (\<not> (proto_level \<noteq> 0x04 \<and> proto_level \<noteq> 0x05));
     let v5 = (proto_level = 0x05);
     let flags = buf ! 7;
     guard (flags AND 0x01 = 0);
     let will = (flags AND 0x04 \<noteq> 0);
     let will_qos = drop_bit 3 flags AND 0x03;
     let will_retain = (flags AND 0x20 \<noteq> 0);
     guard (\<not> (\<not> will \<and> (will_qos \<noteq> 0 \<or> will_retain)));
     guard (\<not> will_qos > 2);
     off \<leftarrow> connect_props v5 buf 10;
     (s, used) \<leftarrow> mqtt_read_str (drop off buf);
     guard (\<not> (length s = 0 \<or> length s \<ge> 64));
     (wt, wp, off) \<leftarrow> connect_will will v5 buf (off + used);
     (user, off) \<leftarrow> connect_cred (flags AND 0x80 \<noteq> 0) buf off;
     (pass, off) \<leftarrow> connect_cred (flags AND 0x40 \<noteq> 0) buf off;
     Some \<lparr>ci_is_v5 = v5, ci_clean_session = (flags AND 0x02 \<noteq> 0), ci_will_flag = will, ci_will_qos = will_qos,
           ci_will_retain = will_retain, ci_client_id = c_string s, ci_username = user, ci_password = pass,
           ci_will_topic = wt, ci_will_payload = wp\<rparr>
   }"

section \<open>Matching topics\<close>

definition MQTT_TOPIC_MAX :: nat where "MQTT_TOPIC_MAX = 256"

text \<open>The loop: one level of both per round. \<open>0x2F\<close> is the separator, \<open>0x2B\<close> and \<open>0x23\<close> are the wildcards.\<close>

function topic_match_from :: "bytes \<Rightarrow> bytes \<Rightarrow> int" where
  "topic_match_from p t =
     (if p = [] then (if t = [] then 1 else 0)
      else if hd p = 0x23 then 1
      else
        (let pl = takeWhile (\<lambda>c. c \<noteq> 0x2F) p; tl = takeWhile (\<lambda>c. c \<noteq> 0x2F) t
         in if t = [] then 0
            else if \<not> (length pl = 1 \<and> hd p = 0x2B) \<and> (length pl \<noteq> length tl \<or> pl \<noteq> tl) then 0
            else topic_match_from (drop (length pl + 1) p) (drop (length tl + 1) t)))"
  by auto
termination
  by (relation "measure (length \<circ> fst)") auto

declare topic_match_from.simps [simp del]

definition cmq_mqtt_topic_match :: "bytes option \<Rightarrow> bytes option \<Rightarrow> int" where
  "cmq_mqtt_topic_match pattern topic =
     (case (pattern, topic) of
        (Some p, Some t) \<Rightarrow>
          if length p > MQTT_TOPIC_MAX \<or> length t > MQTT_TOPIC_MAX then - 1
          else if 0x23 \<in> set p \<and> length (takeWhile (\<lambda>c. c \<noteq> 0x23) p) \<noteq> length p - 1 then - 1
          else topic_match_from p t
      | _ \<Rightarrow> - 1)"

section \<open>The decoders and the encoders\<close>

text \<open>Decoding undoes encoding, whatever follows.\<close>

lemma low7: "v < 128 \<Longrightarrow> unat (of_nat v AND 0x7F :: u8) = v" "v < 128 \<Longrightarrow> (of_nat v :: u8) AND 0x80 = 0"
proof -
  have "\<forall>v \<in> {..<128}. unat (of_nat v AND 0x7F :: u8) = v \<and> (of_nat v :: u8) AND 0x80 = 0"
    by code_simp
  then show "v < 128 \<Longrightarrow> unat (of_nat v AND 0x7F :: u8) = v" "v < 128 \<Longrightarrow> (of_nat v :: u8) AND 0x80 = 0" by auto
qed

lemma high7: "v < 128 \<Longrightarrow> unat ((of_nat v OR 0x80) AND 0x7F :: u8) = v" "((w :: u8) OR 0x80) AND 0x80 \<noteq> 0"
proof -
  have "\<forall>v \<in> {..<128}. unat ((of_nat v OR 0x80) AND 0x7F :: u8) = v" by code_simp
  then show "v < 128 \<Longrightarrow> unat ((of_nat v OR 0x80) AND 0x7F :: u8) = v" by auto
  have "bit (((w :: u8) OR 0x80) AND 0x80) 7" by (simp add: bit_simps) 
  then show "((w :: u8) OR 0x80) AND 0x80 \<noteq> 0" by (metis bit_0_eq bot_apply bot_bool_def)
qed

lemma decode_rl_bytes:
  assumes "n + rl_needed v \<le> 4" "length pre = n" "acc + v * 128 ^ n < 2 ^ 32"
  shows "decode_rl_from (pre @ rl_bytes v @ rest) n (128 ^ n) acc = Some (n + rl_needed v, acc + v * 128 ^ n)"
  using assms
proof (induction v arbitrary: n pre acc rule: rl_bytes.induct)
  case (1 v)
  have n: "n < 4" using 1(2) rl_needed_pos [of v] by linarith
  show ?case
  proof (cases "v div 128 > 0")
    case False
    then have v: "v < 128" by (simp add: div_eq_0_iff)
    then have rl: "rl_bytes v = [of_nat v]" "rl_needed v = 1"
      using rl_bytes.simps [of v] rl_needed.simps [of v] by simp_all
    show ?thesis using 1(3,4) n v unfolding rl
      by (subst decode_rl_from.simps) (simp add: low7 nth_append Let_def)
  next
    case True
    let ?b = "of_nat (v mod 128) OR 0x80 :: u8"
    have rl: "rl_bytes v = ?b # rl_bytes (v div 128)" "rl_needed v = 1 + rl_needed (v div 128)"
      using True rl_bytes.simps [of v] rl_needed.simps [of v] by simp_all
    have b: "unat (?b AND 0x7F) = v mod 128" by (rule high7) simp
    have p: "(128 :: nat) ^ n * 128 mod 2 ^ 32 = 128 ^ Suc n"
    proof -
      have "n \<in> {0, 1, 2, 3}" using n by auto
      then show ?thesis by auto
    qed
    have v: "acc + v mod 128 * 128 ^ n + v div 128 * 128 ^ Suc n = acc + v * 128 ^ n"
    proof -
      have "acc + r * 128 ^ n + q * 128 ^ Suc n = acc + (r + 128 * q) * 128 ^ n" for r q by (simp add: algebra_simps)
      then show ?thesis by (simp only: mod_mult_div_eq)
    qed
    then have lt: "acc + v mod 128 * 128 ^ n < 2 ^ 32" using 1(4) by linarith
    have "decode_rl_from ((pre @ [?b]) @ rl_bytes (v div 128) @ rest) (Suc n) (128 ^ Suc n) (acc + v mod 128 * 128 ^ n) =
        Some (Suc n + rl_needed (v div 128), acc + v mod 128 * 128 ^ n + v div 128 * 128 ^ Suc n)"
      using 1(2,3,4) rl v by (intro "1.IH" [OF True]) auto
    then show ?thesis
      using 1(3) n b p lt high7(2) [of "of_nat (v mod 128)"] v unfolding rl
      by (subst decode_rl_from.simps) (simp add: nth_append Let_def)
  qed
qed

lemma decode_encode_remaining_length:
  "v \<le> 0x0FFFFFFF \<Longrightarrow> decode_remaining_length (rl_bytes v @ rest) = Some (length (rl_bytes v), v)"
  using decode_rl_bytes [of 0 v "[]" 0 rest] rl_needed_4 [of v]
  by (simp add: decode_remaining_length_def length_rl_bytes)

lemma mqtt_read_str_put:
  assumes "length s < 65536"
  shows "mqtt_read_str (put_be16 (length s) @ s @ rest) = Some (s, 2 + length s)"
proof -
  obtain a b where "put_be16 (length s) = [a, b]" "get_be16 a b = length s" using put_be16E [OF assms] by metis
  then show ?thesis by (simp add: mqtt_read_str_def be16_at_def)
qed

text \<open>The offset of the payload in a PUBLISH of version 3.\<close>

lemma be16_at_put:
  "n < 65536 \<Longrightarrow> be16_at (put_be16 n @ rest) 0 = n"
  by (erule put_be16E) (simp add: be16_at_def)

lemma be16_at_append: "be16_at (pre @ p) (length pre) = be16_at p 0"
  by (simp add: be16_at_def nth_append)

lemma publish_payload_off_put:
  assumes "length t < 65536" "qos \<le> 2" "qos > 0 \<Longrightarrow> length pid = 2" "qos = 0 \<Longrightarrow> pid = []"
  shows "cmq_mqtt_publish_payload_off (put_be16 (length t) @ t @ pid @ payload) qos False =
    Some (2 + length t + length pid, props_init 0)"
  using assms be16_at_put [OF assms(1), of "t @ pid @ payload"]
  by (auto simp: cmq_mqtt_publish_payload_off_def Let_def)

section \<open>The loop over properties ends\<close>

lemma decode_rl_from_bounds:
  "decode_rl_from buf n m v = Some (k, r) \<Longrightarrow> n < k \<and> k \<le> length buf \<and> k \<le> 4"
proof (induction buf n m v rule: decode_rl_from.induct)
  case (1 buf n m v)
  show ?case
  proof (cases "n \<ge> 4 \<or> n \<ge> length buf")
    case True
    with "1.prems" show ?thesis by (subst (asm) decode_rl_from.simps) simp
  next
    case False
    with 1 show ?thesis
      by (subst (asm) (2) decode_rl_from.simps) (fastforce simp: Let_def split: if_splits)
  qed
qed

lemma decode_remaining_length_bounds:
  "decode_remaining_length buf = Some (k, r) \<Longrightarrow> 0 < k \<and> k \<le> length buf \<and> k \<le> 4"
  unfolding decode_remaining_length_def by (drule decode_rl_from_bounds) simp

lemma mqtt_read_str_bounds:
  "mqtt_read_str p = Some (s, used) \<Longrightarrow> used = 2 + length s \<and> used \<le> length p \<and> length s < 65536"
proof -
  have "get_be16 a b < 65536" for a b
    using unsigned_less [of a, where 'a=nat] unsigned_less [of b, where 'a=nat] by (simp add: get_be16_def)
  then show "mqtt_read_str p = Some (s, used) \<Longrightarrow> ?thesis"
    by (auto simp: mqtt_read_str_def be16_at_def Let_def split: if_splits)
qed

text \<open>Every case of the switch leaves a part of what it was given.\<close>

lemma props_item_left:
  "props_item i p props = Some (props', rest) \<Longrightarrow>
     length rest \<le> length p \<and> mp_consumed props' = mp_consumed props \<and>
     (length (mp_user props) \<le> CMQ_MQTT_USER_PROPS_MAX \<longrightarrow> length (mp_user props') \<le> CMQ_MQTT_USER_PROPS_MAX)"
  unfolding props_item_def
  by (auto split: if_splits option.splits)

lemma props_loop_returns:
  "\<exists>r. props_loop p props = Some r \<and> (\<forall>q. r = Some q \<longrightarrow> mp_consumed q = mp_consumed props \<and>
     (length (mp_user props) \<le> CMQ_MQTT_USER_PROPS_MAX \<longrightarrow> length (mp_user q) \<le> CMQ_MQTT_USER_PROPS_MAX))"
proof (induction p arbitrary: props rule: length_induct)
  case (1 p)
  show ?case
  proof (cases p)
    case Nil
    then show ?thesis by (subst props_loop.simps) simp
  next
    case (Cons i q)
    show ?thesis
    proof (cases "props_item i q props")
      case None
      then show ?thesis by (subst props_loop.simps) (simp add: Cons)
    next
      case (Some a)
      obtain props' rest where a: "a = (props', rest)" by (cases a)
      note left = props_item_left [OF Some [unfolded a]]
      obtain r where "props_loop rest props' = Some r" "\<forall>q. r = Some q \<longrightarrow> mp_consumed q = mp_consumed props' \<and>
          (length (mp_user props') \<le> CMQ_MQTT_USER_PROPS_MAX \<longrightarrow> length (mp_user q) \<le> CMQ_MQTT_USER_PROPS_MAX)"
        using 1 [rule_format, of rest props'] left by (auto simp: Cons)
      then show ?thesis using left by (subst props_loop.simps) (simp add: Cons Some a)
    qed
  qed
qed

lemma props_decode_returns: "\<exists>r. cmq_mqtt_props_decode buf = Some r"
proof -
  have "\<exists>r. props_loop p props = Some r" for p props using props_loop_returns by blast
  then show ?thesis by (auto simp: cmq_mqtt_props_decode_def simp del: not_None_eq split: option.split)
qed

lemma props_decoded_bounds:
  assumes "props_decoded buf = Some props"
  shows "mp_consumed props \<le> length buf" "0 < mp_consumed props" "length (mp_user props) \<le> CMQ_MQTT_USER_PROPS_MAX"
proof -
  from assms obtain rl n where d: "decode_remaining_length buf = Some (rl, n)" "rl + n \<le> length buf"
    and l: "props_loop (take n (drop rl buf)) (props_init (rl + n)) = Some (Some props)"
    by (auto simp: props_decoded_def cmq_mqtt_props_decode_def split: option.splits if_splits prod.splits)
  have "mp_consumed props = rl + n" "length (mp_user props) \<le> CMQ_MQTT_USER_PROPS_MAX"
    using props_loop_returns [of "take n (drop rl buf)" "props_init (rl + n)"] l by (auto simp: props_init_def)
  then show "mp_consumed props \<le> length buf" "0 < mp_consumed props" "length (mp_user props) \<le> CMQ_MQTT_USER_PROPS_MAX"
    using d decode_remaining_length_bounds [OF d(1)] by auto
qed

section \<open>Matching by levels\<close>

text \<open>
  The meaning of a filter is on levels: \<open>+\<close> is any level, \<open>#\<close> any number of levels at the end, another level is itself.
  The code reads a string as its levels, except that an empty last level is not one.
\<close>

fun split_levels :: "bytes \<Rightarrow> bytes list" where
  "split_levels [] = [[]]"
| "split_levels (c # s) =
     (if c = 0x2F then [] # split_levels s else (c # hd (split_levels s)) # tl (split_levels s))"

definition topic_levels :: "bytes \<Rightarrow> bytes list" where
  "topic_levels s = (if s = [] \<or> last s = 0x2F then butlast (split_levels s) else split_levels s)"

fun levels_match :: "bytes list \<Rightarrow> bytes list \<Rightarrow> bool" where
  "levels_match [] ts = (ts = [])"
| "levels_match (p # ps) ts =
     (if p = [0x23] \<and> ps = [] then True
      else case ts of [] \<Rightarrow> False | t # ts \<Rightarrow> (p = [0x2B] \<or> p = t) \<and> levels_match ps ts)"

definition hash_last :: "bytes \<Rightarrow> bool" where
  "hash_last p \<longleftrightarrow> 0x23 \<notin> set (butlast p)"

lemma split_levels_ne [simp]: "split_levels s \<noteq> []"
  by (induction s) auto

lemma split_levels_cons:
  "split_levels s = (let l = takeWhile (\<lambda>c. c \<noteq> 0x2F) s; r = dropWhile (\<lambda>c. c \<noteq> 0x2F) s
     in if r = [] then [l] else l # split_levels (tl r))"
  by (induction s) (auto simp: Let_def)

lemma topic_levels_Nil: "topic_levels [] = []"
  by (simp add: topic_levels_def)

lemma topic_levels_step:
  assumes "s \<noteq> []"
  shows "topic_levels s = takeWhile (\<lambda>c. c \<noteq> 0x2F) s # topic_levels (drop (length (takeWhile (\<lambda>c. c \<noteq> 0x2F) s) + 1) s)"
proof -
  define l r where "l = takeWhile (\<lambda>c. c \<noteq> 0x2F) s" and "r = dropWhile (\<lambda>c. c \<noteq> 0x2F) s"
  have s: "s = l @ r" by (simp add: l_def r_def)
  have d: "drop (length l + 1) s = tl r" by (simp add: s drop_Suc)
  have sp: "split_levels s = (if r = [] then [l] else l # split_levels (tl r))"
    unfolding l_def r_def using split_levels_cons [of s] by (simp only: Let_def)
  have "topic_levels s = l # topic_levels (tl r)"
  proof (cases r)
    case Nil
    then have "\<forall>c \<in> set s. c \<noteq> 0x2F" unfolding r_def by simp
    then have "last s \<noteq> 0x2F" using assms by auto
    then show ?thesis using assms sp by (simp add: topic_levels_def Nil)
  next
    case (Cons c q)
    then have "hd (dropWhile (\<lambda>c. c \<noteq> 0x2F) s) = c" "dropWhile (\<lambda>c. c \<noteq> 0x2F) s \<noteq> []" by (simp_all flip: r_def)
    then have "c = 0x2F" using hd_dropWhile [of "\<lambda>c. c \<noteq> 0x2F" s] by metis
    then show ?thesis using assms sp s by (cases "q = []") (simp_all add: topic_levels_def Cons)
  qed
  then show ?thesis unfolding l_def [symmetric] d .
qed

lemma hash_last_drop: "hash_last p \<Longrightarrow> hash_last (drop n p)"
  by (auto simp: hash_last_def butlast_drop dest: in_set_dropD)

lemma hash_last_hd:
  assumes "hash_last p" "p \<noteq> []" "hd p = 0x23"
  shows "p = [0x23]"
proof -
  have "butlast p = []"
  proof (rule ccontr)
    assume "butlast p \<noteq> []"
    then have "hd p \<in> set (butlast p)" by (cases p) auto
    then show False using assms by (simp add: hash_last_def)
  qed
  then show ?thesis using assms by (cases p) (auto split: if_splits)
qed

lemma topic_match_from_levels:
  "hash_last p \<Longrightarrow> topic_match_from p t = (if levels_match (topic_levels p) (topic_levels t) then 1 else 0)"
proof (induction p t rule: topic_match_from.induct)
  case (1 p t)
  let ?lv = "\<lambda>s :: bytes. takeWhile (\<lambda>c. c \<noteq> 0x2F) s"
  show ?case
  proof (cases "p = []")
    case True
    have "topic_levels t = [] \<longleftrightarrow> t = []" using topic_levels_step [of t] by (cases "t = []") (auto simp: topic_levels_Nil)
    then show ?thesis by (subst topic_match_from.simps) (simp add: True topic_levels_Nil)
  next
    case p: False
    note P = topic_levels_step [OF p]
    show ?thesis
    proof (cases "hd p = 0x23")
      case True
      then have "p = [0x23]" using hash_last_hd 1(2) p by blast
      then show ?thesis using P by (subst topic_match_from.simps) (simp add: topic_levels_Nil)
    next
      case h: False
      have hd: "?lv p \<noteq> [0x23]" using h p by (cases p) auto
      have plus: "?lv p = [0x2B] \<longleftrightarrow> length (?lv p) = 1 \<and> hd p = 0x2B"
        using p by (cases p) (auto simp: takeWhile_eq_Nil_iff)
      show ?thesis
      proof (cases "t = []")
        case True
        then show ?thesis using p h hd P by (subst topic_match_from.simps) (simp add: topic_levels_Nil Let_def)
      next
        case t: False
        note T = topic_levels_step [OF t]
        show ?thesis
        proof (cases "?lv p = [0x2B] \<or> ?lv p = ?lv t")
          case True
          then have "topic_match_from p t = topic_match_from (drop (length (?lv p) + 1) p) (drop (length (?lv t) + 1) t)"
            using p h t plus by (subst topic_match_from.simps) (auto simp: Let_def)
          also have "\<dots> = (if levels_match (topic_levels (drop (length (?lv p) + 1) p)) (topic_levels (drop (length (?lv t) + 1) t))
              then 1 else 0)"
            using True plus by (intro "1.IH" [OF p h refl refl t]) (auto intro: hash_last_drop 1(2))
          finally show ?thesis using P T True hd by simp
        next
          case False
          then have "topic_match_from p t = 0" using p h t plus by (subst topic_match_from.simps) (auto simp: Let_def)
          then show ?thesis using P T False hd by simp
        qed
      qed
    qed
  qed
qed

lemma hash_position:
  "(0x23 \<in> set p \<and> length (takeWhile (\<lambda>c. c \<noteq> 0x23) p) \<noteq> length p - 1) \<longleftrightarrow> \<not> hash_last (p :: bytes)"
proof (induction p)
  case (Cons a p)
  show ?case
  proof (cases "p = []")
    case False
    then show ?thesis using Cons by (auto simp: hash_last_def)
  qed (simp add: hash_last_def)
qed (simp add: hash_last_def)


text \<open>
  In MQTT an empty last level is a level: \<open>a/\<close> has two. The code drops it, so that the filter \<open>a\<close> takes messages for
  \<open>a/\<close>, and the filter \<open>a/+\<close> does not.
\<close>

lemma trailing_slash_ignored:
  "cmq_mqtt_topic_match (Some [0x61]) (Some [0x61, 0x2F]) = 1"
  "cmq_mqtt_topic_match (Some [0x61, 0x2F, 0x2B]) (Some [0x61, 0x2F]) = 0"
  "\<not> levels_match (split_levels [0x61]) (split_levels [0x61, 0x2F])"
  "levels_match (split_levels [0x61, 0x2F, 0x2B]) (split_levels [0x61, 0x2F])"
  by code_simp+


end
