(* ===== verification/CMQ_Mqtt_Window.thy ===== *)
theory CMQ_Mqtt_Window
  imports CMQ_Mqtt_Codec
begin

text \<open>
  The outbound window of an MQTT session and the table of live sessions (\<^verbatim>\<open>src/enterprise/cmq_mqtt_server.c\<close>): messages of QoS 1
  and 2 wait in sixteen slots until they are acknowledged, and a message published on the listener is offered to the window of
  every live session that has a matching filter. Every operation runs under the lock of the table, so it is one step. Topics are
  C strings: lists of bytes without zero.
\<close>

section \<open>The window\<close>

definition CMQ_MQTT_INFLIGHT_MAX :: nat where "CMQ_MQTT_INFLIGHT_MAX = 16"
definition CMQ_MQTT_INFLIGHT_PAYLOAD_MAX :: nat where "CMQ_MQTT_INFLIGHT_PAYLOAD_MAX = 1024"
definition CMQ_MQTT_INFLIGHT_TOPIC_MAX :: nat where "CMQ_MQTT_INFLIGHT_TOPIC_MAX = 128"
definition CMQ_MQTT_INFLIGHT_PKT_MAX :: nat where "CMQ_MQTT_INFLIGHT_PKT_MAX = 1280"

record inflight_slot =
  if_packet_id :: nat
  if_qos :: nat
  if_used :: bool
  if_phase :: nat
  if_topic :: bytes
  if_payload :: bytes

record inflight =
  iw_slots :: "inflight_slot list"
  iw_next_id :: nat
  iw_count :: nat

definition slot_zero :: inflight_slot where
  "slot_zero = \<lparr>if_packet_id = 0, if_qos = 0, if_used = False, if_phase = 0, if_topic = [], if_payload = []\<rparr>"

definition cmq_mqtt_inflight_init :: inflight where
  "cmq_mqtt_inflight_init = \<lparr>iw_slots = replicate CMQ_MQTT_INFLIGHT_MAX slot_zero, iw_next_id = 1, iw_count = 0\<rparr>"

definition cmq_mqtt_inflight_count :: "inflight option \<Rightarrow> nat" where
  "cmq_mqtt_inflight_count w = (case w of None \<Rightarrow> 0 | Some w \<Rightarrow> iw_count w)"

text \<open>Offering answers with a code and, when the code is 0, the packet id.\<close>

definition cmq_mqtt_inflight_offer ::
  "inflight \<Rightarrow> bytes option \<Rightarrow> bytes option \<Rightarrow> nat \<Rightarrow> nat \<Rightarrow> int \<times> nat \<times> inflight" where
  "cmq_mqtt_inflight_offer w topic payload payload_len qos =
     (if topic = None \<or> topic = Some [] \<or> (payload_len > 0 \<and> payload = None) then (- 1, 0, w)
      else if qos \<noteq> 1 \<and> qos \<noteq> 2 then (- 1, 0, w)
      else
        (let tlen = min (length (the topic)) CMQ_MQTT_INFLIGHT_TOPIC_MAX
         in if tlen = 0 \<or> tlen \<ge> CMQ_MQTT_INFLIGHT_TOPIC_MAX then (- 1, 0, w)
            else if payload_len > CMQ_MQTT_INFLIGHT_PAYLOAD_MAX then (- 3, 0, w)
            else if iw_count w \<ge> CMQ_MQTT_INFLIGHT_MAX then (- 2, 0, w)
            else case first_index (\<lambda>s. \<not> if_used s) (iw_slots w) of
              None \<Rightarrow> (- 2, 0, w)
            | Some slot \<Rightarrow>
                (let i = (if iw_next_id w = 0 then 1 else iw_next_id w);
                     nxt = (i + 1) mod 65536;
                     nxt = (if nxt = 0 then 1 else nxt)
                 in (0, i, w\<lparr>iw_slots := (iw_slots w)[slot := \<lparr>if_packet_id = i, if_qos = qos, if_used = True, if_phase = 0,
                               if_topic = take tlen (the topic),
                               if_payload = (if payload_len > 0 then take payload_len (the payload) else [])\<rparr>],
                             iw_next_id := nxt, iw_count := iw_count w + 1\<rparr>))))"

definition inflight_free :: "inflight \<Rightarrow> nat \<Rightarrow> inflight" where
  "inflight_free w i =
     w\<lparr>iw_slots := (iw_slots w)[i := (iw_slots w ! i)\<lparr>if_used := False\<rparr>],
       iw_count := (if iw_count w > 0 then iw_count w - 1 else iw_count w)\<rparr>"

definition cmq_mqtt_inflight_ack :: "inflight \<Rightarrow> nat \<Rightarrow> int \<times> inflight" where
  "cmq_mqtt_inflight_ack w packet_id =
     (if packet_id = 0 then (- 1, w)
      else case first_index (\<lambda>s. if_used s \<and> if_packet_id s = packet_id) (iw_slots w) of
        None \<Rightarrow> (- 1, w)
      | Some i \<Rightarrow>
          (let s = iw_slots w ! i
           in if if_qos s = 1 \<and> if_phase s = 0 then (0, inflight_free w i)
              else if if_qos s = 2 \<and> if_phase s = 1 then (0, inflight_free w i)
              else (- 1, w)))"

definition cmq_mqtt_inflight_rec :: "inflight \<Rightarrow> nat \<Rightarrow> int \<times> inflight" where
  "cmq_mqtt_inflight_rec w packet_id =
     (if packet_id = 0 then (- 1, w)
      else case first_index (\<lambda>s. if_used s \<and> if_packet_id s = packet_id \<and> if_qos s = 2 \<and> if_phase s = 0) (iw_slots w) of
        None \<Rightarrow> (- 1, w)
      | Some i \<Rightarrow> (0, w\<lparr>iw_slots := (iw_slots w)[i := (iw_slots w ! i)\<lparr>if_phase := 1\<rparr>]\<rparr>))"

definition cmq_mqtt_inflight_encode :: "inflight \<Rightarrow> nat \<Rightarrow> nat \<Rightarrow> bytes option" where
  "cmq_mqtt_inflight_encode w packet_id out_sz =
     (if packet_id = 0 then None
      else case first_index (\<lambda>s. if_used s \<and> if_packet_id s = packet_id) (iw_slots w) of
        None \<Rightarrow> None
      | Some i \<Rightarrow>
          (let s = iw_slots w ! i;
               rem = 2 + length (if_topic s) + 2 + length (if_payload s);
               rl = encode_remaining_length rem;
               need = 1 + length rl + rem
           in if need > out_sz \<or> need > CMQ_MQTT_INFLIGHT_PKT_MAX then None
              else Some ([0x30 OR push_bit 1 (of_nat (if_qos s) AND 0x03)] @ rl @ put_be16 (length (if_topic s)) @ if_topic s @
                     put_be16 (if_packet_id s) @ if_payload s)))"

definition cmq_mqtt_inflight_encode_pubrel :: "inflight \<Rightarrow> nat \<Rightarrow> nat \<Rightarrow> bytes option" where
  "cmq_mqtt_inflight_encode_pubrel w packet_id out_sz =
     (if packet_id = 0 \<or> out_sz < 4 then None
      else case first_index (\<lambda>s. if_used s \<and> if_packet_id s = packet_id \<and> if_qos s = 2 \<and> if_phase s = 1) (iw_slots w) of
        None \<Rightarrow> None
      | Some i \<Rightarrow> Some ([0x62, 0x02] @ put_be16 packet_id))"

section \<open>Live sessions\<close>

definition MQTT_LIVE_MAX :: nat where "MQTT_LIVE_MAX = 32"
definition MQTT_LIVE_FILTERS :: nat where "MQTT_LIVE_FILTERS = 8"

text \<open>The window of a session lives on the stack of its thread; the table holds the pointer. The model keeps it in the slot.\<close>

record mqtt_live =
  ml_fd :: int
  ml_used :: bool
  ml_inf :: "inflight option"
  ml_filters :: "(bytes \<times> nat) list"

definition live_zero :: mqtt_live where
  "live_zero = \<lparr>ml_fd = 0, ml_used = False, ml_inf = None, ml_filters = []\<rparr>"

definition cmq_mqtt_session_attach :: "int \<Rightarrow> inflight option \<Rightarrow> mqtt_live list \<Rightarrow> int \<times> mqtt_live list" where
  "cmq_mqtt_session_attach fd w live =
     (if fd < 0 \<or> w = None then (- 1, live)
      else case first_index (\<lambda>l. \<not> ml_used l) live of
        None \<Rightarrow> (- 1, live)
      | Some i \<Rightarrow> (0, live[i := live_zero\<lparr>ml_used := True, ml_fd := fd, ml_inf := w\<rparr>]))"

definition cmq_mqtt_session_detach :: "int \<Rightarrow> mqtt_live list \<Rightarrow> mqtt_live list" where
  "cmq_mqtt_session_detach fd live =
     (case first_index (\<lambda>l. ml_used l \<and> ml_fd l = fd) live of None \<Rightarrow> live | Some i \<Rightarrow> live[i := live_zero])"

definition cmq_mqtt_session_add_filter :: "int \<Rightarrow> bytes option \<Rightarrow> nat \<Rightarrow> mqtt_live list \<Rightarrow> int \<times> mqtt_live list" where
  "cmq_mqtt_session_add_filter fd flt qos live =
     (if fd < 0 \<or> flt = None \<or> flt = Some [] then (- 1, live)
      else
        (let qos = (if qos > 2 then 2 else qos)
         in case first_index (\<lambda>l. ml_used l \<and> ml_fd l = fd) live of
              None \<Rightarrow> (- 1, live)
            | Some i \<Rightarrow>
                if length (ml_filters (live ! i)) \<ge> MQTT_LIVE_FILTERS then (- 1, live)
                else (0, live[i := (live ! i)\<lparr>ml_filters := ml_filters (live ! i) @ [(take 127 (the flt), qos)]\<rparr>])))"

definition cmq_mqtt_session_ack :: "int \<Rightarrow> nat \<Rightarrow> mqtt_live list \<Rightarrow> int \<times> mqtt_live list" where
  "cmq_mqtt_session_ack fd packet_id live =
     (case first_index (\<lambda>l. ml_used l \<and> ml_fd l = fd \<and> ml_inf l \<noteq> None) live of
        None \<Rightarrow> (- 1, live)
      | Some i \<Rightarrow>
          (case cmq_mqtt_inflight_ack (the (ml_inf (live ! i))) packet_id of
             (rc, w) \<Rightarrow> (rc, live[i := (live ! i)\<lparr>ml_inf := Some w\<rparr>])))"

text \<open>PUBREC from the peer; the answer carries what is sent.\<close>

definition cmq_mqtt_session_rec :: "int \<Rightarrow> nat \<Rightarrow> mqtt_live list \<Rightarrow> int \<times> wire \<times> mqtt_live list" where
  "cmq_mqtt_session_rec fd packet_id live =
     (case first_index (\<lambda>l. ml_used l \<and> ml_fd l = fd \<and> ml_inf l \<noteq> None) live of
        None \<Rightarrow> (- 1, [], live)
      | Some i \<Rightarrow>
          (case cmq_mqtt_inflight_rec (the (ml_inf (live ! i))) packet_id of
             (rc, w) \<Rightarrow>
               (rc, if rc = 0 then (case cmq_mqtt_inflight_encode_pubrel w packet_id 8 of
                                      None \<Rightarrow> [] | Some pkt \<Rightarrow> if ml_fd (live ! i) \<ge> 0 then [(ml_fd (live ! i), pkt)] else [])
                    else [],
                live[i := (live ! i)\<lparr>ml_inf := Some w\<rparr>])))"

text \<open>The highest QoS granted by a matching filter, \<open>None\<close> without one.\<close>

definition fanout_grant :: "(bytes \<times> nat) list \<Rightarrow> bytes \<Rightarrow> nat option" where
  "fanout_grant filters topic =
     foldl (\<lambda>g (f, q). if cmq_mqtt_topic_match (Some f) (Some topic) = 1
                       then Some (max (case g of None \<Rightarrow> 0 | Some g \<Rightarrow> g) q) else g) None filters"

definition fanout_one :: "bytes \<Rightarrow> bytes option \<Rightarrow> nat \<Rightarrow> mqtt_live \<Rightarrow> wire \<times> mqtt_live" where
  "fanout_one topic payload len l =
     (if \<not> ml_used l \<or> ml_inf l = None then ([], l)
      else case fanout_grant (ml_filters l) topic of
        None \<Rightarrow> ([], l)
      | Some grant \<Rightarrow>
          if grant < 1 then ([], l)
          else (case cmq_mqtt_inflight_offer (the (ml_inf l)) (Some topic) payload len grant of
            (rc, i, w) \<Rightarrow>
              if rc \<noteq> 0 then ([], l)
              else case cmq_mqtt_inflight_encode w i CMQ_MQTT_INFLIGHT_PKT_MAX of
                None \<Rightarrow> ([], l\<lparr>ml_inf := Some (snd (cmq_mqtt_inflight_ack w i))\<rparr>)
              | Some pkt \<Rightarrow> ([(ml_fd l, pkt)], l\<lparr>ml_inf := Some w\<rparr>)))"

definition cmq_mqtt_fanout :: "bytes option \<Rightarrow> bytes option \<Rightarrow> nat \<Rightarrow> mqtt_live list \<Rightarrow> wire \<times> mqtt_live list" where
  "cmq_mqtt_fanout topic payload len live =
     (if topic = None \<or> topic = Some [] \<or> (len > 0 \<and> payload = None) then ([], live)
      else (concat (map (\<lambda>l. fst (fanout_one (the topic) payload len l)) live),
            map (\<lambda>l. snd (fanout_one (the topic) payload len l)) live))"

section \<open>The window as a map\<close>

text \<open>
  What waits, by packet id: QoS, phase, topic and payload. The invariant makes the ids in use distinct, so the view determines
  the window up to the order of its slots.
\<close>

type_synonym waiting = "nat \<times> nat \<times> bytes \<times> bytes"

definition slot_entry :: "inflight_slot \<Rightarrow> waiting" where
  "slot_entry s = (if_qos s, if_phase s, if_topic s, if_payload s)"

definition win_view :: "inflight \<Rightarrow> nat \<rightharpoonup> waiting" where
  "win_view w i = map_option slot_entry (find (\<lambda>s. if_used s \<and> if_packet_id s = i) (iw_slots w))"

definition slot_ok :: "inflight_slot \<Rightarrow> bool" where
  "slot_ok s \<longleftrightarrow> 1 \<le> if_packet_id s \<and> if_packet_id s < 65536 \<and> (if_qos s = 1 \<and> if_phase s = 0 \<or> if_qos s = 2 \<and> if_phase s \<le> 1) \<and>
     if_topic s \<noteq> [] \<and> length (if_topic s) < CMQ_MQTT_INFLIGHT_TOPIC_MAX \<and> length (if_payload s) \<le> CMQ_MQTT_INFLIGHT_PAYLOAD_MAX"

definition win_ok :: "inflight \<Rightarrow> bool" where
  "win_ok w \<longleftrightarrow> length (iw_slots w) = CMQ_MQTT_INFLIGHT_MAX \<and> iw_count w = length (filter if_used (iw_slots w)) \<and>
     1 \<le> iw_next_id w \<and> iw_next_id w < 65536 \<and> list_all slot_ok (filter if_used (iw_slots w))"

definition ids_distinct :: "inflight \<Rightarrow> bool" where
  "ids_distinct w \<longleftrightarrow> distinct (map if_packet_id (filter if_used (iw_slots w)))"

lemma win_ok_init: "win_ok cmq_mqtt_inflight_init" "ids_distinct cmq_mqtt_inflight_init"
    "win_view cmq_mqtt_inflight_init = Map.empty"
proof -
  have f: "filter if_used (replicate n slot_zero) = []" for n by (simp add: slot_zero_def)
  show "win_ok cmq_mqtt_inflight_init" "ids_distinct cmq_mqtt_inflight_init"
    by (simp_all add: win_ok_def ids_distinct_def cmq_mqtt_inflight_init_def f del: filter_replicate)
  have "find (\<lambda>s. if_used s \<and> if_packet_id s = i) (replicate n slot_zero) = None" for i n
    by (auto simp: find_None_iff slot_zero_def)
  then show "win_view cmq_mqtt_inflight_init = Map.empty"
    by (simp add: fun_eq_iff win_view_def cmq_mqtt_inflight_init_def)
qed

lemma dom_win_view: "dom (win_view w) = if_packet_id ` set (filter if_used (iw_slots w))"
proof -
  have "find (\<lambda>s. if_used s \<and> if_packet_id s = i) xs \<noteq> None \<longleftrightarrow> i \<in> if_packet_id ` set (filter if_used xs)" for i xs
    by (force simp: find_None_iff)
  then show ?thesis by (auto simp: dom_def win_view_def)
qed

lemma card_win_view: "win_ok w \<Longrightarrow> ids_distinct w \<Longrightarrow> card (dom (win_view w)) = iw_count w"
  using distinct_card [of "map if_packet_id (filter if_used (iw_slots w))"]
  by (simp add: dom_win_view ids_distinct_def win_ok_def)

text \<open>The legal arguments of an offer, and its effect.\<close>

definition offer_legal :: "bytes \<Rightarrow> bytes \<Rightarrow> nat \<Rightarrow> bool" where
  "offer_legal t pl q \<longleftrightarrow> t \<noteq> [] \<and> length t < CMQ_MQTT_INFLIGHT_TOPIC_MAX \<and> length pl \<le> CMQ_MQTT_INFLIGHT_PAYLOAD_MAX \<and> (q = 1 \<or> q = 2)"

definition offer_code :: "bytes \<Rightarrow> bytes \<Rightarrow> nat \<Rightarrow> nat \<Rightarrow> int" where
  "offer_code t pl q n =
     (if t = [] \<or> length t \<ge> CMQ_MQTT_INFLIGHT_TOPIC_MAX \<or> (q \<noteq> 1 \<and> q \<noteq> 2) then - 1
      else if length pl > CMQ_MQTT_INFLIGHT_PAYLOAD_MAX then - 3
      else if n \<ge> CMQ_MQTT_INFLIGHT_MAX then - 2 else 0)"

lemma offer_code_0: "offer_code t pl q n = 0 \<longleftrightarrow> offer_legal t pl q \<and> n < CMQ_MQTT_INFLIGHT_MAX"
  by (auto simp: offer_code_def offer_legal_def)

lemma inflight_offer_refused:
  assumes "offer_code t pl q (iw_count w) \<noteq> 0"
  shows "cmq_mqtt_inflight_offer w (Some t) (Some pl) (length pl) q = (offer_code t pl q (iw_count w), 0, w)"
  using assms by (auto simp: cmq_mqtt_inflight_offer_def offer_code_def Let_def min_def split: if_splits)

lemma inflight_offer_ok:
  assumes ok: "win_ok w" and legal: "offer_legal t pl q" and room: "iw_count w < CMQ_MQTT_INFLIGHT_MAX"
  obtains xs s ys where "iw_slots w = xs @ s # ys" "\<not> if_used s" "\<forall>x \<in> set xs. if_used x"
    "cmq_mqtt_inflight_offer w (Some t) (Some pl) (length pl) q =
       (0, iw_next_id w, w\<lparr>iw_slots := xs @ \<lparr>if_packet_id = iw_next_id w, if_qos = q, if_used = True, if_phase = 0,
           if_topic = t, if_payload = pl\<rparr> # ys, iw_next_id := (if iw_next_id w = 65535 then 1 else iw_next_id w + 1),
           iw_count := iw_count w + 1\<rparr>)"
proof -
  have "\<not> (\<forall>s \<in> set (iw_slots w). if_used s)"
  proof
    assume "\<forall>s \<in> set (iw_slots w). if_used s"
    then have "filter if_used (iw_slots w) = iw_slots w" by simp
    then show False using ok room by (simp add: win_ok_def)
  qed
  then obtain i where i: "first_index (\<lambda>s. \<not> if_used s) (iw_slots w) = Some i"
    by (cases "first_index (\<lambda>s. \<not> if_used s) (iw_slots w)") (auto simp: first_index_None)
  then obtain xs s ys where sp: "iw_slots w = xs @ s # ys" "length xs = i" "\<not> if_used s" "\<forall>x \<in> set xs. if_used x"
    by (elim first_index_split) auto
  have nx: "iw_next_id w \<noteq> 0" "(let n = (iw_next_id w + 1) mod 65536 in if n = 0 then 1 else n) =
      (if iw_next_id w = 65535 then 1 else iw_next_id w + 1)"
    using ok by (auto simp: win_ok_def Let_def)
  have tk: "take (min (length t) CMQ_MQTT_INFLIGHT_TOPIC_MAX) t = t" "(if length pl > 0 then take (length pl) pl else []) = pl"
    using legal by (auto simp: offer_legal_def min_def)
  have "cmq_mqtt_inflight_offer w (Some t) (Some pl) (length pl) q =
       (0, iw_next_id w, w\<lparr>iw_slots := (iw_slots w)[i := \<lparr>if_packet_id = iw_next_id w, if_qos = q, if_used = True, if_phase = 0,
           if_topic = t, if_payload = pl\<rparr>], iw_next_id := (if iw_next_id w = 65535 then 1 else iw_next_id w + 1),
           iw_count := iw_count w + 1\<rparr>)"
    unfolding cmq_mqtt_inflight_offer_def i option.case
    using legal room nx tk by (simp add: offer_legal_def Let_def min_def)
  with sp show thesis by (intro that [of xs s ys]) auto
qed

lemma inflight_offer_sim:
  assumes ok: "win_ok w" "ids_distinct w" and fresh: "iw_next_id w \<notin> dom (win_view w)"
    and legal: "offer_legal t pl q" "iw_count w < CMQ_MQTT_INFLIGHT_MAX"
  obtains w' where "cmq_mqtt_inflight_offer w (Some t) (Some pl) (length pl) q = (0, iw_next_id w, w')"
    "win_ok w'" "ids_distinct w'" "win_view w' = (win_view w)(iw_next_id w \<mapsto> (q, 0, t, pl))"
    "iw_next_id w' = (if iw_next_id w = 65535 then 1 else iw_next_id w + 1)"
proof -
  from inflight_offer_ok [OF ok(1) legal] obtain xs s ys where sp: "iw_slots w = xs @ s # ys" "\<not> if_used s"
    and eq: "cmq_mqtt_inflight_offer w (Some t) (Some pl) (length pl) q =
       (0, iw_next_id w, w\<lparr>iw_slots := xs @ \<lparr>if_packet_id = iw_next_id w, if_qos = q, if_used = True, if_phase = 0,
           if_topic = t, if_payload = pl\<rparr> # ys, iw_next_id := (if iw_next_id w = 65535 then 1 else iw_next_id w + 1),
           iw_count := iw_count w + 1\<rparr>)" (is "_ = (0, _, ?w)") by metis
  have fr: "iw_next_id w \<notin> if_packet_id ` set (filter if_used (xs @ ys))"
    using fresh sp by (auto simp: dom_win_view)
  show thesis
  proof (rule that [OF eq])
    show "win_ok ?w" using ok(1) legal(1) sp by (auto simp: win_ok_def slot_ok_def offer_legal_def)
    show "ids_distinct ?w" using ok(2) fr sp by (auto simp: ids_distinct_def)
    have "find (\<lambda>s. if_used s \<and> if_packet_id s = iw_next_id w) xs = None" using fr by (force simp: find_None_iff)
    then show "win_view ?w = (win_view w)(iw_next_id w \<mapsto> (q, 0, t, pl))"
      using sp by (auto simp: fun_eq_iff win_view_def find_append slot_entry_def split: option.splits)
    show "iw_next_id ?w = (if iw_next_id w = 65535 then 1 else iw_next_id w + 1)" by simp
  qed
qed

text \<open>Looking up an id in use.\<close>

lemma win_view_at:
  assumes "ids_distinct w" "iw_slots w = xs @ s # ys" "if_used s"
  shows "win_view w (if_packet_id s) = Some (slot_entry s)"
    "\<forall>x \<in> set (xs @ ys). if_used x \<longrightarrow> if_packet_id x \<noteq> if_packet_id s"
proof -
  show d: "\<forall>x \<in> set (xs @ ys). if_used x \<longrightarrow> if_packet_id x \<noteq> if_packet_id s"
  proof (intro ballI impI notI)
    fix x assume x: "x \<in> set (xs @ ys)" "if_used x" "if_packet_id x = if_packet_id s"
    have "if_packet_id s \<notin> if_packet_id ` set (filter if_used xs)" "if_packet_id s \<notin> if_packet_id ` set (filter if_used ys)"
      using assms unfolding ids_distinct_def assms(2) by simp_all
    moreover have "x \<in> set (filter if_used xs) \<or> x \<in> set (filter if_used ys)" using x by auto
    ultimately show False unfolding x(3) [symmetric] by blast
  qed
  then have "find (\<lambda>x. if_used x \<and> if_packet_id x = if_packet_id s) xs = None" by (auto simp: find_None_iff)
  then show "win_view w (if_packet_id s) = Some (slot_entry s)"
    using assms(2,3) by (simp add: win_view_def find_append)
qed

lemma win_view_index:
  "first_index (\<lambda>s. if_used s \<and> if_packet_id s = i) (iw_slots w) = None \<longleftrightarrow> win_view w i = None"
  by (auto simp: first_index_None win_view_def find_None_iff)

text \<open>A slot is given back, or its phase is raised.\<close>

lemma win_replace:
  assumes ok: "win_ok w" "ids_distinct w" and sp: "iw_slots w = xs @ s # ys" "if_used s"
  shows "win_ok (w\<lparr>iw_slots := xs @ s\<lparr>if_used := False\<rparr> # ys, iw_count := iw_count w - 1\<rparr>)"
    "ids_distinct (w\<lparr>iw_slots := xs @ s\<lparr>if_used := False\<rparr> # ys, iw_count := iw_count w - 1\<rparr>)"
    "win_view (w\<lparr>iw_slots := xs @ s\<lparr>if_used := False\<rparr> # ys, iw_count := iw_count w - 1\<rparr>) = (win_view w)(if_packet_id s := None)"
    "if_qos s = 2 \<Longrightarrow> win_ok (w\<lparr>iw_slots := xs @ s\<lparr>if_phase := 1\<rparr> # ys\<rparr>)"
    "ids_distinct (w\<lparr>iw_slots := xs @ s\<lparr>if_phase := 1\<rparr> # ys\<rparr>)"
    "win_view (w\<lparr>iw_slots := xs @ s\<lparr>if_phase := 1\<rparr> # ys\<rparr>) =
      (win_view w)(if_packet_id s \<mapsto> (if_qos s, 1, if_topic s, if_payload s))"
proof -
  note d = win_view_at [OF ok(2) sp]
  have n: "find (\<lambda>x. if_used x \<and> if_packet_id x = if_packet_id s) zs = None" if "zs = xs \<or> zs = ys" for zs
    using d(2) that by (auto simp: find_None_iff)
  show "win_ok (w\<lparr>iw_slots := xs @ s\<lparr>if_used := False\<rparr> # ys, iw_count := iw_count w - 1\<rparr>)"
    "ids_distinct (w\<lparr>iw_slots := xs @ s\<lparr>if_used := False\<rparr> # ys, iw_count := iw_count w - 1\<rparr>)"
    "ids_distinct (w\<lparr>iw_slots := xs @ s\<lparr>if_phase := 1\<rparr> # ys\<rparr>)"
    "if_qos s = 2 \<Longrightarrow> win_ok (w\<lparr>iw_slots := xs @ s\<lparr>if_phase := 1\<rparr> # ys\<rparr>)"
    using ok sp by (auto simp: win_ok_def ids_distinct_def slot_ok_def)
  show "win_view (w\<lparr>iw_slots := xs @ s\<lparr>if_used := False\<rparr> # ys, iw_count := iw_count w - 1\<rparr>) = (win_view w)(if_packet_id s := None)"
  proof
    fix i
    show "win_view (w\<lparr>iw_slots := xs @ s\<lparr>if_used := False\<rparr> # ys, iw_count := iw_count w - 1\<rparr>) i =
      ((win_view w)(if_packet_id s := None)) i"
      using n sp by (cases "i = if_packet_id s") (simp_all add: win_view_def find_append split: option.split)
  qed
  show "win_view (w\<lparr>iw_slots := xs @ s\<lparr>if_phase := 1\<rparr> # ys\<rparr>) =
      (win_view w)(if_packet_id s \<mapsto> (if_qos s, 1, if_topic s, if_payload s))"
  proof
    fix i
    show "win_view (w\<lparr>iw_slots := xs @ s\<lparr>if_phase := 1\<rparr> # ys\<rparr>) i =
      ((win_view w)(if_packet_id s \<mapsto> (if_qos s, 1, if_topic s, if_payload s))) i"
      using n sp by (cases "i = if_packet_id s") (simp_all add: win_view_def find_append slot_entry_def split: option.split)
  qed
qed

section \<open>The specification\<close>

text \<open>
  An acknowledgement ends a message of QoS 1, and a message of QoS 2 whose PUBREC has come; PUBREC raises the phase of a message
  of QoS 2 once.
\<close>

definition spec_ack :: "(nat \<rightharpoonup> waiting) \<Rightarrow> nat \<Rightarrow> int \<times> (nat \<rightharpoonup> waiting)" where
  "spec_ack m i =
     (case m i of
        None \<Rightarrow> (- 1, m)
      | Some (q, p, t, pl) \<Rightarrow> if q = 1 \<and> p = 0 \<or> q = 2 \<and> p = 1 then (0, m(i := None)) else (- 1, m))"

definition spec_rec :: "(nat \<rightharpoonup> waiting) \<Rightarrow> nat \<Rightarrow> int \<times> (nat \<rightharpoonup> waiting)" where
  "spec_rec m i =
     (case m i of
        None \<Rightarrow> (- 1, m)
      | Some (q, p, t, pl) \<Rightarrow> if q = 2 \<and> p = 0 then (0, m(i \<mapsto> (2, 1, t, pl))) else (- 1, m))"

lemma win_view_zero: "win_ok w \<Longrightarrow> win_view w 0 = None"
  by (auto simp: win_view_def find_None_iff win_ok_def list_all_iff slot_ok_def)

lemma inflight_ack_sim:
  assumes ok: "win_ok w" "ids_distinct w" and run: "cmq_mqtt_inflight_ack w i = (rc, w')"
  shows "spec_ack (win_view w) i = (rc, win_view w')" "win_ok w'" "ids_distinct w'" "iw_next_id w' = iw_next_id w"
proof -
  have "spec_ack (win_view w) i = (rc, win_view w') \<and> win_ok w' \<and> ids_distinct w' \<and> iw_next_id w' = iw_next_id w"
  proof (cases "win_view w i")
    case None
    then have "w' = w" "rc = - 1"
      using run win_view_index [of i w] by (auto simp: cmq_mqtt_inflight_ack_def split: if_splits option.splits)
    then show ?thesis using ok None by (simp add: spec_ack_def)
  next
    case (Some e)
    then have i: "i \<noteq> 0" using win_view_zero [OF ok(1)] by (cases "i = 0") simp_all
    from Some obtain k where k: "first_index (\<lambda>s. if_used s \<and> if_packet_id s = i) (iw_slots w) = Some k"
      using win_view_index [of i w] by (cases "first_index (\<lambda>s. if_used s \<and> if_packet_id s = i) (iw_slots w)") auto
    then obtain xs s ys where sp: "iw_slots w = xs @ s # ys" "length xs = k" "if_used s" "if_packet_id s = i"
      by (elim first_index_split) auto
    note at = win_view_at(1) [OF ok(2) sp(1,3)] and rep = win_replace [OF ok sp(1,3)]
    have "iw_count w > 0" using ok(1) sp by (simp add: win_ok_def)
    then have fr: "inflight_free w k = w\<lparr>iw_slots := xs @ s\<lparr>if_used := False\<rparr> # ys, iw_count := iw_count w - 1\<rparr>"
      using sp(1,2) by (auto simp: inflight_free_def)
    have nth: "iw_slots w ! k = s" using sp(1,2) by auto
    show ?thesis
      using run i at rep(1-3) ok sp(4) unfolding cmq_mqtt_inflight_ack_def k option.case nth fr Let_def
      by (auto simp: spec_ack_def slot_entry_def split: if_splits)
  qed
  then show "spec_ack (win_view w) i = (rc, win_view w')" "win_ok w'" "ids_distinct w'" "iw_next_id w' = iw_next_id w" by auto
qed

lemma inflight_rec_sim:
  assumes ok: "win_ok w" "ids_distinct w" and run: "cmq_mqtt_inflight_rec w i = (rc, w')"
  shows "spec_rec (win_view w) i = (rc, win_view w')" "win_ok w'" "ids_distinct w'" "iw_next_id w' = iw_next_id w"
proof -
  let ?P = "\<lambda>s. if_used s \<and> if_packet_id s = i \<and> if_qos s = 2 \<and> if_phase s = 0"
  have "spec_rec (win_view w) i = (rc, win_view w') \<and> win_ok w' \<and> ids_distinct w' \<and> iw_next_id w' = iw_next_id w"
  proof (cases "first_index ?P (iw_slots w)")
    case None
    then have w': "w' = w" "rc = - 1" using run unfolding cmq_mqtt_inflight_rec_def by (simp_all split: if_splits)
    have "\<not> (\<exists>t pl. win_view w i = Some (2, 0, t, pl))"
      using None by (auto simp: win_view_def first_index_None slot_entry_def find_Some_iff)
    then show ?thesis using ok w' by (auto simp: spec_rec_def split: option.splits)
  next
    case (Some k)
    then obtain xs s ys where sp: "iw_slots w = xs @ s # ys" "length xs = k" "if_used s" "if_packet_id s = i"
        "if_qos s = 2" "if_phase s = 0"
      by (elim first_index_split) auto
    note at = win_view_at(1) [OF ok(2) sp(1,3)] and rep = win_replace [OF ok sp(1,3)]
    have "i \<noteq> 0" using at win_view_zero [OF ok(1)] sp(4) by (cases "i = 0") simp_all
    then have "rc = 0" "w' = w\<lparr>iw_slots := xs @ s\<lparr>if_phase := 1\<rparr> # ys\<rparr>"
      using run sp(1,2) unfolding cmq_mqtt_inflight_rec_def Some option.case by auto
    then show ?thesis using at rep(4-6) sp(4-6) by (simp add: spec_rec_def slot_entry_def)
  qed
  then show "spec_rec (win_view w) i = (rc, win_view w')" "win_ok w'" "ids_distinct w'" "iw_next_id w' = iw_next_id w" by auto
qed

section \<open>Runs of a session\<close>

datatype win_op = Win_offer bytes bytes nat | Win_ack nat | Win_rec nat

fun win_exec :: "inflight \<Rightarrow> win_op \<Rightarrow> (int \<times> nat) \<times> inflight" where
  "win_exec w (Win_offer t pl q) = (case cmq_mqtt_inflight_offer w (Some t) (Some pl) (length pl) q of (rc, i, w) \<Rightarrow> ((rc, i), w))"
| "win_exec w (Win_ack i) = (case cmq_mqtt_inflight_ack w i of (rc, w) \<Rightarrow> ((rc, 0), w))"
| "win_exec w (Win_rec i) = (case cmq_mqtt_inflight_rec w i of (rc, w) \<Rightarrow> ((rc, 0), w))"

text \<open>The specification numbers the accepted messages 1, 2, 3, ...\<close>

fun spec_exec :: "nat \<times> (nat \<rightharpoonup> waiting) \<Rightarrow> win_op \<Rightarrow> (int \<times> nat) \<times> nat \<times> (nat \<rightharpoonup> waiting)" where
  "spec_exec (c, m) (Win_offer t pl q) =
     (let rc = offer_code t pl q (card (dom m))
      in if rc = 0 then ((0, c + 1), c + 1, m(c + 1 \<mapsto> (q, 0, t, pl))) else ((rc, 0), c, m))"
| "spec_exec (c, m) (Win_ack i) = (case spec_ack m i of (rc, m) \<Rightarrow> ((rc, 0), c, m))"
| "spec_exec (c, m) (Win_rec i) = (case spec_rec m i of (rc, m) \<Rightarrow> ((rc, 0), c, m))"

definition win_rel :: "nat \<Rightarrow> inflight \<Rightarrow> nat \<times> (nat \<rightharpoonup> waiting) \<Rightarrow> bool" where
  "win_rel n w a \<longleftrightarrow> win_ok w \<and> ids_distinct w \<and> snd a = win_view w \<and> fst a \<le> n \<and>
     iw_next_id w = (if fst a = 65535 then 1 else fst a + 1) \<and> dom (snd a) \<subseteq> {1..fst a}"

lemma spec_dom: "spec_ack m i = (rc, m') \<Longrightarrow> dom m' \<subseteq> dom m" "spec_rec m i = (rc, m') \<Longrightarrow> dom m' \<subseteq> dom m"
  by (auto simp: spec_ack_def spec_rec_def split: option.splits if_splits)

lemma win_exec_sim:
  assumes n: "n < 65535" and rel: "win_rel n w a"
  shows "\<exists>w'. win_exec w p = (fst (spec_exec a p), w') \<and> win_rel (Suc n) w' (snd (spec_exec a p))"
proof (cases p)
  case (Win_offer t pl q)
  from rel obtain c where ok: "win_ok w" "ids_distinct w" and a: "a = (c, win_view w)" "c \<le> n"
    and nx: "iw_next_id w = c + 1" and dom: "dom (win_view w) \<subseteq> {1..c}"
    using n by (cases a) (auto simp: win_rel_def split: if_splits)
  note card = card_win_view [OF ok]
  show ?thesis
  proof (cases "offer_code t pl q (iw_count w) = 0")
    case True
    have "iw_next_id w \<notin> dom (win_view w)" using dom nx by auto
    moreover have "offer_legal t pl q" "iw_count w < CMQ_MQTT_INFLIGHT_MAX" using True by (simp_all add: offer_code_0)
    ultimately obtain w' where
      w': "cmq_mqtt_inflight_offer w (Some t) (Some pl) (length pl) q = (0, iw_next_id w, w')" "win_ok w'" "ids_distinct w'"
        "win_view w' = (win_view w)(iw_next_id w \<mapsto> (q, 0, t, pl))" "iw_next_id w' = (if iw_next_id w = 65535 then 1 else iw_next_id w + 1)"
      by (rule inflight_offer_sim [OF ok])
    have "spec_exec a p = ((0, c + 1), c + 1, win_view w')"
      using True w'(4) nx card unfolding Win_offer a(1) by simp
    then show ?thesis using w' a(2) nx n dom unfolding Win_offer by (auto simp: win_rel_def)
  next
    case False
    have "spec_exec a p = ((offer_code t pl q (iw_count w), 0), a)"
      using False card unfolding Win_offer a(1) by simp
    then show ?thesis using inflight_offer_refused [OF False] rel unfolding Win_offer by (auto simp: win_rel_def)
  qed
next
  case (Win_ack i)
  obtain rc w' where r: "cmq_mqtt_inflight_ack w i = (rc, w')" by fastforce
  from rel have "win_ok w" "ids_distinct w" by (auto simp: win_rel_def)
  note sim = inflight_ack_sim [OF this r]
  obtain c where a: "a = (c, win_view w)" using rel by (cases a) (auto simp: win_rel_def)
  from spec_dom(1) [OF sim(1)] sim rel a r show ?thesis unfolding Win_ack by (auto simp: win_rel_def)
next
  case (Win_rec i)
  obtain rc w' where r: "cmq_mqtt_inflight_rec w i = (rc, w')" by fastforce
  from rel have "win_ok w" "ids_distinct w" by (auto simp: win_rel_def)
  note sim = inflight_rec_sim [OF this r]
  obtain c where a: "a = (c, win_view w)" using rel by (cases a) (auto simp: win_rel_def)
  from spec_dom(2) [OF sim(1)] sim rel a r show ?thesis unfolding Win_rec by (auto simp: win_rel_def)
qed


definition win_example :: "win_op list" where
  "win_example = [Win_offer [0x61] [1] 1, Win_offer [0x62] [2] 2, Win_ack 2, Win_rec 2, Win_ack 1, Win_ack 1, Win_ack 2]"


text \<open>
  The id of a new message is not compared with those in use. After a message has waited while 65534 others came and went, its id
  is given again, and the two share an acknowledgement.
\<close>

lemma packet_id_reused:
  assumes ok: "win_ok w" and used: "win_view w (iw_next_id w) \<noteq> None" and legal: "offer_legal t pl q" "iw_count w < CMQ_MQTT_INFLIGHT_MAX"
  obtains w' where "cmq_mqtt_inflight_offer w (Some t) (Some pl) (length pl) q = (0, iw_next_id w, w')" "\<not> ids_distinct w'"
proof -
  from inflight_offer_ok [OF ok legal] obtain xs s ys where sp: "iw_slots w = xs @ s # ys" "\<not> if_used s"
    and eq: "cmq_mqtt_inflight_offer w (Some t) (Some pl) (length pl) q =
       (0, iw_next_id w, w\<lparr>iw_slots := xs @ \<lparr>if_packet_id = iw_next_id w, if_qos = q, if_used = True, if_phase = 0,
           if_topic = t, if_payload = pl\<rparr> # ys, iw_next_id := (if iw_next_id w = 65535 then 1 else iw_next_id w + 1),
           iw_count := iw_count w + 1\<rparr>)" (is "_ = (0, _, ?w)") by metis
  have "iw_next_id w \<in> if_packet_id ` set (filter if_used (xs @ ys))"
    using used sp dom_win_view [of w] by auto
  then have "\<not> ids_distinct ?w" by (auto simp: ids_distinct_def)
  with eq that show thesis by blast
qed

section \<open>Delivery to live sessions\<close>

text \<open>
  What a session is sent: a matching filter of QoS 1 or 2 and room in the window give one PUBLISH, with the topic and the payload
  of the message and an id of the session's own.
\<close>

lemma fanout_grant_max:
  "fanout_grant fs t =
     (let gs = map snd (filter (\<lambda>f. cmq_mqtt_topic_match (Some (fst f)) (Some t) = 1) fs)
      in if gs = [] then None else Some (foldl max 0 gs))"
proof -
  have "foldl (\<lambda>g (f, q). if cmq_mqtt_topic_match (Some f) (Some t) = 1
                       then Some (max (case g of None \<Rightarrow> 0 | Some g \<Rightarrow> g) q) else g) g0 fs =
     (let gs = map snd (filter (\<lambda>f. cmq_mqtt_topic_match (Some (fst f)) (Some t) = 1) fs)
      in if gs = [] then g0 else Some (foldl max (case g0 of None \<Rightarrow> 0 | Some g \<Rightarrow> g) gs))" for g0
    by (induction fs arbitrary: g0) (auto simp: Let_def)
  from this [of None] show ?thesis by (simp add: fanout_grant_def)
qed

lemma encode_waiting:
  assumes ok: "win_ok w" "ids_distinct w" and v: "win_view w i = Some (q, p, t, pl)"
  shows "cmq_mqtt_inflight_encode w i CMQ_MQTT_INFLIGHT_PKT_MAX =
    Some ((0x30 OR push_bit 1 (of_nat q AND 0x03)) # rl_bytes (4 + length t + length pl) @ put_be16 (length t) @ t @ put_be16 i @ pl)"
proof -
  from v have i: "i \<noteq> 0" using win_view_zero [OF ok(1)] by (cases "i = 0") simp_all
  from v obtain k where k: "first_index (\<lambda>s. if_used s \<and> if_packet_id s = i) (iw_slots w) = Some k"
    using win_view_index [of i w] by (cases "first_index (\<lambda>s. if_used s \<and> if_packet_id s = i) (iw_slots w)") auto
  then obtain xs s ys where sp: "iw_slots w = xs @ s # ys" "length xs = k" "if_used s" "if_packet_id s = i"
    by (elim first_index_split) auto
  have s: "if_qos s = q" "if_topic s = t" "if_payload s = pl"
    using win_view_at(1) [OF ok(2) sp(1,3)] v sp(4) by (auto simp: slot_entry_def)
  have "slot_ok s" using ok(1) sp by (auto simp: win_ok_def)
  then have len: "length t < 128" "length pl \<le> 1024"
    using s by (auto simp: slot_ok_def CMQ_MQTT_INFLIGHT_TOPIC_MAX_def CMQ_MQTT_INFLIGHT_PAYLOAD_MAX_def)
  then have "rl_needed (4 + length t + length pl) \<le> 2" using rl_needed_le [of "4 + length t + length pl" 1] by simp
  moreover have "iw_slots w ! k = s" using sp(1,2) by auto
  moreover have "2 + length t + 2 + length pl = 4 + length t + length pl" by simp
  ultimately show ?thesis using i len s sp(4) unfolding cmq_mqtt_inflight_encode_def k option.case Let_def
    by (simp only: encode_remaining_length_def length_rl_bytes CMQ_MQTT_INFLIGHT_PKT_MAX_def) auto
qed

lemma fanout_one_sends:
  assumes l: "ml_used l" "ml_inf l = Some w" "fanout_grant (ml_filters l) t = Some q" "q \<ge> 1" "offer_legal t pl q"
    and w: "win_ok w" "ids_distinct w" "iw_next_id w \<notin> dom (win_view w)" "iw_count w < CMQ_MQTT_INFLIGHT_MAX"
  obtains w' where "fanout_one t (Some pl) (length pl) l =
      ([(ml_fd l, (0x30 OR push_bit 1 (of_nat q AND 0x03)) # rl_bytes (4 + length t + length pl) @ put_be16 (length t) @ t @
         put_be16 (iw_next_id w) @ pl)], l\<lparr>ml_inf := Some w'\<rparr>)"
    "win_view w' = (win_view w)(iw_next_id w \<mapsto> (q, 0, t, pl))"
proof -
  obtain w' where w': "cmq_mqtt_inflight_offer w (Some t) (Some pl) (length pl) q = (0, iw_next_id w, w')"
    "win_ok w'" "ids_distinct w'" "win_view w' = (win_view w)(iw_next_id w \<mapsto> (q, 0, t, pl))"
    by (rule inflight_offer_sim [OF w(1-3) l(5) w(4)])
  have "win_view w' (iw_next_id w) = Some (q, 0, t, pl)" using w'(4) by simp
  note enc = encode_waiting [OF w'(2,3) this]
  show thesis by (rule that [OF _ w'(4)]) (use l w'(1) enc in \<open>simp add: fanout_one_def\<close>)
qed

text \<open>A session whose matching filters are all of QoS 0 is sent nothing, although SUBACK granted the subscription.\<close>

lemma fanout_qos0_nothing:
  assumes "\<forall>f \<in> set (ml_filters l). snd f = 0"
  shows "fanout_one t pl n l = ([], l)"
proof -
  have "foldl max 0 xs = 0" if "\<forall>x \<in> set xs. x = 0" for xs :: "nat list" using that by (induction xs) auto
  then have "fanout_grant (ml_filters l) t \<in> {None, Some 0}"
    using assms by (simp add: fanout_grant_max Let_def)
  then show ?thesis by (auto simp: fanout_one_def)
qed

section \<open>Bounds\<close>

text \<open>The window stays well formed under every operation, whether ids are distinct or not.\<close>

lemma win_ok_offer: "win_ok w \<Longrightarrow> cmq_mqtt_inflight_offer w (Some t) (Some pl) (length pl) q = (rc, i, w') \<Longrightarrow> win_ok w'"
proof (cases "offer_code t pl q (iw_count w) = 0")
  case True
  assume ok: "win_ok w" and run: "cmq_mqtt_inflight_offer w (Some t) (Some pl) (length pl) q = (rc, i, w')"
  from True have leg: "offer_legal t pl q" "iw_count w < CMQ_MQTT_INFLIGHT_MAX" by (simp_all add: offer_code_0)
  show "win_ok w'"
    by (rule inflight_offer_ok [OF ok leg]) (use run ok leg in \<open>auto simp: win_ok_def slot_ok_def offer_legal_def\<close>)
next
  case False
  assume "win_ok w" "cmq_mqtt_inflight_offer w (Some t) (Some pl) (length pl) q = (rc, i, w')"
  with inflight_offer_refused [OF False] show "win_ok w'" by simp
qed

lemma win_ok_free:
  assumes "win_ok w" "first_index P (iw_slots w) = Some i" "\<And>s. P s \<Longrightarrow> if_used s"
  shows "win_ok (inflight_free w i)"
proof -
  from assms(2) obtain xs s ys where sp: "iw_slots w = xs @ s # ys" "length xs = i" "P s" by (elim first_index_split) auto
  have "iw_slots w ! i = s" "(iw_slots w)[i := s\<lparr>if_used := False\<rparr>] = xs @ s\<lparr>if_used := False\<rparr> # ys"
    using sp(1,2) by auto
  then show ?thesis using assms(1) assms(3) [OF sp(3)] sp(1) by (auto simp: inflight_free_def win_ok_def)
qed

lemma win_ok_ack: "win_ok w \<Longrightarrow> win_ok (snd (cmq_mqtt_inflight_ack w i))"
proof (cases "first_index (\<lambda>s. if_used s \<and> if_packet_id s = i) (iw_slots w)")
  case None
  assume "win_ok w"
  then show ?thesis unfolding cmq_mqtt_inflight_ack_def None by simp
next
  case (Some k)
  assume "win_ok w"
  from this win_ok_free [OF this Some] show ?thesis unfolding cmq_mqtt_inflight_ack_def Some by (simp add: Let_def)
qed

lemma win_ok_rec: "win_ok w \<Longrightarrow> win_ok (snd (cmq_mqtt_inflight_rec w i))"
proof (cases "first_index (\<lambda>s. if_used s \<and> if_packet_id s = i \<and> if_qos s = 2 \<and> if_phase s = 0) (iw_slots w)")
  case None
  assume "win_ok w"
  then show ?thesis unfolding cmq_mqtt_inflight_rec_def None by simp
next
  case (Some k)
  assume ok: "win_ok w"
  from Some obtain xs s ys where sp: "iw_slots w = xs @ s # ys" "length xs = k" "if_used s" "if_qos s = 2"
    by (elim first_index_split) auto
  have "(iw_slots w)[k := (iw_slots w ! k)\<lparr>if_phase := 1\<rparr>] = xs @ s\<lparr>if_phase := 1\<rparr> # ys" using sp(1,2) by auto
  then show ?thesis using ok sp(1,3,4) unfolding cmq_mqtt_inflight_rec_def Some
    by (auto simp: win_ok_def slot_ok_def)
qed

definition live_slot_ok :: "mqtt_live \<Rightarrow> bool" where
  "live_slot_ok l \<longleftrightarrow> length (ml_filters l) \<le> MQTT_LIVE_FILTERS \<and>
     list_all (\<lambda>f. fst f \<noteq> [] \<and> length (fst f) < 128 \<and> snd f \<le> 2) (ml_filters l) \<and>
     (case ml_inf l of None \<Rightarrow> True | Some w \<Rightarrow> win_ok w)"

definition live_ok :: "mqtt_live list \<Rightarrow> bool" where
  "live_ok live \<longleftrightarrow> length live = MQTT_LIVE_MAX \<and> list_all live_slot_ok live"

lemma live_ok_update: "live_ok live \<Longrightarrow> live_slot_ok l \<Longrightarrow> live_ok (live[i := l])"
  by (cases "i < length live") (auto simp: live_ok_def list_all_length nth_list_update)

lemma live_ok_nth: "live_ok live \<Longrightarrow> i < length live \<Longrightarrow> live_slot_ok (live ! i)"
  by (simp add: live_ok_def list_all_length)

lemma live_ok_attach: "live_ok live \<Longrightarrow> win_ok w \<Longrightarrow> live_ok (snd (cmq_mqtt_session_attach fd (Some w) live))"
  by (auto simp: cmq_mqtt_session_attach_def live_zero_def live_slot_ok_def split: option.split intro!: live_ok_update)

lemma live_ok_detach: "live_ok live \<Longrightarrow> live_ok (cmq_mqtt_session_detach fd live)"
  by (auto simp: cmq_mqtt_session_detach_def live_zero_def live_slot_ok_def split: option.split intro!: live_ok_update)

lemma live_ok_filter: "live_ok live \<Longrightarrow> live_ok (snd (cmq_mqtt_session_add_filter fd f q live))"
proof (cases "first_index (\<lambda>l. ml_used l \<and> ml_fd l = fd) live")
  case None
  assume "live_ok live"
  then show ?thesis unfolding cmq_mqtt_session_add_filter_def None by (simp add: Let_def)
next
  case (Some i)
  assume ok: "live_ok live"
  have "live_slot_ok (live ! i)" using live_ok_nth [OF ok first_index_less [OF Some]] .
  then show ?thesis using ok unfolding cmq_mqtt_session_add_filter_def Some
    by (auto simp: Let_def live_slot_ok_def intro!: live_ok_update)
qed

lemma live_ok_ack: "live_ok live \<Longrightarrow> live_ok (snd (cmq_mqtt_session_ack fd pid live))"
proof (cases "first_index (\<lambda>l. ml_used l \<and> ml_fd l = fd \<and> ml_inf l \<noteq> None) live")
  case None
  assume "live_ok live"
  then show ?thesis unfolding cmq_mqtt_session_ack_def None by simp
next
  case (Some i)
  assume ok: "live_ok live"
  from Some obtain w where w: "ml_inf (live ! i) = Some w" by (elim first_index_split) auto
  have "live_slot_ok (live ! i)" using live_ok_nth [OF ok first_index_less [OF Some]] .
  then show ?thesis using ok w win_ok_ack [of w pid] unfolding cmq_mqtt_session_ack_def Some
    by (auto simp: live_slot_ok_def case_prod_unfold intro!: live_ok_update)
qed

lemma live_ok_rec: "live_ok live \<Longrightarrow> live_ok (snd (snd (cmq_mqtt_session_rec fd pid live)))"
proof (cases "first_index (\<lambda>l. ml_used l \<and> ml_fd l = fd \<and> ml_inf l \<noteq> None) live")
  case None
  assume "live_ok live"
  then show ?thesis unfolding cmq_mqtt_session_rec_def None by simp
next
  case (Some i)
  assume ok: "live_ok live"
  from Some obtain w where w: "ml_inf (live ! i) = Some w" by (elim first_index_split) auto
  have "live_slot_ok (live ! i)" using live_ok_nth [OF ok first_index_less [OF Some]] .
  then show ?thesis using ok w win_ok_rec [of w pid] unfolding cmq_mqtt_session_rec_def Some
    by (auto simp: live_slot_ok_def case_prod_unfold intro!: live_ok_update)
qed

lemma live_slot_ok_fanout:
  assumes ok: "live_slot_ok l"
  shows "live_slot_ok (snd (fanout_one t (Some pl) (length pl) l))"
proof (cases "ml_inf l")
  case None
  then show ?thesis using ok by (simp add: fanout_one_def)
next
  case (Some w)
  show ?thesis
  proof (cases "fanout_grant (ml_filters l) t")
    case None
    then show ?thesis using ok by (simp add: fanout_one_def)
  next
    case g: (Some q)
    obtain rc i w' where off: "cmq_mqtt_inflight_offer w (Some t) (Some pl) (length pl) q = (rc, i, w')" by (metis prod_cases3)
    have "win_ok w" using ok Some by (simp add: live_slot_ok_def)
    from win_ok_offer [OF this off] have "win_ok w'" "win_ok (snd (cmq_mqtt_inflight_ack w' i))" by (auto intro: win_ok_ack)
    then show ?thesis using ok off unfolding fanout_one_def Some g
      by (auto simp: live_slot_ok_def split: option.split)
  qed
qed

lemma live_ok_fanout: "live_ok live \<Longrightarrow> live_ok (snd (cmq_mqtt_fanout t (Some pl) (length pl) live))"
  by (auto simp: cmq_mqtt_fanout_def live_ok_def list_all_iff intro: live_slot_ok_fanout)

end
