(* ===== verification/CMQ_Mqtt_Retain.thy ===== *)
theory CMQ_Mqtt_Retain
  imports CMQ_Mqtt_Codec
begin

text \<open>
  Retained messages of the MQTT listener and the file they are kept in (\<^verbatim>\<open>src/enterprise/cmq_mqtt_server.c\<close>). The file is the
  list of its bytes. A stream opened for reading sees what is appended after it was opened, since it reads again when its buffer is
  used up; the model reads from the file as it is at that moment.
\<close>

section \<open>Library calls\<close>

definition white :: "u8 \<Rightarrow> bool" where
  "white c \<longleftrightarrow> c = 0x20 \<or> (9 \<le> c \<and> c \<le> 13)"

definition dec_digit :: "u8 \<Rightarrow> bool" where
  "dec_digit c \<longleftrightarrow> 0x30 \<le> c \<and> c \<le> 0x39"

text \<open>Decimal numbers as \<^verbatim>\<open>fprintf\<close> writes them; \<open>%d\<close> is applied to a size cast to \<^verbatim>\<open>int\<close>.\<close>

fun dec_bytes :: "nat \<Rightarrow> bytes" where
  "dec_bytes n = (if n < 10 then [0x30 + of_nat n] else dec_bytes (n div 10) @ [0x30 + of_nat (n mod 10)])"

declare dec_bytes.simps [simp del]

definition fmt_d :: "nat \<Rightarrow> bytes" where
  "fmt_d n = (if n mod 2 ^ 32 < 2 ^ 31 then dec_bytes (n mod 2 ^ 32) else 0x2D # dec_bytes (2 ^ 32 - n mod 2 ^ 32))"

text \<open>The conversions of \<^verbatim>\<open>fscanf\<close>: each answers the value and the bytes left, \<open>None\<close> when nothing matches.\<close>

definition scan_word :: "nat \<Rightarrow> bytes \<Rightarrow> (bytes \<times> bytes) option" where
  "scan_word width b =
     (let b = dropWhile white b; w = takeWhile (\<lambda>c. \<not> white c) (take width b)
      in if w = [] then None else Some (w, drop (length w) b))"

definition dec_value :: "bytes \<Rightarrow> nat" where
  "dec_value ds = foldl (\<lambda>v c. v * 10 + unat (c - 0x30)) 0 ds"

definition scan_int :: "bytes \<Rightarrow> (int \<times> bytes) option" where
  "scan_int b =
     (let b = dropWhile white b;
          neg = (b \<noteq> [] \<and> hd b = 0x2D);
          b = (if b \<noteq> [] \<and> (hd b = 0x2D \<or> hd b = 0x2B) then tl b else b);
          ds = takeWhile dec_digit b
      in if ds = [] then None
         else Some (if neg then - int (dec_value ds) else int (dec_value ds), drop (length ds) b))"

text \<open>\<open>%d\<close> keeps 32 bits of a value that saturates at 64 bits, \<open>%zu\<close> keeps 64 bits.\<close>

definition to_int32 :: "int \<Rightarrow> int" where
  "to_int32 v = (let v = max (- (2 ^ 63)) (min (2 ^ 63 - 1) v); u = v mod 2 ^ 32 in if u < 2 ^ 31 then u else u - 2 ^ 32)"

definition to_size :: "int \<Rightarrow> nat" where
  "to_size v = (if \<bar>v\<bar> \<ge> 2 ^ 64 then SIZE_MAX else nat (v mod 2 ^ 64))"

definition scan_record :: "bytes \<Rightarrow> (bytes \<times> int \<times> nat \<times> bytes) option" where
  "scan_record b =
     (case scan_word 127 b of
        None \<Rightarrow> None
      | Some (topic, b) \<Rightarrow>
          (case scan_int b of
             None \<Rightarrow> None
           | Some (tlen, b) \<Rightarrow>
               (case scan_int b of
                  None \<Rightarrow> None
                | Some (plen, b) \<Rightarrow> Some (topic, to_int32 tlen, to_size plen, dropWhile white b))))"

section \<open>The store\<close>

definition MQTT_MAX_RETAINED :: nat where "MQTT_MAX_RETAINED = 32"

record retained_entry =
  re_topic :: bytes
  re_payload :: "bytes option"
  re_len :: nat

text \<open>The path is set or not; when it is, the file can be opened.\<close>

record retained =
  rt_entries :: "retained_entry list"
  rt_path_set :: bool
  rt_file :: bytes

definition retain_line :: "bytes \<Rightarrow> bytes \<Rightarrow> nat \<Rightarrow> bytes" where
  "retain_line topic payload len =
     topic @ [0x20] @ fmt_d len @ [0x20] @ dec_bytes len @ [0x20] @ (if len > 0 then take len payload else []) @ [0x0A]"

text \<open>The entry at \<open>i\<close> gets the payload, and the record goes to the file.\<close>

definition retain_at :: "heap \<Rightarrow> retained \<Rightarrow> nat \<Rightarrow> bytes \<Rightarrow> bytes option \<Rightarrow> nat \<Rightarrow> retained" where
  "retain_at h rt i topic payload len =
     rt\<lparr>rt_entries := (rt_entries rt)[i := \<lparr>re_topic = topic,
           re_payload = (if fst (malloc_ok h) then Some (if len > 0 then take len (the payload) else []) else None), re_len = len\<rparr>],
        rt_file := (if rt_path_set rt then rt_file rt @ retain_line topic (case payload of None \<Rightarrow> [] | Some p \<Rightarrow> p) len else rt_file rt)\<rparr>"

definition cmq_mqtt_store_retained :: "heap \<Rightarrow> bytes option \<Rightarrow> bytes option \<Rightarrow> nat \<Rightarrow> retained \<Rightarrow> retained" where
  "cmq_mqtt_store_retained h topic payload len rt =
     (if topic = None \<or> topic = Some [] \<or> (payload = None \<and> len > 0) then rt
      else case first_index (\<lambda>e. re_topic e = the topic) (rt_entries rt) of
        Some i \<Rightarrow> retain_at h rt i (re_topic (rt_entries rt ! i)) payload len
      | None \<Rightarrow>
          if length (rt_entries rt) \<ge> MQTT_MAX_RETAINED then rt
          else retain_at h (rt\<lparr>rt_entries := rt_entries rt @ [\<lparr>re_topic = take 127 (the topic), re_payload = None, re_len = 0\<rparr>]\<rparr>)
                 (length (rt_entries rt)) (take 127 (the topic)) payload len)"

definition cmq_mqtt_fetch_retained :: "bytes option \<Rightarrow> retained \<Rightarrow> (bytes option \<times> nat) option" where
  "cmq_mqtt_fetch_retained topic rt =
     (case topic of
        None \<Rightarrow> None
      | Some t \<Rightarrow> map_option (\<lambda>e. (re_payload e, re_len e)) (find (\<lambda>e. re_topic e = t) (rt_entries rt)))"

text \<open>
  The loop that loads the file from position \<open>pos\<close>: every record is stored again, which appends it to the file that is
  being read. \<open>None\<close> is a loop that does not return.
\<close>

partial_function (option) retain_load :: "heap \<Rightarrow> nat \<Rightarrow> retained \<Rightarrow> retained option" where
  "retain_load h pos rt =
     (case scan_record (drop pos (rt_file rt)) of
        None \<Rightarrow> Some rt
      | Some (topic, tlen, plen, b) \<Rightarrow>
          (let pos = length (rt_file rt) - length b
           in if tlen \<le> 0 \<or> tlen \<ge> 128 \<or> plen = 0 then retain_load h pos rt
              else if \<not> fst (malloc_ok h) then retain_load (snd (malloc_ok h)) pos rt
              else if length b < plen then retain_load (snd (malloc_ok h)) (length (rt_file rt)) rt
              else retain_load (snd (malloc_ok (snd (malloc_ok h)))) (pos + plen)
                     (cmq_mqtt_store_retained (snd (malloc_ok h)) (Some topic) (Some (take plen b)) plen rt)))"

text \<open>\<open>file\<close> is what the path holds, \<open>None\<close> when it cannot be read.\<close>

definition cmq_mqtt_set_retain_path :: "heap \<Rightarrow> bytes option option \<Rightarrow> retained \<Rightarrow> retained option" where
  "cmq_mqtt_set_retain_path h path rt =
     (case path of
        None \<Rightarrow> Some (rt\<lparr>rt_path_set := False\<rparr>)
      | Some file \<Rightarrow>
          (let rt = rt\<lparr>rt_path_set := True, rt_file := (case file of None \<Rightarrow> [] | Some f \<Rightarrow> f)\<rparr>
           in case file of None \<Rightarrow> Some rt | Some f \<Rightarrow> retain_load h 0 rt))"

section \<open>The last payload per topic\<close>

definition retained_view :: "retained \<Rightarrow> bytes \<Rightarrow> (bytes option \<times> nat) option" where
  "retained_view rt t = cmq_mqtt_fetch_retained (Some t) rt"

definition retained_ok :: "retained \<Rightarrow> bool" where
  "retained_ok rt \<longleftrightarrow> distinct (map re_topic (rt_entries rt)) \<and> length (rt_entries rt) \<le> MQTT_MAX_RETAINED \<and>
     list_all (\<lambda>e. re_topic e \<noteq> [] \<and> length (re_topic e) < 128) (rt_entries rt)"

text \<open>A message is kept when its topic is known or there is room; fetching then answers it, and other topics are as before.\<close>

lemma store_retained_fetch:
  fixes pl :: bytes
  assumes ok: "retained_ok rt" and t: "t \<noteq> []" "length t < 128"
    and room: "retained_view rt t \<noteq> None \<or> length (rt_entries rt) < MQTT_MAX_RETAINED"
  defines "rt' \<equiv> cmq_mqtt_store_retained [] (Some t) (Some pl) (length pl) rt"
  shows "retained_ok rt'" "retained_view rt' = (retained_view rt)(t \<mapsto> (Some pl, length pl))"
    "rt_file rt' = (if rt_path_set rt then rt_file rt @ retain_line t pl (length pl) else rt_file rt)"
    "rt_path_set rt' = rt_path_set rt"
proof -
  have tk: "take 127 t = t" using t by simp
  have pl: "(if length pl > 0 then take (length pl) pl else []) = pl" by simp
  have none: "t \<notin> re_topic ` set xs \<Longrightarrow> find (\<lambda>e. re_topic e = t) xs = None" for xs by (auto simp: find_None_iff)
  have "retained_ok rt' \<and> retained_view rt' = (retained_view rt)(t \<mapsto> (Some pl, length pl)) \<and>
    rt_file rt' = (if rt_path_set rt then rt_file rt @ retain_line t pl (length pl) else rt_file rt) \<and> rt_path_set rt' = rt_path_set rt"
  proof (cases "first_index (\<lambda>e. re_topic e = t) (rt_entries rt)")
    case None
    then have nt: "t \<notin> re_topic ` set (rt_entries rt)" by (auto simp: first_index_None)
    then have r: "length (rt_entries rt) < MQTT_MAX_RETAINED"
      using room none [OF nt] by (auto simp: retained_view_def cmq_mqtt_fetch_retained_def)
    have "rt' = retain_at [] (rt\<lparr>rt_entries := rt_entries rt @ [\<lparr>re_topic = t, re_payload = None, re_len = 0\<rparr>]\<rparr>)
        (length (rt_entries rt)) t (Some pl) (length pl)"
      using t None r unfolding rt'_def cmq_mqtt_store_retained_def by (simp add: tk)
    then show ?thesis using ok t nt r none [OF nt]
      by (auto simp: retain_at_def retained_ok_def retained_view_def cmq_mqtt_fetch_retained_def fun_eq_iff find_append
          split: option.splits)
  next
    case (Some i)
    then obtain xs e ys where sp: "rt_entries rt = xs @ e # ys" "length xs = i" "re_topic e = t" "\<forall>x \<in> set xs. re_topic x \<noteq> t"
      by (elim first_index_split) auto
    have nt: "find (\<lambda>e. re_topic e = t) xs = None" using sp(4) by (auto simp: find_None_iff)
    have "rt' = retain_at [] rt i t (Some pl) (length pl)"
      using t Some sp unfolding rt'_def cmq_mqtt_store_retained_def by auto
    also have "\<dots> = rt\<lparr>rt_entries := xs @ \<lparr>re_topic = t, re_payload = Some pl, re_len = length pl\<rparr> # ys,
        rt_file := (if rt_path_set rt then rt_file rt @ retain_line t pl (length pl) else rt_file rt)\<rparr>"
      using sp(1,2) by (auto simp: retain_at_def)
    finally show ?thesis using ok t sp nt
      by (auto simp: retained_ok_def retained_view_def cmq_mqtt_fetch_retained_def fun_eq_iff find_append split: option.splits)
  qed
  then show "retained_ok rt'" "retained_view rt' = (retained_view rt)(t \<mapsto> (Some pl, length pl))"
    "rt_file rt' = (if rt_path_set rt then rt_file rt @ retain_line t pl (length pl) else rt_file rt)"
    "rt_path_set rt' = rt_path_set rt" by auto
qed

section \<open>Reading the file back\<close>

text \<open>Scanning reads what printing wrote.\<close>

lemma dec_digit_char: "n < 10 \<Longrightarrow> dec_digit (0x30 + of_nat n)" "n < 10 \<Longrightarrow> unat ((0x30 + of_nat n :: u8) - 0x30) = n"
proof -
  have "\<forall>n \<in> {..<10}. dec_digit (0x30 + of_nat n) \<and> unat ((0x30 + of_nat n :: u8) - 0x30) = n" by code_simp
  then show "n < 10 \<Longrightarrow> dec_digit (0x30 + of_nat n)" "n < 10 \<Longrightarrow> unat ((0x30 + of_nat n :: u8) - 0x30) = n" by auto
qed

lemma dec_bytes_props: "dec_bytes n \<noteq> [] \<and> list_all dec_digit (dec_bytes n) \<and> dec_value (dec_bytes n) = n"
proof (induction n rule: dec_bytes.induct)
  case (1 n)
  show ?case
  proof (cases "n < 10")
    case True
    then show ?thesis using dec_bytes.simps [of n] dec_digit_char [of n] by (simp add: dec_value_def)
  next
    case False
    with 1 dec_bytes.simps [of n] dec_digit_char [of "n mod 10"] show ?thesis by (simp add: dec_value_def)
  qed
qed

lemma digit_not_white: "dec_digit c \<Longrightarrow> \<not> white c" "dec_digit c \<Longrightarrow> c \<noteq> 0x2D \<and> c \<noteq> 0x2B" "\<not> dec_digit 0x20"
proof -
  show "dec_digit c \<Longrightarrow> \<not> white c"
  proof
    assume "dec_digit c" "white c"
    then have "0x30 \<le> c" "c \<le> 13" by (auto simp: dec_digit_def white_def)
    then have "(0x30 :: u8) \<le> 13" by (rule order_trans)
    then show False by simp
  qed
  show "dec_digit c \<Longrightarrow> c \<noteq> 0x2D \<and> c \<noteq> 0x2B" by (auto simp: dec_digit_def)
  show "\<not> dec_digit 0x20" by (simp add: dec_digit_def)
qed

lemma white_space: "white 0x20" "white 0x0A"
  by (simp_all add: white_def)

lemma scan_int_dec: "scan_int (0x20 # dec_bytes n @ 0x20 # rest) = Some (int n, 0x20 # rest)"
proof -
  obtain d ds where d: "dec_bytes n = d # ds" using dec_bytes_props [of n] by (cases "dec_bytes n") auto
  have dd: "dec_digit d" "list_all dec_digit (d # ds)" and v: "dec_value (d # ds) = n"
    using dec_bytes_props [of n] d by auto
  note nw = digit_not_white(1) [OF dd(1)] digit_not_white(2) [OF dd(1)]
  define b where "b = (d # ds) @ 0x20 # rest"
  have dw: "dropWhile white (0x20 # (d # ds) @ 0x20 # rest) = b" using nw white_space by (simp add: b_def)
  have tw: "takeWhile dec_digit b = d # ds"
    using dd(2) digit_not_white(3) takeWhile_append2 [of "d # ds" dec_digit "0x20 # rest"] by (auto simp: list_all_iff b_def)
  have b: "b \<noteq> []" "hd b = d" "drop (length (d # ds)) b = 0x20 # rest" by (simp_all add: b_def)
  show ?thesis unfolding scan_int_def d dw Let_def using nw v tw b by simp
qed

lemma scan_word_space:
  assumes "t \<noteq> []" "length t \<le> 127" "list_all (\<lambda>c. \<not> white c) t" "list_all white pad"
  shows "scan_word 127 (pad @ t @ 0x20 # rest) = Some (t, 0x20 # rest)"
proof -
  have "dropWhile white (pad @ t @ 0x20 # rest) = t @ 0x20 # rest"
    using assms by (cases t) (auto simp: dropWhile_append list_all_iff)
  moreover have "takeWhile (\<lambda>c. \<not> white c) (take 127 (t @ 0x20 # rest)) = t"
  proof (cases "length t = 127")
    case True
    then have "take 127 (t @ 0x20 # rest) = t" by simp
    then show ?thesis using assms(3) by (simp add: takeWhile_eq_all_conv list_all_iff)
  next
    case False
    then have "127 - length t = Suc (126 - length t)" using assms(2) by simp
    then have "take 127 (t @ 0x20 # rest) = t @ 0x20 # take (126 - length t) rest" using assms(2) by simp
    then show ?thesis using assms(3) white_space by (simp add: takeWhile_append list_all_iff)
  qed
  ultimately show ?thesis using assms(1) by (simp add: scan_word_def Let_def)
qed

definition line_safe :: "bytes \<Rightarrow> bytes \<Rightarrow> bool" where
  "line_safe t pl \<longleftrightarrow> t \<noteq> [] \<and> length t \<le> 127 \<and> list_all (\<lambda>c. \<not> white c) t \<and> pl \<noteq> [] \<and> length pl < 128 \<and> \<not> white (hd pl)"

lemma scan_retain_line:
  assumes "line_safe t pl" "list_all white pad"
  shows "scan_record (pad @ retain_line t pl (length pl) @ rest) = Some (t, int (length pl), length pl, pl @ 0x0A # rest)"
proof -
  have l: "retain_line t pl (length pl) = t @ 0x20 # dec_bytes (length pl) @ 0x20 # dec_bytes (length pl) @ 0x20 # pl @ [0x0A]"
    using assms by (simp add: retain_line_def fmt_d_def line_safe_def)
  have w: "scan_word 127 (pad @ retain_line t pl (length pl) @ rest) =
      Some (t, 0x20 # dec_bytes (length pl) @ 0x20 # dec_bytes (length pl) @ 0x20 # pl @ 0x0A # rest)"
    using assms scan_word_space [of t pad "dec_bytes (length pl) @ 0x20 # dec_bytes (length pl) @ 0x20 # pl @ 0x0A # rest"]
    unfolding l line_safe_def by simp
  have dw: "dropWhile white (0x20 # pl @ 0x0A # rest) = pl @ 0x0A # rest"
    using assms white_space by (cases pl) (auto simp: line_safe_def)
  have "to_int32 (int (length pl)) = int (length pl)" "to_size (int (length pl)) = length pl"
    using assms by (auto simp: to_int32_def to_size_def line_safe_def Let_def min_def max_def)
  then show ?thesis unfolding scan_record_def w by (simp add: scan_int_dec dw [simplified])
qed

text \<open>
  A stream that is about to read a safe record and is alone in the file reads it, appends it to the file, and is about to read it
  again.
\<close>

definition at_line :: "bytes \<Rightarrow> bytes \<Rightarrow> nat \<Rightarrow> retained \<Rightarrow> bool" where
  "at_line t pl pos rt \<longleftrightarrow> rt_path_set rt \<and> retained_ok rt \<and>
     (retained_view rt t \<noteq> None \<or> length (rt_entries rt) < MQTT_MAX_RETAINED) \<and> pos \<le> length (rt_file rt) \<and>
     (\<exists>pad. list_all white pad \<and> drop pos (rt_file rt) = pad @ retain_line t pl (length pl))"

lemma at_line_step:
  assumes safe: "line_safe t pl" and at: "at_line t pl pos rt"
  shows "\<exists>pos' b. scan_record (drop pos (rt_file rt)) = Some (t, int (length pl), length pl, b) \<and>
     length (rt_file rt) - length b + length pl = pos' \<and> take (length pl) b = pl \<and> length pl \<le> length b \<and>
     at_line t pl pos' (cmq_mqtt_store_retained [] (Some t) (Some pl) (length pl) rt)"
proof -
  obtain pad where pad: "list_all white pad" "drop pos (rt_file rt) = pad @ retain_line t pl (length pl)"
    using at by (auto simp: at_line_def)
  let ?b = "pl @ [0x0A]"
  let ?rt = "cmq_mqtt_store_retained [] (Some t) (Some pl) (length pl) rt"
  have sc: "scan_record (drop pos (rt_file rt)) = Some (t, int (length pl), length pl, ?b)"
    using scan_retain_line [OF safe pad(1), of "[]"] pad(2) by simp
  have st: "retained_ok ?rt" "retained_view ?rt = (retained_view rt)(t \<mapsto> (Some pl, length pl))"
    "rt_file ?rt = rt_file rt @ retain_line t pl (length pl)" "rt_path_set ?rt"
    using store_retained_fetch [of rt t pl] at safe by (auto simp: at_line_def line_safe_def)
  define f where "f = take pos (rt_file rt) @ pad @ t @ 0x20 # fmt_d (length pl) @ 0x20 # dec_bytes (length pl) @ [0x20]"
  have f: "rt_file rt = f @ pl @ [0x0A]"
    unfolding f_def using pad(2) safe append_take_drop_id [of pos "rt_file rt"] by (simp add: retain_line_def line_safe_def)
  have pos: "length (rt_file rt) - length ?b + length pl = length (f @ pl)"
    unfolding f by simp
  have "drop (length (f @ pl)) (rt_file ?rt) = [0x0A] @ retain_line t pl (length pl)"
    unfolding st(3) f by simp
  moreover have "length (f @ pl) \<le> length (rt_file ?rt)" unfolding st(3) f by simp
  ultimately have "at_line t pl (length (f @ pl)) ?rt"
    unfolding at_line_def using st white_space by (auto intro!: exI [of _ "[0x0A]"])
  with sc pos show ?thesis by (intro exI [of _ "length (f @ pl)"] exI [of _ ?b]) auto
qed

lemma retain_load_diverges:
  assumes safe: "line_safe t pl" and at: "at_line t pl pos rt"
  shows "retain_load [] pos rt = None"
proof -
  have "\<not> (h = [] \<and> at_line t pl pos rt)" if "retain_load h pos rt = Some r" for h pos rt r
  proof (rule retain_load.raw_induct [of "\<lambda>h pos rt r. \<not> (h = [] \<and> at_line t pl pos rt)", OF _ that])
    fix self :: "heap \<Rightarrow> nat \<Rightarrow> retained \<Rightarrow> retained option" and h pos rt r
    assume ih: "\<And>h pos rt r. self h pos rt = Some r \<Longrightarrow> \<not> (h = [] \<and> at_line t pl pos rt)"
      and body: "(case scan_record (drop pos (rt_file rt)) of
        None \<Rightarrow> Some rt
      | Some (topic, tlen, plen, b) \<Rightarrow>
          (let pos = length (rt_file rt) - length b
           in if tlen \<le> 0 \<or> tlen \<ge> 128 \<or> plen = 0 then self h pos rt
              else if \<not> fst (malloc_ok h) then self (snd (malloc_ok h)) pos rt
              else if length b < plen then self (snd (malloc_ok h)) (length (rt_file rt)) rt
              else self (snd (malloc_ok (snd (malloc_ok h)))) (pos + plen)
                     (cmq_mqtt_store_retained (snd (malloc_ok h)) (Some topic) (Some (take plen b)) plen rt))) = Some r"
    show "\<not> (h = [] \<and> at_line t pl pos rt)"
    proof
      assume a: "h = [] \<and> at_line t pl pos rt"
      from at_line_step [OF safe, of pos rt] a obtain pos' b where
        s: "scan_record (drop pos (rt_file rt)) = Some (t, int (length pl), length pl, b)"
          "length (rt_file rt) - length b + length pl = pos'" "take (length pl) b = pl" "length pl \<le> length b"
        and at': "at_line t pl pos' (cmq_mqtt_store_retained [] (Some t) (Some pl) (length pl) rt)" by blast
      have "self [] pos' (cmq_mqtt_store_retained [] (Some t) (Some pl) (length pl) rt) = Some r"
        using body s safe a by (simp add: Let_def line_safe_def split: if_splits)
      from ih [OF this] at' show False by simp
    qed
  qed
  with at show ?thesis by (cases "retain_load [] pos rt") auto
qed

text \<open>C37. Loading the retained messages does not end: when a message with a topic free of white space and a payload of 1 to 127
  bytes that does not start with white space has been retained in an empty file, the listener that is given this file on its next
  start reads the record, appends it to the file again, and goes on for ever.\<close>

theorem mqtt_retain_load_diverges:
  assumes "line_safe t pl" "rt_file (cmq_mqtt_store_retained [] (Some t) (Some pl) (length pl)
      \<lparr>rt_entries = [], rt_path_set = True, rt_file = []\<rparr>) = file"
  shows "cmq_mqtt_set_retain_path [] (Some (Some file)) \<lparr>rt_entries = [], rt_path_set = False, rt_file = []\<rparr> = None"
proof -
  have ok: "retained_ok \<lparr>rt_entries = [], rt_path_set = p, rt_file = f\<rparr>" for p f by (simp add: retained_ok_def)
  have "file = retain_line t pl (length pl)"
    using store_retained_fetch(3) [OF ok, of t True "[]" pl] assms by (auto simp: line_safe_def MQTT_MAX_RETAINED_def)
  then have "at_line t pl 0 \<lparr>rt_entries = [], rt_path_set = True, rt_file = file\<rparr>"
    by (auto simp: at_line_def ok MQTT_MAX_RETAINED_def)
  from retain_load_diverges [OF assms(1) this] show ?thesis by (simp add: cmq_mqtt_set_retain_path_def)
qed

theorem mqtt_retain_load_diverges_witness:
  "\<exists>file. rt_file (cmq_mqtt_store_retained [] (Some [0x61]) (Some [0x31]) 1
      \<lparr>rt_entries = [], rt_path_set = True, rt_file = []\<rparr>) = file \<and>
    cmq_mqtt_set_retain_path [] (Some (Some file)) \<lparr>rt_entries = [], rt_path_set = False, rt_file = []\<rparr> = None"
  using mqtt_retain_load_diverges [of "[0x61]" "[0x31]"] by (simp add: line_safe_def white_def)

end
