(* ===== verification/CMQ_Table.thy ===== *)
theory CMQ_Table
  imports CMQ_Prelude
begin

text \<open>
  Tables of fixed size whose slots are found by a key: the wills and sessions of the MQTT listener, the open transactions of the
  coordinator. They are searched from the front, and a new key takes the first free slot.
\<close>

text \<open>The slot for a key: its own, else the first free one.\<close>

definition client_slot :: "('s \<Rightarrow> bool) \<Rightarrow> ('s \<Rightarrow> 'k) \<Rightarrow> 'k \<Rightarrow> 's list \<Rightarrow> nat option" where
  "client_slot used key cid tbl =
     (case first_index (\<lambda>s. used s \<and> key s = cid) tbl of
        Some i \<Rightarrow> Some i
      | None \<Rightarrow> first_index (\<lambda>s. \<not> used s) tbl)"

text \<open>
  The contract of a table of fixed size that is searched by a key: what it holds for a key is what was last put there, as
  long as no two used slots have the same key.
\<close>

locale slot_table =
  fixes used :: "'s \<Rightarrow> bool" and key :: "'s \<Rightarrow> 'k" and zero :: 's
  assumes zero_unused: "\<not> used zero"
begin

definition view :: "'s list \<Rightarrow> 'k \<rightharpoonup> 's" where
  "view tbl k = find (\<lambda>s. used s \<and> key s = k) tbl"

definition ok :: "'s list \<Rightarrow> bool" where
  "ok tbl \<longleftrightarrow> distinct (map key (filter used tbl))"

lemma view_split:
  assumes "ok tbl" "tbl = xs @ s # ys" "used s"
  shows "view tbl (key s) = Some s" "find (\<lambda>x. used x \<and> key x = key s) xs = None" "find (\<lambda>x. used x \<and> key x = key s) ys = None"
proof -
  have d: "key s \<notin> key ` set (filter used xs)" "key s \<notin> key ` set (filter used ys)"
    using assms unfolding ok_def by auto
  then show n: "find (\<lambda>x. used x \<and> key x = key s) xs = None" "find (\<lambda>x. used x \<and> key x = key s) ys = None"
    by (auto simp: find_None_iff image_iff)
  show "view tbl (key s) = Some s" using assms(2,3) n by (simp add: view_def find_append)
qed

lemma index_view: "first_index (\<lambda>s. used s \<and> key s = k) tbl = None \<longleftrightarrow> view tbl k = None"
  by (auto simp: first_index_None view_def find_None_iff)

lemma clear:
  assumes "ok tbl" "first_index (\<lambda>s. used s \<and> key s = k) tbl = Some i"
  shows "ok (tbl[i := zero])" "view (tbl[i := zero]) = (view tbl)(k := None)" "view tbl k = Some (tbl ! i)"
proof -
  from assms(2) obtain xs s ys where sp: "tbl = xs @ s # ys" "length xs = i" "used s" "key s = k"
    by (elim first_index_split) auto
  note v = view_split [OF assms(1) sp(1,3)]
  have u: "tbl[i := zero] = xs @ zero # ys" using sp(1,2) by auto
  show "ok (tbl[i := zero])" unfolding u using assms(1) sp(1,3) zero_unused by (simp add: ok_def)
  show "view tbl k = Some (tbl ! i)" using v(1) sp by auto
  show "view (tbl[i := zero]) = (view tbl)(k := None)"
  proof
    fix j
    show "view (tbl[i := zero]) j = ((view tbl)(k := None)) j"
      unfolding u using v sp zero_unused
      by (cases "j = k") (simp_all add: view_def find_append split: option.split)
  qed
qed

lemma put:
  assumes "ok tbl" "client_slot used key k tbl = Some i" "used s" "key s = k"
  shows "ok (tbl[i := s])" "view (tbl[i := s]) = (view tbl)(k \<mapsto> s)"
proof -
  have "ok (tbl[i := s]) \<and> view (tbl[i := s]) = (view tbl)(k \<mapsto> s)"
  proof (cases "first_index (\<lambda>s. used s \<and> key s = k) tbl")
    case (Some j)
    then have "i = j" using assms(2) by (simp add: client_slot_def)
    with Some obtain xs r ys where sp: "tbl = xs @ r # ys" "length xs = i" "used r" "key r = k"
      by (elim first_index_split) auto
    note v = view_split [OF assms(1) sp(1,3)]
    have u: "tbl[i := s] = xs @ s # ys" using sp(1,2) by auto
    have "view (tbl[i := s]) j = ((view tbl)(k \<mapsto> s)) j" for j
      unfolding u using v sp assms(3,4) by (cases "j = k") (simp_all add: view_def find_append split: option.split)
    then show ?thesis using assms sp u by (auto simp: ok_def)
  next
    case None
    then have "first_index (\<lambda>s. \<not> used s) tbl = Some i" using assms(2) by (simp add: client_slot_def)
    then obtain xs r ys where sp: "tbl = xs @ r # ys" "length xs = i" "\<not> used r" by (elim first_index_split) auto
    have u: "tbl[i := s] = xs @ s # ys" using sp(1,2) by auto
    have n: "\<forall>x \<in> set tbl. used x \<longrightarrow> key x \<noteq> k" using None by (auto simp: first_index_None)
    then have "find (\<lambda>x. used x \<and> key x = k) xs = None" using sp(1) by (auto simp: find_None_iff)
    then have "view (tbl[i := s]) j = ((view tbl)(k \<mapsto> s)) j" for j
      unfolding u using sp assms(3,4) by (cases "j = k") (simp_all add: view_def find_append split: option.split)
    then show ?thesis using assms sp n unfolding u by (auto simp: ok_def)
  qed
  then show "ok (tbl[i := s])" "view (tbl[i := s]) = (view tbl)(k \<mapsto> s)" by auto
qed

lemma full: "client_slot used key k tbl = None \<longleftrightarrow> view tbl k = None \<and> list_all used tbl"
proof (cases "first_index (\<lambda>s. used s \<and> key s = k) tbl")
  case None
  then have "client_slot used key k tbl = first_index (\<lambda>s. \<not> used s) tbl" by (simp add: client_slot_def)
  then show ?thesis using None index_view [of k tbl] by (simp add: first_index_None list_all_iff)
next
  case (Some i)
  then show ?thesis using index_view [of k tbl] by (auto simp: client_slot_def)
qed

lemma dom_view: "dom (view tbl) = key ` set (filter used tbl)"
proof -
  have "view tbl k \<noteq> None \<longleftrightarrow> k \<in> key ` set (filter used tbl)" for k by (auto simp: view_def find_None_iff)
  then show ?thesis by (auto simp: domIff)
qed

lemma card_view: "ok tbl \<Longrightarrow> card (dom (view tbl)) = length (filter used tbl)"
  unfolding dom_view ok_def by (metis distinct_card length_map list.set_map)

lemma free_iff: "ok tbl \<Longrightarrow> first_index (\<lambda>s. \<not> used s) tbl = None \<longleftrightarrow> card (dom (view tbl)) \<ge> length tbl"
  unfolding card_view first_index_None by (metis filter_id_conv length_filter_less not_less order_refl)

lemma ok_fresh: "\<forall>s \<in> set tbl. \<not> used s \<Longrightarrow> ok tbl \<and> view tbl = Map.empty"
  by (auto simp: ok_def view_def find_None_iff fun_eq_iff)

end

end
