(* ===== verification/CMQ_Mqtt_Tables.thy ===== *)
theory CMQ_Mqtt_Tables
  imports CMQ_Mqtt_Retain CMQ_Table
begin

text \<open>
  The tables of the MQTT listener that outlive a connection (\<^verbatim>\<open>src/enterprise/cmq_mqtt_server.c\<close>): wills and durable sessions by
  client id, the phases of inbound QoS 2, the recorded filters, the rate limit per address, and the queue to the broker with its
  list of free buffers. Each has a lock of its own, so every operation is one step.
\<close>

section \<open>Tables by client\<close>

definition CMQ_MQTT_SESSIONS_MAX :: nat where "CMQ_MQTT_SESSIONS_MAX = 32"
definition CMQ_MQTT_SESSION_SUBS :: nat where "CMQ_MQTT_SESSION_SUBS = 8"

subsection \<open>Wills\<close>

record will_slot =
  wl_used :: bool
  wl_client_id :: bytes
  wl_topic :: bytes
  wl_payload :: "bytes option"
  wl_len :: nat
  wl_retain :: bool

definition will_zero :: will_slot where
  "will_zero = \<lparr>wl_used = False, wl_client_id = [], wl_topic = [], wl_payload = None, wl_len = 0, wl_retain = False\<rparr>"

definition cmq_mqtt_will_store :: "heap \<Rightarrow> bytes \<Rightarrow> connect_info \<Rightarrow> will_slot list \<Rightarrow> int \<times> will_slot list" where
  "cmq_mqtt_will_store h client_id ci wills =
     (if client_id = [] \<or> \<not> ci_will_flag ci \<or> ci_will_topic ci = [] then (- 1, wills)
      else if length (ci_will_payload ci) > CMQ_MQTT_WILL_PAYLOAD_MAX then (- 1, wills)
      else case client_slot wl_used wl_client_id client_id wills of
        None \<Rightarrow> (- 1, wills)
      | Some i \<Rightarrow>
          (let w = \<lparr>wl_used = True, wl_client_id = take 63 client_id, wl_topic = take 127 (ci_will_topic ci), wl_payload = None,
                    wl_len = length (ci_will_payload ci), wl_retain = ci_will_retain ci\<rparr>
           in if ci_will_payload ci = [] then (0, wills[i := w])
              else if \<not> fst (malloc_ok h) then (- 1, wills[i := w\<lparr>wl_used := False\<rparr>])
              else (0, wills[i := w\<lparr>wl_payload := Some (ci_will_payload ci)\<rparr>])))"

definition cmq_mqtt_will_clear :: "bytes \<Rightarrow> will_slot list \<Rightarrow> will_slot list" where
  "cmq_mqtt_will_clear client_id wills =
     (if client_id = [] then wills
      else case first_index (\<lambda>w. wl_used w \<and> wl_client_id w = client_id) wills of
        None \<Rightarrow> wills
      | Some i \<Rightarrow> wills[i := will_zero])"

text \<open>The will is handed over and the slot is empty. \<open>topic_cap\<close> is the size of the caller's buffer.\<close>

definition cmq_mqtt_will_take ::
  "bytes \<Rightarrow> nat \<Rightarrow> will_slot list \<Rightarrow> (bytes \<times> bytes option \<times> nat \<times> bool) option \<times> will_slot list" where
  "cmq_mqtt_will_take client_id topic_cap wills =
     (if client_id = [] \<or> topic_cap = 0 then (None, wills)
      else case first_index (\<lambda>w. wl_used w \<and> wl_client_id w = client_id) wills of
        None \<Rightarrow> (None, wills)
      | Some i \<Rightarrow>
          (let w = wills ! i
           in (Some (take (topic_cap - 1) (wl_topic w), wl_payload w, wl_len w, wl_retain w), wills[i := will_zero])))"

subsection \<open>Durable sessions\<close>

record session_slot =
  sn_used :: bool
  sn_client_id :: bytes
  sn_subs :: "bytes list"

definition session_zero :: session_slot where
  "session_zero = \<lparr>sn_used = False, sn_client_id = [], sn_subs = []\<rparr>"

definition cmq_mqtt_session_save :: "bytes \<Rightarrow> bytes list \<Rightarrow> session_slot list \<Rightarrow> int \<times> session_slot list" where
  "cmq_mqtt_session_save client_id filters sessions =
     (if client_id = [] then (- 1, sessions)
      else case client_slot sn_used sn_client_id client_id sessions of
        None \<Rightarrow> (- 1, sessions)
      | Some i \<Rightarrow>
          (0, sessions[i := \<lparr>sn_used = True, sn_client_id = take 63 client_id,
                 sn_subs = map (take 127) (take CMQ_MQTT_SESSION_SUBS filters)\<rparr>]))"

definition cmq_mqtt_session_load :: "bytes \<Rightarrow> nat \<Rightarrow> session_slot list \<Rightarrow> bytes list option" where
  "cmq_mqtt_session_load client_id maxn sessions =
     (if client_id = [] \<or> maxn = 0 then None
      else case find (\<lambda>s. sn_used s \<and> sn_client_id s = client_id) sessions of
        None \<Rightarrow> Some []
      | Some s \<Rightarrow> Some (take maxn (sn_subs s)))"

definition cmq_mqtt_session_drop :: "bytes \<Rightarrow> session_slot list \<Rightarrow> session_slot list" where
  "cmq_mqtt_session_drop client_id sessions =
     (if client_id = [] then sessions
      else case first_index (\<lambda>s. sn_used s \<and> sn_client_id s = client_id) sessions of
        None \<Rightarrow> sessions
      | Some i \<Rightarrow> sessions[i := session_zero])"

definition session_persist_local :: "bytes \<Rightarrow> bytes list \<Rightarrow> session_slot list \<Rightarrow> session_slot list" where
  "session_persist_local cid my_subs sessions = snd (cmq_mqtt_session_save cid (take CMQ_MQTT_SESSION_SUBS my_subs) sessions)"

section \<open>Inbound QoS 2 and recorded filters\<close>

definition MQTT_QOS2_MAX :: nat where "MQTT_QOS2_MAX = 128"
definition MQTT_MAX_SUBS :: nat where "MQTT_MAX_SUBS = 64"

definition qos2_record_or_lookup :: "nat \<Rightarrow> nat \<Rightarrow> (nat \<times> nat) list \<Rightarrow> bool \<times> (nat \<times> nat) list" where
  "qos2_record_or_lookup packet_id new_phase tbl =
     (case first_index (\<lambda>e. fst e = packet_id) tbl of
        Some i \<Rightarrow> (True, tbl[i := (packet_id, new_phase)])
      | None \<Rightarrow> (False, if length tbl < MQTT_QOS2_MAX then tbl @ [(packet_id, new_phase)] else tbl))"

definition qos2_get_phase :: "nat \<Rightarrow> (nat \<times> nat) list \<Rightarrow> nat" where
  "qos2_get_phase packet_id tbl = (case find (\<lambda>e. fst e = packet_id) tbl of None \<Rightarrow> 0 | Some e \<Rightarrow> snd e)"

definition cmq_mqtt_record_subscriber :: "bytes option \<Rightarrow> bytes list \<Rightarrow> int \<times> bytes list" where
  "cmq_mqtt_record_subscriber topic_filter subs =
     (if topic_filter = None \<or> topic_filter = Some [] then (- 1, subs)
      else if length subs < MQTT_MAX_SUBS then (0, subs @ [take 127 (the topic_filter)])
      else (- 1, subs))"

definition cmq_mqtt_subscriber_count :: "bytes list \<Rightarrow> nat" where
  "cmq_mqtt_subscriber_count subs = length subs"

definition cmq_mqtt_get_subscribed_topic :: "int \<Rightarrow> nat \<Rightarrow> bytes list \<Rightarrow> bytes option" where
  "cmq_mqtt_get_subscribed_topic index out_len subs =
     (if out_len = 0 \<or> index < 0 then None
      else if nat index < length subs then Some (take (out_len - 1) (subs ! nat index)) else None)"

section \<open>The rate limit\<close>

definition MQTT_RATE_BUCKETS :: nat where "MQTT_RATE_BUCKETS = 1024"

record rate_bucket =
  rb_ip :: nat
  rb_tokens :: nat
  rb_last_refill_ms :: nat

record rate_limit =
  rl_capacity :: nat
  rl_refill_per_sec :: nat
  rl_buckets :: "rate_bucket list"

definition cmq_mqtt_set_rate_limit :: "nat \<Rightarrow> nat \<Rightarrow> rate_limit \<Rightarrow> rate_limit" where
  "cmq_mqtt_set_rate_limit capacity refill r = r\<lparr>rl_capacity := capacity, rl_refill_per_sec := refill\<rparr>"

text \<open>The bucket after the refill; arithmetic is in 64 and 32 bits as in the code.\<close>

definition rate_refill :: "nat \<Rightarrow> nat \<Rightarrow> nat \<Rightarrow> nat \<Rightarrow> rate_bucket \<Rightarrow> rate_bucket" where
  "rate_refill capacity refill_per_sec ip now_ms b =
     (if rb_ip b \<noteq> ip then \<lparr>rb_ip = ip, rb_tokens = capacity, rb_last_refill_ms = now_ms\<rparr>
      else
        (let delta = wrap64 (now_ms + 2 ^ 64 - rb_last_refill_ms b);
             refill = wrap64 (delta * refill_per_sec) div 1000 mod 2 ^ 32
         in if refill > 0
            then (let t = (rb_tokens b + refill) mod 2 ^ 32;
                      t = (if t > capacity \<or> t < rb_tokens b then capacity else t)
                  in b\<lparr>rb_tokens := t, rb_last_refill_ms := now_ms\<rparr>)
            else b))"

definition rate_limit_check :: "nat \<Rightarrow> nat \<Rightarrow> rate_limit \<Rightarrow> bool \<times> rate_limit" where
  "rate_limit_check ip now_ms r =
     (if rl_capacity r = 0 then (True, r)
      else
        (let slot = ip mod MQTT_RATE_BUCKETS;
             b = rate_refill (rl_capacity r) (rl_refill_per_sec r) ip now_ms (rl_buckets r ! slot)
         in if rb_tokens b > 0
            then (True, r\<lparr>rl_buckets := (rl_buckets r)[slot := b\<lparr>rb_tokens := rb_tokens b - 1\<rparr>]\<rparr>)
            else (False, r\<lparr>rl_buckets := (rl_buckets r)[slot := b]\<rparr>)))"

section \<open>The queue to the broker\<close>

definition BRIDGE_QUEUE :: nat where "BRIDGE_QUEUE = 256"
definition BRIDGE_FREELIST :: nat where "BRIDGE_FREELIST = 64"

text \<open>
  A buffer has the size it was allocated with, its contents, and whether it has been given back. Writing past its size, or into a
  buffer that was given back, sets the flag \<open>bq_ub\<close>.
\<close>

record pbuf =
  pb_cap :: nat
  pb_data :: bytes
  pb_freed :: bool

record bridge_queue =
  bq_slots :: "(bytes \<times> pbuf option \<times> nat) list"
  bq_head :: nat
  bq_tail :: nat
  bq_count :: nat
  bq_free :: "pbuf option list"
  bq_ub :: bool

definition bridge_put :: "bytes \<Rightarrow> pbuf option \<Rightarrow> nat \<Rightarrow> bridge_queue \<Rightarrow> bridge_queue" where
  "bridge_put topic payload len q =
     q\<lparr>bq_slots := (bq_slots q)[bq_head q := (topic, payload, len)], bq_head := (bq_head q + 1) mod BRIDGE_QUEUE,
       bq_count := bq_count q + 1\<rparr>"

definition mqtt_bridge_push :: "heap \<Rightarrow> bytes option \<Rightarrow> bytes option \<Rightarrow> nat \<Rightarrow> bridge_queue \<Rightarrow> int \<times> bridge_queue" where
  "mqtt_bridge_push h topic payload len q =
     (if topic = None then (- 1, q)
      else if payload = None \<and> len > 0 then (- 1, q)
      else if bq_count q < BRIDGE_QUEUE then
        (if len > 0 then
           (if \<not> fst (malloc_ok h) then (- 1, q)
            else (0, bridge_put (take 127 (the topic)) (Some \<lparr>pb_cap = len, pb_data = take len (the payload), pb_freed = False\<rparr>) len q))
         else (0, bridge_put (take 127 (the topic)) None len q))
      else (- 1, q))"

text \<open>What the handler of PUBLISH does: the buffer comes from the free list when there is one there, whatever its size.\<close>

definition bridge_buffer :: "heap \<Rightarrow> bytes \<Rightarrow> bridge_queue \<Rightarrow> pbuf option \<times> bridge_queue" where
  "bridge_buffer h payload q =
     (if payload = [] then (None, q)
      else if bq_free q \<noteq> [] then
        (case last (bq_free q) of
           None \<Rightarrow> (None, q\<lparr>bq_free := butlast (bq_free q)\<rparr>)
         | Some b \<Rightarrow>
             (Some (b\<lparr>pb_data := payload\<rparr>),
              q\<lparr>bq_free := butlast (bq_free q), bq_ub := bq_ub q \<or> pb_freed b \<or> length payload > pb_cap b\<rparr>))
      else if \<not> fst (malloc_ok h) then (None, q)
      else (Some \<lparr>pb_cap = length payload, pb_data = payload, pb_freed = False\<rparr>, q))"

definition bridge_enqueue :: "heap \<Rightarrow> bytes \<Rightarrow> bytes \<Rightarrow> bridge_queue \<Rightarrow> bridge_queue" where
  "bridge_enqueue h topic payload q =
     (case bridge_buffer h payload q of
        (b, q) \<Rightarrow>
          if b \<noteq> None \<or> payload = [] then
            (if bq_count q < BRIDGE_QUEUE then bridge_put topic b (length payload) q else q)
          else q)"

text \<open>
  One round of the relay thread on a queue that is not empty. \<open>adapter\<close> is whether a broker was set, \<open>pub_ok\<close> whether its publish
  succeeds. The adapter frees the buffer in every case; the relay puts it on the free list when the adapter reports a failure.
\<close>

definition relay_insert :: "bool \<Rightarrow> bool \<Rightarrow> bool \<Rightarrow> bytes \<Rightarrow> pbuf option \<Rightarrow> bool \<times> (bytes \<times> bytes) list \<times> pbuf option" where
  "relay_insert adapter srv pub_ok topic payload =
     (if \<not> adapter then (False, [], payload)
      else if \<not> srv \<or> payload = None then (True, [], map_option (\<lambda>b. b\<lparr>pb_freed := True\<rparr>) payload)
      else (pub_ok, [(topic, pb_data (the payload))], Some ((the payload)\<lparr>pb_freed := True\<rparr>)))"

definition bridge_relay_step :: "bool \<Rightarrow> bool \<Rightarrow> bool \<Rightarrow> bridge_queue \<Rightarrow> (bytes \<times> bytes) list \<times> bridge_queue" where
  "bridge_relay_step adapter srv pub_ok q =
     (if bq_count q = 0 then ([], q)
      else case bq_slots q ! bq_tail q of
        (topic, payload, plen) \<Rightarrow>
          (let q = q\<lparr>bq_tail := (bq_tail q + 1) mod BRIDGE_QUEUE, bq_count := bq_count q - 1\<rparr>
           in case relay_insert adapter srv pub_ok topic payload of
                (inserted, out, payload) \<Rightarrow>
                  if inserted then (out, q)
                  else if length (bq_free q) < BRIDGE_FREELIST then (out, q\<lparr>bq_free := bq_free q @ [payload]\<rparr>)
                  else (out, q)))"

text \<open>Shutting down waits for the relay thread, which leaves its loop as soon as it sees the flag.\<close>

definition cmq_mqtt_bridge_shutdown :: "bool \<Rightarrow> bridge_queue \<Rightarrow> bridge_queue" where
  "cmq_mqtt_bridge_shutdown started q = (if \<not> started then q else q\<lparr>bq_head := 0, bq_tail := 0, bq_count := 0\<rparr>)"

section \<open>Tables by client as maps\<close>

interpretation wt: slot_table wl_used wl_client_id will_zero
  by unfold_locales (simp add: will_zero_def)

interpretation sess: slot_table sn_used sn_client_id session_zero
  by unfold_locales (simp add: session_zero_def)

subsection \<open>Wills and sessions\<close>

text \<open>A stored will is the one taken, once; a cleared will is gone. No other client's will is touched.\<close>

lemma will_store_take:
  assumes ok: "wt.ok wills" and cid: "cid \<noteq> []" "length cid < 64"
    and store: "cmq_mqtt_will_store [] cid ci wills = (0, wills')" and cap: "length (ci_will_topic ci) < 128"
  shows "wt.ok wills'" "fst (cmq_mqtt_will_take cid 128 wills') =
      Some (ci_will_topic ci, if ci_will_payload ci = [] then None else Some (ci_will_payload ci),
        length (ci_will_payload ci), ci_will_retain ci)"
    "k \<noteq> cid \<Longrightarrow> wt.view wills' k = wt.view wills k"
proof -
  define w where "w = \<lparr>wl_used = True, wl_client_id = cid, wl_topic = ci_will_topic ci,
      wl_payload = (if ci_will_payload ci = [] then None else Some (ci_will_payload ci)),
      wl_len = length (ci_will_payload ci), wl_retain = ci_will_retain ci\<rparr>"
  have tk: "take 63 cid = cid" "take 127 (ci_will_topic ci) = ci_will_topic ci" using cid cap by auto
  from store obtain i where i: "client_slot wl_used wl_client_id cid wills = Some i" and w': "wills' = wills[i := w]"
    by (auto simp: cmq_mqtt_will_store_def w_def tk Let_def split: if_splits option.splits)
  have w: "wl_used w" "wl_client_id w = cid" by (simp_all add: w_def)
  note put = wt.put [OF ok i w]
  show "wt.ok wills'" "k \<noteq> cid \<Longrightarrow> wt.view wills' k = wt.view wills k" unfolding w' using put by auto
  have "wt.view wills' cid = Some w" unfolding w' using put(2) by simp
  then obtain j where "first_index (\<lambda>w. wl_used w \<and> wl_client_id w = cid) wills' = Some j"
    using wt.index_view [of cid wills'] by (cases "first_index (\<lambda>w. wl_used w \<and> wl_client_id w = cid) wills'") auto
  note j = this
  have "wills' ! j = w" using wt.clear(3) [OF put(1) [folded w'] j] \<open>wt.view wills' cid = Some w\<close> by simp
  with j cid tk show "fst (cmq_mqtt_will_take cid 128 wills') =
      Some (ci_will_topic ci, if ci_will_payload ci = [] then None else Some (ci_will_payload ci),
        length (ci_will_payload ci), ci_will_retain ci)"
    unfolding cmq_mqtt_will_take_def by (simp add: Let_def) (simp add: w_def)
qed

lemma will_take_once:
  assumes "wt.ok wills" "cid \<noteq> []" "cmq_mqtt_will_take cid 128 wills = (r, wills')"
  shows "wt.ok wills'" "fst (cmq_mqtt_will_take cid 128 wills') = None" "wt.view wills' = (wt.view wills)(cid := None)"
proof -
  have "wt.ok wills' \<and> wt.view wills' = (wt.view wills)(cid := None)"
  proof (cases "first_index (\<lambda>w. wl_used w \<and> wl_client_id w = cid) wills")
    case None
    with wt.index_view [of cid wills] assms show ?thesis by (auto simp: cmq_mqtt_will_take_def)
  next
    case (Some i)
    with wt.clear [OF assms(1) Some] assms(2,3) show ?thesis by (auto simp: cmq_mqtt_will_take_def Let_def)
  qed
  then show v: "wt.ok wills'" "wt.view wills' = (wt.view wills)(cid := None)" by auto
  then have "first_index (\<lambda>w. wl_used w \<and> wl_client_id w = cid) wills' = None" using wt.index_view [of cid wills'] by simp
  then show "fst (cmq_mqtt_will_take cid 128 wills') = None" by (simp add: cmq_mqtt_will_take_def)
qed

text \<open>What a durable session saved is what it loads, up to eight filters of up to 127 bytes.\<close>

lemma session_save_load:
  assumes ok: "sess.ok tbl" and cid: "cid \<noteq> []" "length cid < 64"
    and save: "cmq_mqtt_session_save cid fs tbl = (0, tbl')"
  shows "sess.ok tbl'" "cmq_mqtt_session_load cid CMQ_MQTT_SESSION_SUBS tbl' = Some (map (take 127) (take CMQ_MQTT_SESSION_SUBS fs))"
    "k \<noteq> cid \<Longrightarrow> sess.view tbl' k = sess.view tbl k"
proof -
  define s where "s = \<lparr>sn_used = True, sn_client_id = cid, sn_subs = map (take 127) (take CMQ_MQTT_SESSION_SUBS fs)\<rparr>"
  have tk: "take 63 cid = cid" using cid by simp
  from save obtain i where i: "client_slot sn_used sn_client_id cid tbl = Some i" and t': "tbl' = tbl[i := s]"
    by (auto simp: cmq_mqtt_session_save_def s_def tk split: if_splits option.splits)
  have s: "sn_used s" "sn_client_id s = cid" by (simp_all add: s_def)
  note put = sess.put [OF ok i s]
  show "sess.ok tbl'" "k \<noteq> cid \<Longrightarrow> sess.view tbl' k = sess.view tbl k" unfolding t' using put by auto
  have "sess.view tbl' cid = Some s" unfolding t' using put(2) by simp
  then show "cmq_mqtt_session_load cid CMQ_MQTT_SESSION_SUBS tbl' = Some (map (take 127) (take CMQ_MQTT_SESSION_SUBS fs))"
    using cid by (simp add: cmq_mqtt_session_load_def sess.view_def s_def CMQ_MQTT_SESSION_SUBS_def)
qed

lemma session_drop_gone:
  assumes "sess.ok tbl" "cid \<noteq> []"
  shows "sess.ok (cmq_mqtt_session_drop cid tbl)" "sess.view (cmq_mqtt_session_drop cid tbl) = (sess.view tbl)(cid := None)"
proof -
  have "sess.ok (cmq_mqtt_session_drop cid tbl) \<and> sess.view (cmq_mqtt_session_drop cid tbl) = (sess.view tbl)(cid := None)"
  proof (cases "first_index (\<lambda>s. sn_used s \<and> sn_client_id s = cid) tbl")
    case None
    with sess.index_view [of cid tbl] assms show ?thesis by (auto simp: cmq_mqtt_session_drop_def)
  next
    case (Some i)
    with sess.clear [OF assms(1) Some] assms(2) show ?thesis by (auto simp: cmq_mqtt_session_drop_def)
  qed
  then show "sess.ok (cmq_mqtt_session_drop cid tbl)" "sess.view (cmq_mqtt_session_drop cid tbl) = (sess.view tbl)(cid := None)" by auto
qed

section \<open>The queue as a list\<close>

definition bq_list :: "bridge_queue \<Rightarrow> (bytes \<times> pbuf option \<times> nat) list" where
  "bq_list q = map (\<lambda>k. bq_slots q ! ((bq_tail q + k) mod BRIDGE_QUEUE)) [0..<bq_count q]"

definition bq_ok :: "bridge_queue \<Rightarrow> bool" where
  "bq_ok q \<longleftrightarrow> length (bq_slots q) = BRIDGE_QUEUE \<and> bq_tail q < BRIDGE_QUEUE \<and> bq_count q \<le> BRIDGE_QUEUE \<and>
     bq_head q = (bq_tail q + bq_count q) mod BRIDGE_QUEUE \<and> length (bq_free q) \<le> BRIDGE_FREELIST"

lemma bridge_put_list:
  assumes "bq_ok q" "bq_count q < BRIDGE_QUEUE"
  shows "bq_ok (bridge_put t p n q)" "bq_list (bridge_put t p n q) = bq_list q @ [(t, p, n)]"
proof -
  show "bq_ok (bridge_put t p n q)" using assms by (auto simp: bq_ok_def bridge_put_def mod_Suc_eq)
  have ne: "(bq_tail q + k) mod BRIDGE_QUEUE \<noteq> bq_head q" if "k < bq_count q" for k
  proof
    assume "(bq_tail q + k) mod BRIDGE_QUEUE = bq_head q"
    then have "(bq_tail q + k) mod BRIDGE_QUEUE = (bq_tail q + bq_count q) mod BRIDGE_QUEUE" using assms(1) by (simp add: bq_ok_def)
    from mod_window_inj [OF this] that assms(2) show False by simp
  qed
  have len: "bq_head q < length (bq_slots q)" using assms by (simp add: bq_ok_def BRIDGE_QUEUE_def)
  have "map (\<lambda>k. (bq_slots q)[bq_head q := (t, p, n)] ! ((bq_tail q + k) mod BRIDGE_QUEUE)) [0..<bq_count q] = bq_list q"
    by (auto simp: bq_list_def nth_list_update_neq [OF ne [symmetric]])
  moreover have "(bq_tail q + bq_count q) mod BRIDGE_QUEUE = bq_head q" using assms by (simp add: bq_ok_def)
  ultimately show "bq_list (bridge_put t p n q) = bq_list q @ [(t, p, n)]"
    using len by (simp add: bq_list_def bridge_put_def)
qed

text \<open>The relay hands over what was put first.\<close>

lemma relay_step_list:
  assumes "bq_ok q" "bq_count q > 0" "bridge_relay_step adapter srv pub_ok q = (out, q')"
  obtains t p n where "hd (bq_list q) = (t, p, n)" "bq_list q' = tl (bq_list q)" "bq_ok q'"
    "out = fst (snd (relay_insert adapter srv pub_ok t p))"
proof -
  obtain t p n where sl: "bq_slots q ! bq_tail q = (t, p, n)" by (metis prod_cases3)
  have up: "[0..<bq_count q] = 0 # map Suc [0..<bq_count q - 1]"
    using assms(2) by (metis map_Suc_upt upt_conv_Cons Suc_diff_1)
  have "bq_tail q < BRIDGE_QUEUE" using assms(1) by (simp add: bq_ok_def)
  then have l: "bq_list q = (t, p, n) # map (\<lambda>k. bq_slots q ! ((bq_tail q + Suc k) mod BRIDGE_QUEUE)) [0..<bq_count q - 1]"
    unfolding bq_list_def up by (simp add: sl)
  obtain ins r b where ri: "relay_insert adapter srv pub_ok t p = (ins, r, b)" by (metis prod_cases3)
  have "out = r" "bq_slots q' = bq_slots q" "bq_tail q' = (bq_tail q + 1) mod BRIDGE_QUEUE" "bq_count q' = bq_count q - 1"
    "bq_head q' = bq_head q" "length (bq_free q') \<le> BRIDGE_FREELIST"
    using assms sl ri by (auto simp: bridge_relay_step_def bq_ok_def Let_def split: if_splits)
  note q' = this
  have "bq_list q' = tl (bq_list q)"
    unfolding l using q' by (simp add: bq_list_def mod_simps)
  moreover obtain m where "bq_count q = Suc m" using assms(2) by (cases "bq_count q") auto
  then have "bq_ok q'"
    using assms(1) q' by (auto simp: bq_ok_def mod_simps BRIDGE_QUEUE_def)
  ultimately show thesis using that [of t p n] l q'(1) ri by simp
qed

text \<open>
  The free list hands out buffers whatever their size, and the relay puts buffers on it that the adapter has freed: a publish the
  broker refuses leaves a freed buffer there, and the next message is written into it. A buffer that never reached a broker is
  reused for a longer message and written past its end.
\<close>

definition bq_empty :: bridge_queue where
  "bq_empty = \<lparr>bq_slots = replicate BRIDGE_QUEUE ([], None, 0), bq_head = 0, bq_tail = 0, bq_count = 0, bq_free = [], bq_ub = False\<rparr>"

lemma bq_list_one:
  "bq_list (bridge_put t p n bq_empty) = [(t, p, n)]" "bq_ok (bridge_put t p n bq_empty)"
  using bridge_put_list [of bq_empty t p n] by (auto simp: bq_empty_def bq_ok_def bq_list_def BRIDGE_QUEUE_def)

lemma relay_one:
  assumes "bridge_relay_step adapter srv pub_ok (bridge_put t p n bq_empty) = (out, q)"
  shows "bq_free q = (if fst (relay_insert adapter srv pub_ok t p) then [] else [snd (snd (relay_insert adapter srv pub_ok t p))])"
    "bq_ub q = False" "bq_count q = 0"
  using assms
  by (auto simp: bridge_relay_step_def bridge_put_def bq_empty_def BRIDGE_QUEUE_def BRIDGE_FREELIST_def Let_def case_prod_unfold
      split: if_splits)

lemma freed_buffer_reused:
  assumes "a \<noteq> []" "b \<noteq> []" and relay: "bridge_relay_step True True False (bridge_enqueue [] t a bq_empty) = (out, q)"
  shows "bq_ub (bridge_enqueue [] t b q)"
proof -
  have "bridge_enqueue [] t a bq_empty = bridge_put t (Some \<lparr>pb_cap = length a, pb_data = a, pb_freed = False\<rparr>) (length a) bq_empty"
    using assms(1) by (simp add: bridge_enqueue_def bridge_buffer_def bq_empty_def BRIDGE_QUEUE_def)
  with relay_one relay have "bq_free q = [Some \<lparr>pb_cap = length a, pb_data = a, pb_freed = True\<rparr>]" "bq_count q = 0"
    by (force simp: relay_insert_def)+
  then show ?thesis using assms(2) by (simp add: bridge_enqueue_def bridge_buffer_def bridge_put_def BRIDGE_QUEUE_def)
qed

lemma short_buffer_overrun:
  assumes "a \<noteq> []" "length a < length b" and relay: "bridge_relay_step False False False (bridge_enqueue [] t a bq_empty) = (out, q)"
  shows "bq_ub (bridge_enqueue [] t b q)"
proof -
  have "bridge_enqueue [] t a bq_empty = bridge_put t (Some \<lparr>pb_cap = length a, pb_data = a, pb_freed = False\<rparr>) (length a) bq_empty"
    using assms(1) by (simp add: bridge_enqueue_def bridge_buffer_def bq_empty_def BRIDGE_QUEUE_def)
  with relay_one relay have "bq_free q = [Some \<lparr>pb_cap = length a, pb_data = a, pb_freed = False\<rparr>]" "bq_count q = 0"
    by (force simp: relay_insert_def)+
  moreover have "b \<noteq> []" using assms(2) by auto
  ultimately show ?thesis using assms(2) by (simp add: bridge_enqueue_def bridge_buffer_def bridge_put_def BRIDGE_QUEUE_def)
qed

text \<open>An empty payload has no buffer, and the adapter takes that for an error: the message is not published.\<close>

lemma empty_payload_dropped: "relay_insert True True True t None = (True, [], None)"
  by (simp add: relay_insert_def)

section \<open>Bounds of the rate limit\<close>

definition rate_ok :: "rate_limit \<Rightarrow> bool" where
  "rate_ok r \<longleftrightarrow> length (rl_buckets r) = MQTT_RATE_BUCKETS \<and> rl_capacity r < 2 ^ 32 \<and>
     list_all (\<lambda>b. rb_tokens b \<le> rl_capacity r) (rl_buckets r)"

lemma rate_limit_bounds:
  assumes ok: "rate_ok r" and run: "rate_limit_check ip now r = (adm, r')"
  shows "rate_ok r'" "adm \<longleftrightarrow> rl_capacity r = 0 \<or>
     rb_tokens (rate_refill (rl_capacity r) (rl_refill_per_sec r) ip now (rl_buckets r ! (ip mod MQTT_RATE_BUCKETS))) > 0"
proof -
  have slot: "ip mod MQTT_RATE_BUCKETS < length (rl_buckets r)" using ok by (simp add: rate_ok_def MQTT_RATE_BUCKETS_def)
  have refill: "rb_tokens (rate_refill (rl_capacity r) (rl_refill_per_sec r) ip now (rl_buckets r ! (ip mod MQTT_RATE_BUCKETS))) \<le> rl_capacity r"
    using ok slot by (auto simp: rate_refill_def rate_ok_def list_all_length Let_def)
  show "adm \<longleftrightarrow> rl_capacity r = 0 \<or>
     rb_tokens (rate_refill (rl_capacity r) (rl_refill_per_sec r) ip now (rl_buckets r ! (ip mod MQTT_RATE_BUCKETS))) > 0"
    using run by (auto simp: rate_limit_check_def Let_def split: if_splits)
  show "rate_ok r'" using ok run refill slot
    by (auto simp: rate_limit_check_def rate_ok_def Let_def list_all_length nth_list_update split: if_splits)
qed

end
