(* ===== verification/CMQ_Mqtt_Server.thy ===== *)
theory CMQ_Mqtt_Server
  imports CMQ_Mqtt_Window CMQ_Mqtt_Tables
begin

text \<open>
  The connection handler of the MQTT listener (\<^verbatim>\<open>mqtt_handle_client\<close> in \<^verbatim>\<open>src/enterprise/cmq_mqtt_server.c\<close>). One round of its
  loop takes what \<^verbatim>\<open>recv\<close> returned, the client's own variables and the shared tables, and gives what is sent, the new variables
  and tables, and whether the loop goes on.
\<close>

section \<open>State\<close>

record mqtt_srv =
  sv_live :: "mqtt_live list"
  sv_subs :: "bytes list"
  sv_qos2 :: "(nat \<times> nat) list"
  sv_retained :: retained
  sv_wills :: "will_slot list"
  sv_sessions :: "session_slot list"
  sv_queue :: bridge_queue
  sv_bridge :: bool
  sv_rate :: rate_limit
  sv_user :: bytes
  sv_pass :: bytes

record mqtt_client =
  cl_fd :: int
  cl_connected :: bool
  cl_v5 :: bool
  cl_ci :: "connect_info option"
  cl_clean :: bool
  cl_subs :: "bytes list"
  cl_attached :: bool

text \<open>
  What the round meets: whether allocations succeed, whether sends on the own descriptor succeed, the peer's address, the clock.
\<close>

record mqtt_env =
  ev_alloc :: bool
  ev_send :: bool
  ev_ip :: nat
  ev_now :: nat

datatype verdict = Go_on | Leave int

type_synonym round_result = "verdict \<times> wire \<times> mqtt_client \<times> mqtt_srv"

definition client_start :: "int \<Rightarrow> mqtt_client" where
  "client_start fd = \<lparr>cl_fd = fd, cl_connected = False, cl_v5 = False, cl_ci = None, cl_clean = True, cl_subs = [], cl_attached = False\<rparr>"

text \<open>\<^verbatim>\<open>MQTT_CLIENT_RET\<close>: the session leaves the table of live ones.\<close>

definition client_ret :: "int \<Rightarrow> wire \<Rightarrow> mqtt_client \<Rightarrow> mqtt_srv \<Rightarrow> round_result" where
  "client_ret v w cl sv =
     (Leave v, w, cl, if cl_attached cl then sv\<lparr>sv_live := cmq_mqtt_session_detach (cl_fd cl) (sv_live sv)\<rparr> else sv)"

text \<open>A send on the client's own descriptor that must succeed.\<close>

definition send_or_leave :: "mqtt_env \<Rightarrow> wire \<Rightarrow> bytes \<Rightarrow> mqtt_client \<Rightarrow> mqtt_srv \<Rightarrow> round_result" where
  "send_or_leave ev w pkt cl sv =
     (if ev_send ev then (Go_on, w @ [(cl_fd cl, pkt)], cl, sv) else client_ret (- 1) w cl sv)"

definition connack :: "u8 \<Rightarrow> bytes" where "connack code = [0x20, 0x02, 0x00, code]"
definition pingresp :: bytes where "pingresp = [0xD0, 0x00]"
definition puback :: "nat \<Rightarrow> bytes" where "puback i = [0x40, 0x02] @ put_be16 i"
definition pubrec :: "nat \<Rightarrow> bytes" where "pubrec i = [0x50, 0x02] @ put_be16 i"
definition pubcomp :: "nat \<Rightarrow> bytes" where "pubcomp i = [0x70, 0x02] @ put_be16 i"
definition suback :: "nat \<Rightarrow> nat list \<Rightarrow> bytes" where
  "suback i granted = [0x90, of_nat (2 + length granted)] @ put_be16 i @ map of_nat granted"

section \<open>Wills\<close>

definition cmq_mqtt_will_fire :: "mqtt_env \<Rightarrow> bytes \<Rightarrow> mqtt_srv \<Rightarrow> int \<times> mqtt_srv" where
  "cmq_mqtt_will_fire ev client_id sv =
     (case cmq_mqtt_will_take client_id 128 (sv_wills sv) of
        (None, wills) \<Rightarrow> (0, sv\<lparr>sv_wills := wills\<rparr>)
      | (Some (topic, payload, len, retain), wills) \<Rightarrow>
          (let sv = sv\<lparr>sv_wills := wills\<rparr>;
               sv = (if retain then sv\<lparr>sv_retained := cmq_mqtt_store_retained [ev_alloc ev] (Some topic) payload len (sv_retained sv)\<rparr> else sv);
               sv = (if sv_bridge sv then sv\<lparr>sv_queue := snd (mqtt_bridge_push [ev_alloc ev] (Some topic) payload len (sv_queue sv))\<rparr> else sv)
           in (1, sv)))"

section \<open>CONNECT\<close>

text \<open>The filters a durable session had are recorded again, eight at most in all.\<close>

fun restore_subs :: "bytes list \<Rightarrow> mqtt_client \<Rightarrow> mqtt_srv \<Rightarrow> mqtt_client \<times> mqtt_srv" where
  "restore_subs [] cl sv = (cl, sv)"
| "restore_subs (s # ss) cl sv =
     (if length (cl_subs cl) < CMQ_MQTT_SESSION_SUBS
      then restore_subs ss (cl\<lparr>cl_subs := cl_subs cl @ [take 127 s]\<rparr>) (sv\<lparr>sv_subs := snd (cmq_mqtt_record_subscriber (Some s) (sv_subs sv))\<rparr>)
      else (cl, sv))"

definition attach_client :: "mqtt_client \<Rightarrow> mqtt_srv \<Rightarrow> mqtt_client \<times> mqtt_srv" where
  "attach_client cl sv =
     (case cmq_mqtt_session_attach (cl_fd cl) (Some cmq_mqtt_inflight_init) (sv_live sv) of
        (rc, live) \<Rightarrow>
          if rc = 0
          then (cl\<lparr>cl_attached := True\<rparr>,
                sv\<lparr>sv_live := foldl (\<lambda>l s. snd (cmq_mqtt_session_add_filter (cl_fd cl) (Some s) 1 l)) live (cl_subs cl)\<rparr>)
          else (cl, sv\<lparr>sv_live := live\<rparr>))"

definition auth_ok :: "connect_info \<Rightarrow> mqtt_srv \<Rightarrow> bool" where
  "auth_ok ci sv \<longleftrightarrow> \<not> ((sv_user sv \<noteq> [] \<or> sv_pass sv \<noteq> []) \<and> (ci_username ci \<noteq> sv_user sv \<or> ci_password ci \<noteq> sv_pass sv))"

definition handle_connect :: "mqtt_env \<Rightarrow> bytes \<Rightarrow> mqtt_client \<Rightarrow> mqtt_srv \<Rightarrow> round_result" where
  "handle_connect ev body cl sv =
     (let sv = sv\<lparr>sv_qos2 := []\<rparr>
      in case cmq_mqtt_parse_connect body of
        None \<Rightarrow> client_ret (- 1) (if ev_send ev then [(cl_fd cl, connack 0x01)] else []) cl sv
      | Some ci \<Rightarrow>
          (let cl = cl\<lparr>cl_ci := Some ci, cl_v5 := ci_is_v5 ci, cl_clean := ci_clean_session ci\<rparr>
           in if \<not> auth_ok ci sv then client_ret (- 1) (if ev_send ev then [(cl_fd cl, connack 0x04)] else []) cl sv
              else
                (let (cl, sv) =
                       (if ci_clean_session ci then (cl, sv\<lparr>sv_sessions := cmq_mqtt_session_drop (ci_client_id ci) (sv_sessions sv)\<rparr>)
                        else restore_subs
                               (case cmq_mqtt_session_load (ci_client_id ci) CMQ_MQTT_SESSION_SUBS (sv_sessions sv) of
                                  None \<Rightarrow> [] | Some ss \<Rightarrow> ss) cl sv);
                     sv = (if ci_will_flag ci
                           then sv\<lparr>sv_wills := snd (cmq_mqtt_will_store [ev_alloc ev] (ci_client_id ci) ci (sv_wills sv))\<rparr>
                           else sv\<lparr>sv_wills := cmq_mqtt_will_clear (ci_client_id ci) (sv_wills sv)\<rparr>)
                 in if \<not> ev_send ev then client_ret (- 1) [] cl sv
                    else
                      (let (cl', sv) = attach_client cl sv
                       in (Go_on, [(cl_fd cl, connack 0x00)], cl'\<lparr>cl_connected := True\<rparr>, sv)))))"

section \<open>SUBSCRIBE\<close>

text \<open>
  One filter at a position: the position after it, the QoS granted and the filter; \<open>None\<close> ends the loop. A filter of 128 bytes or
  more is cut to 127, and the position moves by the cut length.
\<close>

definition subscribe_read :: "bytes \<Rightarrow> nat \<Rightarrow> (nat \<times> nat \<times> bytes) option" where
  "subscribe_read p off =
     (if \<not> off + 2 < length p then None
      else
        (let tlen = be16_at p off; off = off + 2
         in if off + tlen + 1 > length p then None
            else
              (let tlen = (if tlen \<ge> 128 then 127 else tlen);
                   topic = c_string (take tlen (drop off p));
                   off = off + tlen;
                   req = unat (p ! off)
               in Some (off + 1, if req > 2 then 2 else req, topic))))"

definition subscribe_add :: "nat \<Rightarrow> bytes \<Rightarrow> mqtt_client \<Rightarrow> mqtt_srv \<Rightarrow> mqtt_client \<times> mqtt_srv" where
  "subscribe_add req topic cl sv =
     (if length (cl_subs cl) < CMQ_MQTT_SESSION_SUBS then cl\<lparr>cl_subs := cl_subs cl @ [topic]\<rparr> else cl,
      sv\<lparr>sv_subs := snd (cmq_mqtt_record_subscriber (Some topic) (sv_subs sv)),
         sv_live := snd (cmq_mqtt_session_add_filter (cl_fd cl) (Some topic) req (sv_live sv))\<rparr>)"

text \<open>The loop over the filters, with \<open>k\<close> places left for granted QoS.\<close>

fun subscribe_loop :: "nat \<Rightarrow> bytes \<Rightarrow> nat \<Rightarrow> nat list \<Rightarrow> bytes \<Rightarrow> mqtt_client \<Rightarrow> mqtt_srv \<Rightarrow> nat list \<times> bytes \<times> mqtt_client \<times> mqtt_srv"
where
  "subscribe_loop 0 p off granted lst cl sv = (granted, lst, cl, sv)"
| "subscribe_loop (Suc k) p off granted lst cl sv =
     (case subscribe_read p off of
        None \<Rightarrow> (granted, lst, cl, sv)
      | Some (off, req, topic) \<Rightarrow>
          (case subscribe_add req topic cl sv of (cl, sv) \<Rightarrow> subscribe_loop k p off (granted @ [req]) topic cl sv))"

text \<open>A retained message for a new subscriber; its remaining length is written as one byte.\<close>

definition retained_packet :: "bytes \<Rightarrow> bytes \<Rightarrow> bytes option" where
  "retained_packet topic payload =
     (if length topic < 125 \<and> length payload < 128
      then Some ([0x31, of_nat (2 + length topic + length payload)] @ put_be16 (length topic) @ topic @ payload)
      else None)"

definition entry_bytes :: "bytes option \<Rightarrow> nat \<Rightarrow> bytes" where
  "entry_bytes payload len = (case payload of None \<Rightarrow> [] | Some p \<Rightarrow> take len p)"

definition retained_sends :: "mqtt_env \<Rightarrow> bytes \<Rightarrow> retained \<Rightarrow> bytes list" where
  "retained_sends ev topic rt =
     (if topic = [] then []
      else if 0x2B \<in> set topic \<or> 0x23 \<in> set topic
      then concat (map (\<lambda>e. if re_payload e \<noteq> None \<and> cmq_mqtt_topic_match (Some topic) (Some (re_topic e)) = 1 \<and> ev_alloc ev
             then (case retained_packet (re_topic e) (entry_bytes (re_payload e) (re_len e)) of None \<Rightarrow> [] | Some pkt \<Rightarrow> [pkt])
             else []) (rt_entries rt))
      else (case cmq_mqtt_fetch_retained (Some topic) rt of
              None \<Rightarrow> []
            | Some (payload, len) \<Rightarrow>
                (case retained_packet topic (entry_bytes payload len) of None \<Rightarrow> [] | Some pkt \<Rightarrow> [pkt])))"

definition handle_subscribe :: "mqtt_env \<Rightarrow> bytes \<Rightarrow> mqtt_client \<Rightarrow> mqtt_srv \<Rightarrow> round_result" where
  "handle_subscribe ev p cl sv =
     (if length p < 5 then (Go_on, [], cl, sv)
      else case (if cl_v5 cl then map_option (\<lambda>sp. 2 + mp_consumed sp) (props_decoded (drop 2 p)) else Some 2) of
        None \<Rightarrow> (Go_on, [], cl, sv)
      | Some off \<Rightarrow>
          (case subscribe_loop 8 p off [] [] cl sv of
             (granted, lst, cl, sv) \<Rightarrow>
               if granted \<noteq> [] \<and> \<not> ev_send ev then client_ret (- 1) [] cl sv
               else (Go_on, (if granted \<noteq> [] then [(cl_fd cl, suback (be16_at p 0) granted)] else []) @
                       (if ev_send ev then map (\<lambda>pkt. (cl_fd cl, pkt)) (retained_sends ev lst (sv_retained sv)) else []), cl, sv)))"

section \<open>PUBLISH and PUBREL\<close>

definition handle_publish :: "mqtt_env \<Rightarrow> u8 \<Rightarrow> bytes \<Rightarrow> mqtt_client \<Rightarrow> mqtt_srv \<Rightarrow> round_result" where
  "handle_publish ev b0 p cl sv =
     (case rate_limit_check (ev_ip ev) (ev_now ev) (sv_rate sv) of
        (admitted, rate) \<Rightarrow>
          (let sv = sv\<lparr>sv_rate := rate\<rparr>
           in if \<not> admitted then client_ret (- 1) (if ev_send ev then [(cl_fd cl, [0x90, 0x02, 0x03, 0x00])] else []) cl sv
              else if length p < 2 then (Go_on, [], cl, sv)
              else
                (let topic_len = be16_at p 0
                 in if 2 + topic_len > length p then (Go_on, [], cl, sv)
                    else
                      (let qos = unat (drop_bit 1 b0 AND 0x03);
                           retain = (b0 AND 0x08 \<noteq> 0)
                       in case cmq_mqtt_publish_payload_off p qos (cl_v5 cl) of
                            None \<Rightarrow> (Go_on, [], cl, sv)
                          | Some (poff, pub_props) \<Rightarrow>
                              (let payload = drop poff p;
                                   named = (topic_len > 0 \<and> topic_len < 128);
                                   topic = c_string (take topic_len (drop 2 p));
                                   sv = (if retain \<and> named
                                         then sv\<lparr>sv_retained := cmq_mqtt_store_retained [ev_alloc ev] (Some topic) (Some payload)
                                                 (length payload) (sv_retained sv)\<rparr> else sv);
                                   sv = (if sv_bridge sv \<and> named
                                         then sv\<lparr>sv_queue := bridge_enqueue [ev_alloc ev] topic payload (sv_queue sv)\<rparr> else sv);
                                   (w, live) = (if named then cmq_mqtt_fanout (Some topic) (Some payload) (length payload) (sv_live sv)
                                                else ([], sv_live sv));
                                   sv = sv\<lparr>sv_live := live\<rparr>
                               in if qos > 1 then
                                    (if 2 + topic_len + 2 > length p then (Go_on, w, cl, sv)
                                     else send_or_leave ev w (pubrec (be16_at p (2 + topic_len))) cl
                                            (sv\<lparr>sv_qos2 := snd (qos2_record_or_lookup (be16_at p (2 + topic_len)) 1 (sv_qos2 sv))\<rparr>))
                                  else if qos = 1 then
                                    (if 2 + topic_len + 2 > length p then (Go_on, w, cl, sv)
                                     else send_or_leave ev w (puback (be16_at p (2 + topic_len))) cl sv)
                                  else (Go_on, w, cl, sv))))))"

definition handle_pubrel :: "mqtt_env \<Rightarrow> bytes \<Rightarrow> mqtt_client \<Rightarrow> mqtt_srv \<Rightarrow> round_result" where
  "handle_pubrel ev p cl sv =
     (if length p < 2 then (Go_on, [], cl, sv)
      else send_or_leave ev [] (pubcomp (be16_at p 0)) cl
             (sv\<lparr>sv_qos2 := snd (qos2_record_or_lookup (be16_at p 0) 2 (sv_qos2 sv))\<rparr>))"

section \<open>The loop\<close>

text \<open>The peer has closed the connection or it failed.\<close>

definition handle_eof :: "mqtt_env \<Rightarrow> mqtt_client \<Rightarrow> mqtt_srv \<Rightarrow> round_result" where
  "handle_eof ev cl sv =
     (case cl_ci cl of
        None \<Rightarrow> client_ret (- 1) [] cl sv
      | Some ci \<Rightarrow>
          (let sv = snd (cmq_mqtt_will_fire ev (ci_client_id ci) sv);
               sv = (if cl_clean cl then sv
                     else sv\<lparr>sv_sessions := session_persist_local (ci_client_id ci) (cl_subs cl) (sv_sessions sv)\<rparr>)
           in client_ret (- 1) [] cl sv))"

definition handle_disconnect :: "mqtt_client \<Rightarrow> mqtt_srv \<Rightarrow> round_result" where
  "handle_disconnect cl sv =
     (let sv = (case cl_ci cl of
                  None \<Rightarrow> sv
                | Some ci \<Rightarrow>
                    (let sv = sv\<lparr>sv_wills := cmq_mqtt_will_clear (ci_client_id ci) (sv_wills sv)\<rparr>
                     in if cl_clean cl then sv\<lparr>sv_sessions := cmq_mqtt_session_drop (ci_client_id ci) (sv_sessions sv)\<rparr>
                        else sv\<lparr>sv_sessions := session_persist_local (ci_client_id ci) (cl_subs cl) (sv_sessions sv)\<rparr>))
      in client_ret 0 [] cl (sv\<lparr>sv_qos2 := []\<rparr>))"

text \<open>One round on the bytes received, \<open>[]\<close> standing for a return of zero or less.\<close>

definition mqtt_round :: "mqtt_env \<Rightarrow> bytes \<Rightarrow> mqtt_client \<Rightarrow> mqtt_srv \<Rightarrow> round_result" where
  "mqtt_round ev buf cl sv =
     (if buf = [] then handle_eof ev cl sv
      else if length buf < 2 then (Go_on, [], cl, sv)
      else
        (let typ = buf ! 0 AND 0xF0
         in case decode_remaining_length (drop 1 buf) of
              None \<Rightarrow> client_ret (- 1) [] cl sv
            | Some (rl_off, rem_len) \<Rightarrow>
                if rl_off + 1 + rem_len > length buf then client_ret (- 1) [] cl sv
                else
                  (let body = take rem_len (drop (1 + rl_off) buf)
                   in if typ = 0x10 \<and> \<not> cl_connected cl then handle_connect ev body cl sv
                      else if typ = 0xC0 \<and> cl_connected cl then send_or_leave ev [] pingresp cl sv
                      else if (typ = 0x40 \<or> typ = 0x70) \<and> cl_connected cl then
                        (Go_on, [], cl, if rem_len \<ge> 2
                           then sv\<lparr>sv_live := snd (cmq_mqtt_session_ack (cl_fd cl) (be16_at body 0) (sv_live sv))\<rparr> else sv)
                      else if typ = 0x50 \<and> cl_connected cl then
                        (if rem_len \<ge> 2
                         then (case cmq_mqtt_session_rec (cl_fd cl) (be16_at body 0) (sv_live sv) of
                                 (rc, w, live) \<Rightarrow> (Go_on, if ev_send ev then w else [], cl, sv\<lparr>sv_live := live\<rparr>))
                         else (Go_on, [], cl, sv))
                      else if typ = 0xE0 then handle_disconnect cl sv
                      else if typ = 0x80 \<and> cl_connected cl then handle_subscribe ev body cl sv
                      else if typ = 0x30 \<and> cl_connected cl then handle_publish ev (buf ! 0) body cl sv
                      else if typ = 0x60 \<and> cl_connected cl then handle_pubrel ev body cl sv
                      else if \<not> cl_connected cl
                      then client_ret (- 1) (if ev_send ev then [(cl_fd cl, connack 0x01)] else []) cl sv
                      else (Go_on, [], cl, sv))))"

text \<open>The whole connection: one chunk per \<^verbatim>\<open>recv\<close>, until the handler leaves or the chunks end, which closes the connection.\<close>

fun mqtt_handle_client :: "(mqtt_env \<times> bytes) list \<Rightarrow> mqtt_client \<Rightarrow> mqtt_srv \<Rightarrow> int \<times> wire \<times> mqtt_srv" where
  "mqtt_handle_client [] cl sv =
     (case handle_eof \<lparr>ev_alloc = True, ev_send = True, ev_ip = 0, ev_now = 0\<rparr> cl sv of
        (v, w, cl, sv) \<Rightarrow> (- 1, w, sv))"
| "mqtt_handle_client ((ev, buf) # bs) cl sv =
     (case mqtt_round ev buf cl sv of
        (Leave v, w, cl, sv) \<Rightarrow> (v, w, sv)
      | (Go_on, w, cl, sv) \<Rightarrow> (case mqtt_handle_client bs cl sv of (v, w', sv) \<Rightarrow> (v, w @ w', sv)))"

section \<open>Frames\<close>

lemma frame_body:
  fixes b0 :: u8 and rest :: bytes
  assumes "length body \<le> 0x0FFFFFFF"
  defines "buf \<equiv> b0 # rl_bytes (length body) @ body @ rest"
  shows "decode_remaining_length (drop 1 buf) = Some (length (rl_bytes (length body)), length body)"
    "length (rl_bytes (length body)) + 1 + length body \<le> length buf"
    "take (length body) (drop (1 + length (rl_bytes (length body))) buf) = body" "length buf \<ge> 2" "buf \<noteq> []" "buf ! 0 = b0"
  using decode_encode_remaining_length [OF assms(1), of "body @ rest"] rl_needed_pos [of "length body"]
  by (auto simp: buf_def length_rl_bytes Suc_le_eq)

text \<open>
  The handler looks at one packet per \<^verbatim>\<open>recv\<close>: whatever follows it in the same chunk is not processed.
\<close>

lemma pipelined_packet_lost:
  assumes "length body \<le> 0x0FFFFFFF"
  shows "mqtt_round ev (b0 # rl_bytes (length body) @ body @ rest) cl sv = mqtt_round ev (b0 # rl_bytes (length body) @ body) cl sv"
proof -
  note f = frame_body [OF assms, of b0 rest] and g = frame_body [OF assms, of b0 "[]"]
  let ?X = "b0 # rl_bytes (length body) @ body @ rest" and ?Y = "b0 # rl_bytes (length body) @ body"
  have g': "decode_remaining_length (drop 1 ?Y) = Some (length (rl_bytes (length body)), length body)"
    "length (rl_bytes (length body)) + 1 + length body \<le> length ?Y"
    "take (length body) (drop (1 + length (rl_bytes (length body))) ?Y) = body" "length ?Y \<ge> 2" "?Y \<noteq> []" "?Y ! 0 = b0"
    using g by simp_all
  have "(length (rl_bytes (length body)) + 1 + length body > length ?X) = False" "(length ?X < 2) = False" "(?X = []) = False"
    "(length (rl_bytes (length body)) + 1 + length body > length ?Y) = False" "(length ?Y < 2) = False" "(?Y = []) = False"
    using f(2,4) g'(2,4) by auto
  note c = this
  show ?thesis unfolding mqtt_round_def Let_def c if_False f(1,3,6) g'(1,3,6) option.case prod.case by (rule refl)
qed

section \<open>The bridge's own packets\<close>

lemma first_byte_publish:
  "(0x30 OR push_bit 1 (of_int q AND 3) :: u8) AND 0xF0 = 0x30 \<and> unat (drop_bit 1 (0x30 OR push_bit 1 (of_int q AND 3) :: u8) AND 0x03) = nat q \<and>
   (0x30 OR push_bit 1 (of_int q AND 3) :: u8) AND 0x08 = 0"
  if "q \<in> {0, 1, 2}" for q :: int
proof -
  have "\<forall>q \<in> {0, 1, 2 :: int}. (0x30 OR push_bit 1 (of_int q AND 3) :: u8) AND 0xF0 = 0x30 \<and>
    unat (drop_bit 1 (0x30 OR push_bit 1 (of_int q AND 3) :: u8) AND 0x03) = nat q \<and> (0x30 OR push_bit 1 (of_int q AND 3) :: u8) AND 0x08 = 0"
    by code_simp
  with that show ?thesis by blast
qed

definition ack_of :: "int \<Rightarrow> nat \<Rightarrow> mqtt_client \<Rightarrow> wire" where
  "ack_of qos pid cl = (if qos = 2 then [(cl_fd cl, pubrec pid)] else if qos = 1 then [(cl_fd cl, puback pid)] else [])"

lemma publish_body:
  assumes t: "t \<noteq> []" "length t < 128" "0 \<notin> set t" and q: "qos \<in> {0, 1, 2}" and pid: "pid < 65536"
    and cl: "\<not> cl_v5 cl" and rate: "rl_capacity (sv_rate sv) = 0" and ev: "ev_send ev"
    and b0: "b0 = 0x30 OR push_bit 1 (of_int qos AND 3)"
    and p: "p = put_be16 (length t) @ t @ (if qos > 0 then put_be16 pid else []) @ pl"
    and fan: "cmq_mqtt_fanout (Some t) (Some pl) (length pl) (sv_live sv) = (w, live)"
  shows "handle_publish ev b0 p cl sv =
    (Go_on, w @ ack_of qos pid cl, cl,
     sv\<lparr>sv_queue := (if sv_bridge sv then bridge_enqueue [ev_alloc ev] t pl (sv_queue sv) else sv_queue sv), sv_live := live,
        sv_qos2 := (if qos = 2 then snd (qos2_record_or_lookup pid 1 (sv_qos2 sv)) else sv_qos2 sv)\<rparr>)"
proof -
  have fb: "unat (drop_bit 1 b0 AND 0x03) = nat qos" "b0 AND 0x08 = 0" using first_byte_publish [OF q] b0 by auto
  have len: "be16_at p 0 = length t" using be16_at_put [of "length t"] t unfolding p by simp
  let ?i = "if qos > 0 then put_be16 pid else []"
  have off: "cmq_mqtt_publish_payload_off p (nat qos) False = Some (2 + length t + length ?i, props_init 0)"
    unfolding p using t q by (intro publish_payload_off_put) auto
  have dr: "drop (2 + length t + length ?i) p = pl" unfolding p by simp
  have tp: "c_string (take (length t) (drop 2 p)) = t"
    using t(3) unfolding p by (auto simp: c_string_def takeWhile_eq_all_conv)
  have pidat: "be16_at p (2 + length t) = pid" if "qos > 0"
  proof -
    have "be16_at p (2 + length t) = be16_at (put_be16 pid @ pl) 0"
      using that be16_at_append [of "put_be16 (length t) @ t" "put_be16 pid @ pl"] by (simp add: p)
    then show ?thesis using be16_at_put [OF pid] by simp
  qed
  have n: "(length p < 2) = False" "(2 + length t > length p) = False" "qos > 0 \<Longrightarrow> (2 + length t + 2 > length p) = False"
    unfolding p by simp_all
  have rl: "rate_limit_check (ev_ip ev) (ev_now ev) (sv_rate sv) = (True, sv_rate sv)" using rate by (simp add: rate_limit_check_def)
  have nm: "(length t > 0 \<and> length t < 128) = True" using t by simp
  have v5: "cl_v5 cl = False" using cl by simp
  consider "qos = 0" | "qos = 1" | "qos = 2" using q by auto
  then show ?thesis
  proof cases
    case 1
    then show ?thesis using n fan ev
      unfolding handle_publish_def rl prod.case Let_def len fb v5 off option.case dr tp nm
      by (simp add: ack_of_def)
  next
    case 2
    then show ?thesis using n fan ev pidat
      unfolding handle_publish_def rl prod.case Let_def len fb v5 off option.case dr tp nm
      by (simp add: ack_of_def send_or_leave_def)
  next
    case 3
    then show ?thesis using n fan ev pidat
      unfolding handle_publish_def rl prod.case Let_def len fb v5 off option.case dr tp nm
      by (simp add: ack_of_def send_or_leave_def)
  qed
qed

lemma round_publish:
  assumes "length body \<le> 0x0FFFFFFF" "cl_connected cl" "b0 AND 0xF0 = 0x30"
  shows "mqtt_round ev (b0 # rl_bytes (length body) @ body @ rest) cl sv = handle_publish ev b0 body cl sv"
proof -
  note f = frame_body [OF assms(1), of b0 rest]
  have c: "(length (rl_bytes (length body)) + 1 + length body > length (b0 # rl_bytes (length body) @ body @ rest)) = False"
    "(length (b0 # rl_bytes (length body) @ body @ rest) < 2) = False" "(b0 # rl_bytes (length body) @ body @ rest = []) = False"
    using f(2,4) by auto
  show ?thesis unfolding mqtt_round_def Let_def c if_False f(1,3,6) option.case prod.case using assms(2,3) by simp
qed


definition srv_start :: mqtt_srv where
  "srv_start = \<lparr>sv_live = replicate MQTT_LIVE_MAX live_zero, sv_subs = [], sv_qos2 = [],
     sv_retained = \<lparr>rt_entries = [], rt_path_set = False, rt_file = []\<rparr>, sv_wills = replicate CMQ_MQTT_SESSIONS_MAX will_zero,
     sv_sessions = replicate CMQ_MQTT_SESSIONS_MAX session_zero, sv_queue = bq_empty, sv_bridge = False,
     sv_rate = \<lparr>rl_capacity = 0, rl_refill_per_sec = 0, rl_buckets = replicate MQTT_RATE_BUCKETS \<lparr>rb_ip = 0, rb_tokens = 0, rb_last_refill_ms = 0\<rparr>\<rparr>,
     sv_user = [], sv_pass = []\<rparr>"

definition calm :: mqtt_env where
  "calm = \<lparr>ev_alloc = True, ev_send = True, ev_ip = 0, ev_now = 0\<rparr>"

lemma fanout_nobody: "list_all (\<lambda>l. \<not> ml_used l) live \<Longrightarrow> cmq_mqtt_fanout t pl n live = ([], live)"
  by (auto simp: cmq_mqtt_fanout_def fanout_one_def list_all_iff concat_eq_Nil_conv intro!: map_idI)


text \<open>
  The bridge's CONNECT is refused by the listener: its remaining length leaves out the two bytes before the client id, so that the id
  seems to reach past the end of the packet.
\<close>

lemma parse_connect_short:
  assumes "length cid > 0" "length cid < 65536"
  shows "cmq_mqtt_parse_connect (take (10 + length cid) ([0x00, 0x04, 0x4D, 0x51, 0x54, 0x54, 0x04, f, a, b] @ put_be16 (length cid) @ cid)) = None"
proof -
  define body where "body = take (10 + length cid) ([0x00, 0x04, 0x4D, 0x51, 0x54, 0x54, 0x04, f, a, b] @ put_be16 (length cid) @ cid)"
  have d: "drop 10 body = take (length cid) (put_be16 (length cid) @ cid)" by (simp add: body_def drop_take)
  have "mqtt_read_str (drop 10 body) = None"
  proof (cases "length cid < 2")
    case True
    then show ?thesis unfolding d by (simp add: mqtt_read_str_def)
  next
    case False
    then have "take (length cid) (put_be16 (length cid) @ cid) = put_be16 (length cid) @ take (length cid - 2) cid" by simp
    then show ?thesis unfolding d using be16_at_put [OF assms(2)] False by (simp add: mqtt_read_str_def Let_def)
  qed
  moreover have "body ! 6 = 0x04" by (simp add: body_def)
  ultimately have "cmq_mqtt_parse_connect body = None"
    unfolding cmq_mqtt_parse_connect_def guard_def connect_props_def by (auto simp: Let_def bind_eq_None_conv)
  then show ?thesis by (simp add: body_def)
qed

text \<open>C38. The bridge cannot connect to the listener: every CONNECT that the bridge's encoder builds, for every client id and every
  keep-alive, is answered by the listener with the refusal code 1 and the connection is left.\<close>

theorem mqtt_bridge_connect_refused:
  assumes enc: "cmq_mqtt_encode_connect len (Some cid) ka clean = Some pkt" and cid: "cid \<noteq> []"
    and cl: "\<not> cl_connected cl" "\<not> cl_attached cl" and ev: "ev_send ev"
  shows "mqtt_round ev pkt cl sv = (Leave (- 1), [(cl_fd cl, connack 0x01)], cl, sv\<lparr>sv_qos2 := []\<rparr>) \<and>
    cmq_mqtt_decode_connack (Some (connack 0x01)) = 1"
proof -
  have g: "0 \<le> ka" "ka \<le> 65535" "length cid \<le> 0xFFFF" "20 \<le> len" "length cid + 15 \<le> len"
    using enc unfolding cmq_mqtt_encode_connect_def option.case Let_def by (auto split: if_splits)
  define full :: bytes where "full = [0x00, 0x04, 0x4D, 0x51, 0x54, 0x54, 0x04, if clean then 0x02 else 0x00,
      of_nat (nat ka div 256 mod 256), of_nat (nat ka mod 256)] @ put_be16 (length cid) @ cid"
  define body where "body = take (10 + length cid) full"
  have pkt: "pkt = 0x10 # rl_bytes (length body) @ body @ drop (10 + length cid) full"
    using cmq_mqtt_encode_connect_eq [OF g, of clean] enc by (simp add: body_def full_def put_be16_def)
  have bl: "length body \<le> 0x0FFFFFFF" using g by (simp add: body_def)
  have none: "cmq_mqtt_parse_connect body = None"
    using parse_connect_short [of cid] cid g(3) by (simp add: body_def full_def)
  note f = frame_body [OF bl, of "0x10" "drop (10 + length cid) full", folded pkt]
  have c: "(length (rl_bytes (length body)) + 1 + length body > length pkt) = False" "(length pkt < 2) = False" "(pkt = []) = False"
    using f(2,4,5) by auto
  have "mqtt_round ev pkt cl sv = handle_connect ev body cl sv"
    unfolding mqtt_round_def Let_def c if_False f(1,3,6) option.case prod.case using cl by simp
  then show ?thesis
    using none cl ev by (simp add: handle_connect_def client_ret_def Let_def cmq_mqtt_decode_connack_def connack_def
        CMQ_MQTT_CONNACK_def)
qed

theorem mqtt_bridge_connect_refused_witness:
  "\<exists>pkt. cmq_mqtt_encode_connect 256 (Some [0x63]) 60 True = Some pkt \<and>
     mqtt_round calm pkt (client_start 5) srv_start = (Leave (- 1), [(5, connack 0x01)], client_start 5, srv_start)"
proof -
  obtain pkt where pkt: "cmq_mqtt_encode_connect 256 (Some [0x63]) 60 True = Some pkt"
    using cmq_mqtt_encode_connect_eq [of 60 "[0x63]" 256 True] by simp
  from mqtt_bridge_connect_refused [OF pkt, of "client_start 5" calm srv_start] pkt show ?thesis
    by (auto simp: client_start_def calm_def srv_start_def)
qed

section \<open>The tables stay within their arrays\<close>

text \<open>
  Every table of the listener is an array of fixed size with strings of fixed size. The invariant says that what the model keeps
  fits: no count passes its array, no string passes its buffer, and the client tables have one slot per client.
\<close>

definition wills_ok :: "will_slot list \<Rightarrow> bool" where
  "wills_ok ws \<longleftrightarrow> length ws = CMQ_MQTT_SESSIONS_MAX \<and> wt.ok ws \<and>
     list_all (\<lambda>w. length (wl_client_id w) < 64 \<and> length (wl_topic w) < 128 \<and> wl_len w \<le> CMQ_MQTT_WILL_PAYLOAD_MAX) ws"

definition sessions_ok :: "session_slot list \<Rightarrow> bool" where
  "sessions_ok ss \<longleftrightarrow> length ss = CMQ_MQTT_SESSIONS_MAX \<and> sess.ok ss \<and>
     list_all (\<lambda>s. length (sn_client_id s) < 64 \<and> length (sn_subs s) \<le> CMQ_MQTT_SESSION_SUBS \<and>
       list_all (\<lambda>f. length f < 128) (sn_subs s)) ss"

definition subs_ok :: "bytes list \<Rightarrow> bool" where
  "subs_ok subs \<longleftrightarrow> length subs \<le> MQTT_MAX_SUBS \<and> list_all (\<lambda>f. length f < 128) subs"

definition qos2_ok :: "(nat \<times> nat) list \<Rightarrow> bool" where
  "qos2_ok t \<longleftrightarrow> length t \<le> MQTT_QOS2_MAX \<and> distinct (map fst t)"

definition srv_ok :: "mqtt_srv \<Rightarrow> bool" where
  "srv_ok sv \<longleftrightarrow> live_ok (sv_live sv) \<and> subs_ok (sv_subs sv) \<and> qos2_ok (sv_qos2 sv) \<and> retained_ok (sv_retained sv) \<and>
     wills_ok (sv_wills sv) \<and> sessions_ok (sv_sessions sv) \<and> bq_ok (sv_queue sv) \<and> rate_ok (sv_rate sv)"

definition client_ok :: "mqtt_client \<Rightarrow> bool" where
  "client_ok cl \<longleftrightarrow> length (cl_subs cl) \<le> CMQ_MQTT_SESSION_SUBS \<and> list_all (\<lambda>f. length f < 128) (cl_subs cl) \<and>
     (case cl_ci cl of None \<Rightarrow> True | Some ci \<Rightarrow> length (ci_client_id ci) < 64 \<and> length (ci_will_topic ci) < 128)"

named_theorems table_ok

lemma list_all_update: "list_all P xs \<Longrightarrow> P x \<Longrightarrow> list_all P (xs[i := x])"
  by (cases "i < length xs") (auto simp: list_all_length nth_list_update)

lemma c_string_length: "length (c_string b) \<le> length b"
  by (simp add: c_string_def length_takeWhile_le)

lemma subs_ok_record [table_ok]: "subs_ok subs \<Longrightarrow> subs_ok (snd (cmq_mqtt_record_subscriber f subs))"
  by (auto simp: cmq_mqtt_record_subscriber_def subs_ok_def)

lemma qos2_ok_record [table_ok]: "qos2_ok t \<Longrightarrow> qos2_ok (snd (qos2_record_or_lookup i p t))"
proof (cases "first_index (\<lambda>e. fst e = i) t")
  case None
  assume "qos2_ok t"
  moreover have "i \<notin> fst ` set t" using None by (auto simp: first_index_None)
  ultimately show ?thesis unfolding qos2_record_or_lookup_def None by (simp add: qos2_ok_def)
next
  case (Some k)
  assume ok: "qos2_ok t"
  from Some obtain xs e ys where sp: "t = xs @ e # ys" "length xs = k" "fst e = i" by (elim first_index_split) auto
  have "t[k := (i, p)] = xs @ (i, p) # ys" using sp(1,2) by auto
  then show ?thesis using ok sp(1,3) unfolding qos2_record_or_lookup_def Some by (auto simp: qos2_ok_def)
qed

lemma retained_ok_store [table_ok]:
  assumes "retained_ok rt" "length t < 128"
  shows "retained_ok (cmq_mqtt_store_retained h (Some t) pl n rt)"
proof (cases "first_index (\<lambda>e. re_topic e = t) (rt_entries rt)")
  case None
  then have "t \<notin> re_topic ` set (rt_entries rt)" by (auto simp: first_index_None)
  then show ?thesis using assms unfolding cmq_mqtt_store_retained_def option.sel None retain_at_def
    by (auto simp: retained_ok_def)
next
  case (Some i)
  then obtain xs e ys where sp: "rt_entries rt = xs @ e # ys" "length xs = i" "re_topic e = t" by (elim first_index_split) auto
  then have r: "re_topic (rt_entries rt ! i) = t" "(rt_entries rt)[i := x] = xs @ x # ys" for x by auto
  show ?thesis using assms sp(1,3) unfolding cmq_mqtt_store_retained_def option.sel Some option.case retain_at_def r
    by (simp add: retained_ok_def)
qed

lemma unused_slot_ok:
  assumes "wt.ok ws" "client_slot wl_used wl_client_id cid ws = Some i" "\<not> wl_used w"
  shows "wt.ok (ws[i := w])"
proof -
  have "i < length ws" using assms(2) by (auto simp: client_slot_def split: option.splits dest: first_index_less)
  then have u: "ws = take i ws @ ws ! i # drop (Suc i) ws" "ws[i := w] = take i ws @ w # drop (Suc i) ws"
    by (rule id_take_nth_drop, rule upd_conv_take_nth_drop)
  have "wt.ok (take i ws @ ws ! i # drop (Suc i) ws)" using assms(1) u(1) by simp
  then show ?thesis unfolding u(2) using assms(3) by (auto simp: wt.ok_def split: if_splits)
qed

lemma wills_ok_store [table_ok]:
  assumes ok: "wills_ok ws" and cid: "length cid < 64"
  shows "wills_ok (snd (cmq_mqtt_will_store h cid ci ws))"
proof (cases "client_slot wl_used wl_client_id cid ws")
  case None
  then show ?thesis using ok unfolding cmq_mqtt_will_store_def None by simp
next
  case (Some i)
  define w where "w p = \<lparr>wl_used = True, wl_client_id = take 63 cid, wl_topic = take 127 (ci_will_topic ci), wl_payload = p,
      wl_len = length (ci_will_payload ci), wl_retain = ci_will_retain ci\<rparr>" for p
  have w: "wl_used (w p)" "wl_client_id (w p) = cid" for p using cid by (simp_all add: w_def)
  have wok: "wt.ok ws" using ok by (simp add: wills_ok_def)
  have "wt.ok (ws[i := w p])" "wt.ok (ws[i := (w p)\<lparr>wl_used := False\<rparr>])" for p
    using wt.put(1) [OF wok Some w] unused_slot_ok [OF wok Some, of "(w p)\<lparr>wl_used := False\<rparr>"] by auto
  then show ?thesis using ok cid
    unfolding cmq_mqtt_will_store_def Some option.case Let_def w_def [symmetric]
    by (auto simp: wills_ok_def w_def intro!: list_all_update)
qed

lemma wills_ok_zero: "wills_ok ws \<Longrightarrow> first_index (\<lambda>w. wl_used w \<and> wl_client_id w = cid) ws = Some i \<Longrightarrow> wills_ok (ws[i := will_zero])"
  using wt.clear(1) [of ws cid i] by (auto simp: wills_ok_def will_zero_def intro!: list_all_update)

lemma wills_ok_clear [table_ok]: "wills_ok ws \<Longrightarrow> wills_ok (cmq_mqtt_will_clear cid ws)"
  by (auto simp: cmq_mqtt_will_clear_def wills_ok_zero split: option.split)

lemma wills_ok_take:
  "wills_ok ws \<Longrightarrow> wills_ok (snd (cmq_mqtt_will_take cid n ws))"
  "wills_ok ws \<Longrightarrow> cmq_mqtt_will_take cid 128 ws = (Some (t, p, len, r), ws') \<Longrightarrow> length t < 128"
  by (auto simp: cmq_mqtt_will_take_def wills_ok_zero Let_def split: option.split option.splits if_splits)

lemma sessions_ok_save [table_ok]:
  assumes ok: "sessions_ok ss" and cid: "length cid < 64"
  shows "sessions_ok (session_persist_local cid fs ss)"
proof (cases "client_slot sn_used sn_client_id cid ss")
  case None
  then show ?thesis using ok unfolding session_persist_local_def cmq_mqtt_session_save_def None by simp
next
  case (Some i)
  define s where "s = \<lparr>sn_used = True, sn_client_id = cid, sn_subs = map (take 127) (take CMQ_MQTT_SESSION_SUBS (take CMQ_MQTT_SESSION_SUBS fs))\<rparr>"
  have s: "sn_used s" "sn_client_id s = cid" by (simp_all add: s_def)
  have "sess.ok ss" using ok by (simp add: sessions_ok_def)
  moreover have "list_all (\<lambda>f. length f < 128) (map (take 127) gs)" for gs :: "bytes list" by (induction gs) auto
  ultimately show ?thesis using ok cid sess.put(1) [OF _ Some s]
    unfolding session_persist_local_def cmq_mqtt_session_save_def Some
    by (auto simp: sessions_ok_def s_def simp del: list.pred_map intro!: list_all_update)
qed

lemma sessions_ok_drop [table_ok]: "sessions_ok ss \<Longrightarrow> sessions_ok (cmq_mqtt_session_drop cid ss)"
  using sess.clear(1) [of ss cid]
  by (auto simp: cmq_mqtt_session_drop_def sessions_ok_def session_zero_def split: option.split intro!: list_all_update)

lemma bq_ok_push [table_ok]: "bq_ok q \<Longrightarrow> bq_ok (snd (mqtt_bridge_push h t p n q))"
  by (auto simp: mqtt_bridge_push_def bridge_put_list)

lemma bq_ok_enqueue [table_ok]: "bq_ok q \<Longrightarrow> bq_ok (bridge_enqueue h t p q)"
proof -
  assume ok: "bq_ok q"
  obtain b q' where b: "bridge_buffer h p q = (b, q')" by fastforce
  then have "bq_ok q'" using ok
    by (auto simp: bridge_buffer_def bq_ok_def split: if_splits option.splits)
  then show ?thesis by (auto simp: bridge_enqueue_def b bridge_put_list)
qed

lemma rate_ok_check [table_ok]: "rate_ok r \<Longrightarrow> rate_ok (snd (rate_limit_check ip now r))"
  using rate_limit_bounds(1) by (metis prod.collapse)

lemmas [table_ok] = live_ok_detach live_ok_filter live_ok_ack live_ok_rec live_ok_fanout

definition round_ok :: "round_result \<Rightarrow> bool" where
  "round_ok r \<longleftrightarrow> client_ok (fst (snd (snd r))) \<and> srv_ok (snd (snd (snd r)))"

lemma round_ok_Go_on [simp]: "round_ok (v, w, cl, sv) \<longleftrightarrow> client_ok cl \<and> srv_ok sv"
  by (simp add: round_ok_def)

lemma client_ret_ok [table_ok]: "client_ok cl \<Longrightarrow> srv_ok sv \<Longrightarrow> round_ok (client_ret v w cl sv)"
  by (simp add: client_ret_def srv_ok_def table_ok)

lemma send_or_leave_ok [table_ok]: "client_ok cl \<Longrightarrow> srv_ok sv \<Longrightarrow> round_ok (send_or_leave ev w pkt cl sv)"
  by (simp add: send_or_leave_def client_ret_ok)

lemma will_fire_ok [table_ok]: "srv_ok sv \<Longrightarrow> srv_ok (snd (cmq_mqtt_will_fire ev cid sv))"
proof -
  assume ok: "srv_ok sv"
  then have w: "wills_ok (sv_wills sv)" by (simp add: srv_ok_def)
  obtain r ws where take: "cmq_mqtt_will_take cid 128 (sv_wills sv) = (r, ws)" by fastforce
  have ws: "wills_ok ws" using wills_ok_take(1) [OF w, of cid 128] take by simp
  show ?thesis
  proof (cases r)
    case None
    then show ?thesis using ok ws by (simp add: cmq_mqtt_will_fire_def take srv_ok_def)
  next
    case (Some a)
    obtain t p len ret where a: "a = (t, p, len, ret)" by (metis prod_cases4)
    have "length t < 128" using wills_ok_take(2) [OF w] take Some a by blast
    then show ?thesis using ok ws unfolding cmq_mqtt_will_fire_def take Some a
      by (simp add: srv_ok_def Let_def retained_ok_store bq_ok_push)
  qed
qed

lemma restore_subs_ok: "client_ok cl \<Longrightarrow> srv_ok sv \<Longrightarrow> client_ok (fst (restore_subs ss cl sv)) \<and> srv_ok (snd (restore_subs ss cl sv))"
  by (induction ss cl sv rule: restore_subs.induct) (auto simp: client_ok_def srv_ok_def table_ok)

lemma attach_client_ok:
  assumes "client_ok cl" "srv_ok sv"
  shows "client_ok (fst (attach_client cl sv))" "srv_ok (snd (attach_client cl sv))"
proof -
  obtain rc live where at: "cmq_mqtt_session_attach (cl_fd cl) (Some cmq_mqtt_inflight_init) (sv_live sv) = (rc, live)" by fastforce
  have live: "live_ok live" using assms(2) live_ok_attach [of "sv_live sv" cmq_mqtt_inflight_init "cl_fd cl"] win_ok_init(1) at
    by (simp add: srv_ok_def)
  have "live_ok (foldl (\<lambda>l s. snd (cmq_mqtt_session_add_filter fd (Some s) 1 l)) live ss)" for ss fd
    using live by (induction ss arbitrary: live) (auto simp: live_ok_filter)
  then show "client_ok (fst (attach_client cl sv))" "srv_ok (snd (attach_client cl sv))"
    using assms live by (simp_all add: attach_client_def at client_ok_def srv_ok_def)
qed

lemma guard_Some [simp]: "guard b = Some u \<longleftrightarrow> b"
  by (simp add: guard_def)

lemma connect_will_bound: "connect_will will v5 buf off = Some (t, p, off') \<Longrightarrow> length t < 128"
  using c_string_length
  by (fastforce simp: connect_will_def bind_eq_Some_conv Let_def split: if_splits prod.splits intro: le_less_trans)

lemma parse_connect_bounds:
  "cmq_mqtt_parse_connect buf = Some ci \<Longrightarrow> length (ci_client_id ci) < 64 \<and> length (ci_will_topic ci) < 128"
  by (auto simp: cmq_mqtt_parse_connect_def bind_eq_Some_conv Let_def not_le dest: connect_will_bound
      intro: le_less_trans [OF c_string_length])

lemma handle_connect_ok [table_ok]:
  assumes "client_ok cl" "srv_ok sv"
  shows "round_ok (handle_connect ev body cl sv)"
proof (cases "cmq_mqtt_parse_connect body")
  case None
  then show ?thesis using assms by (simp add: handle_connect_def Let_def client_ret_ok srv_ok_def qos2_ok_def)
next
  case (Some ci)
  note b = parse_connect_bounds [OF Some]
  let ?cl = "cl\<lparr>cl_ci := Some ci, cl_v5 := ci_is_v5 ci, cl_clean := ci_clean_session ci\<rparr>"
  let ?sv = "sv\<lparr>sv_qos2 := []\<rparr>"
  have c: "client_ok ?cl" "srv_ok ?sv" using assms b by (auto simp: client_ok_def srv_ok_def qos2_ok_def)
  define r where "r = (if ci_clean_session ci then (?cl, ?sv\<lparr>sv_sessions := cmq_mqtt_session_drop (ci_client_id ci) (sv_sessions ?sv)\<rparr>)
     else restore_subs (case cmq_mqtt_session_load (ci_client_id ci) CMQ_MQTT_SESSION_SUBS (sv_sessions ?sv) of
       None \<Rightarrow> [] | Some ss \<Rightarrow> ss) ?cl ?sv)"
  have r: "client_ok (fst r)" "srv_ok (snd r)"
    using c restore_subs_ok [OF c] by (auto simp: r_def srv_ok_def sessions_ok_drop)
  define sv2 where "sv2 = (if ci_will_flag ci
     then (snd r)\<lparr>sv_wills := snd (cmq_mqtt_will_store [ev_alloc ev] (ci_client_id ci) ci (sv_wills (snd r)))\<rparr>
     else (snd r)\<lparr>sv_wills := cmq_mqtt_will_clear (ci_client_id ci) (sv_wills (snd r))\<rparr>)"
  have s2: "srv_ok sv2" using r(2) b by (simp add: sv2_def srv_ok_def table_ok)
  have "handle_connect ev body cl sv =
     (if \<not> auth_ok ci ?sv then client_ret (- 1) (if ev_send ev then [(cl_fd ?cl, connack 0x04)] else []) ?cl ?sv
      else if \<not> ev_send ev then client_ret (- 1) [] (fst r) sv2
      else (Go_on, [(cl_fd (fst r), connack 0x00)], (fst (attach_client (fst r) sv2))\<lparr>cl_connected := True\<rparr>, snd (attach_client (fst r) sv2)))"
    unfolding handle_connect_def Some option.case Let_def r_def [symmetric] sv2_def by (simp add: case_prod_unfold)
  moreover have "client_ok (x\<lparr>cl_connected := True\<rparr>) = client_ok x" for x by (simp add: client_ok_def)
  ultimately show ?thesis using c r s2 attach_client_ok [OF r(1) s2] by (simp add: client_ret_ok)
qed

lemma subscribe_read_bound: "subscribe_read p off = Some (off', q, t) \<Longrightarrow> length t < 128"
  by (auto simp: subscribe_read_def Let_def split: if_splits intro!: le_less_trans [OF c_string_length])

lemma subscribe_loop_ok:
  "client_ok cl \<Longrightarrow> srv_ok sv \<Longrightarrow> subscribe_loop k p off g l cl sv = (g', l', cl', sv') \<Longrightarrow> client_ok cl' \<and> srv_ok sv'"
proof (induction k p off g l cl sv rule: subscribe_loop.induct)
  case (2 k p off g l cl sv)
  show ?case
  proof (cases "subscribe_read p off")
    case None
    then show ?thesis using 2 by simp
  next
    case (Some a)
    obtain off2 q t where a: "a = (off2, q, t)" by (metis prod_cases3)
    obtain cl2 sv2 where add: "subscribe_add q t cl sv = (cl2, sv2)" by fastforce
    have "client_ok cl2" "srv_ok sv2" using add 2(2,3) subscribe_read_bound [OF Some [unfolded a]]
      by (auto simp: subscribe_add_def client_ok_def srv_ok_def table_ok)
    then show ?thesis using "2.IH" [OF Some, of off2 "(q, t)" q t cl2 sv2] "2.prems"(3) a add Some by simp
  qed
qed simp

lemma handle_subscribe_ok [table_ok]:
  assumes "client_ok cl" "srv_ok sv"
  shows "round_ok (handle_subscribe ev p cl sv)"
proof (cases "if cl_v5 cl then map_option (\<lambda>sp. 2 + mp_consumed sp) (props_decoded (drop 2 p)) else Some 2")
  case None
  then show ?thesis using assms unfolding handle_subscribe_def None by simp
next
  case (Some off)
  obtain g l cl' sv' where loop: "subscribe_loop 8 p off [] [] cl sv = (g, l, cl', sv')" by (metis prod_cases4)
  from subscribe_loop_ok [OF assms loop] show ?thesis using assms unfolding handle_subscribe_def Some option.case loop
    by (simp add: client_ret_ok)
qed

lemma handle_publish_ok [table_ok]:
  assumes "client_ok cl" "srv_ok sv"
  shows "round_ok (handle_publish ev b0 p cl sv)"
proof -
  obtain adm rate where rl: "rate_limit_check (ev_ip ev) (ev_now ev) (sv_rate sv) = (adm, rate)" by fastforce
  have r: "rate_ok rate" using rate_ok_check [of "sv_rate sv" "ev_ip ev" "ev_now ev"] assms(2) rl by (simp add: srv_ok_def)
  show ?thesis
  proof (cases "cmq_mqtt_publish_payload_off p (unat (drop_bit 1 b0 AND 0x03)) (cl_v5 cl)")
    case None
    then show ?thesis using assms r unfolding handle_publish_def rl prod.case Let_def None
      by (auto simp: srv_ok_def intro!: client_ret_ok)
  next
    case (Some a)
    obtain poff props where a: "a = (poff, props)" by fastforce
    define t where "t = c_string (take (be16_at p 0) (drop 2 p))"
    define pl where "pl = drop poff p"
    have t: "be16_at p 0 < 128 \<Longrightarrow> length t < 128"
      unfolding t_def by (rule le_less_trans [OF c_string_length]) simp
    obtain w live where fan: "cmq_mqtt_fanout (Some t) (Some pl) (length pl) (sv_live sv) = (w, live)" by fastforce
    have live: "live_ok live" using live_ok_fanout [of "sv_live sv" "Some t" pl] assms(2) fan by (simp add: srv_ok_def)
    show ?thesis using assms r t live
      unfolding handle_publish_def rl prod.case Let_def Some a option.case t_def [symmetric] pl_def [symmetric]
      by (auto simp: srv_ok_def fan table_ok intro!: client_ret_ok send_or_leave_ok)
  qed
qed

lemma handle_rest_ok [table_ok]:
  assumes "client_ok cl" "srv_ok sv"
  shows "round_ok (handle_pubrel ev p cl sv)" "round_ok (handle_eof ev cl sv)" "round_ok (handle_disconnect cl sv)"
proof -
  have cid: "length (ci_client_id ci) < 64" if "cl_ci cl = Some ci" for ci using assms(1) that by (simp add: client_ok_def)
  show "round_ok (handle_pubrel ev p cl sv)"
    using assms by (auto simp: handle_pubrel_def srv_ok_def table_ok intro!: send_or_leave_ok)
  show "round_ok (handle_eof ev cl sv)"
  proof (cases "cl_ci cl")
    case (Some ci)
    have "srv_ok (snd (cmq_mqtt_will_fire ev (ci_client_id ci) sv))" using assms(2) by (rule will_fire_ok)
    then show ?thesis using assms(1) cid [OF Some]
      by (auto simp: handle_eof_def Some Let_def srv_ok_def table_ok intro!: client_ret_ok)
  qed (use assms in \<open>simp add: handle_eof_def client_ret_ok\<close>)
  show "round_ok (handle_disconnect cl sv)"
    using assms cid by (auto simp: handle_disconnect_def Let_def srv_ok_def qos2_ok_def table_ok intro!: client_ret_ok split: option.split)
qed

lemma mqtt_round_ok:
  assumes "client_ok cl" "srv_ok sv"
  shows "round_ok (mqtt_round ev buf cl sv)"
proof -
  have live: "srv_ok (sv\<lparr>sv_live := snd (cmq_mqtt_session_ack fd i (sv_live sv))\<rparr>)"
    "srv_ok (sv\<lparr>sv_live := snd (snd (cmq_mqtt_session_rec fd i (sv_live sv)))\<rparr>)" for fd i
    using assms(2) by (simp_all add: srv_ok_def table_ok)
  show ?thesis
    using assms live unfolding mqtt_round_def Let_def
    by (auto simp: table_ok case_prod_unfold split: option.split)
qed

lemma srv_start_ok: "srv_ok srv_start" "client_ok (client_start fd)"
proof -
  have l: "live_ok (replicate MQTT_LIVE_MAX live_zero)" by (simp add: live_ok_def list_all_length live_slot_ok_def live_zero_def)
  have w: "wills_ok (replicate CMQ_MQTT_SESSIONS_MAX will_zero)"
    by (simp add: wills_ok_def wt.ok_def list_all_length will_zero_def)
  have s: "sessions_ok (replicate CMQ_MQTT_SESSIONS_MAX session_zero)"
    by (simp add: sessions_ok_def sess.ok_def list_all_length session_zero_def)
  have q: "bq_ok bq_empty" by (simp add: bq_ok_def bq_empty_def BRIDGE_QUEUE_def)
  show "srv_ok srv_start" using l w s q
    by (simp add: srv_ok_def srv_start_def subs_ok_def qos2_ok_def retained_ok_def rate_ok_def list_all_length)
  show "client_ok (client_start fd)" by (simp add: client_ok_def client_start_def)
qed

lemma mqtt_handle_client_ok: "client_ok cl \<Longrightarrow> srv_ok sv \<Longrightarrow> srv_ok (snd (snd (mqtt_handle_client bs cl sv)))"
proof (induction bs cl sv rule: mqtt_handle_client.induct)
  case (1 cl sv)
  from handle_rest_ok(2) [OF 1] show ?case by (auto simp: case_prod_unfold round_ok_def)
next
  case (2 ev buf bs cl sv)
  obtain v w cl' sv' where r: "mqtt_round ev buf cl sv = (v, w, cl', sv')" by (metis prod_cases4)
  with mqtt_round_ok [OF "2.prems"] have "client_ok cl'" "srv_ok sv'" by (metis round_ok_Go_on)+
  with "2.IH" r show ?case by (cases v) (auto simp: case_prod_unfold)
qed

text \<open>
  The listener with its connections: a connection is accepted, a thread does a round on what it received and goes on or leaves, and
  the relay thread does a round. The tables' own locks make the operations in a round atomic; the relation takes a round at a time.
\<close>

inductive listener_step :: "(int \<rightharpoonup> mqtt_client) \<times> mqtt_srv \<Rightarrow> (int \<rightharpoonup> mqtt_client) \<times> mqtt_srv \<Rightarrow> bool" where
  accept: "cs fd = None \<Longrightarrow> listener_step (cs, sv) (cs(fd \<mapsto> client_start fd), sv)"
| go_on: "cs fd = Some cl \<Longrightarrow> mqtt_round ev buf cl sv = (Go_on, w, cl', sv') \<Longrightarrow> listener_step (cs, sv) (cs(fd \<mapsto> cl'), sv')"
| leave: "cs fd = Some cl \<Longrightarrow> mqtt_round ev buf cl sv = (Leave v, w, cl', sv') \<Longrightarrow> listener_step (cs, sv) (cs(fd := None), sv')"
| relay: "listener_step (cs, sv) (cs, sv\<lparr>sv_queue := snd (bridge_relay_step adapter srv pub_ok (sv_queue sv))\<rparr>)"

definition listener_ok :: "(int \<rightharpoonup> mqtt_client) \<times> mqtt_srv \<Rightarrow> bool" where
  "listener_ok s \<longleftrightarrow> srv_ok (snd s) \<and> (\<forall>cl \<in> ran (fst s). client_ok cl)"

lemma bq_ok_relay: "bq_ok q \<Longrightarrow> bq_ok (snd (bridge_relay_step adapter srv pub_ok q))"
proof (cases "bq_count q = 0")
  case False
  assume ok: "bq_ok q"
  obtain out q' where r: "bridge_relay_step adapter srv pub_ok q = (out, q')" by fastforce
  then show ?thesis using relay_step_list [OF ok _ r] False by (metis gr0I snd_conv)
qed (simp add: bridge_relay_step_def)

lemma ran_updD: "x \<in> ran (m(k := v)) \<Longrightarrow> x \<in> ran m \<or> v = Some x"
  by (auto simp: ran_def split: if_splits)

lemma listener_step_ok: "listener_step s s' \<Longrightarrow> listener_ok s \<Longrightarrow> listener_ok s'"
proof (induction rule: listener_step.induct)
  case (accept cs fd sv)
  then show ?case using srv_start_ok(2) [of fd] by (auto simp: listener_ok_def dest!: ran_updD)
next
  case (go_on cs fd cl ev buf sv w cl' sv')
  then have "client_ok cl" "srv_ok sv" by (auto simp: listener_ok_def intro: ranI)
  from mqtt_round_ok [OF this, of ev buf] go_on show ?case by (auto simp: listener_ok_def dest!: ran_updD)
next
  case (leave cs fd cl ev buf sv v w cl' sv')
  then have "client_ok cl" "srv_ok sv" by (auto simp: listener_ok_def intro: ranI)
  from mqtt_round_ok [OF this, of ev buf] leave show ?case by (auto simp: listener_ok_def dest!: ran_updD)
next
  case (relay cs sv adapter srv pub_ok)
  then show ?case by (auto simp: listener_ok_def srv_ok_def bq_ok_relay)
qed



section \<open>Where the handler departs from the protocol\<close>

text \<open>
  The flag RETAIN is bit 0 of the first byte; the handler tests bit 3, which is DUP. A PUBLISH with RETAIN alone is not retained,
  and a repeated PUBLISH without it is.
\<close>

lemma retain_bit_is_dup:
  assumes "rl_capacity (sv_rate sv) = 0" "\<not> cl_v5 cl" "t \<noteq> []" "length t < 128" "0 \<notin> set t"
    and fan: "cmq_mqtt_fanout (Some t) (Some pl) (length pl) (sv_live sv) = (w, live)"
    and p: "p = put_be16 (length t) @ t @ pl"
  shows "sv_retained (snd (snd (snd (handle_publish ev 0x31 p cl sv)))) = sv_retained sv"
    "sv_retained (snd (snd (snd (handle_publish ev 0x38 p cl sv)))) =
       cmq_mqtt_store_retained [ev_alloc ev] (Some t) (Some pl) (length pl) (sv_retained sv)"
proof -
  have len: "be16_at p 0 = length t" using be16_at_put [of "length t"] assms(4) unfolding p by simp
  have off: "cmq_mqtt_publish_payload_off p 0 False = Some (2 + length t, props_init 0)"
    using publish_payload_off_put [of t 0 "[]" pl] assms(4) by (simp add: p)
  have dr: "drop (2 + length t) p = pl" and tp: "c_string (take (length t) (drop 2 p)) = t"
    using assms(5) unfolding p by (auto simp: c_string_def takeWhile_eq_all_conv)
  have rl: "rate_limit_check (ev_ip ev) (ev_now ev) (sv_rate sv) = (True, sv_rate sv)" using assms(1) by (simp add: rate_limit_check_def)
  have bits: "unat (drop_bit 1 (0x31 :: u8) AND 0x03) = 0" "(0x31 :: u8) AND 0x08 = 0"
    "unat (drop_bit 1 (0x38 :: u8) AND 0x03) = 0" "(0x38 :: u8) AND 0x08 \<noteq> 0" by code_simp+
  have n: "(length p < 2) = False" "(2 + length t > length p) = False" unfolding p by simp_all
  have v5: "cl_v5 cl = False" using assms(2) by simp
  show "sv_retained (snd (snd (snd (handle_publish ev 0x31 p cl sv)))) = sv_retained sv"
    unfolding handle_publish_def rl prod.case Let_def len bits(1,2) v5 off option.case dr tp n
    using fan assms(3,4) by simp
  show "sv_retained (snd (snd (snd (handle_publish ev 0x38 p cl sv)))) =
       cmq_mqtt_store_retained [ev_alloc ev] (Some t) (Some pl) (length pl) (sv_retained sv)"
    unfolding handle_publish_def rl prod.case Let_def len bits(3) v5 off option.case dr tp n
    using fan assms(3,4) bits(4) by simp
qed

text \<open>
  A PUBLISH of QoS 2 that is repeated before PUBREL is delivered again: the phase that was recorded is not consulted.
\<close>

lemma qos2_repeated_delivery:
  assumes "t \<noteq> []" "length t < 128" "0 \<notin> set t" "pid < 65536" "\<not> cl_v5 cl" "rl_capacity (sv_rate sv) = 0" "ev_send ev"
    and p: "p = put_be16 (length t) @ t @ put_be16 pid @ pl"
    and first: "handle_publish ev 0x34 p cl sv = (v, w1, cl, sv1)"
    and fan: "cmq_mqtt_fanout (Some t) (Some pl) (length pl) (sv_live sv1) = (w, live)"
  shows "qos2_get_phase pid (sv_qos2 sv1) = 1 \<or> length (sv_qos2 sv) \<ge> MQTT_QOS2_MAX"
    "fst (snd (handle_publish ev 0x34 p cl sv1)) = w @ [(cl_fd cl, pubrec pid)]"
proof -
  have b0: "(0x34 :: u8) = 0x30 OR push_bit 1 (of_int 2 AND 3)" by code_simp
  have q: "(2 :: int) \<in> {0, 1, 2}" by simp
  have p': "p = put_be16 (length t) @ t @ (if (2 :: int) > 0 then put_be16 pid else []) @ pl" using p by simp
  obtain w0 live0 where fan0: "cmq_mqtt_fanout (Some t) (Some pl) (length pl) (sv_live sv) = (w0, live0)" by fastforce
  note one = publish_body [OF assms(1-3) q assms(4,5,6,7) b0 p' fan0]
  have sv1: "sv_qos2 sv1 = snd (qos2_record_or_lookup pid 1 (sv_qos2 sv))" "sv_rate sv1 = sv_rate sv" using first one by auto
  then have rate: "rl_capacity (sv_rate sv1) = 0" using assms(6) by simp
  show "fst (snd (handle_publish ev 0x34 p cl sv1)) = w @ [(cl_fd cl, pubrec pid)]"
    unfolding publish_body [OF assms(1-3) q assms(4,5) rate assms(7) b0 p' fan] by (simp add: ack_of_def)
  show "qos2_get_phase pid (sv_qos2 sv1) = 1 \<or> length (sv_qos2 sv) \<ge> MQTT_QOS2_MAX"
  proof (cases "first_index (\<lambda>e. fst e = pid) (sv_qos2 sv)")
    case None
    then have "find (\<lambda>e. fst e = pid) (sv_qos2 sv) = None" by (auto simp: first_index_None find_None_iff)
    then show ?thesis unfolding sv1 qos2_record_or_lookup_def None by (auto simp: qos2_get_phase_def find_append)
  next
    case (Some i)
    then obtain xs e ys where sp: "sv_qos2 sv = xs @ e # ys" "length xs = i" "\<forall>x \<in> set xs. fst x \<noteq> pid"
      by (elim first_index_split) auto
    then have "find (\<lambda>e. fst e = pid) xs = None" "(sv_qos2 sv)[i := (pid, 1)] = xs @ (pid, 1) # ys" by (auto simp: find_None_iff)
    then show ?thesis unfolding sv1 qos2_record_or_lookup_def Some by (simp add: qos2_get_phase_def find_append)
  qed
qed

text \<open>
  A retained message of 126 bytes or more with its topic is sent with a length byte that has the top bit set, which a decoder takes
  for the first of two.
\<close>

lemma retained_length_malformed:
  assumes "length t < 125" "length pl < 128" "length t + length pl \<ge> 126" "retained_packet t pl = Some pkt"
  shows "decode_remaining_length (drop 1 pkt) \<noteq> Some (1, 2 + length t + length pl)"
proof
  assume d: "decode_remaining_length (drop 1 pkt) = Some (1, 2 + length t + length pl)"
  have pkt: "drop 1 pkt = of_nat (2 + length t + length pl) # put_be16 (length t) @ t @ pl"
    using assms by (auto simp: retained_packet_def)
  let ?n = "2 + length t + length pl"
  have "?n \<in> {128..<256}" using assms by auto
  moreover have "\<forall>n \<in> {128..<256}. (of_nat n :: u8) AND 0x80 \<noteq> 0" by code_simp
  ultimately have "(of_nat ?n :: u8) AND 0x80 \<noteq> 0" by blast
  with d have "decode_rl_from (drop 1 pkt) 1 128 (unat (of_nat ?n AND 0x7F :: u8) mod 2 ^ 32) = Some (1, ?n)"
    unfolding decode_remaining_length_def pkt by (subst (asm) decode_rl_from.simps) (simp add: Let_def)
  from decode_rl_from_bounds [OF this] show False by simp
qed

end
