(* ===== verification/CMQ_Queue.thy ===== *)
theory CMQ_Queue
  imports CMQ_Prelude "HOL-Library.Sublist" "HOL-Library.Monad_Syntax"
begin

text \<open>
  The queue with many producers and one consumer (\<^verbatim>\<open>src/core/cmq_queue.c\<close>). Its nodes are cells of an explicit memory, and every
  operation is a sequence of atomic steps, so that operations of several threads interleave between any two of them. A step that
  touches a node that is not allocated has no result. \<^verbatim>\<open>malloc\<close> may return any address that is not in use, also one freed before.
  Loads and stores are taken in one order for all threads.
\<close>

section \<open>State\<close>

type_synonym addr = nat

record qnode =
  qn_data :: "nat option"
  qn_next :: "addr option"

record cmq_queue =
  q_head :: "addr option"
  q_tail :: "addr option"
  q_stub :: "addr option"
  q_in_flight :: int
  q_dying :: bool
  q_mem :: "addr \<rightharpoonup> qnode"

definition cmq_queue_init :: "addr option \<Rightarrow> cmq_queue" where
  "cmq_queue_init m =
     (case m of
        None \<Rightarrow> \<lparr>q_head = None, q_tail = None, q_stub = None, q_in_flight = 0, q_dying = False, q_mem = Map.empty\<rparr>
      | Some a \<Rightarrow> \<lparr>q_head = Some a, q_tail = Some a, q_stub = Some a, q_in_flight = 0, q_dying = False,
                   q_mem = [a \<mapsto> \<lparr>qn_data = None, qn_next = None\<rparr>]\<rparr>)"

section \<open>Push\<close>

text \<open>Where a thread stands in \<^verbatim>\<open>cmq_queue_push\<close>: the step it makes next, with its local variables.\<close>

datatype push_pc =
  P_start "nat option" | P_test "nat option" | P_enter "nat option" | P_retest "nat option" | P_alloc "nat option"
| P_swap addr | P_link "addr option" addr | P_leave | P_back | P_done int

fun push_step :: "addr option \<Rightarrow> push_pc \<Rightarrow> cmq_queue \<Rightarrow> (push_pc \<times> cmq_queue) option" where
  "push_step m (P_start d) q = Some (if q_tail q = None then P_done (- 1) else P_test d, q)"
| "push_step m (P_test d) q = Some (if q_dying q then P_done (- 1) else P_enter d, q)"
| "push_step m (P_enter d) q = Some (P_retest d, q\<lparr>q_in_flight := q_in_flight q + 1\<rparr>)"
| "push_step m (P_retest d) q = Some (if q_dying q then P_back else P_alloc d, q)"
| "push_step m (P_alloc d) q =
     Some (case m of
             None \<Rightarrow> (P_back, q)
           | Some a \<Rightarrow> (P_swap a, q\<lparr>q_mem := (q_mem q)(a \<mapsto> \<lparr>qn_data = d, qn_next = None\<rparr>)\<rparr>))"
| "push_step m (P_swap a) q = Some (P_link (q_tail q) a, q\<lparr>q_tail := Some a\<rparr>)"
| "push_step m (P_link prev a) q =
     do { p \<leftarrow> prev;
          n \<leftarrow> q_mem q p;
          Some (P_leave, q\<lparr>q_mem := (q_mem q)(p \<mapsto> n\<lparr>qn_next := Some a\<rparr>)\<rparr>) }"
| "push_step m P_leave q = Some (P_done 0, q\<lparr>q_in_flight := q_in_flight q - 1\<rparr>)"
| "push_step m P_back q = Some (P_done (- 1), q\<lparr>q_in_flight := q_in_flight q - 1\<rparr>)"
| "push_step m (P_done rc) q = Some (P_done rc, q)"

section \<open>Pop\<close>

text \<open>\<^verbatim>\<open>queue_pop_impl\<close> in two steps: the load of the link, and the rest.\<close>

definition pop_load :: "cmq_queue \<Rightarrow> (addr \<times> addr) option option" where
  "pop_load q =
     (case q_head q of
        None \<Rightarrow> Some None
      | Some h \<Rightarrow> do { n \<leftarrow> q_mem q h; Some (map_option (Pair h) (qn_next n)) })"

definition pop_take :: "addr \<Rightarrow> addr \<Rightarrow> cmq_queue \<Rightarrow> (nat option \<times> cmq_queue) option" where
  "pop_take h n q =
     do { x \<leftarrow> q_mem q n;
          _ \<leftarrow> q_mem q h;
          Some (qn_data x, q\<lparr>q_head := Some n, q_mem := (q_mem q)(h := None)\<rparr>) }"

definition queue_pop_impl :: "cmq_queue \<Rightarrow> (nat option \<times> cmq_queue) option" where
  "queue_pop_impl q =
     do { r \<leftarrow> pop_load q;
          (case r of None \<Rightarrow> Some (None, q) | Some (h, n) \<Rightarrow> pop_take h n q) }"

datatype pop_pc = C_start | C_test | C_enter | C_retest | C_load | C_take addr addr | C_leave "nat option" | C_done "nat option"

fun pop_step :: "pop_pc \<Rightarrow> cmq_queue \<Rightarrow> (pop_pc \<times> cmq_queue) option" where
  "pop_step C_start q = Some (if q_head q = None then C_done None else C_test, q)"
| "pop_step C_test q = Some (if q_dying q then C_done None else C_enter, q)"
| "pop_step C_enter q = Some (C_retest, q\<lparr>q_in_flight := q_in_flight q + 1\<rparr>)"
| "pop_step C_retest q = Some (if q_dying q then C_leave None else C_load, q)"
| "pop_step C_load q =
     do { r \<leftarrow> pop_load q;
          Some (case r of None \<Rightarrow> C_leave None | Some (h, n) \<Rightarrow> C_take h n, q) }"
| "pop_step (C_take h n) q = do { (d, q) \<leftarrow> pop_take h n q; Some (C_leave d, q) }"
| "pop_step (C_leave d) q = Some (C_done d, q\<lparr>q_in_flight := q_in_flight q - 1\<rparr>)"
| "pop_step (C_done d) q = Some (C_done d, q)"

section \<open>Destroy\<close>

text \<open>
  The destroyer announces itself, waits until no operation is in flight or its 50 ms have passed (\<open>late\<close>), pops until the answer
  is \<^verbatim>\<open>NULL\<close>, and frees the last node.
\<close>

datatype destroy_pc = D_start | D_wait | D_drain | D_free | D_done

fun destroy_step :: "bool \<Rightarrow> destroy_pc \<Rightarrow> cmq_queue \<Rightarrow> (destroy_pc \<times> cmq_queue) option" where
  "destroy_step late D_start q = Some (D_wait, q\<lparr>q_dying := True\<rparr>)"
| "destroy_step late D_wait q = Some (if q_in_flight q > 0 \<and> \<not> late then D_wait else D_drain, q)"
| "destroy_step late D_drain q =
     do { (d, q) \<leftarrow> queue_pop_impl q;
          Some (if d = None then D_free else D_drain, q) }"
| "destroy_step late D_free q =
     (case q_head q of
        None \<Rightarrow> Some (D_done, q\<lparr>q_stub := None, q_head := None, q_tail := None\<rparr>)
      | Some h \<Rightarrow> do { _ \<leftarrow> q_mem q h;
                      Some (D_done, q\<lparr>q_mem := (q_mem q)(h := None), q_stub := None, q_head := None, q_tail := None\<rparr>) })"
| "destroy_step late D_done q = Some (D_done, q)"

section \<open>Calls without interference\<close>

text \<open>A call that runs alone makes its steps one after the other; the counts are the longest paths.\<close>

definition cmq_queue_push :: "addr option \<Rightarrow> nat option \<Rightarrow> cmq_queue \<Rightarrow> (int \<times> cmq_queue) option" where
  "cmq_queue_push m d q =
     (case ((\<lambda>r. do { (pc, q) \<leftarrow> r; push_step m pc q }) ^^ 8) (Some (P_start d, q)) of
        Some (P_done rc, q) \<Rightarrow> Some (rc, q)
      | _ \<Rightarrow> None)"

definition cmq_queue_pop :: "cmq_queue \<Rightarrow> (nat option \<times> cmq_queue) option" where
  "cmq_queue_pop q =
     (case ((\<lambda>r. do { (pc, q) \<leftarrow> r; pop_step pc q }) ^^ 7) (Some (C_start, q)) of
        Some (C_done d, q) \<Rightarrow> Some (d, q)
      | _ \<Rightarrow> None)"

section \<open>Threads\<close>

text \<open>
  Any number of producers, one consumer and one destroyer. \<open>qs_in\<close> records the data in the order in which the producers took the
  tail, \<open>qs_out\<close> what the consumer got from nodes, and \<open>qs_late\<close> whether the destroyer went on with operations in flight.
\<close>

record qsys =
  qs_q :: cmq_queue
  qs_push :: "nat \<rightharpoonup> push_pc"
  qs_pop :: pop_pc
  qs_destroy :: "destroy_pc option"
  qs_in :: "nat option list"
  qs_out :: "nat option list"
  qs_late :: bool

datatype action =
  Call_push nat "nat option" | Push nat "addr option" | Call_pop | Pop | Call_destroy | Destroy bool

fun enabled :: "qsys \<Rightarrow> action \<Rightarrow> bool" where
  "enabled s (Call_push t d) \<longleftrightarrow> (case qs_push s t of None \<Rightarrow> True | Some (P_done rc) \<Rightarrow> True | _ \<Rightarrow> False)"
| "enabled s (Push t m) \<longleftrightarrow> qs_push s t \<noteq> None \<and> (case m of None \<Rightarrow> True | Some a \<Rightarrow> q_mem (qs_q s) a = None)"
| "enabled s Call_pop \<longleftrightarrow> (case qs_pop s of C_done d \<Rightarrow> True | _ \<Rightarrow> False)"
| "enabled s Pop \<longleftrightarrow> True"
| "enabled s Call_destroy \<longleftrightarrow> qs_destroy s = None"
| "enabled s (Destroy late) \<longleftrightarrow> qs_destroy s \<noteq> None"

definition swapped :: "push_pc \<Rightarrow> cmq_queue \<Rightarrow> nat option list" where
  "swapped pc q = (case pc of P_swap a \<Rightarrow> (case q_mem q a of None \<Rightarrow> [] | Some n \<Rightarrow> [qn_data n]) | _ \<Rightarrow> [])"

definition taken :: "pop_pc \<Rightarrow> cmq_queue \<Rightarrow> nat option list" where
  "taken pc q = (case pc of C_take h n \<Rightarrow> (case q_mem q n of None \<Rightarrow> [] | Some x \<Rightarrow> [qn_data x]) | _ \<Rightarrow> [])"

fun act :: "qsys \<Rightarrow> action \<Rightarrow> qsys option" where
  "act s (Call_push t d) = Some (s\<lparr>qs_push := (qs_push s)(t \<mapsto> P_start d)\<rparr>)"
| "act s (Push t m) =
     do { pc \<leftarrow> qs_push s t;
          (pc', q) \<leftarrow> push_step m pc (qs_q s);
          Some (s\<lparr>qs_q := q, qs_push := (qs_push s)(t \<mapsto> pc'), qs_in := qs_in s @ swapped pc (qs_q s)\<rparr>) }"
| "act s Call_pop = Some (s\<lparr>qs_pop := C_start\<rparr>)"
| "act s Pop =
     do { (pc', q) \<leftarrow> pop_step (qs_pop s) (qs_q s);
          Some (s\<lparr>qs_q := q, qs_pop := pc', qs_out := qs_out s @ taken (qs_pop s) (qs_q s)\<rparr>) }"
| "act s Call_destroy = Some (s\<lparr>qs_destroy := Some D_start\<rparr>)"
| "act s (Destroy late) =
     do { pc \<leftarrow> qs_destroy s;
          (pc', q) \<leftarrow> destroy_step late pc (qs_q s);
          Some (s\<lparr>qs_q := q, qs_destroy := Some pc',
                  qs_late := qs_late s \<or> pc = D_wait \<and> pc' = D_drain \<and> q_in_flight q > 0\<rparr>) }"

definition qsys_start :: "addr option \<Rightarrow> qsys" where
  "qsys_start m = \<lparr>qs_q = cmq_queue_init m, qs_push = Map.empty, qs_pop = C_done None, qs_destroy = None,
                   qs_in = [], qs_out = [], qs_late = False\<rparr>"

inductive reach :: "qsys \<Rightarrow> bool" where
  start: "reach (qsys_start m)"
| step: "reach s \<Longrightarrow> enabled s a \<Longrightarrow> act s a = Some s' \<Longrightarrow> reach s'"

section \<open>Chains\<close>

text \<open>
  The nodes from head to tail in the order of the swaps. Two neighbours are linked, or their pair is in \<open>P\<close>: the producer of the
  second has taken the tail and has not yet stored the link.
\<close>

definition nxt :: "cmq_queue \<Rightarrow> addr \<Rightarrow> addr option" where
  "nxt q n = qn_next (the (q_mem q n))"

definition dat :: "cmq_queue \<Rightarrow> addr \<Rightarrow> nat option" where
  "dat q n = qn_data (the (q_mem q n))"

definition succs :: "addr list \<Rightarrow> (addr \<times> addr) set" where
  "succs ns = set (zip ns (tl ns))"

definition chain :: "addr list \<Rightarrow> cmq_queue \<Rightarrow> (addr \<times> addr) set \<Rightarrow> bool" where
  "chain ns q P \<longleftrightarrow>
     ns \<noteq> [] \<and> distinct ns \<and> q_head q = Some (hd ns) \<and> q_tail q = Some (last ns) \<and> set ns \<subseteq> dom (q_mem q) \<and> P \<subseteq> succs ns \<and>
     (\<forall>n m. (n, m) \<in> succs ns \<longrightarrow> nxt q n = (if (n, m) \<in> P then None else Some m)) \<and> nxt q (last ns) = None"

lemma succs_simps [simp]:
  "succs [] = {}" "succs [n] = {}" "succs (h # n # r) = insert (h, n) (succs (n # r))"
  by (auto simp: succs_def)

lemma succs_snoc: "ns \<noteq> [] \<Longrightarrow> succs (ns @ [a]) = insert (last ns, a) (succs ns)"
proof (induction ns rule: induct_list012)
  case (3 x y zs)
  then show ?case by (auto simp: insert_commute)
qed auto

lemma succs_mem: "(n, m) \<in> succs ns \<Longrightarrow> n \<in> set ns \<and> m \<in> set (tl ns)"
  by (auto simp: succs_def dest: set_zip_leftD set_zip_rightD)

lemma succs_unique:
  assumes "distinct ns" "(n, m) \<in> succs ns" "(n', m') \<in> succs ns" "n = n' \<or> m = m'"
  shows "n = n' \<and> m = m'"
  using assms
proof (induction ns rule: induct_list012)
  case (3 x y zs)
  have "(x, k) \<notin> succs (y # zs)" "(k, y) \<notin> succs (y # zs)" for k using 3(3) succs_mem [of _ _ "y # zs"] by fastforce+
  then show ?case using 3 by auto
qed auto

lemma succs_last: "distinct ns \<Longrightarrow> (last ns, m) \<notin> succs ns"
proof (induction ns rule: induct_list012)
  case (3 x y zs)
  then have "x \<noteq> last (y # zs)" by (metis distinct.simps(2) last_in_set list.distinct(1))
  then show ?case using 3 by auto
qed auto

lemma chain_alloc:
  assumes "chain ns q P" "q_mem q a = None"
  shows "chain ns (q\<lparr>q_mem := (q_mem q)(a \<mapsto> x)\<rparr>) P" "map (dat (q\<lparr>q_mem := (q_mem q)(a \<mapsto> x)\<rparr>)) ns = map (dat q) ns"
proof -
  have "a \<notin> set ns" using assms by (auto simp: chain_def)
  moreover from this assms(1) have "a \<noteq> last ns" by (auto simp: chain_def)
  ultimately show "chain ns (q\<lparr>q_mem := (q_mem q)(a \<mapsto> x)\<rparr>) P"
    using assms(1) succs_mem [of _ _ ns] unfolding chain_def nxt_def by auto
  show "map (dat (q\<lparr>q_mem := (q_mem q)(a \<mapsto> x)\<rparr>)) ns = map (dat q) ns" using \<open>a \<notin> set ns\<close> by (auto simp: dat_def)
qed

lemma chain_swap:
  assumes "chain ns q P" "a \<notin> set ns" "q_mem q a \<noteq> None" "nxt q a = None"
  shows "chain (ns @ [a]) (q\<lparr>q_tail := Some a\<rparr>) (insert (last ns, a) P)"
proof -
  have "(last ns, m) \<notin> succs ns" for m using succs_last assms(1) by (auto simp: chain_def)
  then have "(n, m) \<in> succs ns \<Longrightarrow> n \<noteq> last ns" for n m by metis
  then show ?thesis using assms unfolding chain_def nxt_def by (auto simp: succs_snoc)
qed

lemma chain_link:
  assumes "chain ns q P" "(p, a) \<in> P" "q_mem q p = Some n"
  shows "chain ns (q\<lparr>q_mem := (q_mem q)(p \<mapsto> n\<lparr>qn_next := Some a\<rparr>)\<rparr>) (P - {(p, a)})"
    "map (dat (q\<lparr>q_mem := (q_mem q)(p \<mapsto> n\<lparr>qn_next := Some a\<rparr>)\<rparr>)) ns = map (dat q) ns"
proof -
  have d: "distinct ns" and pa: "(p, a) \<in> succs ns" using assms by (auto simp: chain_def)
  then have "p \<noteq> last ns" using succs_last by blast
  moreover have "m = a" if "(p, m) \<in> succs ns" for m using succs_unique [OF d that pa] by simp
  moreover have "nxt (q\<lparr>q_mem := (q_mem q)(p \<mapsto> n\<lparr>qn_next := Some a\<rparr>)\<rparr>) k = (if k = p then Some a else nxt q k)" for k
    by (simp add: nxt_def)
  ultimately show "chain ns (q\<lparr>q_mem := (q_mem q)(p \<mapsto> n\<lparr>qn_next := Some a\<rparr>)\<rparr>) (P - {(p, a)})"
    using assms(1,3) unfolding chain_def by (simp add: insert_absorb) blast
  show "map (dat (q\<lparr>q_mem := (q_mem q)(p \<mapsto> n\<lparr>qn_next := Some a\<rparr>)\<rparr>)) ns = map (dat q) ns" using assms(3) by (auto simp: dat_def)
qed

lemma chain_head: "chain ns q P \<Longrightarrow> q_head q = Some h \<Longrightarrow> q_mem q h \<noteq> None"
  by (cases ns) (auto simp: chain_def)

lemma chain_load:
  assumes "chain ns q P"
  shows "pop_load q = Some (case ns of h # n # r \<Rightarrow> if (h, n) \<in> P then None else Some (h, n) | _ \<Rightarrow> None)"
proof -
  from assms obtain h r where ns: "ns = h # r" by (cases ns) (auto simp: chain_def)
  from assms ns obtain x where x: "q_head q = Some h" "q_mem q h = Some x" by (auto simp: chain_def)
  with assms ns show ?thesis by (cases r) (auto simp: chain_def pop_load_def nxt_def)
qed

lemma chain_take:
  assumes "chain (h # n # r) q P" "(h, n) \<notin> P"
  obtains q' where "pop_take h n q = Some (dat q n, q')" "chain (n # r) q' P" "map (dat q') (n # r) = map (dat q) (n # r)"
    "q' = q\<lparr>q_head := Some n, q_mem := (q_mem q)(h := None)\<rparr>"
proof
  let ?q = "q\<lparr>q_head := Some n, q_mem := (q_mem q)(h := None)\<rparr>"
  obtain x y where "q_mem q h = Some x" "q_mem q n = Some y" using assms(1) by (auto simp: chain_def)
  then show "pop_take h n q = Some (dat q n, ?q)" by (simp add: pop_take_def dat_def)
  have h: "h \<notin> set (n # r)" "h \<noteq> last (n # r)" using assms(1) last_in_set [of "n # r"] by (auto simp: chain_def)
  then have "(k, m) \<in> succs (n # r) \<Longrightarrow> k \<noteq> h" for k m using succs_mem [of k m "n # r"] by auto
  with assms h show "chain (n # r) ?q P" unfolding chain_def nxt_def by auto
  show "map (dat ?q) (n # r) = map (dat q) (n # r)" using h(1) by (auto simp: dat_def)
qed simp

section \<open>Invariant\<close>

fun p_active :: "push_pc \<Rightarrow> bool" where
  "p_active (P_start d) = False" | "p_active (P_test d) = False" | "p_active (P_enter d) = False" | "p_active (P_done rc) = False"
| "p_active pc = True"

fun c_active :: "pop_pc \<Rightarrow> bool" where
  "c_active C_start = False" | "c_active C_test = False" | "c_active C_enter = False" | "c_active (C_done d) = False"
| "c_active pc = True"

definition actives :: "(nat \<rightharpoonup> push_pc) \<Rightarrow> nat set" where
  "actives push = {t. \<exists>pc. push t = Some pc \<and> p_active pc}"

definition pend :: "(nat \<rightharpoonup> push_pc) \<Rightarrow> (addr \<times> addr) set" where
  "pend push = {(p, a). \<exists>t. push t = Some (P_link (Some p) a)}"

fun owned :: "push_pc \<Rightarrow> addr option" where
  "owned (P_swap a) = Some a" | "owned (P_link p a) = Some a" | "owned pc = None"

text \<open>Steps that touch nodes, and steps on the way to them.\<close>

fun p_deep :: "push_pc \<Rightarrow> bool" where
  "p_deep (P_alloc d) = True" | "p_deep (P_swap a) = True" | "p_deep (P_link p a) = True" | "p_deep pc = False"

fun c_deep :: "pop_pc \<Rightarrow> bool" where
  "c_deep C_load = True" | "c_deep (C_take h n) = True" | "c_deep pc = False"

fun p_near :: "push_pc \<Rightarrow> bool" where
  "p_near (P_test d) = True" | "p_near (P_enter d) = True" | "p_near (P_retest d) = True" | "p_near pc = False"

fun c_near :: "pop_pc \<Rightarrow> bool" where
  "c_near C_test = True" | "c_near C_enter = True" | "c_near C_retest = True" | "c_near pc = False"

definition quiet :: "(nat \<rightharpoonup> push_pc) \<Rightarrow> pop_pc \<Rightarrow> bool" where
  "quiet push pop \<longleftrightarrow> (\<forall>t pc. push t = Some pc \<longrightarrow> \<not> p_deep pc) \<and> \<not> c_deep pop"

definition cold :: "(nat \<rightharpoonup> push_pc) \<Rightarrow> pop_pc \<Rightarrow> bool" where
  "cold push pop \<longleftrightarrow> (\<forall>t pc. push t = Some pc \<longrightarrow> \<not> p_near pc) \<and> \<not> c_near pop"

definition threads_ok :: "addr list \<Rightarrow> cmq_queue \<Rightarrow> (nat \<rightharpoonup> push_pc) \<Rightarrow> bool" where
  "threads_ok ns q push \<longleftrightarrow>
     (\<forall>t a. push t = Some (P_swap a) \<longrightarrow> a \<notin> set ns \<and> q_mem q a \<noteq> None \<and> nxt q a = None) \<and>
     (\<forall>t p a. push t = Some (P_link p a) \<longrightarrow> p \<noteq> None) \<and>
     (\<forall>t t' pc pc' a. push t = Some pc \<longrightarrow> push t' = Some pc' \<longrightarrow> owned pc = Some a \<longrightarrow> owned pc' = Some a \<longrightarrow> t = t')"

definition pop_ok :: "addr list \<Rightarrow> (addr \<times> addr) set \<Rightarrow> pop_pc \<Rightarrow> bool" where
  "pop_ok ns P pop \<longleftrightarrow> (\<forall>h n. pop = C_take h n \<longrightarrow> (\<exists>r. ns = h # n # r \<and> (h, n) \<notin> P))"

definition draining :: "qsys \<Rightarrow> bool" where
  "draining s \<longleftrightarrow> qs_destroy s \<in> {Some D_drain, Some D_free, Some D_done}"

definition queue_inv :: "addr list \<Rightarrow> qsys \<Rightarrow> bool" where
  "queue_inv ns s \<longleftrightarrow>
     chain ns (qs_q s) (pend (qs_push s)) \<and> threads_ok ns (qs_q s) (qs_push s) \<and> pop_ok ns (pend (qs_push s)) (qs_pop s) \<and>
     (\<not> draining s \<longrightarrow> qs_in s = qs_out s @ map (dat (qs_q s)) (tl ns))"

definition sys_inv :: "qsys \<Rightarrow> bool" where
  "sys_inv s \<longleftrightarrow>
     finite (dom (qs_push s)) \<and> q_in_flight (qs_q s) = int (card (actives (qs_push s))) + of_bool (c_active (qs_pop s)) \<and>
     (qs_destroy s \<notin> {None, Some D_start} \<longrightarrow> q_dying (qs_q s)) \<and>
     (draining s \<longrightarrow> quiet (qs_push s) (qs_pop s)) \<and> prefix (qs_out s) (qs_in s) \<and>
     (if q_head (qs_q s) = None
      then q_tail (qs_q s) = None \<and> quiet (qs_push s) (qs_pop s) \<and> (q_dying (qs_q s) \<or> cold (qs_push s) (qs_pop s))
      else \<exists>ns. queue_inv ns s)"

lemma threads_okI:
  assumes "\<And>t a. push t = Some (P_swap a) \<Longrightarrow> a \<notin> set ns \<and> q_mem q a \<noteq> None \<and> nxt q a = None"
    and "\<And>t p a. push t = Some (P_link p a) \<Longrightarrow> p \<noteq> None"
    and "\<And>t t' pc pc' a. push t = Some pc \<Longrightarrow> push t' = Some pc' \<Longrightarrow> owned pc = Some a \<Longrightarrow> owned pc' = Some a \<Longrightarrow> t = t'"
  shows "threads_ok ns q push"
  unfolding threads_ok_def using assms by blast

lemma threads_okD:
  assumes "threads_ok ns q push"
  shows "push t = Some (P_swap a) \<Longrightarrow> a \<notin> set ns" "push t = Some (P_swap a) \<Longrightarrow> q_mem q a \<noteq> None"
    "push t = Some (P_swap a) \<Longrightarrow> nxt q a = None" "push t = Some (P_link p a) \<Longrightarrow> p \<noteq> None"
    "push t = Some pc \<Longrightarrow> push t' = Some pc' \<Longrightarrow> owned pc = Some a \<Longrightarrow> owned pc' = Some a \<Longrightarrow> t = t'"
  using assms unfolding threads_ok_def by blast+

lemma sys_invI:
  assumes "finite (dom (qs_push s))" "q_in_flight (qs_q s) = int (card (actives (qs_push s))) + of_bool (c_active (qs_pop s))"
    and "qs_destroy s \<notin> {None, Some D_start} \<Longrightarrow> q_dying (qs_q s)" "draining s \<Longrightarrow> quiet (qs_push s) (qs_pop s)"
    and "prefix (qs_out s) (qs_in s)"
    and "q_head (qs_q s) = None \<Longrightarrow> q_tail (qs_q s) = None" "q_head (qs_q s) = None \<Longrightarrow> quiet (qs_push s) (qs_pop s)"
    and "q_head (qs_q s) = None \<Longrightarrow> \<not> q_dying (qs_q s) \<Longrightarrow> cold (qs_push s) (qs_pop s)"
    and "q_head (qs_q s) \<noteq> None \<Longrightarrow> \<exists>ns. queue_inv ns s"
  shows "sys_inv s"
  unfolding sys_inv_def using assms by auto

lemma sys_invD:
  assumes "sys_inv s"
  shows "finite (dom (qs_push s))" "q_in_flight (qs_q s) = int (card (actives (qs_push s))) + of_bool (c_active (qs_pop s))"
    and "qs_destroy s \<notin> {None, Some D_start} \<Longrightarrow> q_dying (qs_q s)" "draining s \<Longrightarrow> quiet (qs_push s) (qs_pop s)"
    and "prefix (qs_out s) (qs_in s)"
    and "q_head (qs_q s) = None \<Longrightarrow> q_tail (qs_q s) = None" "q_head (qs_q s) = None \<Longrightarrow> quiet (qs_push s) (qs_pop s)"
    and "q_head (qs_q s) = None \<Longrightarrow> \<not> q_dying (qs_q s) \<Longrightarrow> cold (qs_push s) (qs_pop s)"
    and "q_head (qs_q s) \<noteq> None \<Longrightarrow> \<exists>ns. queue_inv ns s"
  using assms unfolding sys_inv_def by (auto split: if_splits)

lemma draining_simps [simp]:
  "draining (s\<lparr>qs_q := q\<rparr>) = draining s" "draining (s\<lparr>qs_push := push\<rparr>) = draining s" "draining (s\<lparr>qs_pop := pop\<rparr>) = draining s"
  "draining (s\<lparr>qs_in := xs\<rparr>) = draining s" "draining (s\<lparr>qs_out := xs\<rparr>) = draining s"
  by (auto simp: draining_def)

lemma actives_upd [simp]:
  "actives (push(t \<mapsto> pc)) = (if p_active pc then insert t (actives push) else actives push - {t})"
  by (auto simp: actives_def split: if_splits)

lemma actives_in: "push t = Some pc \<Longrightarrow> t \<in> actives push \<longleftrightarrow> p_active pc"
  by (auto simp: actives_def)

lemma finite_actives: "finite (dom push) \<Longrightarrow> finite (actives push)"
  by (rule finite_subset [rotated]) (auto simp: actives_def)

text \<open>The count of operations in flight follows a producer through its steps.\<close>

lemma flight_upd:
  assumes "finite (dom push)" "push t = Some pc"
  shows "int (card (actives (push(t \<mapsto> pc')))) = int (card (actives push)) + of_bool (p_active pc') - of_bool (p_active pc)"
proof -
  have f: "finite (actives push)" using assms(1) by (rule finite_actives)
  have "card (actives push) > 0" if "t \<in> actives push" using that f by (auto simp: card_gt_0_iff)
  then show ?thesis using f actives_in [of push t pc] assms(2)
    by (auto simp: card_insert_if card_Diff_singleton_if insert_absorb of_nat_diff)
qed

lemma pend_other: "(\<And>p a. pc \<noteq> P_link (Some p) a) \<Longrightarrow> (\<And>p a. push t \<noteq> Some (P_link (Some p) a)) \<Longrightarrow>
  pend (push(t \<mapsto> pc)) = pend push"
  unfolding pend_def by (auto split: if_splits) (metis option.inject)

lemma pend_link: "push t = Some pc \<Longrightarrow> (\<And>p a. pc \<noteq> P_link (Some p) a) \<Longrightarrow>
  pend (push(t \<mapsto> P_link (Some p) a)) = insert (p, a) (pend push)"
  unfolding pend_def by (rule set_eqI) (auto split: if_splits, metis option.inject)

lemma pend_unlink:
  assumes "push t = Some (P_link (Some p) a)" "\<And>t' p'. push t' = Some (P_link (Some p') a) \<Longrightarrow> t' = t" "pc = P_leave"
  shows "pend (push(t \<mapsto> pc)) = pend push - {(p, a)}"
proof (rule set_eqI)
  fix x
  have "x \<in> pend (push(t \<mapsto> pc)) \<longleftrightarrow> (\<exists>t'. t' \<noteq> t \<and> push t' = Some (P_link (Some (fst x)) (snd x)))"
    using assms(3) by (cases x) (auto simp: pend_def)
  also have "\<dots> \<longleftrightarrow> x \<in> pend push \<and> x \<noteq> (p, a)"
  proof
    assume "\<exists>t'. t' \<noteq> t \<and> push t' = Some (P_link (Some (fst x)) (snd x))"
    then obtain t' where t': "t' \<noteq> t" "push t' = Some (P_link (Some (fst x)) (snd x))" by blast
    then have "snd x \<noteq> a" using assms(2) [of t' "fst x"] by metis
    then show "x \<in> pend push \<and> x \<noteq> (p, a)" using t'(2) by (cases x) (auto simp: pend_def)
  next
    assume x: "x \<in> pend push \<and> x \<noteq> (p, a)"
    then obtain t' where t': "push t' = Some (P_link (Some (fst x)) (snd x))" by (cases x) (auto simp: pend_def)
    moreover have "t' \<noteq> t" using t' x assms(1) by (cases x) auto
    ultimately show "\<exists>t'. t' \<noteq> t \<and> push t' = Some (P_link (Some (fst x)) (snd x))" by blast
  qed
  finally show "x \<in> pend (push(t \<mapsto> pc)) \<longleftrightarrow> x \<in> pend push - {(p, a)}" by simp
qed

lemma quiet_upd: "quiet push pop \<Longrightarrow> \<not> p_deep pc \<Longrightarrow> quiet (push(t \<mapsto> pc)) pop"
  by (auto simp: quiet_def)

lemma cold_upd: "cold push pop \<Longrightarrow> \<not> p_near pc \<Longrightarrow> cold (push(t \<mapsto> pc)) pop"
  by (auto simp: cold_def)

lemma threads_ok_upd: "threads_ok ns q push \<Longrightarrow> owned pc = None \<Longrightarrow> threads_ok ns q (push(t \<mapsto> pc))"
  unfolding threads_ok_def by (auto split: if_splits)

lemma queue_inv_idle:
  assumes "queue_inv ns s" "owned pc = None" "\<And>p a. qs_push s t \<noteq> Some (P_link p a)"
  shows "queue_inv ns (s\<lparr>qs_push := (qs_push s)(t \<mapsto> pc)\<rparr>)"
proof -
  have "pend ((qs_push s)(t \<mapsto> pc)) = pend (qs_push s)" using assms(2,3) by (intro pend_other) auto
  then show ?thesis using assms(1,2) by (auto simp: queue_inv_def draining_def threads_ok_upd)
qed

section \<open>Steps of producers\<close>

lemma queue_inv_flight:
  assumes "queue_inv ns s" "qs_q s' = (qs_q s)\<lparr>q_in_flight := k\<rparr>" "qs_push s' = qs_push s" "qs_pop s' = qs_pop s"
    "draining s' = draining s" "qs_in s' = qs_in s" "qs_out s' = qs_out s"
  shows "queue_inv ns s'"
proof -
  have "nxt ((qs_q s)\<lparr>q_in_flight := k\<rparr>) = nxt (qs_q s)" "dat ((qs_q s)\<lparr>q_in_flight := k\<rparr>) = dat (qs_q s)"
    by (auto simp: nxt_def dat_def)
  with assms show ?thesis by (simp add: queue_inv_def chain_def threads_ok_def)
qed

lemma push_idle:
  assumes inv: "sys_inv s" and pc: "qs_push s t = Some pc" "owned pc = None" "owned pc' = None"
    and deep: "p_deep pc' \<Longrightarrow> \<not> draining s \<and> q_head (qs_q s) \<noteq> None"
    and near: "p_near pc' \<Longrightarrow> q_head (qs_q s) = None \<Longrightarrow> \<not> q_dying (qs_q s) \<Longrightarrow> p_near pc"
    and q: "q = (qs_q s)\<lparr>q_in_flight := q_in_flight (qs_q s) + of_bool (p_active pc') - of_bool (p_active pc)\<rparr>"
  shows "sys_inv (s\<lparr>qs_q := q, qs_push := (qs_push s)(t \<mapsto> pc')\<rparr>)" (is "sys_inv ?s")
proof (rule sys_invI)
  note D = sys_invD [OF inv]
  show "finite (dom (qs_push ?s))" using D(1) by simp
  show "q_in_flight (qs_q ?s) = int (card (actives (qs_push ?s))) + of_bool (c_active (qs_pop ?s))"
    using D(2) flight_upd [OF D(1) pc(1), of pc'] q by simp
  show "draining ?s \<Longrightarrow> quiet (qs_push ?s) (qs_pop ?s)" using D(4) deep by (auto intro!: quiet_upd)
  show "q_head (qs_q ?s) = None \<Longrightarrow> quiet (qs_push ?s) (qs_pop ?s)" using D(7) deep q by (auto intro!: quiet_upd)
  show "q_head (qs_q ?s) = None \<Longrightarrow> \<not> q_dying (qs_q ?s) \<Longrightarrow> cold (qs_push ?s) (qs_pop ?s)"
    using D(8) near pc(1) q by (auto simp: cold_def)
  show "\<exists>ns. queue_inv ns ?s" if "q_head (qs_q ?s) \<noteq> None"
  proof -
    from that D(9) q obtain ns where "queue_inv ns s" by auto
    then have "queue_inv ns (s\<lparr>qs_push := (qs_push s)(t \<mapsto> pc')\<rparr>)" using pc by (intro queue_inv_idle) auto
    then have "queue_inv ns ?s" by (rule queue_inv_flight) (simp_all add: q)
    then show ?thesis ..
  qed
qed (use sys_invD [OF inv] q in auto)

lemma deep_chain:
  assumes "sys_inv s" "qs_push s t = Some pc" "p_deep pc"
  obtains ns where "queue_inv ns s" "\<not> draining s" "q_head (qs_q s) \<noteq> None"
  using assms unfolding sys_inv_def quiet_def by (auto split: if_splits)

text \<open>A step of a producer that changes nodes or links, and keeps a chain.\<close>

lemma push_deep:
  assumes inv: "sys_inv s" and pc: "qs_push s t = Some pc" "p_active pc = p_active pc'" and nd: "\<not> draining s"
    and q: "q_head q = q_head (qs_q s)" "q_head q \<noteq> None" "q_dying q = q_dying (qs_q s)" "q_in_flight q = q_in_flight (qs_q s)"
    and chain: "queue_inv ns (s\<lparr>qs_q := q, qs_push := (qs_push s)(t \<mapsto> pc'), qs_in := ins\<rparr>)"
  shows "sys_inv (s\<lparr>qs_q := q, qs_push := (qs_push s)(t \<mapsto> pc'), qs_in := ins\<rparr>)"
proof -
  have fin: "finite (dom (qs_push s))" using inv by (simp add: sys_inv_def)
  have "prefix (qs_out s) ins" using chain nd by (auto simp: queue_inv_def)
  then show ?thesis
    using sys_invD(1-3) [OF inv] nd q chain flight_upd [OF fin pc(1), of pc'] pc(2) by (intro sys_invI) auto
qed

lemma alloc_queue_inv:
  assumes inv: "queue_inv ns s" and pc: "qs_push s t = Some (P_alloc d)" and a: "q_mem (qs_q s) a = None" and nd: "\<not> draining s"
  shows "queue_inv ns (s\<lparr>qs_q := (qs_q s)\<lparr>q_mem := (q_mem (qs_q s))(a \<mapsto> \<lparr>qn_data = d, qn_next = None\<rparr>)\<rparr>,
                         qs_push := (qs_push s)(t \<mapsto> P_swap a), qs_in := qs_in s @ []\<rparr>)"
proof -
  let ?q = "(qs_q s)\<lparr>q_mem := (q_mem (qs_q s))(a \<mapsto> \<lparr>qn_data = d, qn_next = None\<rparr>)\<rparr>"
  let ?push = "(qs_push s)(t \<mapsto> P_swap a)"
  have ch: "chain ns (qs_q s) (pend (qs_push s))" and th: "threads_ok ns (qs_q s) (qs_push s)" using inv by (auto simp: queue_inv_def)
  have p: "pend ?push = pend (qs_push s)" using pc by (intro pend_other) auto
  have new: "a \<notin> set ns" using ch a by (auto simp: chain_def)
  have unowned: "owned pc \<noteq> Some a" if "qs_push s t' = Some pc" for t' pc
  proof (cases pc)
    case (P_link p b)
    with that th have "p \<noteq> None" by (auto dest: threads_okD(4))
    with that P_link obtain p' where "qs_push s t' = Some (P_link (Some p') b)" by auto
    then have "(p', b) \<in> pend (qs_push s)" by (auto simp: pend_def)
    then have "b \<in> set (tl ns)" using ch succs_mem [of p' b ns] by (auto simp: chain_def)
    then show ?thesis using new P_link by (auto dest: set_tlD)
  next
    case (P_swap b)
    then show ?thesis using that threads_okD(2) [OF th, of t' b] a by auto
  qed auto
  have "threads_ok ns ?q ?push"
  proof (rule threads_okI)
    show "b \<notin> set ns \<and> q_mem ?q b \<noteq> None \<and> nxt ?q b = None" if "?push k = Some (P_swap b)" for k b
      using that new threads_okD(1-3) [OF th, of k b] by (auto simp: nxt_def split: if_splits)
    show "p \<noteq> None" if "?push k = Some (P_link p b)" for k p b using that threads_okD(4) [OF th, of k p b] by (auto split: if_splits)
    show "k = k'" if "?push k = Some pc1" "?push k' = Some pc2" "owned pc1 = Some b" "owned pc2 = Some b" for k k' pc1 pc2 b
      using that unowned threads_okD(5) [OF th, of k pc1 k' pc2 b] by (auto split: if_splits)
  qed
  moreover have "map (dat ?q) (tl ns) = map (dat (qs_q s)) (tl ns)" using chain_alloc(2) [OF ch a] by (auto dest: set_tlD)
  ultimately show ?thesis using inv chain_alloc(1) [OF ch a] p by (auto simp: queue_inv_def draining_def)
qed

lemma swap_queue_inv:
  assumes inv: "queue_inv ns s" and pc: "qs_push s t = Some (P_swap a)" and nd: "\<not> draining s"
  shows "queue_inv (ns @ [a]) (s\<lparr>qs_q := (qs_q s)\<lparr>q_tail := Some a\<rparr>, qs_push := (qs_push s)(t \<mapsto> P_link (q_tail (qs_q s)) a),
                                 qs_in := qs_in s @ swapped (P_swap a) (qs_q s)\<rparr>)"
proof -
  let ?q = "(qs_q s)\<lparr>q_tail := Some a\<rparr>" and ?push = "(qs_push s)(t \<mapsto> P_link (Some (last ns)) a)"
  have ch: "chain ns (qs_q s) (pend (qs_push s))" and th: "threads_ok ns (qs_q s) (qs_push s)" using inv by (auto simp: queue_inv_def)
  note at = threads_okD(1-3) [OF th pc]
  have tl: "q_tail (qs_q s) = Some (last ns)" "ns \<noteq> []" using ch by (auto simp: chain_def)
  have p: "pend ?push = insert (last ns, a) (pend (qs_push s))"
    using pend_link [of "qs_push s" t "P_swap a"] pc by simp
  have "threads_ok (ns @ [a]) ?q ?push"
  proof (rule threads_okI)
    show "b \<notin> set (ns @ [a]) \<and> q_mem ?q b \<noteq> None \<and> nxt ?q b = None" if "?push k = Some (P_swap b)" for k b
      using that threads_okD(1-3) [OF th, of k b] threads_okD(5) [OF th, of k "P_swap b" t "P_swap a" a] pc
      by (auto simp: nxt_def split: if_splits)
    show "p \<noteq> None" if "?push k = Some (P_link p b)" for k p b
      using that threads_okD(4) [OF th, of k p b] by (cases "k = t") auto
    show "k = k'" if "?push k = Some pc1" "?push k' = Some pc2" "owned pc1 = Some b" "owned pc2 = Some b" for k k' pc1 pc2 b
    proof -
      have "\<exists>pc0. qs_push s j = Some pc0 \<and> owned pc0 = owned pcj" if "?push j = Some pcj" for j pcj
        using that pc by (cases "j = t") auto
      with that threads_okD(5) [OF th] show ?thesis by metis
    qed
  qed
  moreover have "dat ?q = dat (qs_q s)" by (auto simp: dat_def)
  moreover have "swapped (P_swap a) (qs_q s) = [dat (qs_q s) a]" using at(2) by (auto simp: swapped_def dat_def)
  moreover have "ns \<noteq> h # a # r" for h r using at(1) by auto
  ultimately show ?thesis
    using inv nd chain_swap [OF ch at] tl(2) p unfolding tl(1) by (auto simp: queue_inv_def pop_ok_def)
qed

lemma link_queue_inv:
  assumes inv: "queue_inv ns s" and pc: "qs_push s t = Some (P_link (Some p) a)" and n: "q_mem (qs_q s) p = Some n" and nd: "\<not> draining s"
  shows "queue_inv ns (s\<lparr>qs_q := (qs_q s)\<lparr>q_mem := (q_mem (qs_q s))(p \<mapsto> n\<lparr>qn_next := Some a\<rparr>)\<rparr>,
                         qs_push := (qs_push s)(t \<mapsto> P_leave), qs_in := qs_in s @ []\<rparr>)"
proof -
  let ?q = "(qs_q s)\<lparr>q_mem := (q_mem (qs_q s))(p \<mapsto> n\<lparr>qn_next := Some a\<rparr>)\<rparr>" and ?push = "(qs_push s)(t \<mapsto> P_leave)"
  have ch: "chain ns (qs_q s) (pend (qs_push s))" and th: "threads_ok ns (qs_q s) (qs_push s)" using inv by (auto simp: queue_inv_def)
  have pa: "(p, a) \<in> pend (qs_push s)" using pc by (auto simp: pend_def)
  then have in_ns: "p \<in> set ns" using ch succs_mem [of p a ns] by (auto simp: chain_def)
  have "t' = t" if "qs_push s t' = Some (P_link (Some p') a)" for t' p' using threads_okD(5) [OF th that pc] by simp
  then have p: "pend ?push = pend (qs_push s) - {(p, a)}"
    using pend_unlink [of "qs_push s" t p a P_leave] pc by blast
  have "threads_ok ns ?q ?push"
  proof (rule threads_okI)
    show "b \<notin> set ns \<and> q_mem ?q b \<noteq> None \<and> nxt ?q b = None" if "?push k = Some (P_swap b)" for k b
      using that in_ns threads_okD(1-3) [OF th, of k b] by (auto simp: nxt_def split: if_splits)
    show "p \<noteq> None" if "?push k = Some (P_link p b)" for k p b using that threads_okD(4) [OF th, of k p b] by (auto split: if_splits)
    show "k = k'" if "?push k = Some pc1" "?push k' = Some pc2" "owned pc1 = Some b" "owned pc2 = Some b" for k k' pc1 pc2 b
      using that threads_okD(5) [OF th, of k pc1 k' pc2 b] by (auto split: if_splits)
  qed
  moreover have "map (dat ?q) (tl ns) = map (dat (qs_q s)) (tl ns)" using chain_link(2) [OF ch pa n] by (auto dest: set_tlD)
  ultimately show ?thesis using inv nd chain_link(1) [OF ch pa n] p by (auto simp: queue_inv_def pop_ok_def)
qed

lemma push_act:
  assumes inv: "sys_inv s" and pc: "qs_push s t = Some pc" and m: "\<And>a. m = Some a \<Longrightarrow> q_mem (qs_q s) a = None"
  shows "\<exists>s'. act s (Push t m) = Some s' \<and> sys_inv s'"
proof -
  note D = sys_invD [OF inv]
  have idle: ?thesis
    if step: "push_step m pc (qs_q s) = Some (pc', q)"
      and "owned pc = None" "owned pc' = None" "p_deep pc' \<Longrightarrow> \<not> draining s \<and> q_head (qs_q s) \<noteq> None"
      "p_near pc' \<Longrightarrow> q_head (qs_q s) = None \<Longrightarrow> \<not> q_dying (qs_q s) \<Longrightarrow> p_near pc"
      "q = (qs_q s)\<lparr>q_in_flight := q_in_flight (qs_q s) + of_bool (p_active pc') - of_bool (p_active pc)\<rparr>" for pc' q
  proof -
    have "swapped pc (qs_q s) = []" using that(2) by (auto simp: swapped_def split: push_pc.split)
    then have "act s (Push t m) = Some (s\<lparr>qs_q := q, qs_push := (qs_push s)(t \<mapsto> pc')\<rparr>)" using step pc by simp
    then show ?thesis using push_idle [OF inv pc that(2-)] by blast
  qed
  show ?thesis
  proof (cases pc)
    case (P_start d)
    then show ?thesis using D(6) by (intro idle [of "if q_tail (qs_q s) = None then P_done (- 1) else P_test d" "qs_q s"]) (auto split: if_splits)
  next
    case (P_test d)
    then show ?thesis by (intro idle [of "if q_dying (qs_q s) then P_done (- 1) else P_enter d" "qs_q s"]) (auto split: if_splits)
  next
    case (P_enter d)
    then show ?thesis by (intro idle [of "P_retest d" "(qs_q s)\<lparr>q_in_flight := q_in_flight (qs_q s) + 1\<rparr>"]) auto
  next
    case (P_retest d)
    have "q_dying (qs_q s)" if "draining s \<or> q_head (qs_q s) = None"
    proof (rule ccontr)
      assume nd: "\<not> q_dying (qs_q s)"
      then have "q_head (qs_q s) = None" using that D(3) by (auto simp: draining_def)
      then show False using D(8) nd pc P_retest unfolding cold_def by (metis p_near.simps(3))
    qed
    then show ?thesis using P_retest by (intro idle [of "if q_dying (qs_q s) then P_back else P_alloc d" "qs_q s"]) (auto split: if_splits)
  next
    case P_leave
    then show ?thesis by (intro idle [of "P_done 0" "(qs_q s)\<lparr>q_in_flight := q_in_flight (qs_q s) - 1\<rparr>"]) auto
  next
    case P_back
    then show ?thesis by (intro idle [of "P_done (- 1)" "(qs_q s)\<lparr>q_in_flight := q_in_flight (qs_q s) - 1\<rparr>"]) auto
  next
    case (P_done rc)
    then show ?thesis by (intro idle [of "P_done rc" "qs_q s"]) auto
  next
    case (P_alloc d)
    obtain ns where ns: "queue_inv ns s" "\<not> draining s" "q_head (qs_q s) \<noteq> None" using deep_chain [OF inv pc] P_alloc by auto
    show ?thesis
    proof (cases m)
      case (Some a)
      from push_deep [OF inv pc _ ns(2) _ _ _ _ alloc_queue_inv [OF ns(1) _ m [OF Some] ns(2)]] pc P_alloc Some ns(3)
      show ?thesis by (simp add: swapped_def)
    qed (use P_alloc in \<open>intro idle [of P_back "qs_q s"], auto\<close>)
  next
    case (P_swap a)
    obtain ns where ns: "queue_inv ns s" "\<not> draining s" "q_head (qs_q s) \<noteq> None" using deep_chain [OF inv pc] P_swap by auto
    from push_deep [OF inv pc _ ns(2) _ _ _ _ swap_queue_inv [OF ns(1) _ ns(2)]] pc P_swap ns(3) show ?thesis by simp
  next
    case (P_link prev a)
    obtain ns where ns: "queue_inv ns s" "\<not> draining s" "q_head (qs_q s) \<noteq> None" using deep_chain [OF inv pc] P_link by auto
    then have "prev \<noteq> None" using pc P_link threads_okD(4) by (auto simp: queue_inv_def)
    then obtain p where p: "prev = Some p" by auto
    then have "(p, a) \<in> pend (qs_push s)" using pc P_link by (auto simp: pend_def)
    then have "p \<in> dom (q_mem (qs_q s))" using ns(1) succs_mem [of p a ns] by (auto simp: queue_inv_def chain_def)
    then obtain n where n: "q_mem (qs_q s) p = Some n" by auto
    from push_deep [OF inv pc _ ns(2) _ _ _ _ link_queue_inv [OF ns(1) _ n ns(2)]] pc P_link p n ns(3)
    show ?thesis by (simp add: swapped_def)
  qed
qed

section \<open>Steps of the consumer\<close>

lemma pop_idle:
  assumes inv: "sys_inv s" and pop: "\<not> c_deep pop" "c_near pop \<Longrightarrow> q_head (qs_q s) = None \<Longrightarrow> \<not> q_dying (qs_q s) \<Longrightarrow> c_near (qs_pop s)"
    and q: "q = (qs_q s)\<lparr>q_in_flight := q_in_flight (qs_q s) + of_bool (c_active pop) - of_bool (c_active (qs_pop s))\<rparr>"
  shows "sys_inv (s\<lparr>qs_q := q, qs_pop := pop\<rparr>)" (is "sys_inv ?s")
proof (rule sys_invI)
  note D = sys_invD [OF inv]
  show "q_in_flight (qs_q ?s) = int (card (actives (qs_push ?s))) + of_bool (c_active (qs_pop ?s))" using D(2) q by simp
  show "draining ?s \<Longrightarrow> quiet (qs_push ?s) (qs_pop ?s)" using D(4) pop by (auto simp: quiet_def)
  show "q_head (qs_q ?s) = None \<Longrightarrow> quiet (qs_push ?s) (qs_pop ?s)" using D(7) pop q by (auto simp: quiet_def)
  show "q_head (qs_q ?s) = None \<Longrightarrow> \<not> q_dying (qs_q ?s) \<Longrightarrow> cold (qs_push ?s) (qs_pop ?s)"
    using D(8) pop q by (auto simp: cold_def)
  show "\<exists>ns. queue_inv ns ?s" if "q_head (qs_q ?s) \<noteq> None"
  proof -
    from that D(9) q obtain ns where "queue_inv ns s" by auto
    then have "queue_inv ns (s\<lparr>qs_pop := pop\<rparr>)" using pop(1) by (auto simp: queue_inv_def pop_ok_def)
    then have "queue_inv ns ?s" by (rule queue_inv_flight) (simp_all add: q)
    then show ?thesis ..
  qed
qed (use sys_invD [OF inv] q in auto)

text \<open>A step of the consumer at the nodes.\<close>

lemma pop_deep:
  assumes inv: "sys_inv s" and act: "c_active pop = c_active (qs_pop s)" and nd: "\<not> draining s"
    and q: "q_head q \<noteq> None" "q_dying q = q_dying (qs_q s)" "q_in_flight q = q_in_flight (qs_q s)"
    and chain: "queue_inv ns (s\<lparr>qs_q := q, qs_pop := pop, qs_out := outs\<rparr>)"
  shows "sys_inv (s\<lparr>qs_q := q, qs_pop := pop, qs_out := outs\<rparr>)"
proof -
  have "prefix outs (qs_in s)" using chain nd by (auto simp: queue_inv_def)
  then show ?thesis using sys_invD(1-3) [OF inv] act nd q chain by (intro sys_invI) auto
qed

lemma take_queue_inv:
  assumes inv: "queue_inv ns s" and pc: "qs_pop s = C_take h n" and nd: "\<not> draining s"
  obtains q r where "pop_take h n (qs_q s) = Some (dat (qs_q s) n, q)" "q_head q = Some n" "q_dying q = q_dying (qs_q s)"
    "q_in_flight q = q_in_flight (qs_q s)"
    "queue_inv (n # r) (s\<lparr>qs_q := q, qs_pop := C_leave (dat (qs_q s) n), qs_out := qs_out s @ taken (qs_pop s) (qs_q s)\<rparr>)"
proof -
  let ?P = "pend (qs_push s)"
  have ch: "chain ns (qs_q s) ?P" and th: "threads_ok ns (qs_q s) (qs_push s)" using inv by (auto simp: queue_inv_def)
  from inv pc obtain r where ns: "ns = h # n # r" "(h, n) \<notin> ?P" by (auto simp: queue_inv_def pop_ok_def)
  from chain_take [OF ch [unfolded ns(1)] ns(2)] obtain q where q: "pop_take h n (qs_q s) = Some (dat (qs_q s) n, q)" "chain (n # r) q ?P"
    "map (dat q) (n # r) = map (dat (qs_q s)) (n # r)" "q = (qs_q s)\<lparr>q_head := Some n, q_mem := (q_mem (qs_q s))(h := None)\<rparr>" by metis
  have "threads_ok (n # r) q (qs_push s)"
  proof (rule threads_okI)
    show "b \<notin> set (n # r) \<and> q_mem q b \<noteq> None \<and> nxt q b = None" if "qs_push s k = Some (P_swap b)" for k b
      using threads_okD(1-3) [OF th that] ns(1) q(4) by (auto simp: nxt_def)
  qed (use th in \<open>auto dest: threads_okD\<close>)
  moreover have "taken (qs_pop s) (qs_q s) = [dat (qs_q s) n]"
    using ch ns(1) pc by (auto simp: taken_def dat_def chain_def)
  ultimately have "queue_inv (n # r) (s\<lparr>qs_q := q, qs_pop := C_leave (dat (qs_q s) n), qs_out := qs_out s @ taken (qs_pop s) (qs_q s)\<rparr>)"
    using inv nd q(2,3) ns(1) by (auto simp: queue_inv_def pop_ok_def)
  with q(1,4) that show thesis by auto
qed

lemma pop_act:
  assumes inv: "sys_inv s"
  shows "\<exists>s'. act s Pop = Some s' \<and> sys_inv s'"
proof -
  note D = sys_invD [OF inv]
  have idle: ?thesis
    if step: "pop_step (qs_pop s) (qs_q s) = Some (pop, q)" "\<And>h n. qs_pop s \<noteq> C_take h n"
      and "\<not> c_deep pop" "c_near pop \<Longrightarrow> q_head (qs_q s) = None \<Longrightarrow> \<not> q_dying (qs_q s) \<Longrightarrow> c_near (qs_pop s)"
      "q = (qs_q s)\<lparr>q_in_flight := q_in_flight (qs_q s) + of_bool (c_active pop) - of_bool (c_active (qs_pop s))\<rparr>" for pop q
  proof -
    have "taken (qs_pop s) (qs_q s) = []" using that(2) by (auto simp: taken_def split: pop_pc.split)
    then have "act s Pop = Some (s\<lparr>qs_q := q, qs_pop := pop\<rparr>)" using step by simp
    then show ?thesis using pop_idle [OF inv that(3-)] by blast
  qed
  have chained: "\<exists>ns. queue_inv ns s \<and> \<not> draining s \<and> q_head (qs_q s) \<noteq> None" if "c_deep (qs_pop s)"
    using that D(4,7,9) by (auto simp: quiet_def)
  show ?thesis
  proof (cases "qs_pop s")
    case C_start
    then show ?thesis using D(6)
      by (intro idle [of "if q_head (qs_q s) = None then C_done None else C_test" "qs_q s"]) (auto split: if_splits)
  next
    case C_test
    then show ?thesis by (intro idle [of "if q_dying (qs_q s) then C_done None else C_enter" "qs_q s"]) (auto split: if_splits)
  next
    case C_enter
    then show ?thesis by (intro idle [of C_retest "(qs_q s)\<lparr>q_in_flight := q_in_flight (qs_q s) + 1\<rparr>"]) auto
  next
    case C_retest
    show ?thesis
    proof (cases "q_dying (qs_q s)")
      case True
      then show ?thesis using C_retest by (intro idle [of "C_leave None" "qs_q s"]) auto
    next
      case False
      then have h: "q_head (qs_q s) \<noteq> None" "\<not> draining s" using C_retest D(3,8) by (auto simp: cold_def draining_def)
      then obtain ns where "queue_inv ns s" using D(9) by blast
      then have "queue_inv ns (s\<lparr>qs_q := qs_q s, qs_pop := C_load, qs_out := qs_out s\<rparr>)" by (simp add: queue_inv_def pop_ok_def)
      from pop_deep [OF inv _ h(2) h(1) _ _ this] False C_retest show ?thesis by (simp add: taken_def)
    qed
  next
    case C_load
    with chained obtain ns where ns: "queue_inv ns s" "\<not> draining s" "q_head (qs_q s) \<noteq> None" by auto
    then have "chain ns (qs_q s) (pend (qs_push s))" by (simp add: queue_inv_def)
    note load = chain_load [OF this]
    define pop where "pop = (case ns of h # n # r \<Rightarrow> if (h, n) \<in> pend (qs_push s) then C_leave None else C_take h n | _ \<Rightarrow> C_leave None)"
    have step: "act s Pop = Some (s\<lparr>qs_q := qs_q s, qs_pop := pop, qs_out := qs_out s\<rparr>)"
      using C_load load by (auto simp: taken_def pop_def split: list.split)
    have chain: "queue_inv ns (s\<lparr>qs_q := qs_q s, qs_pop := pop, qs_out := qs_out s\<rparr>)"
      using ns(1) by (auto simp: queue_inv_def pop_ok_def pop_def split: list.splits if_splits)
    have "c_active pop = c_active (qs_pop s)" using C_load by (auto simp: pop_def split: list.split)
    from pop_deep [OF inv this ns(2,3) _ _ chain] step show ?thesis by blast
  next
    case (C_take h n)
    with chained obtain ns where ns: "queue_inv ns s" "\<not> draining s" "q_head (qs_q s) \<noteq> None" by auto
    from take_queue_inv [OF ns(1) C_take ns(2)] obtain q r where q: "pop_take h n (qs_q s) = Some (dat (qs_q s) n, q)"
      "q_head q = Some n" "q_dying q = q_dying (qs_q s)" "q_in_flight q = q_in_flight (qs_q s)"
      "queue_inv (n # r) (s\<lparr>qs_q := q, qs_pop := C_leave (dat (qs_q s) n), qs_out := qs_out s @ taken (qs_pop s) (qs_q s)\<rparr>)" by metis
    from pop_deep [OF inv _ ns(2) _ q(3-)] q(1,2) C_take show ?thesis by simp
  next
    case (C_leave d)
    then show ?thesis by (intro idle [of "C_done d" "(qs_q s)\<lparr>q_in_flight := q_in_flight (qs_q s) - 1\<rparr>"]) auto
  next
    case (C_done d)
    then show ?thesis by (intro idle [of "C_done d" "qs_q s"]) auto
  qed
qed

section \<open>Steps of the destroyer\<close>

lemma quiet_pend: "quiet push pop \<Longrightarrow> pend push = {}"
  by (force simp: quiet_def pend_def)

lemma quiet_queue_inv:
  assumes "draining s" "quiet (qs_push s) (qs_pop s)"
  shows "queue_inv ns s \<longleftrightarrow> chain ns (qs_q s) {}"
proof -
  have "\<not> c_deep (qs_pop s)" "\<And>t pc. qs_push s t = Some pc \<Longrightarrow> \<not> p_deep pc" using assms(2) by (auto simp: quiet_def)
  note none = this
  have deep: "p_deep pc" if "owned pc = Some a" for pc a using that by (cases pc) auto
  have "threads_ok ns (qs_q s) (qs_push s)"
  proof (rule threads_okI)
    show "t = t'" if "qs_push s t = Some pc" "owned pc = Some a" for t t' pc a using none(2) [OF that(1)] deep [OF that(2)] by simp
  qed (use none(2) in fastforce)+
  moreover have "pop_ok ns {} (qs_pop s)" using none(1) by (auto simp: pop_ok_def)
  ultimately show ?thesis using assms quiet_pend by (auto simp: queue_inv_def)
qed

text \<open>When nothing is in flight, no thread is at the nodes, and once the queue is dying none will be.\<close>

lemma flight_zero_quiet:
  assumes "sys_inv s" "q_in_flight (qs_q s) \<le> 0"
  shows "quiet (qs_push s) (qs_pop s)"
proof -
  have "card (actives (qs_push s)) = 0" "\<not> c_active (qs_pop s)"
    using sys_invD(2) [OF assms(1)] assms(2) by (cases "c_active (qs_pop s)"; simp)+
  then have "actives (qs_push s) = {}" "\<not> c_active (qs_pop s)" using finite_actives [OF sys_invD(1) [OF assms(1)]] by auto
  moreover have "p_deep pc \<Longrightarrow> p_active pc" for pc by (cases pc) auto
  moreover have "c_deep pc \<Longrightarrow> c_active pc" for pc by (cases pc) auto
  ultimately show ?thesis by (auto simp: quiet_def actives_def)
qed

lemma pop_impl_chain:
  assumes "chain ns q {}"
  obtains d q' ns' where "queue_pop_impl q = Some (d, q')" "chain ns' q' {}" "q_dying q' = q_dying q" "q_in_flight q' = q_in_flight q"
proof (cases ns rule: remdups_adj.cases)
  case (3 h n r)
  from chain_take [OF assms [unfolded 3]] obtain q' where "pop_take h n q = Some (dat q n, q')" "chain (n # r) q' {}"
    "q' = q\<lparr>q_head := Some n, q_mem := (q_mem q)(h := None)\<rparr>" by auto
  then show ?thesis using chain_load [OF assms] 3 that [of "dat q n" q' "n # r"] by (simp add: queue_pop_impl_def)
qed (use chain_load [OF assms] that assms in \<open>auto simp: queue_pop_impl_def\<close>)

lemma destroy_inv:
  assumes inv: "sys_inv s" and "q_dying q" "q_in_flight q = q_in_flight (qs_q s)"
    and quiet: "pc \<in> {D_drain, D_free, D_done} \<Longrightarrow> quiet (qs_push s) (qs_pop s)" "q_head q = None \<Longrightarrow> quiet (qs_push s) (qs_pop s)"
    and "q_head q = None \<Longrightarrow> q_tail q = None" "q_head q \<noteq> None \<Longrightarrow> \<exists>ns. queue_inv ns (s\<lparr>qs_q := q, qs_destroy := Some pc, qs_late := l\<rparr>)"
  shows "sys_inv (s\<lparr>qs_q := q, qs_destroy := Some pc, qs_late := l\<rparr>)"
  using sys_invD(1,2,5) [OF inv] assms(2-) by (intro sys_invI) (auto simp: draining_def)

lemma destroy_act:
  assumes inv: "sys_inv s" and pc: "qs_destroy s = Some pc"
  shows "\<exists>s'. act s (Destroy late) = Some s' \<and> (\<not> qs_late s' \<longrightarrow> sys_inv s')"
proof -
  note D = sys_invD [OF inv]
  have "s\<lparr>qs_destroy := Some pc\<rparr> = s" using pc by (cases s) simp
  then have same: "sys_inv (s\<lparr>qs_destroy := Some pc\<rparr>)" using inv by argo
  have chained: "\<exists>ns. queue_inv ns (s\<lparr>qs_q := q, qs_destroy := Some pc', qs_late := l\<rparr>)"
    if "chain ns q {}" "quiet (qs_push s) (qs_pop s)" "pc' \<in> {D_drain, D_free, D_done}" for ns q pc' l
    using quiet_queue_inv [of "s\<lparr>qs_q := q, qs_destroy := Some pc', qs_late := l\<rparr>" ns] that by (auto simp: draining_def)
  show ?thesis
  proof (cases pc)
    case D_start
    let ?q = "(qs_q s)\<lparr>q_dying := True\<rparr>" and ?l = "qs_late s"
    have "nxt ?q = nxt (qs_q s)" "dat ?q = dat (qs_q s)" by (auto simp: nxt_def dat_def)
    then have "queue_inv ns (s\<lparr>qs_q := ?q, qs_destroy := Some D_wait, qs_late := ?l\<rparr>) = queue_inv ns s" for ns
      using pc D_start by (simp add: queue_inv_def chain_def threads_ok_def draining_def)
    then have "sys_inv (s\<lparr>qs_q := ?q, qs_destroy := Some D_wait, qs_late := ?l\<rparr>)"
      using D(6,7,9) by (intro destroy_inv [OF inv]) auto
    then show ?thesis using pc D_start by simp
  next
    case D_wait
    show ?thesis
    proof (cases "q_in_flight (qs_q s) > 0")
      case True
      then show ?thesis using pc D_wait inv same by (cases late) auto
    next
      case False
      then have quiet: "quiet (qs_push s) (qs_pop s)" using flight_zero_quiet [OF inv] by simp
      have "\<exists>ns. queue_inv ns (s\<lparr>qs_q := qs_q s, qs_destroy := Some D_drain, qs_late := qs_late s\<rparr>)" if "q_head (qs_q s) \<noteq> None"
        using D(9) [OF that] chained [OF _ quiet, of _ "qs_q s" D_drain "qs_late s"] quiet_pend [OF quiet] by (auto simp: queue_inv_def)
      then have "sys_inv (s\<lparr>qs_q := qs_q s, qs_destroy := Some D_drain, qs_late := qs_late s\<rparr>)"
        using D(3,6) quiet pc D_wait by (intro destroy_inv [OF inv]) auto
      then show ?thesis using pc D_wait False by simp
    qed
  next
    case D_drain
    then have quiet: "quiet (qs_push s) (qs_pop s)" and dying: "q_dying (qs_q s)" using D(3,4) pc by (auto simp: draining_def)
    show ?thesis
    proof (cases "q_head (qs_q s)")
      case None
      then have "sys_inv (s\<lparr>qs_q := qs_q s, qs_destroy := Some D_free, qs_late := qs_late s\<rparr>)"
        using D(6) quiet dying by (intro destroy_inv [OF inv]) auto
      then show ?thesis using pc D_drain None by (simp add: queue_pop_impl_def pop_load_def)
    next
      case (Some h)
      then obtain ns where "chain ns (qs_q s) {}" using D(9) quiet_pend [OF quiet] by (auto simp: queue_inv_def)
      from pop_impl_chain [OF this] obtain d q' ns' where q: "queue_pop_impl (qs_q s) = Some (d, q')" "chain ns' q' {}"
        "q_dying q' = q_dying (qs_q s)" "q_in_flight q' = q_in_flight (qs_q s)" by metis
      let ?pc = "if d = None then D_free else D_drain"
      have "\<exists>ns. queue_inv ns (s\<lparr>qs_q := q', qs_destroy := Some ?pc, qs_late := qs_late s\<rparr>)"
        by (rule chained [OF q(2) quiet]) simp
      from destroy_inv [OF inv _ q(4) _ _ _ this] have "sys_inv (s\<lparr>qs_q := q', qs_destroy := Some ?pc, qs_late := qs_late s\<rparr>)"
        using q(2,3) dying quiet by (simp add: chain_def)
      then show ?thesis using pc D_drain q(1) by (simp split: if_splits)
    qed
  next
    case D_free
    then have quiet: "quiet (qs_push s) (qs_pop s)" and dying: "q_dying (qs_q s)" using D(3,4) pc by (auto simp: draining_def)
    have "q_mem (qs_q s) h \<noteq> None" if "q_head (qs_q s) = Some h" for h
      using D(9) that chain_head by (auto simp: queue_inv_def)
    moreover have "sys_inv (s\<lparr>qs_q := q, qs_destroy := Some D_done, qs_late := qs_late s\<rparr>)"
      if "q_head q = None" "q_tail q = None" "q_dying q" "q_in_flight q = q_in_flight (qs_q s)" for q
      using that quiet by (intro destroy_inv [OF inv]) auto
    ultimately show ?thesis using pc D_free dying by (cases "q_head (qs_q s)") auto
  next
    case D_done
    then show ?thesis using pc inv same by auto
  qed
qed

section \<open>Every run\<close>

lemma act_inv:
  assumes "sys_inv s" "enabled s a"
  shows "\<exists>s'. act s a = Some s' \<and> (\<not> qs_late s' \<longrightarrow> sys_inv s')"
proof (cases a)
  case (Call_push t d)
  note D = sys_invD [OF assms(1)]
  have calling: "\<And>p b. qs_push s t \<noteq> Some (P_link p b)" "t \<notin> actives (qs_push s)"
    using assms(2) Call_push by (auto simp: actives_def split: option.splits push_pc.splits)
  then have "actives ((qs_push s)(t \<mapsto> P_start d)) = actives (qs_push s)" by auto
  then have "sys_inv (s\<lparr>qs_push := (qs_push s)(t \<mapsto> P_start d)\<rparr>)"
    using D queue_inv_idle [of _ s "P_start d" t] calling(1)
    by (intro sys_invI) (auto simp: quiet_upd cold_upd)
  then show ?thesis using Call_push by simp
next
  case (Push t m)
  then show ?thesis using push_act [OF assms(1), of t _ m] assms(2) by (auto split: option.splits)
next
  case Call_pop
  then obtain d where "qs_pop s = C_done d" using assms(2) by (auto split: pop_pc.splits)
  then have "sys_inv (s\<lparr>qs_q := qs_q s, qs_pop := C_start\<rparr>)" by (intro pop_idle [OF assms(1)]) auto
  then show ?thesis using Call_pop by simp
next
  case Call_destroy
  have "queue_inv ns (s\<lparr>qs_destroy := Some D_start\<rparr>) = queue_inv ns s" for ns
    using assms(2) Call_destroy by (simp add: queue_inv_def draining_def)
  then have "sys_inv (s\<lparr>qs_destroy := Some D_start\<rparr>)"
    using sys_invD [OF assms(1)] by (intro sys_invI) (auto simp: draining_def)
  then show ?thesis using Call_destroy by simp
next
  case Pop
  then show ?thesis using pop_act [OF assms(1)] by blast
next
  case (Destroy late)
  then show ?thesis using destroy_act [OF assms(1)] assms(2) by (simp del: act.simps) blast
qed

lemma start_inv: "sys_inv (qsys_start m)"
proof (cases m)
  case (Some a)
  have "queue_inv [a] (qsys_start m)"
    by (auto simp: Some queue_inv_def qsys_start_def cmq_queue_init_def chain_def nxt_def threads_ok_def pop_ok_def pend_def)
  then show ?thesis by (intro sys_invI) (auto simp: qsys_start_def cmq_queue_init_def Some draining_def actives_def)
qed (auto intro!: sys_invI simp: qsys_start_def cmq_queue_init_def draining_def actives_def quiet_def cold_def)

lemma late_mono: "act s a = Some s' \<Longrightarrow> qs_late s \<Longrightarrow> qs_late s'"
  by (cases a) (auto split: bind_splits)

lemma reach_inv: "reach s \<Longrightarrow> \<not> qs_late s \<Longrightarrow> sys_inv s"
proof (induction rule: reach.induct)
  case (step s a s')
  then have "sys_inv s" using late_mono by blast
  from act_inv [OF this step(2)] step(3,5) show ?case by auto
qed (rule start_inv)

text \<open>A pop that runs alone, when no producer is between its swap and its link, takes the oldest data.\<close>

definition settled :: "qsys \<Rightarrow> bool" where
  "settled s \<longleftrightarrow> \<not> q_dying (qs_q s) \<and> q_head (qs_q s) \<noteq> None \<and> (\<forall>t p a. qs_push s t \<noteq> Some (P_link p a))"

lemma pop_alone:
  assumes "q_head q \<noteq> None" "\<not> q_dying q" "queue_pop_impl (q\<lparr>q_in_flight := q_in_flight q + 1\<rparr>) = Some (d, q')"
  shows "cmq_queue_pop q = Some (d, q'\<lparr>q_in_flight := q_in_flight q' - 1\<rparr>)"
proof -
  obtain h where "q_head q = Some h" using assms(1) by auto
  with assms(2,3) show ?thesis
    unfolding cmq_queue_pop_def queue_pop_impl_def by (auto simp: eval_nat_numeral split: bind_splits option.splits prod.splits)
qed

lemma settled_pop:
  assumes "sys_inv s" "settled s"
  shows "\<exists>q. cmq_queue_pop (qs_q s) = Some (case drop (length (qs_out s)) (qs_in s) of [] \<Rightarrow> None | d # ds \<Rightarrow> d, q)"
proof -
  let ?q = "(qs_q s)\<lparr>q_in_flight := q_in_flight (qs_q s) + 1\<rparr>"
  have st: "q_head (qs_q s) \<noteq> None" "\<not> q_dying (qs_q s)" "pend (qs_push s) = {}" using assms(2) by (auto simp: settled_def pend_def)
  then obtain ns where ns: "chain ns (qs_q s) {}" "qs_in s = qs_out s @ map (dat (qs_q s)) (tl ns)"
    using sys_invD(3,9) [OF assms(1)] by (auto simp: queue_inv_def draining_def)
  have eq: "nxt ?q = nxt (qs_q s)" "dat ?q = dat (qs_q s)" by (auto simp: nxt_def dat_def)
  then have ch: "chain ns ?q {}" using ns(1) by (simp add: chain_def)
  have "\<exists>q. queue_pop_impl ?q = Some (case drop (length (qs_out s)) (qs_in s) of [] \<Rightarrow> None | d # ds \<Rightarrow> d, q)"
  proof (cases ns rule: remdups_adj.cases)
    case (3 h n r)
    from chain_take [OF ch [unfolded 3]] obtain q' where "pop_take h n ?q = Some (dat ?q n, q')" by auto
    then show ?thesis using chain_load [OF ch] 3 ns(2) eq(2) by (simp add: queue_pop_impl_def)
  qed (use chain_load [OF ch] ns(2) in \<open>auto simp: queue_pop_impl_def\<close>)
  then show ?thesis using pop_alone [OF st(1,2)] by blast
qed

text \<open>C7. The queue is first in, first out, and touches no freed memory. Whatever producers, consumer and destroyer do, step by step in
  any interleaving and with allocations that fail or return addresses used before: as long as the destroyer did not stop waiting
  early, every enabled step has a result, the consumer has received a prefix of what the producers put in, in the order of their
  swaps, and a pop that meets no half-linked node returns the oldest data not yet taken, or \<^verbatim>\<open>NULL\<close> if there is none.\<close>

theorem queue_fifo:
  assumes "reach s" "\<not> qs_late s"
  shows "(enabled s a \<longrightarrow> act s a \<noteq> None) \<and> prefix (qs_out s) (qs_in s) \<and>
    (settled s \<longrightarrow> (\<exists>q. cmq_queue_pop (qs_q s) = Some (case drop (length (qs_out s)) (qs_in s) of [] \<Rightarrow> None | d # ds \<Rightarrow> d, q)))"
  using reach_inv [OF assms] act_inv [of s a] settled_pop [of s] sys_invD(5) [of s] by auto

text \<open>Sequences of actions, for examples.\<close>

fun run :: "qsys \<Rightarrow> action list \<Rightarrow> qsys option" where
  "run s [] = Some s"
| "run s (a # as) = (if enabled s a then do { s \<leftarrow> act s a; run s as } else None)"

lemma run_reach: "reach s \<Longrightarrow> run s as = Some s' \<Longrightarrow> reach s'"
proof (induction as arbitrary: s)
  case (Cons a as)
  then show ?case by (auto split: if_splits bind_splits intro: reach.step)
qed simp

lemma push_alone:
  assumes "q_tail q = Some p" "\<not> q_dying q" "q_mem q p = Some n" "q_mem q a = None"
  shows "cmq_queue_push (Some a) d q =
    Some (0, q\<lparr>q_tail := Some a, q_mem := (q_mem q)(a \<mapsto> \<lparr>qn_data = d, qn_next = None\<rparr>, p \<mapsto> n\<lparr>qn_next := Some a\<rparr>)\<rparr>)"
  using assms unfolding cmq_queue_push_def by (auto simp: eval_nat_numeral)

definition two_producers :: "action list" where
  "two_producers =
     [Call_push 1 (Some 7), Call_push 2 (Some 8)] @ replicate 4 (Push 1 None) @ replicate 4 (Push 2 None) @
     [Push 1 (Some 11), Push 2 (Some 12), Push 1 None, Push 2 None, Push 2 None, Push 1 None]"

theorem queue_fifo_witness:
  "\<exists>s. reach s \<and> \<not> qs_late s \<and> settled s \<and> qs_in s = [Some 7, Some 8] \<and> act s Pop \<noteq> None \<and>
     (\<exists>q. cmq_queue_pop (qs_q s) = Some (Some 7, q))"
proof -
  define s where "s = the (run (qsys_start (Some 10)) two_producers)"
  have r: "run (qsys_start (Some 10)) two_producers = Some s"
    by (simp add: s_def two_producers_def qsys_start_def cmq_queue_init_def eval_nat_numeral)
  have f: "\<not> qs_late s" "settled s" "qs_in s = [Some 7, Some 8]" "qs_out s = []"
    by (simp_all add: s_def two_producers_def qsys_start_def cmq_queue_init_def eval_nat_numeral settled_def swapped_def)
  have "reach s" using run_reach [OF reach.start r] .
  from queue_fifo [OF this f(1), of Pop] this f show ?thesis by (intro exI [of _ s]) (simp del: act.simps)
qed

text \<open>
  With a producer stopped between its swap and its link for longer than the destroyer waits, the destroyer frees the node whose
  link the producer then writes.
\<close>

lemma destroy_frees_in_use:
  "\<exists>s a. reach s \<and> enabled s a \<and> act s a = None"
proof -
  define as where "as = Call_push 1 (Some 7) # replicate 4 (Push 1 None) @ [Push 1 (Some 11), Push 1 None, Call_destroy, Destroy False,
    Destroy True, Destroy False, Destroy False]"
  define s where "s = the (run (qsys_start (Some 10)) as)"
  have r: "run (qsys_start (Some 10)) as = Some s"
    by (simp add: s_def as_def qsys_start_def cmq_queue_init_def eval_nat_numeral queue_pop_impl_def pop_load_def)
  have "act s (Push 1 None) = None" "enabled s (Push 1 None)"
    by (simp_all add: s_def as_def qsys_start_def cmq_queue_init_def eval_nat_numeral queue_pop_impl_def pop_load_def)
  with run_reach [OF reach.start r] show ?thesis by blast
qed

text \<open>The destroyer pops until the answer is \<^verbatim>\<open>NULL\<close>, which is also the answer for a node whose data is \<^verbatim>\<open>NULL\<close>: what is queued
  behind it stays allocated.\<close>

lemma destroy_leaks_behind_null:
  "\<exists>s. reach s \<and> qs_destroy s = Some D_done \<and> \<not> qs_late s \<and> q_mem (qs_q s) 12 \<noteq> None"
proof -
  define as where "as = Call_push 1 None # replicate 4 (Push 1 None) @ Push 1 (Some 11) # replicate 3 (Push 1 None) @
    Call_push 1 (Some 8) # replicate 4 (Push 1 None) @ Push 1 (Some 12) # replicate 3 (Push 1 None) @
    Call_destroy # replicate 4 (Destroy False)"
  define s where "s = the (run (qsys_start (Some 10)) as)"
  have r: "run (qsys_start (Some 10)) as = Some s"
    by (simp add: s_def as_def qsys_start_def cmq_queue_init_def eval_nat_numeral queue_pop_impl_def pop_load_def pop_take_def)
  have "qs_destroy s = Some D_done \<and> \<not> qs_late s \<and> q_mem (qs_q s) 12 \<noteq> None"
    by (simp add: s_def as_def qsys_start_def cmq_queue_init_def eval_nat_numeral queue_pop_impl_def pop_load_def pop_take_def)
  with run_reach [OF reach.start r] show ?thesis by blast
qed

end
