(* ===== verification/CMQ_Txn.thy ===== *)
theory CMQ_Txn
  imports CMQ_Path CMQ_Table "HOL-Library.Monad_Syntax"
begin

text \<open>
  The transaction coordinator (\<^verbatim>\<open>src/server/cmq_txn.c\<close>) and its use by the server (\<^verbatim>\<open>txn_2pc_commit\<close> and the transaction branch of
  \<^verbatim>\<open>handle_publish\<close> in \<^verbatim>\<open>src/server/cmq_server.c\<close>). Each call holds the lock and is one step. The log file is part of the state;
  how writes to it end, what publishing and forwarding to routes answer, and what happens while votes are awaited are arguments.
\<close>

section \<open>State\<close>

definition CMQ_TXN_MAGIC :: bytes where "CMQ_TXN_MAGIC = map byte_of ''CMQT''"
definition CMQ_TXN_HDR_LEN :: nat where "CMQ_TXN_HDR_LEN = 13"
definition CMQ_TXN_BEGIN :: u8 where "CMQ_TXN_BEGIN = 1"
definition CMQ_TXN_ADD :: u8 where "CMQ_TXN_ADD = 2"
definition CMQ_TXN_COMMIT :: u8 where "CMQ_TXN_COMMIT = 3"
definition CMQ_TXN_ABORT :: u8 where "CMQ_TXN_ABORT = 4"
definition CMQ_TXN_PREPARE :: u8 where "CMQ_TXN_PREPARE = 5"
definition CMQ_TXN_VOTE :: u8 where "CMQ_TXN_VOTE = 6"
definition CMQ_TXN_MAX :: nat where "CMQ_TXN_MAX = 32"
definition CMQ_TXN_OPS :: nat where "CMQ_TXN_OPS = 8"
definition CMQ_TXN_PARTS :: nat where "CMQ_TXN_PARTS = 8"
definition CMQ_TXN_SUB_MAX :: nat where "CMQ_TXN_SUB_MAX = 128"
definition CMQ_TXN_PAY_MAX :: nat where "CMQ_TXN_PAY_MAX = 1024"
definition CMQ_TXN_NODE_MAX :: nat where "CMQ_TXN_NODE_MAX = 16"
definition CMQ_TXN_VOTE_LEN :: nat where "CMQ_TXN_VOTE_LEN = 30"

record txn_op =
  op_subject :: string
  op_data :: bytes

text \<open>The counted prefixes of the arrays of operations and participants are lists; a participant is a name with its vote: 0 for none,
  1 for yes, 2 for no.\<close>

record txn_slot =
  ts_id :: u64
  ts_used :: bool
  ts_prepared :: bool
  ts_parts :: "(string \<times> nat) list"
  ts_ops :: "txn_op list"

record cmq_txn =
  tx_slots :: "txn_slot list"
  tx_done :: "u64 list"
  tx_log_path :: string
  tx_file :: "bytes option"

definition txn_slot_zero :: txn_slot where
  "txn_slot_zero = \<lparr>ts_id = 0, ts_used = False, ts_prepared = False, ts_parts = [], ts_ops = []\<rparr>"

definition txn_token_safe :: "string option \<Rightarrow> bool" where
  "txn_token_safe s = (case s of None \<Rightarrow> False | Some s \<Rightarrow> s \<noteq> [] \<and> list_all token_char s)"

definition txn_dir_safe :: "string option \<Rightarrow> bool" where
  "txn_dir_safe dir = (case dir of None \<Rightarrow> False | Some d \<Rightarrow> path_ok 512 d)"

definition txn_find :: "cmq_txn \<Rightarrow> u64 \<Rightarrow> nat option" where
  "txn_find t i = first_index (\<lambda>s. ts_used s \<and> ts_id s = i) (tx_slots t)"

definition txn_free_slot :: "cmq_txn \<Rightarrow> nat option" where
  "txn_free_slot t = first_index (\<lambda>s. \<not> ts_used s) (tx_slots t)"

definition txn_done_has :: "cmq_txn \<Rightarrow> u64 \<Rightarrow> bool" where
  "txn_done_has t i \<longleftrightarrow> i \<in> set (tx_done t)"

definition txn_done_add :: "cmq_txn \<Rightarrow> u64 \<Rightarrow> cmq_txn" where
  "txn_done_add t i =
     (if txn_done_has t i then t
      else if length (tx_done t) < 256 then t\<lparr>tx_done := tx_done t @ [i]\<rparr>
      else t\<lparr>tx_done := (tx_done t)[length (tx_done t) mod 256 := i]\<rparr>)"

section \<open>The log\<close>

text \<open>
  How writing a record ends: the file cannot be opened, something fails and a part of the record is in the file, or all is written
  and synced.
\<close>

datatype txn_io = Io_no_open | Io_fail nat | Io_ok

definition txn_record :: "u64 \<Rightarrow> bytes" where
  "txn_record i = byte_of CHR ''C'' # put_be64 i"

definition file_bytes :: "bytes option \<Rightarrow> bytes" where
  "file_bytes f = (case f of None \<Rightarrow> [] | Some b \<Rightarrow> b)"

definition txn_log_commit :: "txn_io \<Rightarrow> cmq_txn \<Rightarrow> u64 \<Rightarrow> int \<times> cmq_txn" where
  "txn_log_commit io t i =
     (if tx_log_path t = [] then (0, t)
      else case io of
        Io_no_open \<Rightarrow> (- 1, t)
      | Io_fail k \<Rightarrow> (- 1, t\<lparr>tx_file := Some (file_bytes (tx_file t) @ take k (txn_record i))\<rparr>)
      | Io_ok \<Rightarrow> (0, t\<lparr>tx_file := Some (file_bytes (tx_file t) @ txn_record i)\<rparr>))"

function txn_load_loop :: "bytes \<Rightarrow> cmq_txn \<Rightarrow> cmq_txn" where
  "txn_load_loop b t =
     (if length b < 9 then t
      else txn_load_loop (drop 9 b)
             (if b ! 0 = byte_of CHR ''C''
              then txn_done_add t (get_be64 (b ! 1) (b ! 2) (b ! 3) (b ! 4) (b ! 5) (b ! 6) (b ! 7) (b ! 8))
              else t))"
  by auto
termination by (relation "measure (\<lambda>(b, t). length b)") auto

declare txn_load_loop.simps [simp del]

definition txn_log_load :: "cmq_txn \<Rightarrow> int \<times> cmq_txn" where
  "txn_log_load t =
     (if tx_log_path t = [] then (0, t)
      else case tx_file t of None \<Rightarrow> (0, t) | Some b \<Rightarrow> (0, txn_load_loop b t))"

section \<open>Votes\<close>

definition txn_all_voted :: "txn_slot \<Rightarrow> bool" where
  "txn_all_voted s \<longleftrightarrow> ts_parts s \<noteq> [] \<and> list_all (\<lambda>(n, v). v \<noteq> 0) (ts_parts s)"

definition txn_all_yes_slot :: "txn_slot \<Rightarrow> bool" where
  "txn_all_yes_slot s \<longleftrightarrow> ts_parts s \<noteq> [] \<and> list_all (\<lambda>(n, v). v = 1) (ts_parts s)"

section \<open>Creation and settings\<close>

definition cmq_txn_create :: "heap \<Rightarrow> cmq_txn option" where
  "cmq_txn_create h =
     (if fst (malloc_ok h)
      then Some \<lparr>tx_slots = replicate CMQ_TXN_MAX txn_slot_zero, tx_done = [], tx_log_path = [], tx_file = None\<rparr>
      else None)"

definition cmq_txn_reload_attach :: "heap \<Rightarrow> cmq_txn option \<Rightarrow> int \<times> cmq_txn option" where
  "cmq_txn_reload_attach h t =
     (case t of
        Some _ \<Rightarrow> (0, t)
      | None \<Rightarrow> (case cmq_txn_create h of None \<Rightarrow> (- 1, t) | Some n \<Rightarrow> (0, Some n)))"

text \<open>\<open>disk\<close> gives the contents of the files there are.\<close>

definition cmq_txn_set_log :: "(string \<Rightarrow> bytes option) \<Rightarrow> cmq_txn \<Rightarrow> string option \<Rightarrow> int \<times> cmq_txn" where
  "cmq_txn_set_log disk t dir =
     (if \<not> txn_dir_safe dir then (- 1, t)
      else
        (let path = the dir @ ''/cmq.txn''
         in if length path < 600 then txn_log_load (t\<lparr>tx_log_path := path, tx_file := disk path\<rparr>)
            else (- 1, t\<lparr>tx_log_path := []\<rparr>)))"

definition cmq_txn_reload_attach_log ::
  "(string \<Rightarrow> bytes option) \<Rightarrow> cmq_txn option \<Rightarrow> string option \<Rightarrow> int \<times> cmq_txn option" where
  "cmq_txn_reload_attach_log disk t dir =
     (case t of
        None \<Rightarrow> (if dir = None \<or> dir = Some [] then 0 else - 1, None)
      | Some t' \<Rightarrow>
          if dir = None \<or> dir = Some [] then (0, t)
          else if tx_log_path t' \<noteq> [] then (0, t)
          else if \<not> txn_dir_safe dir then (- 1, t)
          else map_prod id Some (cmq_txn_set_log disk t' dir))"

section \<open>Headers\<close>

definition cmq_txn_encode :: "nat \<Rightarrow> u64 \<Rightarrow> u8 \<Rightarrow> bytes option" where
  "cmq_txn_encode cap i op =
     (if cap < CMQ_TXN_HDR_LEN \<or> i = 0 then None
      else if op < CMQ_TXN_BEGIN \<or> op > CMQ_TXN_PREPARE then None
      else Some (CMQ_TXN_MAGIC @ put_be64 i @ [op]))"

definition be64_at :: "bytes \<Rightarrow> nat \<Rightarrow> u64" where
  "be64_at h k = get_be64 (h ! k) (h ! (k + 1)) (h ! (k + 2)) (h ! (k + 3)) (h ! (k + 4)) (h ! (k + 5)) (h ! (k + 6)) (h ! (k + 7))"

definition cmq_txn_parse :: "bytes \<Rightarrow> (u64 \<times> u8) option" where
  "cmq_txn_parse hdr =
     (if length hdr < CMQ_TXN_HDR_LEN then None
      else if take 4 hdr \<noteq> CMQ_TXN_MAGIC then None
      else
        (let tid = be64_at hdr 4; op = hdr ! 12
         in if tid = 0 \<or> op < CMQ_TXN_BEGIN \<or> op > CMQ_TXN_PREPARE then None else Some (tid, op)))"

definition cmq_txn_encode_vote :: "nat \<Rightarrow> u64 \<Rightarrow> string option \<Rightarrow> bool \<Rightarrow> bytes option" where
  "cmq_txn_encode_vote cap i node yes =
     (if cap < CMQ_TXN_VOTE_LEN \<or> i = 0 \<or> \<not> txn_token_safe node then None
      else
        (let n = strnlen (the node) CMQ_TXN_NODE_MAX
         in if n = 0 \<or> n \<ge> CMQ_TXN_NODE_MAX then None
            else Some (CMQ_TXN_MAGIC @ put_be64 i @ [CMQ_TXN_VOTE, if yes then 1 else 0] @
                       map byte_of (take n (the node)) @ replicate (CMQ_TXN_NODE_MAX - n) 0)))"

text \<open>The name is read up to its terminator, which is forced at its last place.\<close>

definition cmq_txn_parse_vote :: "bytes \<Rightarrow> nat \<Rightarrow> (u64 \<times> string \<times> bool) option" where
  "cmq_txn_parse_vote hdr node_cap =
     (if length hdr < CMQ_TXN_VOTE_LEN \<or> node_cap = 0 then None
      else if take 4 hdr \<noteq> CMQ_TXN_MAGIC then None
      else if hdr ! 12 \<noteq> CMQ_TXN_VOTE then None
      else
        (let tid = be64_at hdr 4;
             node = cstr_of (take (CMQ_TXN_NODE_MAX - 1) (drop 14 hdr))
         in if tid = 0 then None
            else if \<not> txn_token_safe (Some node) then None
            else if length node = 0 \<or> length node \<ge> node_cap then None
            else Some (tid, node, hdr ! 13 \<noteq> 0)))"

section \<open>Transactions\<close>

definition cmq_txn_begin :: "cmq_txn \<Rightarrow> u64 \<Rightarrow> int \<times> cmq_txn" where
  "cmq_txn_begin t i =
     (if i = 0 then (- 1, t)
      else if txn_done_has t i then (- 1, t)
      else if txn_find t i \<noteq> None then (0, t)
      else case txn_free_slot t of
        None \<Rightarrow> (- 2, t)
      | Some k \<Rightarrow> (0, t\<lparr>tx_slots := (tx_slots t)[k := txn_slot_zero\<lparr>ts_used := True, ts_id := i\<rparr>]\<rparr>))"

definition cmq_txn_add :: "cmq_txn \<Rightarrow> u64 \<Rightarrow> string option \<Rightarrow> bytes option \<Rightarrow> nat \<Rightarrow> int \<times> cmq_txn" where
  "cmq_txn_add t i subject data len =
     (if i = 0 \<or> \<not> txn_token_safe subject \<or> (len > 0 \<and> data = None) then (- 1, t)
      else if len > CMQ_TXN_PAY_MAX then (- 3, t)
      else
        (let slen = strnlen (the subject) CMQ_TXN_SUB_MAX
         in if slen = 0 \<or> slen \<ge> CMQ_TXN_SUB_MAX then (- 1, t)
            else case txn_find t i of
              None \<Rightarrow> (- 1, t)
            | Some k \<Rightarrow>
                (let s = tx_slots t ! k
                 in if \<not> ts_prepared s \<and> length (ts_ops s) < CMQ_TXN_OPS
                    then (0, t\<lparr>tx_slots := (tx_slots t)[k := s\<lparr>ts_ops := ts_ops s @
                               [\<lparr>op_subject = take slen (the subject), op_data = if len > 0 then take len (the data) else []\<rparr>]\<rparr>]\<rparr>)
                    else (- 1, t))))"

text \<open>The operations are handed to \<open>fn\<close> in order until one fails; \<open>fn n op\<close> is what the call number \<open>n\<close> answers.\<close>

fun txn_apply :: "(nat \<Rightarrow> txn_op \<Rightarrow> int) \<Rightarrow> nat \<Rightarrow> txn_op list \<Rightarrow> int \<times> txn_op list" where
  "txn_apply fn n [] = (0, [])"
| "txn_apply fn n (op # ops) =
     (if fn n op \<noteq> 0 then (- 1, [op]) else map_prod id ((#) op) (txn_apply fn (n + 1) ops))"

definition txn_may_commit :: "txn_slot \<Rightarrow> bool" where
  "txn_may_commit s \<longleftrightarrow> \<not> (ts_parts s \<noteq> [] \<and> (\<not> ts_prepared s \<or> \<not> txn_all_yes_slot s))"

definition cmq_txn_commit ::
  "txn_io \<Rightarrow> (nat \<Rightarrow> txn_op \<Rightarrow> int) option \<Rightarrow> cmq_txn \<Rightarrow> u64 \<Rightarrow> int \<times> txn_op list \<times> cmq_txn" where
  "cmq_txn_commit io fn t i =
     (if i = 0 then (- 1, [], t)
      else if txn_done_has t i then (0, [], t)
      else case txn_find t i of
        None \<Rightarrow> (- 1, [], t)
      | Some k \<Rightarrow>
          (let s = tx_slots t ! k
           in if \<not> txn_may_commit s then (- 1, [], t)
              else case txn_log_commit io t i of
                (rc, t) \<Rightarrow>
                  if rc \<noteq> 0 then (- 1, [], t)
                  else
                    (let t = txn_done_add t i;
                         t = t\<lparr>tx_slots := (tx_slots t)[k := txn_slot_zero]\<rparr>
                     in case fn of
                          None \<Rightarrow> (0, [], t)
                        | Some f \<Rightarrow> (case txn_apply f 0 (ts_ops s) of (rc, ops) \<Rightarrow> (rc, ops, t)))))"

definition cmq_txn_abort :: "cmq_txn \<Rightarrow> u64 \<Rightarrow> int \<times> cmq_txn" where
  "cmq_txn_abort t i =
     (if i = 0 then (- 1, t)
      else case txn_find t i of
        None \<Rightarrow> (- 1, t)
      | Some k \<Rightarrow> (0, t\<lparr>tx_slots := (tx_slots t)[k := txn_slot_zero]\<rparr>))"

definition cmq_txn_was_committed :: "cmq_txn \<Rightarrow> u64 \<Rightarrow> bool" where
  "cmq_txn_was_committed t i \<longleftrightarrow> i \<noteq> 0 \<and> txn_done_has t i"

section \<open>Participants\<close>

definition cmq_txn_add_part :: "cmq_txn \<Rightarrow> u64 \<Rightarrow> string option \<Rightarrow> int \<times> cmq_txn" where
  "cmq_txn_add_part t i node =
     (if i = 0 \<or> \<not> txn_token_safe node then (- 1, t)
      else
        (let n = strnlen (the node) CMQ_TXN_NODE_MAX
         in if n = 0 \<or> n \<ge> CMQ_TXN_NODE_MAX then (- 1, t)
            else case txn_find t i of
              None \<Rightarrow> (- 1, t)
            | Some k \<Rightarrow>
                (let s = tx_slots t ! k
                 in if length (ts_parts s) \<ge> CMQ_TXN_PARTS then (- 1, t)
                    else if the node \<in> fst ` set (ts_parts s) then (0, t)
                    else (0, t\<lparr>tx_slots := (tx_slots t)[k := s\<lparr>ts_parts := ts_parts s @ [(take n (the node), 0)]\<rparr>]\<rparr>))))"

definition cmq_txn_prepare :: "cmq_txn \<Rightarrow> u64 \<Rightarrow> int \<times> cmq_txn" where
  "cmq_txn_prepare t i =
     (if i = 0 then (- 1, t)
      else case txn_find t i of
        None \<Rightarrow> (- 1, t)
      | Some k \<Rightarrow> (0, t\<lparr>tx_slots := (tx_slots t)[k := (tx_slots t ! k)\<lparr>ts_prepared := True\<rparr>]\<rparr>))"

definition cmq_txn_vote :: "cmq_txn \<Rightarrow> u64 \<Rightarrow> string option \<Rightarrow> bool \<Rightarrow> int \<times> cmq_txn" where
  "cmq_txn_vote t i node yes =
     (if i = 0 \<or> node = None \<or> node = Some [] then (- 1, t)
      else case txn_find t i of
        None \<Rightarrow> (- 1, t)
      | Some k \<Rightarrow>
          (let s = tx_slots t ! k
           in case first_index (\<lambda>(n, v). n = the node) (ts_parts s) of
                None \<Rightarrow> (- 1, t)
              | Some j \<Rightarrow>
                  (0, t\<lparr>tx_slots := (tx_slots t)[k := s\<lparr>ts_parts :=
                        (ts_parts s)[j := (fst (ts_parts s ! j), if yes then 1 else 2)]\<rparr>]\<rparr>)))"

definition txn_slot_at :: "cmq_txn \<Rightarrow> u64 \<Rightarrow> txn_slot option" where
  "txn_slot_at t i = map_option ((!) (tx_slots t)) (txn_find t i)"

definition cmq_txn_prepared :: "cmq_txn \<Rightarrow> u64 \<Rightarrow> bool" where
  "cmq_txn_prepared t i \<longleftrightarrow> i \<noteq> 0 \<and> (case txn_slot_at t i of None \<Rightarrow> False | Some s \<Rightarrow> ts_prepared s)"

definition cmq_txn_all_yes :: "cmq_txn \<Rightarrow> u64 \<Rightarrow> bool" where
  "cmq_txn_all_yes t i \<longleftrightarrow> i \<noteq> 0 \<and> (case txn_slot_at t i of None \<Rightarrow> False | Some s \<Rightarrow> txn_all_yes_slot s)"

definition cmq_txn_part_count :: "cmq_txn \<Rightarrow> u64 \<Rightarrow> int" where
  "cmq_txn_part_count t i = (if i = 0 then - 1 else case txn_slot_at t i of None \<Rightarrow> - 1 | Some s \<Rightarrow> int (length (ts_parts s)))"

definition cmq_txn_op_count :: "cmq_txn \<Rightarrow> u64 \<Rightarrow> int" where
  "cmq_txn_op_count t i = (if i = 0 then - 1 else case txn_slot_at t i of None \<Rightarrow> - 1 | Some s \<Rightarrow> int (length (ts_ops s)))"

definition cmq_txn_op_at :: "cmq_txn \<Rightarrow> u64 \<Rightarrow> int \<Rightarrow> nat \<Rightarrow> nat \<Rightarrow> (string \<times> bytes) option" where
  "cmq_txn_op_at t i idx sub_cap data_cap =
     (if i = 0 \<or> idx < 0 \<or> sub_cap = 0 then None
      else case txn_slot_at t i of
        None \<Rightarrow> None
      | Some s \<Rightarrow>
          if idx < int (length (ts_ops s))
          then (let op = ts_ops s ! nat idx
                in if length (op_subject op) < sub_cap \<and> (op_data op = [] \<or> length (op_data op) \<le> data_cap)
                   then Some (op_subject op, op_data op) else None)
          else None)"

text \<open>
  While the coordinator waits the lock is free: each event is how a wait ended, and the state then. No result means that the events
  are used up and the call still waits.
\<close>

datatype wait_end = W_woken | W_timeout | W_error

fun txn_wait_loop :: "u64 \<Rightarrow> (wait_end \<times> cmq_txn) list \<Rightarrow> nat \<Rightarrow> cmq_txn \<Rightarrow> (nat option \<times> cmq_txn) option" where
  "txn_wait_loop i evs k t =
     (if txn_all_voted (tx_slots t ! k) then Some (Some k, t)
      else case evs of
        [] \<Rightarrow> None
      | (w, t') # evs' \<Rightarrow>
          (case txn_find t' i of
             None \<Rightarrow> Some (None, t')
           | Some k' \<Rightarrow> if w \<noteq> W_woken then Some (Some k', t') else txn_wait_loop i evs' k' t'))"

declare txn_wait_loop.simps [simp del]

definition cmq_txn_wait_votes :: "bool \<Rightarrow> (wait_end \<times> cmq_txn) list \<Rightarrow> cmq_txn \<Rightarrow> u64 \<Rightarrow> (int \<times> cmq_txn) option" where
  "cmq_txn_wait_votes clock evs t i =
     (if i = 0 \<or> \<not> clock then Some (- 1, t)
      else case txn_find t i of
        None \<Rightarrow> Some (- 1, t)
      | Some k \<Rightarrow>
          do { (r, t) \<leftarrow> txn_wait_loop i evs k t;
               Some (case r of None \<Rightarrow> - 1 | Some k \<Rightarrow> if txn_all_yes_slot (tx_slots t ! k) then 0 else - 1, t) })"

section \<open>The server\<close>

text \<open>
  What forwarding a frame to the routes answers: it succeeds, it fails, or its buffer cannot be allocated. Frames that reach
  \<^verbatim>\<open>cmq_route_forward_op\<close> are collected. Past the end of the list every call succeeds.
\<close>

datatype forward_end = Fw_ok | Fw_fail | Fw_no_mem

type_synonym forwards = "forward_end list"

definition be16_bytes :: "nat \<Rightarrow> bytes" where
  "be16_bytes n = [of_nat (n div 256), of_nat n]"

definition txn_route_hdr :: "string \<Rightarrow> bytes \<Rightarrow> bytes \<Rightarrow> forwards \<Rightarrow> int \<times> bytes list \<times> forwards" where
  "txn_route_hdr subject hdr data fw =
     (if hdr = [] then (- 1, [], fw)
      else
        (let frame = be16_bytes (length subject) @ map byte_of subject @ [0, 0] @ be16_bytes (length hdr) @ hdr @ data
         in case fw of
              [] \<Rightarrow> (0, [frame], [])
            | Fw_ok # fw \<Rightarrow> (0, [frame], fw)
            | Fw_fail # fw \<Rightarrow> (- 1, [frame], fw)
            | Fw_no_mem # fw \<Rightarrow> (- 1, [], fw)))"

text \<open>The routes: their count of live peers, and the snapshot, each entry with its name and whether it is connected and live.\<close>

record txn_routes =
  tr_live :: nat
  tr_snap :: "(string \<times> bool) list option"

fun txn_add_parts :: "(string \<times> bool) list \<Rightarrow> u64 \<Rightarrow> cmq_txn \<Rightarrow> int \<Rightarrow> int \<times> cmq_txn" where
  "txn_add_parts [] i t added = (added, t)"
| "txn_add_parts ((node, live) # ps) i t added =
     (if \<not> live \<or> node = [] then txn_add_parts ps i t added
      else case cmq_txn_add_part t i (Some node) of
        (rc, t) \<Rightarrow> if rc \<noteq> 0 then (- 1, t) else txn_add_parts ps i t (added + 1))"

definition txn_add_live_parts :: "txn_routes option \<Rightarrow> u64 \<Rightarrow> cmq_txn \<Rightarrow> int \<times> cmq_txn" where
  "txn_add_live_parts routes i t =
     (case routes of
        None \<Rightarrow> (0, t)
      | Some r \<Rightarrow>
          if tr_live r = 0 then (0, t)
          else if tr_live r > CMQ_TXN_PARTS then (- 1, t)
          else case tr_snap r of None \<Rightarrow> (- 1, t) | Some ps \<Rightarrow> txn_add_parts (take CMQ_TXN_PARTS ps) i t 0)"

text \<open>No code means that an operation could not be read and the loop is left.\<close>

fun txn_fanout_adds :: "cmq_txn \<Rightarrow> u64 \<Rightarrow> bytes \<Rightarrow> nat \<Rightarrow> nat \<Rightarrow> int \<Rightarrow> forwards \<Rightarrow> int option \<times> bytes list \<times> forwards" where
  "txn_fanout_adds t i ahdr k 0 rc fw = (Some rc, [], fw)"
| "txn_fanout_adds t i ahdr k (Suc n) rc fw =
     (case cmq_txn_op_at t i (int k) CMQ_TXN_SUB_MAX CMQ_TXN_PAY_MAX of
        None \<Rightarrow> (None, [], fw)
      | Some (sub, data) \<Rightarrow>
          (case txn_route_hdr sub ahdr data fw of
             (r, fr, fw) \<Rightarrow>
               map_prod id (map_prod ((@) fr) id) (txn_fanout_adds t i ahdr (k + 1) n (if r \<noteq> 0 then - 1 else rc) fw)))"

definition txn_fanout_op :: "cmq_txn \<Rightarrow> u64 \<Rightarrow> u8 \<Rightarrow> forwards \<Rightarrow> int \<times> bytes list \<times> forwards" where
  "txn_fanout_op t i op fw =
     (case cmq_txn_encode CMQ_TXN_HDR_LEN i op of
        None \<Rightarrow> (- 1, [], fw)
      | Some hdr \<Rightarrow>
          if op = CMQ_TXN_PREPARE then
            (case (cmq_txn_encode CMQ_TXN_HDR_LEN i CMQ_TXN_BEGIN, cmq_txn_encode CMQ_TXN_HDR_LEN i CMQ_TXN_ADD) of
               (Some bhdr, Some ahdr) \<Rightarrow>
                 (case txn_route_hdr ''_cmq.txn'' bhdr [] fw of
                    (r1, fr1, fw) \<Rightarrow>
                      if r1 \<noteq> 0 then (- 1, fr1, fw)
                      else case txn_fanout_adds t i ahdr 0 (nat (cmq_txn_op_count t i)) 0 fw of
                        (None, fr2, fw) \<Rightarrow> (- 1, fr1 @ fr2, fw)
                      | (Some r2, fr2, fw) \<Rightarrow>
                          (case txn_route_hdr ''_cmq.txn'' hdr [] fw of
                             (r3, fr3, fw) \<Rightarrow> (if r3 \<noteq> 0 then - 1 else r2, fr1 @ fr2 @ fr3, fw)))
             | _ \<Rightarrow> (- 1, [], fw))
          else txn_route_hdr ''_cmq.txn'' hdr [] fw)"

text \<open>
  The surroundings of a distributed commit: routes, forwarding, the log, publishing, what other threads do to the coordinator while
  the prepare messages are sent (\<open>te_mid\<close>) and between the votes and the commit (\<open>te_late\<close>), and the events of the wait.
\<close>

record txn_env =
  te_routes :: "txn_routes option"
  te_forwards :: forwards
  te_io :: txn_io
  te_publish :: "nat \<Rightarrow> txn_op \<Rightarrow> int"
  te_clock :: bool
  te_mid :: "cmq_txn \<Rightarrow> cmq_txn"
  te_waits :: "(wait_end \<times> cmq_txn) list"
  te_late :: "cmq_txn \<Rightarrow> cmq_txn"

definition txn_2pc_finish :: "txn_env \<Rightarrow> forwards \<Rightarrow> bytes list \<Rightarrow> u64 \<Rightarrow> cmq_txn \<Rightarrow> int \<times> bytes list \<times> txn_op list \<times> cmq_txn" where
  "txn_2pc_finish ev fw sent i t =
     (case cmq_txn_commit (te_io ev) (Some (te_publish ev)) t i of
        (rc, ops, t) \<Rightarrow>
          if rc = 0 then (rc, sent @ fst (snd (txn_fanout_op t i CMQ_TXN_COMMIT fw)), ops, t)
          else (rc, sent @ fst (snd (txn_fanout_op t i CMQ_TXN_ABORT fw)), ops, snd (cmq_txn_abort t i)))"

definition txn_2pc_commit :: "txn_env \<Rightarrow> u64 \<Rightarrow> cmq_txn \<Rightarrow> (int \<times> bytes list \<times> txn_op list \<times> cmq_txn) option" where
  "txn_2pc_commit ev i t =
     (case txn_add_live_parts (te_routes ev) i t of
        (added, t) \<Rightarrow>
          if added < 0 then Some (- 1, [], [], t)
          else case cmq_txn_prepare t i of
            (rc, t) \<Rightarrow>
              if rc \<noteq> 0 then Some (- 1, [], [], t)
              else if cmq_txn_part_count t i \<le> 0
              then (case cmq_txn_commit (te_io ev) (Some (te_publish ev)) t i of (rc, ops, t) \<Rightarrow> Some (rc, [], ops, t))
              else case txn_fanout_op t i CMQ_TXN_PREPARE (te_forwards ev) of
                (rc, sent, fw) \<Rightarrow>
                  if rc \<noteq> 0 then Some (- 1, sent, [], snd (cmq_txn_abort t i))
                  else
                    do { (rc, t) \<leftarrow> cmq_txn_wait_votes (te_clock ev) (te_waits ev) (te_mid ev t) i;
                         Some (if rc \<noteq> 0
                               then (- 1, sent @ fst (snd (txn_fanout_op t i CMQ_TXN_ABORT fw)), [], snd (cmq_txn_abort t i))
                               else txn_2pc_finish ev fw sent i (te_late ev t)) })"

text \<open>
  The transaction branch of \<^verbatim>\<open>handle_publish\<close>. No result means that the frame is not a transaction frame and is published; otherwise
  the answer says whether the frame was refused.
\<close>

record txn_caller =
  tc_is_route :: bool
  tc_node_id :: "string option"

definition txn_prepare_frame :: "txn_env \<Rightarrow> txn_caller \<Rightarrow> u64 \<Rightarrow> cmq_txn \<Rightarrow> int \<times> bytes list \<times> cmq_txn" where
  "txn_prepare_frame ev c i t =
     (case cmq_txn_begin t i of
        (rc, t) \<Rightarrow>
          if rc \<noteq> 0 then (rc, [], t)
          else case cmq_txn_prepare t i of
            (rc, t) \<Rightarrow>
              (rc,
               if rc = 0 \<and> tc_is_route c \<and> tc_node_id c \<noteq> None \<and> tc_node_id c \<noteq> Some []
               then (case cmq_txn_encode_vote CMQ_TXN_VOTE_LEN i (tc_node_id c) True of
                       None \<Rightarrow> []
                     | Some vh \<Rightarrow> fst (snd (txn_route_hdr ''_cmq.txn'' vh [] (te_forwards ev))))
               else [], t))"

definition txn_frame ::
  "txn_env \<Rightarrow> txn_caller \<Rightarrow> bytes \<Rightarrow> string \<Rightarrow> bytes \<Rightarrow> cmq_txn \<Rightarrow> (int \<times> bytes list \<times> txn_op list \<times> cmq_txn) option option" where
  "txn_frame ev c headers subject payload t =
     (if length headers < CMQ_TXN_HDR_LEN then None
      else case (if length headers \<ge> CMQ_TXN_VOTE_LEN then cmq_txn_parse_vote headers CMQ_TXN_NODE_MAX else None) of
        Some (vid, vnode, vyes) \<Rightarrow> Some (Some (0, [], [], snd (cmq_txn_vote t vid (Some vnode) vyes)))
      | None \<Rightarrow>
          (case cmq_txn_parse headers of
             None \<Rightarrow> None
           | Some (i, op) \<Rightarrow>
               Some (if op = CMQ_TXN_BEGIN then (case cmq_txn_begin t i of (rc, t) \<Rightarrow> Some (rc, [], [], t))
                     else if op = CMQ_TXN_ADD
                     then (case cmq_txn_add t i (Some subject) (Some payload) (length payload) of (rc, t) \<Rightarrow> Some (rc, [], [], t))
                     else if op = CMQ_TXN_PREPARE
                     then (case txn_prepare_frame ev c i t of (rc, sent, t) \<Rightarrow> Some (rc, sent, [], t))
                     else if op = CMQ_TXN_COMMIT then
                       (if \<not> tc_is_route c \<and> (case te_routes ev of None \<Rightarrow> False | Some r \<Rightarrow> tr_live r > 0)
                        then txn_2pc_commit ev i t
                        else case cmq_txn_commit (te_io ev) (Some (te_publish ev)) t i of (rc, ops, t) \<Rightarrow> Some (rc, [], ops, t))
                     else
                       (case cmq_txn_abort t i of
                          (rc, t) \<Rightarrow>
                            Some (rc, if rc = 0 \<and> \<not> tc_is_route c
                                      then fst (snd (txn_fanout_op t i CMQ_TXN_ABORT (te_forwards ev))) else [], [], t)))))"

section \<open>The table as a map\<close>

interpretation tx: slot_table ts_used ts_id txn_slot_zero
  by unfold_locales (simp add: txn_slot_zero_def)

definition txn_view :: "cmq_txn \<Rightarrow> u64 \<rightharpoonup> txn_slot" where
  "txn_view t = tx.view (tx_slots t)"

definition slot_ok :: "txn_slot \<Rightarrow> bool" where
  "slot_ok s \<longleftrightarrow>
     length (ts_ops s) \<le> CMQ_TXN_OPS \<and>
     list_all (\<lambda>op. op_subject op \<noteq> [] \<and> length (op_subject op) < CMQ_TXN_SUB_MAX \<and> length (op_data op) \<le> CMQ_TXN_PAY_MAX) (ts_ops s) \<and>
     length (ts_parts s) \<le> CMQ_TXN_PARTS \<and> distinct (map fst (ts_parts s)) \<and> list_all (\<lambda>(n, v). length n < CMQ_TXN_NODE_MAX \<and> v \<le> 2) (ts_parts s)"

definition txn_ok :: "cmq_txn \<Rightarrow> bool" where
  "txn_ok t \<longleftrightarrow>
     length (tx_slots t) = CMQ_TXN_MAX \<and> tx.ok (tx_slots t) \<and> list_all slot_ok (tx_slots t) \<and> 0 \<notin> dom (txn_view t) \<and>
     distinct (tx_done t) \<and> length (tx_done t) \<le> 256 \<and> dom (txn_view t) \<inter> set (tx_done t) = {}"

lemma txn_find_view: "txn_find t i = None \<longleftrightarrow> txn_view t i = None"
  by (simp add: txn_find_def txn_view_def tx.index_view)

lemma txn_find_slot:
  assumes "txn_ok t" "txn_find t i = Some k"
  shows "txn_view t i = Some (tx_slots t ! k)" "k < length (tx_slots t)" "slot_ok (tx_slots t ! k)"
    "ts_used (tx_slots t ! k)" "ts_id (tx_slots t ! k) = i"
proof -
  show "txn_view t i = Some (tx_slots t ! k)"
    using tx.clear(3) [of "tx_slots t" i k] assms by (simp add: txn_ok_def txn_find_def txn_view_def)
  show k: "k < length (tx_slots t)" using assms(2) first_index_less by (simp add: txn_find_def)
  show "slot_ok (tx_slots t ! k)" using assms(1) k by (simp add: txn_ok_def list_all_length)
  show "ts_used (tx_slots t ! k)" "ts_id (tx_slots t ! k) = i"
    using assms(2) unfolding txn_find_def by (auto elim!: first_index_split)
qed

lemma txn_slot_at_view: "txn_ok t \<Longrightarrow> txn_slot_at t i = txn_view t i"
  using txn_find_view [of t i] txn_find_slot(1) [of t i] by (cases "txn_find t i") (auto simp: txn_slot_at_def)

lemma find_client_slot: "txn_find t i = Some k \<Longrightarrow> client_slot ts_used ts_id i (tx_slots t) = Some k"
  by (simp add: txn_find_def client_slot_def)

lemma free_client_slot: "txn_find t i = None \<Longrightarrow> txn_free_slot t = Some k \<Longrightarrow> client_slot ts_used ts_id i (tx_slots t) = Some k"
  by (simp add: txn_find_def txn_free_slot_def client_slot_def)

lemma txn_put:
  assumes ok: "txn_ok t" and k: "client_slot ts_used ts_id i (tx_slots t) = Some k"
    and s: "ts_used s" "ts_id s = i" "slot_ok s" "i \<noteq> 0" "i \<notin> set (tx_done t)"
  shows "txn_ok (t\<lparr>tx_slots := (tx_slots t)[k := s]\<rparr>)" "txn_view (t\<lparr>tx_slots := (tx_slots t)[k := s]\<rparr>) = (txn_view t)(i \<mapsto> s)"
proof -
  note put = tx.put [OF _ k s(1,2)]
  have v: "tx.ok (tx_slots t)" using ok by (simp add: txn_ok_def)
  show view: "txn_view (t\<lparr>tx_slots := (tx_slots t)[k := s]\<rparr>) = (txn_view t)(i \<mapsto> s)" using put(2) [OF v] by (simp add: txn_view_def)
  have "list_all slot_ok ((tx_slots t)[k := s])" using ok s(3) set_update_subset_insert [of "tx_slots t" k s]
    by (auto simp: txn_ok_def list_all_iff)
  then show "txn_ok (t\<lparr>tx_slots := (tx_slots t)[k := s]\<rparr>)"
    using ok put(1) [OF v] view s(4,5) unfolding txn_ok_def by auto
qed

lemma slot_zero_ok [simp]: "slot_ok txn_slot_zero"
  by (simp add: slot_ok_def txn_slot_zero_def)

lemma txn_clear:
  assumes ok: "txn_ok t" and k: "txn_find t i = Some k"
  shows "txn_ok (t\<lparr>tx_slots := (tx_slots t)[k := txn_slot_zero]\<rparr>)"
    "txn_view (t\<lparr>tx_slots := (tx_slots t)[k := txn_slot_zero]\<rparr>) = (txn_view t)(i := None)"
proof -
  have v: "tx.ok (tx_slots t)" and f: "first_index (\<lambda>s. ts_used s \<and> ts_id s = i) (tx_slots t) = Some k"
    using ok k by (simp_all add: txn_ok_def txn_find_def)
  note clear = tx.clear [OF v f]
  show view: "txn_view (t\<lparr>tx_slots := (tx_slots t)[k := txn_slot_zero]\<rparr>) = (txn_view t)(i := None)"
    using clear(2) by (simp add: txn_view_def)
  have "list_all slot_ok ((tx_slots t)[k := txn_slot_zero])" using ok set_update_subset_insert [of "tx_slots t" k txn_slot_zero]
    by (auto simp: txn_ok_def list_all_iff)
  then show "txn_ok (t\<lparr>tx_slots := (tx_slots t)[k := txn_slot_zero]\<rparr>)"
    using ok clear(1) view unfolding txn_ok_def by auto
qed

section \<open>The specification\<close>

text \<open>Open transactions as a map and the set of committed ones; at most 32 are open at a time.\<close>

type_synonym txn_spec = "(u64 \<rightharpoonup> txn_slot) \<times> u64 set"

definition spec_begin :: "u64 \<Rightarrow> txn_spec \<Rightarrow> int \<times> txn_spec" where
  "spec_begin i a =
     (case a of
        (m, c) \<Rightarrow>
          if i = 0 \<or> i \<in> c then (- 1, a)
          else if i \<in> dom m then (0, a)
          else if card (dom m) \<ge> CMQ_TXN_MAX then (- 2, a)
          else (0, m(i \<mapsto> txn_slot_zero\<lparr>ts_used := True, ts_id := i\<rparr>), c))"

definition spec_add :: "u64 \<Rightarrow> string \<Rightarrow> bytes \<Rightarrow> txn_spec \<Rightarrow> int \<times> txn_spec" where
  "spec_add i sub d a =
     (if i = 0 \<or> sub = [] \<or> \<not> list_all token_char sub then (- 1, a)
      else if length d > CMQ_TXN_PAY_MAX then (- 3, a)
      else case a of
        (m, c) \<Rightarrow>
          (case m i of
             None \<Rightarrow> (- 1, a)
           | Some s \<Rightarrow>
               if length sub < CMQ_TXN_SUB_MAX \<and> \<not> ts_prepared s \<and> length (ts_ops s) < CMQ_TXN_OPS
               then (0, m(i \<mapsto> s\<lparr>ts_ops := ts_ops s @ [\<lparr>op_subject = sub, op_data = d\<rparr>]\<rparr>), c)
               else (- 1, a)))"

definition spec_commit :: "txn_io \<Rightarrow> bool \<Rightarrow> (nat \<Rightarrow> txn_op \<Rightarrow> int) \<Rightarrow> u64 \<Rightarrow> txn_spec \<Rightarrow> (int \<times> txn_op list) \<times> txn_spec" where
  "spec_commit io logged fn i a =
     (case a of
        (m, c) \<Rightarrow>
          if i = 0 then ((- 1, []), a)
          else if i \<in> c then ((0, []), a)
          else case m i of
            None \<Rightarrow> ((- 1, []), a)
          | Some s \<Rightarrow>
              if (ts_parts s = [] \<or> ts_prepared s \<and> (\<forall>p \<in> set (ts_parts s). snd p = 1)) \<and> (\<not> logged \<or> io = Io_ok)
              then (txn_apply fn 0 (ts_ops s), m(i := None), insert i c)
              else ((- 1, []), a))"

definition spec_abort :: "u64 \<Rightarrow> txn_spec \<Rightarrow> int \<times> txn_spec" where
  "spec_abort i a = (case a of (m, c) \<Rightarrow> if i \<in> dom m then (0, m(i := None), c) else (- 1, a))"

definition spec_part :: "u64 \<Rightarrow> string \<Rightarrow> txn_spec \<Rightarrow> int \<times> txn_spec" where
  "spec_part i n a =
     (case a of
        (m, c) \<Rightarrow>
          (case m i of
             None \<Rightarrow> (- 1, a)
           | Some s \<Rightarrow>
               if n = [] \<or> \<not> list_all token_char n \<or> length n \<ge> CMQ_TXN_NODE_MAX \<or> length (ts_parts s) \<ge> CMQ_TXN_PARTS then (- 1, a)
               else if n \<in> fst ` set (ts_parts s) then (0, a)
               else (0, m(i \<mapsto> s\<lparr>ts_parts := ts_parts s @ [(n, 0)]\<rparr>), c)))"

definition spec_prepare :: "u64 \<Rightarrow> txn_spec \<Rightarrow> int \<times> txn_spec" where
  "spec_prepare i a = (case a of (m, c) \<Rightarrow> (case m i of None \<Rightarrow> (- 1, a) | Some s \<Rightarrow> (0, m(i \<mapsto> s\<lparr>ts_prepared := True\<rparr>), c)))"

definition spec_vote :: "u64 \<Rightarrow> string \<Rightarrow> bool \<Rightarrow> txn_spec \<Rightarrow> int \<times> txn_spec" where
  "spec_vote i n yes a =
     (case a of
        (m, c) \<Rightarrow>
          (case m i of
             None \<Rightarrow> (- 1, a)
           | Some s \<Rightarrow>
               if n \<noteq> [] \<and> n \<in> fst ` set (ts_parts s)
               then (0, m(i \<mapsto> s\<lparr>ts_parts := map (\<lambda>(k, v). (k, if k = n then if yes then 1 else 2 else v)) (ts_parts s)\<rparr>), c)
               else (- 1, a)))"

section \<open>Simulation\<close>

definition txn_rel :: "nat \<Rightarrow> cmq_txn \<Rightarrow> txn_spec \<Rightarrow> bool" where
  "txn_rel n t a \<longleftrightarrow> txn_ok t \<and> a = (txn_view t, set (tx_done t)) \<and> length (tx_done t) \<le> n"

lemma rel_open:
  assumes "txn_rel n t (m, c)" "m i = Some s"
  obtains k where "txn_find t i = Some k" "tx_slots t ! k = s" "client_slot ts_used ts_id i (tx_slots t) = Some k"
    "ts_used s" "ts_id s = i" "slot_ok s" "i \<noteq> 0" "i \<notin> set (tx_done t)"
proof -
  have ok: "txn_ok t" and v: "txn_view t i = Some s" using assms by (auto simp: txn_rel_def)
  then obtain k where k: "txn_find t i = Some k" using txn_find_view [of t i] by (cases "txn_find t i") auto
  have "i \<noteq> 0" "i \<notin> set (tx_done t)" using ok v by (auto simp: txn_ok_def)
  with txn_find_slot [OF ok k] k v that find_client_slot [OF k] show thesis by auto
qed

lemma rel_closed: "txn_rel n t (m, c) \<Longrightarrow> m i = None \<longleftrightarrow> txn_find t i = None"
  by (auto simp: txn_rel_def txn_find_view)

lemma rel_put:
  assumes rel: "txn_rel n t (m, c)" and k: "client_slot ts_used ts_id i (tx_slots t) = Some k"
    and s: "ts_used s" "ts_id s = i" "slot_ok s" "i \<noteq> 0" "i \<notin> set (tx_done t)"
  shows "txn_rel n (t\<lparr>tx_slots := (tx_slots t)[k := s]\<rparr>) (m(i \<mapsto> s), c)"
proof -
  have "txn_ok t" using rel by (simp add: txn_rel_def)
  from txn_put [OF this k s] rel show ?thesis by (auto simp: txn_rel_def)
qed

lemma begin_sim:
  assumes rel: "txn_rel n t a" and run: "cmq_txn_begin t i = (rc, t')"
  shows "\<exists>a'. spec_begin i a = (rc, a') \<and> txn_rel n t' a'"
proof -
  obtain m c where a: "a = (m, c)" by force
  have c: "c = set (tx_done t)" and ok: "txn_ok t" and m: "m = txn_view t" using rel a by (auto simp: txn_rel_def)
  have free: "txn_free_slot t = None \<longleftrightarrow> card (dom m) \<ge> CMQ_TXN_MAX"
    using tx.free_iff [of "tx_slots t"] ok m by (simp add: txn_ok_def txn_free_slot_def txn_view_def)
  consider "i = 0 \<or> i \<in> c" | "i \<noteq> 0" "i \<notin> c" "i \<in> dom m" | "i \<noteq> 0" "i \<notin> c" "m i = None" "txn_free_slot t = None"
    | k where "i \<noteq> 0" "i \<notin> c" "m i = None" "txn_free_slot t = Some k" by (cases "txn_free_slot t") auto
  then show ?thesis
  proof cases
    case 2
    then have "txn_find t i \<noteq> None" using rel_closed [of n t m c i] rel a by auto
    then show ?thesis using 2 run rel a c by (auto simp: cmq_txn_begin_def spec_begin_def txn_done_has_def)
  next
    case 3
    then have "txn_find t i = None" using rel_closed [of n t m c i] rel a by auto
    then show ?thesis using 3 run rel a c free by (auto simp: cmq_txn_begin_def spec_begin_def txn_done_has_def)
  next
    case (4 k)
    then have f: "txn_find t i = None" using rel_closed [of n t m c i] rel a by auto
    have "txn_rel n (t\<lparr>tx_slots := (tx_slots t)[k := txn_slot_zero\<lparr>ts_used := True, ts_id := i\<rparr>]\<rparr>)
        (m(i \<mapsto> txn_slot_zero\<lparr>ts_used := True, ts_id := i\<rparr>), c)"
      using 4 c by (intro rel_put [OF rel [unfolded a] free_client_slot [OF f 4(4)]]) (auto simp: slot_ok_def txn_slot_zero_def)
    moreover have "\<not> card (dom m) \<ge> CMQ_TXN_MAX" using free 4(4) by simp
    ultimately show ?thesis using 4 f run a c by (auto simp: cmq_txn_begin_def spec_begin_def txn_done_has_def)
  qed (use run rel a c in \<open>auto simp: cmq_txn_begin_def spec_begin_def txn_done_has_def split: if_splits\<close>)
qed

lemma add_sim:
  assumes rel: "txn_rel n t a" and run: "cmq_txn_add t i (Some sub) (Some d) (length d) = (rc, t')"
  shows "\<exists>a'. spec_add i sub d a = (rc, a') \<and> txn_rel n t' a'"
proof -
  obtain m c where a: "a = (m, c)" by force
  have data: "(if length d > 0 then take (length d) d else []) = d" by simp
  have len: "strnlen sub CMQ_TXN_SUB_MAX \<ge> CMQ_TXN_SUB_MAX \<longleftrightarrow> length sub \<ge> CMQ_TXN_SUB_MAX"
    "length sub < CMQ_TXN_SUB_MAX \<Longrightarrow> take (strnlen sub CMQ_TXN_SUB_MAX) sub = sub"
    "strnlen sub CMQ_TXN_SUB_MAX = 0 \<longleftrightarrow> sub = []" by (auto simp: strnlen_def CMQ_TXN_SUB_MAX_def min_def split: if_splits)
  show ?thesis
  proof (cases "m i")
    case None
    then have "txn_find t i = None" using rel_closed rel a by blast
    then show ?thesis using run rel a None
      by (auto simp: cmq_txn_add_def spec_add_def txn_token_safe_def Let_def split: if_splits)
  next
    case (Some s)
    from rel_open [OF rel [unfolded a] Some] obtain k where k: "txn_find t i = Some k" "tx_slots t ! k = s"
      "client_slot ts_used ts_id i (tx_slots t) = Some k" "ts_used s" "ts_id s = i" "slot_ok s" "i \<noteq> 0" "i \<notin> set (tx_done t)" by metis
    let ?s = "s\<lparr>ts_ops := ts_ops s @ [\<lparr>op_subject = sub, op_data = d\<rparr>]\<rparr>"
    have "txn_rel n (t\<lparr>tx_slots := (tx_slots t)[k := ?s]\<rparr>) (m(i \<mapsto> ?s), c)"
      if "sub \<noteq> []" "length sub < CMQ_TXN_SUB_MAX" "length d \<le> CMQ_TXN_PAY_MAX" "length (ts_ops s) < CMQ_TXN_OPS"
      using that k by (intro rel_put [OF rel [unfolded a]]) (auto simp: slot_ok_def)
    then show ?thesis using run rel a Some k(1,2) len
      by (auto simp: cmq_txn_add_def spec_add_def txn_token_safe_def Let_def split: if_splits)
  qed
qed

lemma log_commit_state:
  assumes "txn_log_commit io t i = (rc, t')"
  shows "tx_slots t' = tx_slots t" "tx_done t' = tx_done t" "tx_log_path t' = tx_log_path t"
    "rc = (if tx_log_path t = [] \<or> io = Io_ok then 0 else - 1)"
  using assms by (auto simp: txn_log_commit_def split: if_splits txn_io.splits)

lemma may_commit_iff: "txn_may_commit s \<longleftrightarrow> ts_parts s = [] \<or> ts_prepared s \<and> (\<forall>p \<in> set (ts_parts s). snd p = 1)"
  by (auto simp: txn_may_commit_def txn_all_yes_slot_def list_all_iff)

lemma txn_ok_cong:
  "txn_ok t \<Longrightarrow> tx_slots t' = tx_slots t \<Longrightarrow> tx_done t' = tx_done t \<Longrightarrow> txn_ok t' \<and> txn_view t' = txn_view t"
  by (simp add: txn_ok_def txn_view_def)

lemma txn_rel_cong: "txn_rel n t a \<Longrightarrow> tx_slots t' = tx_slots t \<Longrightarrow> tx_done t' = tx_done t \<Longrightarrow> txn_rel n t' a"
  using txn_ok_cong [of t t'] by (auto simp: txn_rel_def)

lemma done_add_rel:
  assumes rel: "txn_rel n t (m, c)" and n: "n < 256" and k: "txn_find t i = Some k" "i \<notin> c"
  shows "txn_rel (Suc n) ((txn_done_add t i)\<lparr>tx_slots := (tx_slots t)[k := txn_slot_zero]\<rparr>) (m(i := None), insert i c)"
proof -
  have ok: "txn_ok t" and len: "length (tx_done t) < 256" and c: "c = set (tx_done t)" and m: "m = txn_view t"
    using rel n by (auto simp: txn_rel_def)
  then have add: "txn_done_add t i = t\<lparr>tx_done := tx_done t @ [i]\<rparr>" using k(2) by (simp add: txn_done_add_def txn_done_has_def)
  let ?t = "t\<lparr>tx_slots := (tx_slots t)[k := txn_slot_zero]\<rparr>"
  note clear = txn_clear [OF ok k(1)]
  let ?u = "t\<lparr>tx_done := tx_done t @ [i], tx_slots := (tx_slots t)[k := txn_slot_zero]\<rparr>"
  have v: "txn_view ?u = txn_view ?t" by (simp add: txn_view_def)
  have "txn_ok ?u" using clear v k(2) c len unfolding txn_ok_def by auto
  then show ?thesis using clear(2) v rel k(2) c m unfolding add txn_rel_def by (auto simp: txn_view_def)
qed

lemma commit_sim:
  assumes rel: "txn_rel n t a" and n: "n < 256" and run: "cmq_txn_commit io (Some fn) t i = (rc, ops, t')"
  shows "\<exists>a'. spec_commit io (tx_log_path t \<noteq> []) fn i a = ((rc, ops), a') \<and> txn_rel (Suc n) t' a'"
proof -
  obtain m c where a: "a = (m, c)" by force
  have c: "c = set (tx_done t)" and suc: "txn_rel (Suc n) t a" using rel a by (auto simp: txn_rel_def)
  have zero: ?thesis if "i = 0" using that run suc a by (auto simp: cmq_txn_commit_def spec_commit_def)
  consider "i = 0" | "i \<noteq> 0" "i \<in> c" | "i \<noteq> 0" "i \<notin> c" "m i = None" | s where "i \<noteq> 0" "i \<notin> c" "m i = Some s" by (cases "m i") auto
  then show ?thesis
  proof cases
    case 1
    then show ?thesis by (rule zero)
  next
    case 2
    then show ?thesis using run suc a c by (auto simp: cmq_txn_commit_def spec_commit_def txn_done_has_def)
  next
    case 3
    then have "txn_find t i = None" using rel_closed rel a by blast
    then show ?thesis using 3 run suc a c by (auto simp: cmq_txn_commit_def spec_commit_def txn_done_has_def)
  next
    case (4 s)
    from rel_open [OF rel [unfolded a] 4(3)] obtain k where k: "txn_find t i = Some k" "tx_slots t ! k = s" by metis
    obtain r t1 where lc: "txn_log_commit io t i = (r, t1)" by force
    note st = log_commit_state [OF lc]
    have rel1: "txn_rel n t1 a" and rel1': "txn_rel (Suc n) t1 a" using txn_rel_cong [OF rel st(1,2)] txn_rel_cong [OF suc st(1,2)] by auto
    have k1: "txn_find t1 i = Some k" using k(1) st(1) by (simp add: txn_find_def)
    note fin = done_add_rel [OF rel1 [unfolded a] n k1 4(2)]
    have sl: "tx_slots (txn_done_add t1 i) = tx_slots t1" by (simp add: txn_done_add_def)
    have "\<not> txn_done_has t i" using 4(2) c by (simp add: txn_done_has_def)
    then have "(rc, ops, t') = (if \<not> txn_may_commit s then (- 1, [], t) else if r \<noteq> 0 then (- 1, [], t1)
        else (fst (txn_apply fn 0 (ts_ops s)), snd (txn_apply fn 0 (ts_ops s)), (txn_done_add t1 i)\<lparr>tx_slots := (tx_slots t1)[k := txn_slot_zero]\<rparr>))"
      using run 4(1) k lc sl unfolding cmq_txn_commit_def Let_def by (auto simp: case_prod_unfold split: if_splits)
    then show ?thesis using 4 a st(4) may_commit_iff [of s] fin rel1' suc
      by (auto simp: spec_commit_def split: if_splits)
  qed
qed

lemma abort_sim:
  assumes rel: "txn_rel n t a" and run: "cmq_txn_abort t i = (rc, t')"
  shows "\<exists>a'. spec_abort i a = (rc, a') \<and> txn_rel n t' a'"
proof -
  obtain m c where a: "a = (m, c)" by force
  show ?thesis
  proof (cases "txn_find t i")
    case None
    then have "m i = None" using rel_closed rel a by blast
    then show ?thesis using run rel a None by (auto simp: cmq_txn_abort_def spec_abort_def split: if_splits)
  next
    case (Some k)
    have ok: "txn_ok t" using rel by (simp add: txn_rel_def)
    have "m i \<noteq> None" using Some rel_closed [of n t m c i] rel a by auto
    moreover from this have "i \<noteq> 0" using rel_open [of n t m c i] rel a by fastforce
    ultimately show ?thesis using run rel a Some txn_clear [OF ok Some]
      by (auto simp: cmq_txn_abort_def spec_abort_def txn_rel_def)
  qed
qed

lemma part_sim:
  assumes rel: "txn_rel n t a" and run: "cmq_txn_add_part t i (Some nd) = (rc, t')"
  shows "\<exists>a'. spec_part i nd a = (rc, a') \<and> txn_rel n t' a'"
proof -
  obtain m c where a: "a = (m, c)" by force
  have len: "strnlen nd CMQ_TXN_NODE_MAX \<ge> CMQ_TXN_NODE_MAX \<longleftrightarrow> length nd \<ge> CMQ_TXN_NODE_MAX"
    "length nd < CMQ_TXN_NODE_MAX \<Longrightarrow> take (strnlen nd CMQ_TXN_NODE_MAX) nd = nd"
    "strnlen nd CMQ_TXN_NODE_MAX = 0 \<longleftrightarrow> nd = []" by (auto simp: strnlen_def CMQ_TXN_NODE_MAX_def min_def split: if_splits)
  show ?thesis
  proof (cases "m i")
    case None
    then have "txn_find t i = None" using rel_closed rel a by blast
    then show ?thesis using run rel a None
      by (auto simp: cmq_txn_add_part_def spec_part_def txn_token_safe_def Let_def split: if_splits)
  next
    case (Some s)
    from rel_open [OF rel [unfolded a] Some] obtain k where k: "txn_find t i = Some k" "tx_slots t ! k = s"
      "client_slot ts_used ts_id i (tx_slots t) = Some k" "ts_used s" "ts_id s = i" "slot_ok s" "i \<noteq> 0" "i \<notin> set (tx_done t)" by metis
    let ?s = "s\<lparr>ts_parts := ts_parts s @ [(nd, 0)]\<rparr>"
    have "txn_rel n (t\<lparr>tx_slots := (tx_slots t)[k := ?s]\<rparr>) (m(i \<mapsto> ?s), c)"
      if "nd \<notin> fst ` set (ts_parts s)" "length nd < CMQ_TXN_NODE_MAX" "length (ts_parts s) < CMQ_TXN_PARTS"
      using that k by (intro rel_put [OF rel [unfolded a]]) (auto simp: slot_ok_def)
    then show ?thesis using run rel a Some k(1,2,7) len
      by (auto simp: cmq_txn_add_part_def spec_part_def txn_token_safe_def Let_def split: if_splits)
  qed
qed

lemma prepare_sim:
  assumes rel: "txn_rel n t a" and run: "cmq_txn_prepare t i = (rc, t')"
  shows "\<exists>a'. spec_prepare i a = (rc, a') \<and> txn_rel n t' a'"
proof -
  obtain m c where a: "a = (m, c)" by force
  show ?thesis
  proof (cases "m i")
    case None
    then have "txn_find t i = None" using rel_closed rel a by blast
    then show ?thesis using run rel a None by (auto simp: cmq_txn_prepare_def spec_prepare_def split: if_splits)
  next
    case (Some s)
    from rel_open [OF rel [unfolded a] Some] obtain k where k: "txn_find t i = Some k" "tx_slots t ! k = s"
      "client_slot ts_used ts_id i (tx_slots t) = Some k" "ts_used s" "ts_id s = i" "slot_ok s" "i \<noteq> 0" "i \<notin> set (tx_done t)" by metis
    let ?s = "s\<lparr>ts_prepared := True\<rparr>"
    have "txn_rel n (t\<lparr>tx_slots := (tx_slots t)[k := ?s]\<rparr>) (m(i \<mapsto> ?s), c)"
      using k by (intro rel_put [OF rel [unfolded a]]) (auto simp: slot_ok_def)
    then show ?thesis using run a Some k(1,2,7) by (auto simp: cmq_txn_prepare_def spec_prepare_def)
  qed
qed

lemma vote_update:
  assumes "distinct (map fst ps)" "first_index (\<lambda>(n, v). n = nd) ps = Some j"
  shows "ps[j := (fst (ps ! j), x)] = map (\<lambda>(k, v). (k, if k = nd then x else v)) ps"
proof -
  from assms(2) obtain xs p ys where sp: "ps = xs @ p # ys" "length xs = j" "fst p = nd" by (elim first_index_split) auto
  have "nd \<notin> fst ` set xs" "nd \<notin> fst ` set ys" using assms(1) sp(1,3) by auto
  then have "map (\<lambda>(k, v). (k, if k = nd then x else v)) xs = xs" "map (\<lambda>(k, v). (k, if k = nd then x else v)) ys = ys"
    by (force intro!: map_idI)+
  then show ?thesis using sp by (auto simp: case_prod_unfold)
qed

lemma vote_sim:
  assumes rel: "txn_rel n t a" and run: "cmq_txn_vote t i (Some nd) yes = (rc, t')"
  shows "\<exists>a'. spec_vote i nd yes a = (rc, a') \<and> txn_rel n t' a'"
proof -
  obtain m c where a: "a = (m, c)" by force
  show ?thesis
  proof (cases "m i")
    case None
    then have "txn_find t i = None" using rel_closed rel a by blast
    then show ?thesis using run rel a None by (auto simp: cmq_txn_vote_def spec_vote_def split: if_splits)
  next
    case (Some s)
    from rel_open [OF rel [unfolded a] Some] obtain k where k: "txn_find t i = Some k" "tx_slots t ! k = s"
      "client_slot ts_used ts_id i (tx_slots t) = Some k" "ts_used s" "ts_id s = i" "slot_ok s" "i \<noteq> 0" "i \<notin> set (tx_done t)" by metis
    let ?ps = "map (\<lambda>(k, v). (k, if k = nd then if yes then 1 else 2 else v)) (ts_parts s)"
    have "distinct (map fst ?ps)" using k(6) by (simp add: slot_ok_def comp_def case_prod_unfold)
    moreover have "list_all (\<lambda>(n, v). length n < CMQ_TXN_NODE_MAX \<and> v \<le> 2) ?ps"
      using k(6) by (auto simp: slot_ok_def list_all_iff)
    ultimately have "slot_ok (s\<lparr>ts_parts := ?ps\<rparr>)" using k(6) unfolding slot_ok_def by auto
    then have put: "txn_rel n (t\<lparr>tx_slots := (tx_slots t)[k := s\<lparr>ts_parts := ?ps\<rparr>]\<rparr>) (m(i \<mapsto> s\<lparr>ts_parts := ?ps\<rparr>), c)"
      using k by (intro rel_put [OF rel [unfolded a]]) auto
    show ?thesis
    proof (cases "first_index (\<lambda>(n, v). n = nd) (ts_parts s)")
      case N: None
      then have "nd \<notin> fst ` set (ts_parts s)" by (auto simp: first_index_None)
      then show ?thesis using run rel a Some k(1,2,7) N by (auto simp: cmq_txn_vote_def spec_vote_def split: if_splits)
    next
      case S: (Some j)
      then have "nd \<in> fst ` set (ts_parts s)" by (elim first_index_split) force
      then show ?thesis using run rel a Some k(1,2,7) S put vote_update [OF _ S] k(6)
        by (auto simp: cmq_txn_vote_def spec_vote_def slot_ok_def split: if_splits)
    qed
  qed
qed

section \<open>Runs\<close>

datatype txn_call =
  T_begin u64 | T_add u64 string bytes | T_commit txn_io "nat \<Rightarrow> txn_op \<Rightarrow> int" u64 | T_abort u64
| T_part u64 string | T_prepare u64 | T_vote u64 string bool | T_committed u64

fun txn_exec :: "cmq_txn \<Rightarrow> txn_call \<Rightarrow> (int \<times> txn_op list) \<times> cmq_txn" where
  "txn_exec t (T_begin i) = (case cmq_txn_begin t i of (rc, t) \<Rightarrow> ((rc, []), t))"
| "txn_exec t (T_add i sub d) = (case cmq_txn_add t i (Some sub) (Some d) (length d) of (rc, t) \<Rightarrow> ((rc, []), t))"
| "txn_exec t (T_commit io fn i) = (case cmq_txn_commit io (Some fn) t i of (rc, ops, t) \<Rightarrow> ((rc, ops), t))"
| "txn_exec t (T_abort i) = (case cmq_txn_abort t i of (rc, t) \<Rightarrow> ((rc, []), t))"
| "txn_exec t (T_part i n) = (case cmq_txn_add_part t i (Some n) of (rc, t) \<Rightarrow> ((rc, []), t))"
| "txn_exec t (T_prepare i) = (case cmq_txn_prepare t i of (rc, t) \<Rightarrow> ((rc, []), t))"
| "txn_exec t (T_vote i n yes) = (case cmq_txn_vote t i (Some n) yes of (rc, t) \<Rightarrow> ((rc, []), t))"
| "txn_exec t (T_committed i) = ((of_bool (cmq_txn_was_committed t i), []), t)"

fun spec_exec :: "bool \<Rightarrow> txn_spec \<Rightarrow> txn_call \<Rightarrow> (int \<times> txn_op list) \<times> txn_spec" where
  "spec_exec logged a (T_begin i) = (case spec_begin i a of (rc, a) \<Rightarrow> ((rc, []), a))"
| "spec_exec logged a (T_add i sub d) = (case spec_add i sub d a of (rc, a) \<Rightarrow> ((rc, []), a))"
| "spec_exec logged a (T_commit io fn i) = spec_commit io logged fn i a"
| "spec_exec logged a (T_abort i) = (case spec_abort i a of (rc, a) \<Rightarrow> ((rc, []), a))"
| "spec_exec logged a (T_part i n) = (case spec_part i n a of (rc, a) \<Rightarrow> ((rc, []), a))"
| "spec_exec logged a (T_prepare i) = (case spec_prepare i a of (rc, a) \<Rightarrow> ((rc, []), a))"
| "spec_exec logged a (T_vote i n yes) = (case spec_vote i n yes a of (rc, a) \<Rightarrow> ((rc, []), a))"
| "spec_exec logged a (T_committed i) = ((of_bool (i \<noteq> 0 \<and> i \<in> snd a), []), a)"

lemma txn_rel_Suc: "txn_rel n t a \<Longrightarrow> txn_rel (Suc n) t a"
  by (auto simp: txn_rel_def)

lemma log_path_keep: "tx_log_path (snd (txn_exec t c)) = tx_log_path t"
proof (cases c)
  case (T_commit io fn i)
  obtain r t1 where lc: "txn_log_commit io t i = (r, t1)" by force
  have "tx_log_path (txn_done_add t1 i) = tx_log_path t1" by (simp add: txn_done_add_def)
  then show ?thesis using T_commit log_commit_state(3) [OF lc] lc
    by (auto simp: cmq_txn_commit_def Let_def split: option.split prod.split)
qed (auto simp: cmq_txn_begin_def cmq_txn_add_def cmq_txn_abort_def cmq_txn_add_part_def cmq_txn_prepare_def cmq_txn_vote_def
    Let_def split: option.split prod.split)

lemma txn_exec_sim:
  assumes rel: "txn_rel n t a" "n < 256" "(tx_log_path t \<noteq> []) = logged"
  shows "\<exists>t'. txn_exec t c = (fst (spec_exec logged a c), t') \<and> txn_rel (Suc n) t' (snd (spec_exec logged a c)) \<and> (tx_log_path t' \<noteq> []) = logged"
proof -
  obtain r t' where e: "txn_exec t c = (r, t')" by (cases "txn_exec t c")
  have "fst (spec_exec logged a c) = r \<and> txn_rel (Suc n) t' (snd (spec_exec logged a c))"
  proof (cases c)
    case (T_begin i)
    with e obtain rc where "cmq_txn_begin t i = (rc, t')" "r = (rc, [])" by (auto split: prod.splits)
    with begin_sim [OF rel(1)] T_begin show ?thesis by (fastforce intro: txn_rel_Suc)
  next
    case (T_add i sub d)
    with e obtain rc where "cmq_txn_add t i (Some sub) (Some d) (length d) = (rc, t')" "r = (rc, [])" by (auto split: prod.splits)
    with add_sim [OF rel(1)] T_add show ?thesis by (fastforce intro: txn_rel_Suc)
  next
    case (T_commit io fn i)
    with e obtain rc ops where "cmq_txn_commit io (Some fn) t i = (rc, ops, t')" "r = (rc, ops)" by (auto split: prod.splits)
    with commit_sim [OF rel(1,2)] T_commit rel(3) show ?thesis by fastforce
  next
    case (T_abort i)
    with e obtain rc where "cmq_txn_abort t i = (rc, t')" "r = (rc, [])" by (auto split: prod.splits)
    with abort_sim [OF rel(1)] T_abort show ?thesis by (fastforce intro: txn_rel_Suc)
  next
    case (T_part i nd)
    with e obtain rc where "cmq_txn_add_part t i (Some nd) = (rc, t')" "r = (rc, [])" by (auto split: prod.splits)
    with part_sim [OF rel(1)] T_part show ?thesis by (fastforce intro: txn_rel_Suc)
  next
    case (T_prepare i)
    with e obtain rc where "cmq_txn_prepare t i = (rc, t')" "r = (rc, [])" by (auto split: prod.splits)
    with prepare_sim [OF rel(1)] T_prepare show ?thesis by (fastforce intro: txn_rel_Suc)
  next
    case (T_vote i nd yes)
    with e obtain rc where "cmq_txn_vote t i (Some nd) yes = (rc, t')" "r = (rc, [])" by (auto split: prod.splits)
    with vote_sim [OF rel(1)] T_vote show ?thesis by (fastforce intro: txn_rel_Suc)
  next
    case (T_committed i)
    then show ?thesis using e rel(1) by (auto simp: cmq_txn_was_committed_def txn_done_has_def txn_rel_def)
  qed
  then show ?thesis using e log_path_keep [of t c] rel(3) by (auto simp: prod_eq_iff)
qed

lemma run_rel:
  assumes "txn_ok t" "length (tx_done t) + length cs \<le> 256" "(tx_log_path t \<noteq> []) = logged"
  shows "\<exists>t'. run_ops txn_exec t cs = (fst (run_ops (spec_exec logged) (txn_view t, set (tx_done t)) cs), t') \<and>
    txn_rel (length (tx_done t) + length cs) t' (snd (run_ops (spec_exec logged) (txn_view t, set (tx_done t)) cs))"
proof -
  let ?R = "\<lambda>n t' a. txn_rel (length (tx_done t) + n) t' a \<and> (tx_log_path t' \<noteq> []) = logged"
  have start: "?R 0 t (txn_view t, set (tx_done t))" using assms(1,3) by (simp add: txn_rel_def)
  have step: "\<exists>s'. txn_exec s c = (fst (spec_exec logged a c), s') \<and> ?R (Suc n) s' (snd (spec_exec logged a c))"
    if "n < length cs" "?R n s a" for n s a c using txn_exec_sim [of _ s a logged c] that assms(2) by fastforce
  have "\<exists>s'. run_ops txn_exec t cs = (fst (run_ops (spec_exec logged) (txn_view t, set (tx_done t)) cs), s') \<and>
      ?R (length cs) s' (snd (run_ops (spec_exec logged) (txn_view t, set (tx_done t)) cs))"
    by (rule run_ops_sim [where R = ?R, OF _ start]) (rule step)
  then show ?thesis by auto
qed

text \<open>The calls of a run that applied operations of a transaction.\<close>

definition applied :: "u64 \<Rightarrow> txn_call list \<Rightarrow> (int \<times> txn_op list) list \<Rightarrow> txn_op list list" where
  "applied i cs as = map (snd \<circ> snd) (filter (\<lambda>(c, a). (case c of T_commit io fn j \<Rightarrow> j = i | _ \<Rightarrow> False) \<and> snd a \<noteq> []) (zip cs as))"

lemma spec_done_keep: "snd a \<subseteq> snd (snd (spec_exec logged a c))"
  by (cases c; cases a) (auto simp: spec_begin_def spec_add_def spec_commit_def spec_abort_def spec_part_def spec_prepare_def
      spec_vote_def split: option.split)

definition commits :: "u64 \<Rightarrow> txn_call \<Rightarrow> bool" where
  "commits i c \<longleftrightarrow> (case c of T_commit io fn j \<Rightarrow> j = i | _ \<Rightarrow> False)"

lemma applied_Cons: "applied i (c # cs) (r # as) = (if commits i c \<and> snd r \<noteq> [] then [snd r] else []) @ applied i cs as"
  by (simp add: applied_def commits_def)

lemma spec_applied:
  "length (applied i cs (fst (run_ops (spec_exec logged) a cs))) \<le> of_bool (i \<notin> snd a)"
proof (induction cs arbitrary: a)
  case (Cons c cs)
  obtain r a' where e: "spec_exec logged a c = (r, a')" by (cases "spec_exec logged a c")
  have keep: "i \<in> snd a \<Longrightarrow> i \<in> snd a'" using spec_done_keep [of a logged c] e by auto
  have "i \<notin> snd a \<and> i \<in> snd a'" if "commits i c" "snd r \<noteq> []"
    using that e by (cases c; cases a) (auto simp: commits_def spec_commit_def split: if_splits option.splits)
  then show ?case using Cons.IH [of a'] keep e
    by (cases "commits i c \<and> snd r \<noteq> []"; cases "i \<in> snd a'") (auto simp: applied_Cons case_prod_unfold)
qed (simp add: applied_def)


lemma create_ok:
  assumes "cmq_txn_create h = Some t"
  shows "txn_ok t" "txn_view t = Map.empty" "tx_done t = []" "tx_log_path t = []"
proof -
  have t: "tx_slots t = replicate CMQ_TXN_MAX txn_slot_zero" "tx_done t = []" "tx_log_path t = []"
    using assms by (auto simp: cmq_txn_create_def split: if_splits)
  have "tx.ok (tx_slots t) \<and> tx.view (tx_slots t) = Map.empty" by (rule tx.ok_fresh) (simp add: t(1) txn_slot_zero_def)
  then show "txn_ok t" "txn_view t = Map.empty" "tx_done t = []" "tx_log_path t = []"
    using t by (simp_all add: txn_ok_def txn_view_def list_all_iff)
qed

definition txn_example :: "txn_call list" where
  "txn_example = [T_begin 7, T_add 7 ''a.b'' [1, 2], T_part 7 ''n1'', T_commit Io_ok (\<lambda>_ _. 0) 7, T_prepare 7, T_vote 7 ''n1'' True,
     T_commit Io_ok (\<lambda>_ _. 0) 7, T_commit Io_ok (\<lambda>_ _. 0) 7, T_begin 7, T_committed 7]"


section \<open>Durability\<close>

text \<open>The file holds the records of the committed ids.\<close>

definition file_ok :: "cmq_txn \<Rightarrow> bool" where
  "file_ok t \<longleftrightarrow> file_bytes (tx_file t) = concat (map txn_record (tx_done t))"

lemma length_txn_record [simp]: "length (txn_record i) = 9"
  by (simp add: txn_record_def put_be64_def)

lemma txn_record_not_Nil [simp]: "txn_record i \<noteq> []"
  by (simp add: txn_record_def)

lemma record_read:
  "(txn_record i @ b) ! 0 = byte_of CHR ''C''"
  "get_be64 ((txn_record i @ b) ! 1) ((txn_record i @ b) ! 2) ((txn_record i @ b) ! 3) ((txn_record i @ b) ! 4)
     ((txn_record i @ b) ! 5) ((txn_record i @ b) ! 6) ((txn_record i @ b) ! 7) ((txn_record i @ b) ! 8) = i"
  by (simp_all add: txn_record_def put_be64_def put_be32_def get_be64_def)

lemma load_record: "txn_load_loop (txn_record i @ b) t = txn_load_loop b (txn_done_add t i)"
proof -
  have "\<not> length (txn_record i @ b) < 9" "drop 9 (txn_record i @ b) = b" by simp_all
  then show ?thesis by (subst txn_load_loop.simps) (simp only: record_read if_False if_True refl)
qed

lemma done_add_new:
  "i \<notin> set (tx_done t) \<Longrightarrow> length (tx_done t) < 256 \<Longrightarrow> txn_done_add t i = t\<lparr>tx_done := tx_done t @ [i]\<rparr>"
  by (simp add: txn_done_add_def txn_done_has_def)

lemma load_records:
  assumes "distinct (tx_done t @ is)" "length (tx_done t @ is) \<le> 256"
  shows "txn_load_loop (concat (map txn_record is)) t = t\<lparr>tx_done := tx_done t @ is\<rparr>"
  using assms
proof (induction "is" arbitrary: t)
  case (Cons i "is")
  then show ?case by (simp add: load_record done_add_new)
qed (simp add: txn_load_loop.simps)

lemma commit_file:
  assumes ok: "txn_ok t" "file_ok t" "length (tx_done t) < 256" "tx_log_path t \<noteq> []" and io: "\<And>k. io \<noteq> Io_fail k"
    and run: "cmq_txn_commit io (Some fn) t i = (rc, ops, t')"
  shows "file_ok t'"
proof -
  obtain r t1 where lc: "txn_log_commit io t i = (r, t1)" by force
  note st = log_commit_state [OF lc]
  have "r = 0 \<Longrightarrow> file_bytes (tx_file t1) = file_bytes (tx_file t) @ txn_record i" "r \<noteq> 0 \<Longrightarrow> tx_file t1 = tx_file t"
    using lc ok(4) io by (auto simp: txn_log_commit_def file_bytes_def split: txn_io.splits)
  moreover have "txn_done_add t1 i = t1\<lparr>tx_done := tx_done t1 @ [i]\<rparr>" if "\<not> txn_done_has t i"
    using that st(2) ok(3) by (intro done_add_new) (auto simp: txn_done_has_def)
  ultimately show ?thesis using run ok(2) lc st(2)
    by (cases "txn_done_has t i") (auto simp: cmq_txn_commit_def file_ok_def Let_def case_prod_unfold split: if_splits option.splits)
qed

lemma exec_file:
  assumes "txn_ok t" "file_ok t" "length (tx_done t) < 256" "tx_log_path t \<noteq> []" "\<And>k fn i. c \<noteq> T_commit (Io_fail k) fn i"
  shows "file_ok (snd (txn_exec t c))"
proof (cases c)
  case (T_commit io fn i)
  obtain rc ops t' where "cmq_txn_commit io (Some fn) t i = (rc, ops, t')" using prod_cases3 by blast
  with commit_file [OF assms(1-4) _ this] assms(5) T_commit show ?thesis by (cases io) auto
qed (use assms(2) in \<open>auto simp: file_ok_def cmq_txn_begin_def cmq_txn_add_def cmq_txn_abort_def cmq_txn_add_part_def
    cmq_txn_prepare_def cmq_txn_vote_def Let_def split: option.split prod.split\<close>)

lemma run_file:
  assumes "txn_ok t" "file_ok t" "length (tx_done t) + length cs \<le> 256" "tx_log_path t \<noteq> []"
    "\<forall>c \<in> set cs. \<forall>k fn i. c \<noteq> T_commit (Io_fail k) fn i"
  shows "file_ok (snd (run_ops txn_exec t cs))"
  using assms
proof (induction cs arbitrary: t)
  case (Cons c cs)
  obtain r t' where e: "txn_exec t c = (r, t')" by (cases "txn_exec t c")
  have rel: "txn_rel (length (tx_done t)) t (txn_view t, set (tx_done t))" using Cons.prems(1) by (simp add: txn_rel_def)
  from txn_exec_sim [OF rel _ refl, of c] Cons.prems(3) e
  have t': "txn_ok t'" "length (tx_done t') \<le> Suc (length (tx_done t))" by (auto simp: txn_rel_def)
  have "file_ok t'" using exec_file [of t c] Cons.prems e by auto
  moreover have "tx_log_path t' \<noteq> []" using log_path_keep [of t c] e Cons.prems(4) by simp
  ultimately show ?case using Cons.IH [of t'] t' Cons.prems(3,5) e by (simp add: case_prod_unfold)
qed simp


definition durable_example :: "txn_call list" where
  "durable_example = [T_begin 7, T_commit Io_no_open (\<lambda>_ _. 0) 7, T_commit Io_ok (\<lambda>_ _. 0) 7]"


section \<open>Distributed commit\<close>

text \<open>The messages a distributed commit sends to the routes.\<close>

definition txn_msg :: "u64 \<Rightarrow> u8 \<Rightarrow> bytes" where
  "txn_msg i op = be16_bytes 8 @ map byte_of ''_cmq.txn'' @ [0, 0] @ be16_bytes 13 @ CMQ_TXN_MAGIC @ put_be64 i @ [op]"

definition add_msg :: "u64 \<Rightarrow> txn_op \<Rightarrow> bytes" where
  "add_msg i op = be16_bytes (length (op_subject op)) @ map byte_of (op_subject op) @ [0, 0] @ be16_bytes 13 @
     CMQ_TXN_MAGIC @ put_be64 i @ [CMQ_TXN_ADD] @ op_data op"

lemmas txn_ops = CMQ_TXN_BEGIN_def CMQ_TXN_ADD_def CMQ_TXN_COMMIT_def CMQ_TXN_ABORT_def CMQ_TXN_PREPARE_def CMQ_TXN_VOTE_def

lemma encode_op:
  assumes "i \<noteq> 0" "op \<in> {CMQ_TXN_BEGIN, CMQ_TXN_ADD, CMQ_TXN_COMMIT, CMQ_TXN_ABORT, CMQ_TXN_PREPARE}"
  shows "cmq_txn_encode CMQ_TXN_HDR_LEN i op = Some (CMQ_TXN_MAGIC @ put_be64 i @ [op])"
  using assms by (auto simp: cmq_txn_encode_def txn_ops)

lemma length_hdr [simp]: "length (CMQ_TXN_MAGIC @ put_be64 i @ [op]) = 13"
  by (simp add: CMQ_TXN_MAGIC_def put_be64_def)

lemma route_msg: "txn_route_hdr ''_cmq.txn'' (CMQ_TXN_MAGIC @ put_be64 i @ [op]) [] [] = (0, [txn_msg i op], [])"
  using length_hdr [of i op] by (simp add: txn_route_hdr_def txn_msg_def numeral_eq_Suc)

lemma route_add:
  "txn_route_hdr (op_subject op) (CMQ_TXN_MAGIC @ put_be64 i @ [CMQ_TXN_ADD]) (op_data op) [] = (0, [add_msg i op], [])"
  using length_hdr [of i CMQ_TXN_ADD] by (simp add: txn_route_hdr_def add_msg_def)

lemma fanout_adds:
  assumes "txn_slot_at t i = Some s" "slot_ok s" "i \<noteq> 0" "k + n = length (ts_ops s)"
  shows "txn_fanout_adds t i (CMQ_TXN_MAGIC @ put_be64 i @ [CMQ_TXN_ADD]) k n rc [] = (Some rc, map (add_msg i) (drop k (ts_ops s)), [])"
  using assms(4)
proof (induction n arbitrary: k)
  case (Suc n)
  then have k: "k < length (ts_ops s)" by simp
  let ?op = "ts_ops s ! k"
  have "length (op_subject ?op) < CMQ_TXN_SUB_MAX" "length (op_data ?op) \<le> CMQ_TXN_PAY_MAX"
    using assms(2) k by (simp_all add: slot_ok_def list_all_length)
  then have "cmq_txn_op_at t i (int k) CMQ_TXN_SUB_MAX CMQ_TXN_PAY_MAX = Some (op_subject ?op, op_data ?op)"
    using assms(1,3) k by (simp add: cmq_txn_op_at_def Let_def CMQ_TXN_SUB_MAX_def)
  moreover have "drop k (ts_ops s) = ?op # drop (k + 1) (ts_ops s)" using k by (simp add: Cons_nth_drop_Suc)
  ultimately show ?case using Suc by (simp add: route_add)
qed simp

lemma fanout_prepare:
  assumes "txn_slot_at t i = Some s" "slot_ok s" "i \<noteq> 0"
  shows "txn_fanout_op t i CMQ_TXN_PREPARE [] =
    (0, txn_msg i CMQ_TXN_BEGIN # map (add_msg i) (ts_ops s) @ [txn_msg i CMQ_TXN_PREPARE], [])"
  using fanout_adds [OF assms, of 0 "length (ts_ops s)" 0] assms(1,3)
  by (simp add: txn_fanout_op_def encode_op route_msg cmq_txn_op_count_def)

lemma fanout_other:
  assumes "i \<noteq> 0" "op \<in> {CMQ_TXN_COMMIT, CMQ_TXN_ABORT}"
  shows "txn_fanout_op t i op [] = (0, [txn_msg i op], [])"
  using assms encode_op [of i op] by (auto simp: txn_fanout_op_def route_msg txn_ops)

lemma commit_zero:
  assumes "cmq_txn_commit io (Some fn) t i = (0, ops, t')"
  shows "txn_done_has t' i \<and> (txn_done_has t i \<and> ops = [] \<or> (\<exists>s. txn_slot_at t i = Some s \<and> txn_may_commit s \<and> ops = ts_ops s))"
proof (cases "txn_done_has t i")
  case True
  then show ?thesis using assms by (auto simp: cmq_txn_commit_def split: if_splits)
next
  case False
  obtain k where k: "txn_find t i = Some k" and z: "i \<noteq> 0" using assms False by (cases "txn_find t i") (auto simp: cmq_txn_commit_def split: if_splits)
  obtain r t1 where lc: "txn_log_commit io t i = (r, t1)" by force
  have apply_all: "fst (txn_apply f n xs) = 0 \<Longrightarrow> snd (txn_apply f n xs) = xs" for f n xs
    by (induction xs arbitrary: n) (auto split: if_splits)
  have "txn_done_has (txn_done_add t1 i) i" 
    by (auto simp: txn_done_add_def txn_done_has_def intro: set_update_memI)
  then show ?thesis using assms False k z lc apply_all [of fn 0]
    by (auto simp: cmq_txn_commit_def txn_slot_at_def txn_done_has_def Let_def case_prod_unfold split: if_splits)
qed


definition open_example :: cmq_txn where
  "open_example = snd (cmq_txn_add (snd (cmq_txn_begin (the (cmq_txn_create [])) 7)) 7 (Some ''a.b'') (Some [1]) 1)"

definition env_example :: txn_env where
  "env_example = \<lparr>te_routes = Some \<lparr>tr_live = 1, tr_snap = Some [(''n1'', True)]\<rparr>, te_forwards = [], te_io = Io_ok, te_publish = (\<lambda>_ _. 0),
     te_clock = True, te_mid = (\<lambda>u. snd (cmq_txn_vote u 7 (Some ''n1'') True)), te_waits = [], te_late = id\<rparr>"


section \<open>Limits of the coordinator\<close>

text \<open>
  An operation that publishing refuses ends the commit with an error, but the transaction is already recorded as committed: the
  operations after it are never handed on, a repeated commit reports success, and the other nodes are told to abort.
\<close>

lemma partial_commit:
  assumes "txn_slot_at t i = Some s" "txn_may_commit s" "i \<noteq> 0" "\<not> txn_done_has t i" "ts_ops s = op1 # op2 # rest" "tx_log_path t = []"
    and "fn 0 op1 = (1 :: int)" "cmq_txn_commit io (Some fn) t i = (rc, ops, t')"
  shows "rc = - 1" "ops = [op1]" "cmq_txn_commit io' fn' t' i = (0, [], t')"
    "txn_2pc_finish ev [] sent i t = (rc'', sent'', ops'', t'') \<Longrightarrow> te_publish ev = fn \<Longrightarrow> sent'' = sent @ [txn_msg i CMQ_TXN_ABORT] \<and> txn_done_has t'' i"
proof -
  from assms(1) obtain k where k: "txn_find t i = Some k" "tx_slots t ! k = s" by (auto simp: txn_slot_at_def)
  have lc: "txn_log_commit j t i = (0, t)" for j using assms(6) by (simp add: txn_log_commit_def)
  let ?t = "(txn_done_add t i)\<lparr>tx_slots := (tx_slots (txn_done_add t i))[k := txn_slot_zero]\<rparr>"
  have c: "cmq_txn_commit j (Some fn) t i = (- 1, [op1], ?t)" for j
    using assms(2-5,7) k lc by (simp add: cmq_txn_commit_def Let_def)
  then show "rc = - 1" "ops = [op1]" using assms(8) by auto
  have d: "txn_done_has ?t i" by (auto simp: txn_done_add_def txn_done_has_def intro: set_update_memI)
  then show "cmq_txn_commit io' fn' t' i = (0, [], t')" using c [of io] assms(3,8) by (simp add: cmq_txn_commit_def)
  show "sent'' = sent @ [txn_msg i CMQ_TXN_ABORT] \<and> txn_done_has t'' i"
    if "txn_2pc_finish ev [] sent i t = (rc'', sent'', ops'', t'')" "te_publish ev = fn"
  proof -
    have "txn_done_has (snd (cmq_txn_abort ?t i)) i" using d by (auto simp: cmq_txn_abort_def txn_done_has_def split: option.split)
    then show ?thesis using that c assms(3) by (auto simp: txn_2pc_finish_def fanout_other)
  qed
qed

text \<open>Once 256 ids are recorded, every further one takes the place of the one before it.\<close>

lemma done_forgets:
  assumes "length (tx_done t) = 256" "i \<notin> set (tx_done t)" "j \<notin> set (tx_done t)" "i \<noteq> j"
  shows "\<not> txn_done_has (txn_done_add (txn_done_add t i) j) i"
proof -
  obtain x xs where t: "tx_done t = x # xs" using assms(1) by (cases "tx_done t") auto
  then show ?thesis using assms by (auto simp: txn_done_add_def txn_done_has_def)
qed

text \<open>A write that fails after four bytes shifts every later record: the next id is not found and another one is.\<close>

lemma torn_record:
  "tx_done (txn_load_loop (take 4 (txn_record 7) @ txn_record 8) (the (cmq_txn_create []))) = [0x4300000000]"
  by code_simp

text \<open>A record whose sync fails may still be in the file: the transaction was refused and aborted, and is committed after a restart.\<close>

lemma refused_commit_survives:
  assumes "tx_log_path t \<noteq> []" "file_bytes (tx_file t) = []" "tx_file (snd (snd (cmq_txn_commit (Io_fail 9) (Some fn) t i))) = Some b"
    "txn_slot_at t i = Some s" "txn_may_commit s" "i \<noteq> 0" "\<not> txn_done_has t i" "cmq_txn_create h = Some t1"
  shows "fst (cmq_txn_commit (Io_fail 9) (Some fn) t i) = - 1" "txn_done_has (txn_load_loop b t1) i"
proof -
  from assms(4) obtain k where k: "txn_find t i = Some k" "tx_slots t ! k = s" by (auto simp: txn_slot_at_def)
  have c: "cmq_txn_commit (Io_fail 9) (Some fn) t i = (- 1, [], t\<lparr>tx_file := Some (txn_record i)\<rparr>)"
    using assms(1,2,5-7) k length_txn_record [of i] by (simp add: cmq_txn_commit_def txn_log_commit_def)
  then show "fst (cmq_txn_commit (Io_fail 9) (Some fn) t i) = - 1" by simp
  have "b = txn_record i" using c assms(3) by simp
  then show "txn_done_has (txn_load_loop b t1) i"
    using load_record [of i "[]" t1] create_ok(3) [OF assms(8)] by (simp add: txn_done_add_def txn_done_has_def txn_load_loop.simps)
qed

section \<open>Headers\<close>

lemma be64_at_put: "length p = k \<Longrightarrow> be64_at (p @ put_be64 i @ r) k = i"
  by (simp add: be64_at_def put_be64_def put_be32_def get_be64_def nth_append)

text \<open>Headers and votes are read back as they were written.\<close>

lemma txn_parse_encode:
  assumes "cmq_txn_encode cap i op = Some hdr"
  shows "cmq_txn_parse (hdr @ rest) = Some (i, op)"
proof -
  have hdr: "hdr = CMQ_TXN_MAGIC @ put_be64 i @ [op]" and g: "i \<noteq> 0" "\<not> (op < CMQ_TXN_BEGIN \<or> op > CMQ_TXN_PREPARE)"
    using assms by (auto simp: cmq_txn_encode_def split: if_splits)
  have m: "length CMQ_TXN_MAGIC = 4" "length (put_be64 i) = 8" by (simp_all add: CMQ_TXN_MAGIC_def put_be64_def)
  have "be64_at (hdr @ rest) 4 = i" using be64_at_put [of CMQ_TXN_MAGIC 4 i "[op] @ rest"] m by (simp add: hdr)
  moreover have "(hdr @ rest) ! 12 = op" "take 4 (hdr @ rest) = CMQ_TXN_MAGIC" "length (hdr @ rest) \<ge> 13" using m by (simp_all add: hdr nth_append)
  ultimately show ?thesis using g by (simp add: cmq_txn_parse_def CMQ_TXN_HDR_LEN_def Let_def)
qed

lemma txn_parse_vote_encode:
  assumes "cmq_txn_encode_vote cap i (Some nd) yes = Some hdr"
  shows "cmq_txn_parse_vote (hdr @ rest) CMQ_TXN_NODE_MAX = Some (i, nd, yes)"
proof -
  have g: "i \<noteq> 0" "nd \<noteq> []" "list_all token_char nd" "length nd < 16"
    and hdr: "hdr = CMQ_TXN_MAGIC @ put_be64 i @ [CMQ_TXN_VOTE, if yes then 1 else 0] @ map byte_of nd @ replicate (16 - length nd) 0"
    using assms by (auto simp: cmq_txn_encode_vote_def txn_token_safe_def CMQ_TXN_NODE_MAX_def strnlen_def Let_def split: if_splits)
  have m: "length CMQ_TXN_MAGIC = 4" "length (put_be64 i) = 8" by (simp_all add: CMQ_TXN_MAGIC_def put_be64_def)
  have id: "be64_at (hdr @ rest) 4 = i" using be64_at_put [of CMQ_TXN_MAGIC 4 i] m by (simp add: hdr)
  have at: "(hdr @ rest) ! 12 = CMQ_TXN_VOTE" "(hdr @ rest) ! 13 = (if yes then 1 else 0)" "take 4 (hdr @ rest) = CMQ_TXN_MAGIC"
    "\<not> length (hdr @ rest) < 30" using m g(4) by (simp_all add: hdr nth_append)
  have "take 15 (drop 14 (hdr @ rest)) = map byte_of nd @ replicate (15 - length nd) 0" using m g(4) by (simp add: hdr)
  then have "cstr_of (take (CMQ_TXN_NODE_MAX - 1) (drop 14 (hdr @ rest))) = cstr_of (map byte_of nd)"
    by (cases "15 - length nd") (simp_all add: CMQ_TXN_NODE_MAX_def cstr_of_def takeWhile_tail)
  then have "cstr_of (take (CMQ_TXN_NODE_MAX - 1) (drop 14 (hdr @ rest))) = nd" using cstr_of_key [OF g(3)] by simp
  then show ?thesis using id at g unfolding cmq_txn_parse_vote_def Let_def
    by (simp add: txn_token_safe_def CMQ_TXN_VOTE_LEN_def CMQ_TXN_NODE_MAX_def)
qed

end
