(* ===== verification/Spec2Isabelle.thy ===== *)
theory Spec2Isabelle
  imports CMQ_Stream CMQ_Parser CMQ_Sublist CMQ_Idempo CMQ_Limits CMQ_Acl CMQ_Kvb CMQ_Mqtt_Server CMQ_Queue CMQ_Txn
begin

text \<open>
  Verification of CMSGQueue.
\<close>

end
